(* ===== verification/Go_Strings.thy ===== *)
theory Go_Strings
  imports Prelude
begin

section \<open>The parts of Go's \<^verbatim>\<open>strings\<close> and \<^verbatim>\<open>unicode/utf8\<close> packages the program uses\<close>

text \<open>
  A Go string is a sequence of bytes, so it is Isabelle's \<^typ>\<open>string\<close>, whose characters are
  the 256 bytes. White space is what \<^verbatim>\<open>unicode.IsSpace\<close> accepts, recognised on its UTF-8
  encoding: an ill-formed byte decodes to U+FFFD, which is not a space.
\<close>

abbreviation byte :: "char \<Rightarrow> nat" where
  "byte \<equiv> of_char"

text \<open>The number of bytes of the white-space rune that \<^term>\<open>bs\<close> starts with, 0 if it starts
  with none.\<close>

definition space_prefix :: "nat list \<Rightarrow> nat" where
  "space_prefix bs =
     (case bs of
        [] \<Rightarrow> 0
      | b # r \<Rightarrow>
         (if 9 \<le> b \<and> b \<le> 13 \<or> b = 32 then 1
          else case r of
            [] \<Rightarrow> 0
          | c # r' \<Rightarrow>
             (if b = 194 \<and> (c = 133 \<or> c = 160) then 2
              else case r' of
                [] \<Rightarrow> 0
              | d # _ \<Rightarrow>
                 (if b = 225 \<and> c = 154 \<and> d = 128
                   \<or> b = 226 \<and> c = 128 \<and> (128 \<le> d \<and> d \<le> 138 \<or> d = 168 \<or> d = 169 \<or> d = 175)
                   \<or> b = 226 \<and> c = 129 \<and> d = 159
                   \<or> b = 227 \<and> c = 128 \<and> d = 128
                  then 3 else 0))))"

lemma space_prefix_le: "space_prefix bs \<le> length bs"
  by (auto simp: space_prefix_def split: list.splits)

function trim_left :: "string \<Rightarrow> string" where
  "trim_left s =
     (let n = space_prefix (map byte (take 3 s))
      in if n = 0 then s else trim_left (drop n s))"
  by pat_completeness auto
termination
proof (relation "measure length", simp)
  fix s :: string and n
  assume n: "n = space_prefix (map byte (take 3 s))" and "n \<noteq> 0"
  have "n \<le> length s"
    using space_prefix_le [of "map byte (take 3 s)"] n by simp
  with \<open>n \<noteq> 0\<close> show "(drop n s, s) \<in> measure length"
    by simp
qed

declare trim_left.simps [simp del]

text \<open>From the right: the same encodings, read backwards from the end of the string.\<close>

definition space_suffix :: "nat list \<Rightarrow> nat" where
  "space_suffix rs =
     (if space_prefix (take 1 rs) = 1 then 1
      else if space_prefix (rev (take 2 rs)) = 2 then 2
      else if space_prefix (rev (take 3 rs)) = 3 then 3
      else 0)"

lemma space_prefix_length:
  "space_prefix bs = 1 \<Longrightarrow> 1 \<le> length bs"
  "space_prefix bs = 2 \<Longrightarrow> 2 \<le> length bs"
  "space_prefix bs = 3 \<Longrightarrow> 3 \<le> length bs"
  using space_prefix_le [of bs] by simp_all

lemma space_suffix_le: "space_suffix rs \<le> length rs"
  using space_prefix_length [of "take 1 rs"] space_prefix_length [of "rev (take 2 rs)"]
    space_prefix_length [of "rev (take 3 rs)"]
  by (auto simp: space_suffix_def)

function trim_left_rev :: "string \<Rightarrow> string" where
  "trim_left_rev s =
     (let n = space_suffix (map byte (take 3 s))
      in if n = 0 then s else trim_left_rev (drop n s))"
  by pat_completeness auto
termination
proof (relation "measure length", simp)
  fix s :: string and n
  assume n: "n = space_suffix (map byte (take 3 s))" and "n \<noteq> 0"
  have "n \<le> length s"
    using space_suffix_le [of "map byte (take 3 s)"] n by simp
  with \<open>n \<noteq> 0\<close> show "(drop n s, s) \<in> measure length"
    by simp
qed

declare trim_left_rev.simps [simp del]

definition TrimSpace :: "string \<Rightarrow> string" where
  "TrimSpace s = rev (trim_left_rev (rev (trim_left s)))"

text \<open>The recurring test \<^verbatim>\<open>strings.TrimSpace(s) == ""\<close>.\<close>

definition blank :: "string \<Rightarrow> bool" where
  "blank s \<longleftrightarrow> TrimSpace s = []"

lemma trim_left_Nil [simp]: "trim_left [] = []"
  by (simp add: trim_left.simps space_prefix_def)

lemma trim_left_rev_Nil [simp]: "trim_left_rev [] = []"
  by (simp add: trim_left_rev.simps space_suffix_def space_prefix_def)

lemma blank_Nil [simp]: "blank []"
  by (simp add: blank_def TrimSpace_def)

lemma not_blank_nonempty: "\<not> blank s \<Longrightarrow> s \<noteq> []"
  by auto

text \<open>
  \<^verbatim>\<open>strings.ToLower\<close> as far as a comparison with an ASCII constant can see it. Besides the
  letters A to Z, exactly two code points have an ASCII lower case: U+0130 (i) and U+212A (k).
  Every other rune beyond ASCII keeps at least one byte beyond ASCII.
\<close>

definition lower_byte :: "char \<Rightarrow> char" where
  "lower_byte c = (if 65 \<le> byte c \<and> byte c \<le> 90 then char_of (byte c + 32) else c)"

fun ToLower :: "string \<Rightarrow> string" where
  "ToLower [] = []"
| "ToLower (a # s) =
     (if byte a = 196 \<and> map byte (take 1 s) = [176] then CHR ''i'' # ToLower (drop 1 s)
      else if byte a = 226 \<and> map byte (take 2 s) = [132, 170] then CHR ''k'' # ToLower (drop 2 s)
      else lower_byte a # ToLower s)"

text \<open>The order of Go strings, byte by byte, and \<^verbatim>\<open>sort.Strings\<close>.\<close>

fun string_less :: "string \<Rightarrow> string \<Rightarrow> bool" where
  "string_less [] [] = False"
| "string_less [] (d # t) = True"
| "string_less (c # s) [] = False"
| "string_less (c # s) (d # t) =
     (byte c < byte d \<or> byte c = byte d \<and> string_less s t)"

fun insert_string :: "string \<Rightarrow> string list \<Rightarrow> string list" where
  "insert_string x [] = [x]"
| "insert_string x (y # ys) = (if string_less y x then y # insert_string x ys else x # y # ys)"

definition sort_strings :: "string list \<Rightarrow> string list" where
  "sort_strings xs = foldr insert_string xs []"

lemma mset_insert_string [simp]: "mset (insert_string x ys) = add_mset x (mset ys)"
  by (induction ys) auto

lemma mset_sort_strings [simp]: "mset (sort_strings xs) = mset xs"
  by (induction xs) (simp_all add: sort_strings_def)

lemma set_sort_strings [simp]: "set (sort_strings xs) = set xs"
  by (rule mset_eq_setD) simp

lemma length_sort_strings [simp]: "length (sort_strings xs) = length xs"
  by (rule mset_eq_length) simp

lemma distinct_sort_strings [simp]: "distinct (sort_strings xs) = distinct xs"
  by (rule mset_eq_imp_distinct_iff) simp

lemmas [go_eval] =
  trim_left.simps trim_left_rev.simps space_prefix_def space_suffix_def TrimSpace_def blank_def

end
