(* ===== verification/Go_Json.thy ===== *)
theory Go_Json
  imports Go_Strings
begin

section \<open>\<^verbatim>\<open>encoding/json\<close> and \<^verbatim>\<open>unicode/utf8\<close> as the program uses them\<close>

text \<open>
  \<^verbatim>\<open>json.Valid\<close> runs a push-down scanner over the bytes: a current step function, and a stack
  saying for each open container whether an object key, an object value or an array value
  comes next. The model keeps the scanner's states and its nesting limit of 10000, so it is
  structurally recursive in the input.
\<close>

datatype parse_state = ParseObjectKey | ParseObjectValue | ParseArrayValue

datatype scan_step =
    BeginValueOrEmpty | BeginValue | BeginStringOrEmpty | BeginString | EndValue | EndTop
  | InString | InStringEsc | InStringEscU nat
  | NumNeg | Num1 | Num0 | NumDot | NumDot0 | NumE | NumESign | NumE0
  | InLiteral string

type_synonym scan_state = "scan_step \<times> parse_state list"

definition is_space :: "nat \<Rightarrow> bool" where
  "is_space b \<longleftrightarrow> b = 32 \<or> b = 9 \<or> b = 10 \<or> b = 13"

definition is_digit :: "nat \<Rightarrow> bool" where
  "is_digit b \<longleftrightarrow> 48 \<le> b \<and> b \<le> 57"

definition hex_value :: "nat \<Rightarrow> nat option" where
  "hex_value b =
     (if 48 \<le> b \<and> b \<le> 57 then Some (b - 48)
      else if 97 \<le> b \<and> b \<le> 102 then Some (b - 87)
      else if 65 \<le> b \<and> b \<le> 70 then Some (b - 55)
      else None)"

definition end_value :: "parse_state list \<Rightarrow> nat \<Rightarrow> scan_state option" where
  "end_value ps b =
     (case ps of
        [] \<Rightarrow> if is_space b then Some (EndTop, []) else None
      | p # r \<Rightarrow>
         (if is_space b then Some (EndValue, ps)
          else case p of
            ParseObjectKey \<Rightarrow> if b = 58 then Some (BeginValue, ParseObjectValue # r) else None
          | ParseObjectValue \<Rightarrow>
              if b = 44 then Some (BeginString, ParseObjectKey # r)
              else if b = 125 then Some (if r = [] then EndTop else EndValue, r)
              else None
          | ParseArrayValue \<Rightarrow>
              if b = 44 then Some (BeginValue, ps)
              else if b = 93 then Some (if r = [] then EndTop else EndValue, r)
              else None))"

definition begin_value :: "parse_state list \<Rightarrow> nat \<Rightarrow> scan_state option" where
  "begin_value ps b =
     (if is_space b then Some (BeginValue, ps)
      else if b = 123 then
        if length ps < 10000 then Some (BeginStringOrEmpty, ParseObjectKey # ps) else None
      else if b = 91 then
        if length ps < 10000 then Some (BeginValueOrEmpty, ParseArrayValue # ps) else None
      else if b = 34 then Some (InString, ps)
      else if b = 45 then Some (NumNeg, ps)
      else if b = 48 then Some (Num0, ps)
      else if b = 116 then Some (InLiteral ''rue'', ps)
      else if b = 102 then Some (InLiteral ''alse'', ps)
      else if b = 110 then Some (InLiteral ''ull'', ps)
      else if 49 \<le> b \<and> b \<le> 57 then Some (Num1, ps)
      else None)"

definition begin_string :: "parse_state list \<Rightarrow> nat \<Rightarrow> scan_state option" where
  "begin_string ps b =
     (if is_space b then Some (BeginString, ps)
      else if b = 34 then Some (InString, ps) else None)"

definition num0 :: "parse_state list \<Rightarrow> nat \<Rightarrow> scan_state option" where
  "num0 ps b =
     (if b = 46 then Some (NumDot, ps)
      else if b = 101 \<or> b = 69 then Some (NumE, ps)
      else end_value ps b)"

fun scan :: "scan_state \<Rightarrow> nat \<Rightarrow> scan_state option" where
  "scan (BeginValueOrEmpty, ps) b =
     (if is_space b then Some (BeginValueOrEmpty, ps)
      else if b = 93 then end_value ps b else begin_value ps b)"
| "scan (BeginValue, ps) b = begin_value ps b"
| "scan (BeginStringOrEmpty, ps) b =
     (if is_space b then Some (BeginStringOrEmpty, ps)
      else if b = 125 then end_value (ParseObjectValue # tl ps) b
      else begin_string ps b)"
| "scan (BeginString, ps) b = begin_string ps b"
| "scan (EndValue, ps) b = end_value ps b"
| "scan (EndTop, ps) b = (if is_space b then Some (EndTop, ps) else None)"
| "scan (InString, ps) b =
     (if b = 34 then Some (EndValue, ps)
      else if b = 92 then Some (InStringEsc, ps)
      else if b < 32 then None else Some (InString, ps))"
| "scan (InStringEsc, ps) b =
     (if b \<in> {98, 102, 110, 114, 116, 92, 47, 34} then Some (InString, ps)
      else if b = 117 then Some (InStringEscU 3, ps) else None)"
| "scan (InStringEscU n, ps) b =
     (if hex_value b = None then None
      else if n = 0 then Some (InString, ps) else Some (InStringEscU (n - 1), ps))"
| "scan (NumNeg, ps) b =
     (if b = 48 then Some (Num0, ps)
      else if 49 \<le> b \<and> b \<le> 57 then Some (Num1, ps) else None)"
| "scan (Num1, ps) b = (if is_digit b then Some (Num1, ps) else num0 ps b)"
| "scan (Num0, ps) b = num0 ps b"
| "scan (NumDot, ps) b = (if is_digit b then Some (NumDot0, ps) else None)"
| "scan (NumDot0, ps) b =
     (if is_digit b then Some (NumDot0, ps)
      else if b = 101 \<or> b = 69 then Some (NumE, ps) else end_value ps b)"
| "scan (NumE, ps) b =
     (if b = 43 \<or> b = 45 then Some (NumESign, ps)
      else if is_digit b then Some (NumE0, ps) else None)"
| "scan (NumESign, ps) b = (if is_digit b then Some (NumE0, ps) else None)"
| "scan (NumE0, ps) b = (if is_digit b then Some (NumE0, ps) else end_value ps b)"
| "scan (InLiteral w, ps) b =
     (case w of
        [] \<Rightarrow> None
      | c # r \<Rightarrow> if byte c = b then Some (if r = [] then EndValue else InLiteral r, ps) else None)"

fun scan_all :: "scan_state \<Rightarrow> string \<Rightarrow> scan_state option" where
  "scan_all st [] = Some st"
| "scan_all st (c # s) =
     (case scan st (byte c) of None \<Rightarrow> None | Some st' \<Rightarrow> scan_all st' s)"

text \<open>At the end of the input the scanner is fed one space and must reach the top.\<close>

definition at_end :: "scan_state \<Rightarrow> bool" where
  "at_end st \<longleftrightarrow> fst st = EndTop \<or> (case scan st 32 of Some (EndTop, _) \<Rightarrow> True | _ \<Rightarrow> False)"

definition json_valid :: "string \<Rightarrow> bool" where
  "json_valid s \<longleftrightarrow>
     (case scan_all (BeginValue, []) s of None \<Rightarrow> False | Some st \<Rightarrow> at_end st)"

text \<open>
  \<^verbatim>\<open>json.Unmarshal\<close> into a \<^verbatim>\<open>map[string]json.RawMessage\<close> succeeds with a non-nil map exactly
  on a valid JSON object (\<^verbatim>\<open>null\<close> leaves the map nil, every other value is a type error).
\<close>

definition first_byte :: "string \<Rightarrow> nat option" where
  "first_byte s = (case dropWhile (\<lambda>c. is_space (byte c)) s of [] \<Rightarrow> None | c # _ \<Rightarrow> Some (byte c))"

definition json_object :: "string \<Rightarrow> bool" where
  "json_object s \<longleftrightarrow> json_valid s \<and> first_byte s = Some 123"

lemma json_valid_nonempty: "json_valid s \<Longrightarrow> s \<noteq> []"
  by (auto simp: json_valid_def at_end_def begin_value_def is_space_def)

subsection \<open>UTF-8\<close>

text \<open>
  \<^verbatim>\<open>utf8.DecodeRune\<close>: the first rune and its width. Ill-formed input, overlong encodings,
  surrogates and values beyond U+10FFFF give U+FFFD with width 1, empty input width 0.
\<close>

definition cont_byte :: "nat \<Rightarrow> bool" where
  "cont_byte b \<longleftrightarrow> 128 \<le> b \<and> b \<le> 191"

definition decode_rune :: "nat list \<Rightarrow> nat \<times> nat" where
  "decode_rune bs =
     (case bs of
        [] \<Rightarrow> (65533, 0)
      | a # r \<Rightarrow>
         (if a < 128 then (a, 1)
          else if a < 194 then (65533, 1)
          else if a < 224 then
            (case r of b # _ \<Rightarrow>
               if cont_byte b then ((a - 192) * 64 + (b - 128), 2) else (65533, 1)
             | [] \<Rightarrow> (65533, 1))
          else if a < 240 then
            (case r of b # c # _ \<Rightarrow>
               if cont_byte b \<and> cont_byte c \<and> (a = 224 \<longrightarrow> 160 \<le> b) \<and> (a = 237 \<longrightarrow> b \<le> 159)
               then ((a - 224) * 4096 + (b - 128) * 64 + (c - 128), 3) else (65533, 1)
             | _ \<Rightarrow> (65533, 1))
          else if a < 245 then
            (case r of b # c # d # _ \<Rightarrow>
               if cont_byte b \<and> cont_byte c \<and> cont_byte d
                  \<and> (a = 240 \<longrightarrow> 144 \<le> b) \<and> (a = 244 \<longrightarrow> b \<le> 143)
               then ((a - 240) * 262144 + (b - 128) * 4096 + (c - 128) * 64 + (d - 128), 4)
               else (65533, 1)
             | _ \<Rightarrow> (65533, 1))
          else (65533, 1)))"

text \<open>\<^verbatim>\<open>utf8.EncodeRune\<close>: surrogates and values beyond U+10FFFF are written as U+FFFD.\<close>

definition encode_rune :: "nat \<Rightarrow> nat list" where
  "encode_rune r0 =
     (let r = (if 1114111 < r0 \<or> 55296 \<le> r0 \<and> r0 \<le> 57343 then 65533 else r0) in
      if r < 128 then [r]
      else if r < 2048 then [192 + r div 64, 128 + r mod 64]
      else if r < 65536 then [224 + r div 4096, 128 + r div 64 mod 64, 128 + r mod 64]
      else [240 + r div 262144, 128 + r div 4096 mod 64, 128 + r div 64 mod 64, 128 + r mod 64])"

lemma decode_rune_width: "bs \<noteq> [] \<Longrightarrow> 1 \<le> snd (decode_rune bs) \<and> snd (decode_rune bs) \<le> length bs"
  by (auto simp: decode_rune_def split: list.splits)

subsection \<open>Decoding a string literal\<close>

text \<open>Four hexadecimal digits, the \<^verbatim>\<open>getu4\<close> of the standard library.\<close>

definition hex4 :: "nat list \<Rightarrow> nat option" where
  "hex4 bs =
     (case map hex_value (take 4 bs) of
        [Some a, Some b, Some c, Some d] \<Rightarrow> Some (a * 4096 + b * 256 + c * 16 + d)
      | _ \<Rightarrow> None)"

definition surrogate_pair :: "nat \<Rightarrow> nat \<Rightarrow> nat option" where
  "surrogate_pair hi lo =
     (if 55296 \<le> hi \<and> hi \<le> 56319 \<and> 56320 \<le> lo \<and> lo \<le> 57343
      then Some ((hi - 55296) * 1024 + (lo - 56320) + 65536) else None)"

definition simple_escape :: "nat \<Rightarrow> nat option" where
  "simple_escape b =
     (if b = 34 \<or> b = 92 \<or> b = 47 then Some b
      else if b = 98 then Some 8
      else if b = 102 then Some 12
      else if b = 110 then Some 10
      else if b = 114 then Some 13
      else if b = 116 then Some 9
      else None)"

text \<open>One step of \<^verbatim>\<open>unquoteBytes\<close>: the bytes written and the number of bytes read. A surrogate
  that is not part of a pair becomes U+FFFD, as does an ill-formed byte.\<close>

definition unquote1 :: "nat list \<Rightarrow> (nat list \<times> nat) option" where
  "unquote1 bs =
     (case bs of
        [] \<Rightarrow> None
      | b # r \<Rightarrow>
         (if b = 92 then
            (case r of
               [] \<Rightarrow> None
             | e # r' \<Rightarrow>
                (if e = 117 then
                   (case hex4 r' of
                      None \<Rightarrow> None
                    | Some u \<Rightarrow>
                       (if 55296 \<le> u \<and> u \<le> 57343 then
                          (let lo = (if take 2 (drop 4 r') = [92, 117] then hex4 (drop 6 r') else None)
                           in case lo of
                                None \<Rightarrow> Some (encode_rune 65533, 6)
                              | Some l \<Rightarrow>
                                 (case surrogate_pair u l of
                                    None \<Rightarrow> Some (encode_rune 65533, 6)
                                  | Some d \<Rightarrow> Some (encode_rune d, 12)))
                        else Some (encode_rune u, 6)))
                 else if e = 39 then Some ([39], 2)
                 else map_option (\<lambda>c. ([c], 2)) (simple_escape e)))
          else if b = 34 \<or> b < 32 then None
          else if b < 128 then Some ([b], 1)
          else (let (u, n) = decode_rune bs in Some (encode_rune u, n))))"

lemma unquote1_progress: "unquote1 bs = Some (w, n) \<Longrightarrow> bs \<noteq> [] \<and> 0 < n"
  using decode_rune_width [of bs]
  by (auto simp: unquote1_def Let_def split: list.splits if_splits option.splits prod.splits)

function unquote :: "nat list \<Rightarrow> nat list option" where
  "unquote bs =
     (if bs = [] then Some []
      else case unquote1 bs of
        None \<Rightarrow> None
      | Some (w, n) \<Rightarrow> map_option (\<lambda>rest. w @ rest) (unquote (drop n bs)))"
  by pat_completeness auto
termination
  by (relation "measure length") (auto dest: unquote1_progress)

declare unquote.simps [simp del]

definition strip_space :: "string \<Rightarrow> string" where
  "strip_space s =
     rev (dropWhile (\<lambda>c. is_space (byte c)) (rev (dropWhile (\<lambda>c. is_space (byte c)) s)))"

text \<open>\<^verbatim>\<open>json.Unmarshal\<close> into a \<^verbatim>\<open>string\<close> variable that holds the empty string: \<^verbatim>\<open>null\<close> leaves it
  alone, a string literal is decoded, any other value is a type error.\<close>

definition unmarshal_string :: "string \<Rightarrow> string option" where
  "unmarshal_string s =
     (if \<not> json_valid s then None
      else if first_byte s = Some 110 then Some []
      else if first_byte s = Some 34
      then map_option (map char_of) (unquote (map byte (butlast (tl (strip_space s)))))
      else None)"

end
