(* ===== verification/StrictJson.thy ===== *)
theory StrictJson
  imports Go_Json
begin

section \<open>\<^verbatim>\<open>internal/strictjson\<close>: bounded, duplicate-safe JSON validation\<close>

text \<open>
  The validator of \<^verbatim>\<open>src/internal/strictjson/strictjson.go\<close>. The parser state is a record; the
  source bytes and the resolved limits do not change during a run and are arguments. Errors
  carry the byte offset the code reports. Every operation that reads input goes through
  \<open>advance\<close>, which charges the work budget, so the loops terminate because the offset grows.
  Go's \<^verbatim>\<open>int\<close> and \<^verbatim>\<open>int64\<close> quantities are \<^typ>\<open>int\<close>: every sum is bounded by a limit that was
  checked before it is formed.
\<close>

record limits =
  MaxInputBytes :: int
  MaxDepth :: int
  MaxTokens :: int
  MaxObjectMembers :: int
  MaxArrayElements :: int
  MaxKeyBytes :: int
  MaxTotalKeyBytes :: int
  MaxWorkBytes :: int

datatype container_state =
    ObjectKeyOrEnd | ObjectKeyRequired | ObjectColon | ObjectValue | ObjectNext
  | ArrayValueOrEnd | ArrayValueRequired | ArrayNext

datatype container_kind = ObjectContainer | ArrayContainer

record frame =
  fr_kind :: container_kind
  fr_state :: container_state
  fr_count :: int
  fr_firstKey :: string
  fr_seen :: "string goset option"

record parser =
  p_offset :: nat
  p_work :: int
  p_tokens :: int
  p_totalKeyBytes :: int
  p_stack :: "frame list"

datatype sj_reason =
    NegativeLimit | InputBytes
  | ExpectedValue | TrailingToken | ExpectedColon | ExpectedObjectNext | ExpectedArrayNext
  | ExpectedKey | DuplicateKey | ControlByte | MalformedUTF8 | UnterminatedString
  | UnterminatedEscape | InvalidUnicodeEscape | LoneHighSurrogate | InvalidSurrogatePair
  | LoneLowSurrogate | InvalidEscape | IncompleteLiteral | InvalidLiteral | IncompleteNumber
  | InvalidNumber | FractionDigit | ExponentDigit | UnexpectedEnd
  | LimitMembers | LimitElements | LimitDepth | LimitKeyBytes | LimitTotalKeyBytes
  | LimitTokens | LimitWork

datatype sj_error = SJ_Error nat sj_reason

definition DefaultLimits :: limits where
  "DefaultLimits =
     \<lparr>MaxInputBytes = 268435456, MaxDepth = 256, MaxTokens = 16000000,
      MaxObjectMembers = 100000, MaxArrayElements = 1000000, MaxKeyBytes = 65536,
      MaxTotalKeyBytes = 134217728, MaxWorkBytes = 1073741824\<rparr>"

definition validateNonNegative :: "limits \<Rightarrow> bool" where
  "validateNonNegative l \<longleftrightarrow>
     0 \<le> MaxInputBytes l \<and> 0 \<le> MaxDepth l \<and> 0 \<le> MaxTokens l \<and> 0 \<le> MaxObjectMembers l
     \<and> 0 \<le> MaxArrayElements l \<and> 0 \<le> MaxKeyBytes l \<and> 0 \<le> MaxTotalKeyBytes l \<and> 0 \<le> MaxWorkBytes l"

definition orDefault :: "int \<Rightarrow> int \<Rightarrow> int" where
  "orDefault v d = (if v = 0 then d else v)"

definition resolveLimits :: "limits \<Rightarrow> (sj_error, limits) result" where
  "resolveLimits l =
     (if \<not> validateNonNegative l then Inl (SJ_Error 0 NegativeLimit)
      else Inr
        \<lparr>MaxInputBytes = orDefault (MaxInputBytes l) (MaxInputBytes DefaultLimits),
         MaxDepth = orDefault (MaxDepth l) (MaxDepth DefaultLimits),
         MaxTokens = orDefault (MaxTokens l) (MaxTokens DefaultLimits),
         MaxObjectMembers = orDefault (MaxObjectMembers l) (MaxObjectMembers DefaultLimits),
         MaxArrayElements = orDefault (MaxArrayElements l) (MaxArrayElements DefaultLimits),
         MaxKeyBytes = orDefault (MaxKeyBytes l) (MaxKeyBytes DefaultLimits),
         MaxTotalKeyBytes = orDefault (MaxTotalKeyBytes l) (MaxTotalKeyBytes DefaultLimits),
         MaxWorkBytes = orDefault (MaxWorkBytes l) (MaxWorkBytes DefaultLimits)\<rparr>)"

lemma orDefault_pos: "0 \<le> v \<Longrightarrow> 0 < d \<Longrightarrow> 0 < orDefault v d"
  by (simp add: orDefault_def)

subsection \<open>Charging and moving\<close>

definition errorAt :: "nat \<Rightarrow> sj_reason \<Rightarrow> (sj_error, 'a) result" where
  "errorAt off r = Inl (SJ_Error off r)"

definition chargeExtra :: "limits \<Rightarrow> parser \<Rightarrow> int \<Rightarrow> (sj_error, parser) result" where
  "chargeExtra lim p n =
     (if n < 0 \<or> MaxWorkBytes lim - p_work p < n then errorAt (p_offset p) LimitWork
      else Inr (p\<lparr>p_work := p_work p + n\<rparr>))"

definition advance :: "string \<Rightarrow> limits \<Rightarrow> parser \<Rightarrow> nat \<Rightarrow> (sj_error, parser) result" where
  "advance src lim p n =
     (if length src - p_offset p < n then errorAt (p_offset p) UnexpectedEnd
      else bind_result (chargeExtra lim p (int n)) (\<lambda>p. Inr (p\<lparr>p_offset := p_offset p + n\<rparr>)))"

definition addToken :: "limits \<Rightarrow> parser \<Rightarrow> (sj_error, parser) result" where
  "addToken lim p =
     (if MaxTokens lim \<le> p_tokens p then errorAt (p_offset p) LimitTokens
      else bind_result (chargeExtra lim p 1) (\<lambda>p. Inr (p\<lparr>p_tokens := p_tokens p + 1\<rparr>)))"

definition src_byte :: "string \<Rightarrow> nat \<Rightarrow> nat" where
  "src_byte src i = (if i < length src then byte (src ! i) else 0)"

definition peek :: "string \<Rightarrow> parser \<Rightarrow> nat \<Rightarrow> bool" where
  "peek src p b \<longleftrightarrow> p_offset p < length src \<and> src_byte src (p_offset p) = b"

lemma chargeExtra_Inr:
  "chargeExtra lim p n = Inr q \<longleftrightarrow>
     0 \<le> n \<and> p_work p + n \<le> MaxWorkBytes lim \<and> q = p\<lparr>p_work := p_work p + n\<rparr>"
  by (auto simp: chargeExtra_def errorAt_def)

lemma advance_Inr:
  "advance src lim p n = Inr q \<longleftrightarrow>
     n \<le> length src - p_offset p \<and> p_work p + int n \<le> MaxWorkBytes lim
     \<and> q = p\<lparr>p_work := p_work p + int n, p_offset := p_offset p + n\<rparr>"
  by (auto simp: advance_def errorAt_def bind_result_eq_Inr chargeExtra_Inr not_less)

lemma addToken_Inr:
  "addToken lim p = Inr q \<longleftrightarrow>
     p_tokens p < MaxTokens lim \<and> p_work p + 1 \<le> MaxWorkBytes lim
     \<and> q = p\<lparr>p_work := p_work p + 1, p_tokens := p_tokens p + 1\<rparr>"
  by (auto simp: addToken_def errorAt_def bind_result_eq_Inr chargeExtra_Inr not_le)

function skipWhitespace :: "string \<Rightarrow> limits \<Rightarrow> parser \<Rightarrow> (sj_error, parser) result" where
  "skipWhitespace src lim p =
     (if p_offset p < length src \<and> is_space (src_byte src (p_offset p))
      then bind_result (advance src lim p 1) (\<lambda>p. skipWhitespace src lim p)
      else Inr p)"
  by pat_completeness auto
termination
  by (relation "measure (\<lambda>(src, lim, p). length src - p_offset p)") (auto simp: advance_Inr)

function consumeDigits :: "string \<Rightarrow> limits \<Rightarrow> parser \<Rightarrow> (sj_error, parser) result" where
  "consumeDigits src lim p =
     (if p_offset p < length src \<and> is_digit (src_byte src (p_offset p))
      then bind_result (advance src lim p 1) (\<lambda>p. consumeDigits src lim p)
      else Inr p)"
  by pat_completeness auto
termination
  by (relation "measure (\<lambda>(src, lim, p). length src - p_offset p)") (auto simp: advance_Inr)

declare skipWhitespace.simps [simp del] consumeDigits.simps [simp del]

subsection \<open>Strings\<close>

definition checkDecodedKeyGrowth ::
  "limits \<Rightarrow> parser \<Rightarrow> nat \<Rightarrow> nat \<Rightarrow> (sj_error, unit) result" where
  "checkDecodedKeyGrowth lim p current additional =
     (if MaxKeyBytes lim - int current < int additional then errorAt (p_offset p) LimitKeyBytes
      else if MaxTotalKeyBytes lim < p_totalKeyBytes p + int current + int additional
      then errorAt (p_offset p) LimitTotalKeyBytes
      else Inr ())"

definition hexCodeUnit :: "string \<Rightarrow> nat \<Rightarrow> nat option" where
  "hexCodeUnit src off =
     (if length src < off + 4 then None else hex4 (map byte (take 4 (drop off src))))"

text \<open>The decoded bytes and the number of input bytes consumed.\<close>

definition parseEscape :: "string \<Rightarrow> parser \<Rightarrow> (sj_error, nat list \<times> nat) result" where
  "parseEscape src p =
     (let off = p_offset p in
      if length src \<le> off + 1 then errorAt off UnterminatedEscape
      else let e = src_byte src (off + 1) in
        (case simple_escape e of
           Some c \<Rightarrow> Inr ([c], 2)
         | None \<Rightarrow>
            (if e \<noteq> 117 then errorAt off InvalidEscape
             else (case hexCodeUnit src (off + 2) of
                None \<Rightarrow> errorAt off InvalidUnicodeEscape
              | Some u \<Rightarrow>
                 (if 55296 \<le> u \<and> u \<le> 56319 then
                    (if length src < off + 12 \<or> src_byte src (off + 6) \<noteq> 92
                        \<or> src_byte src (off + 7) \<noteq> 117
                     then errorAt off LoneHighSurrogate
                     else (case hexCodeUnit src (off + 8) of
                        None \<Rightarrow> errorAt off InvalidSurrogatePair
                      | Some l \<Rightarrow>
                         (case surrogate_pair u l of
                            None \<Rightarrow> errorAt off InvalidSurrogatePair
                          | Some r \<Rightarrow> Inr (encode_rune r, 12))))
                  else if 56320 \<le> u \<and> u \<le> 57343 then errorAt off LoneLowSurrogate
                  else Inr (encode_rune u, 6))))))"

text \<open>One character of a string body: its decoded bytes and its length in the source.\<close>

definition parseChar :: "string \<Rightarrow> parser \<Rightarrow> (sj_error, nat list \<times> nat) result" where
  "parseChar src p =
     (let b = src_byte src (p_offset p) in
      if b < 32 then errorAt (p_offset p) ControlByte
      else if b = 92 then parseEscape src p
      else if b < 128 then Inr ([b], 1)
      else let n = snd (decode_rune (map byte (take 4 (drop (p_offset p) src)))) in
        if n = 1 then errorAt (p_offset p) MalformedUTF8
        else Inr (map byte (take n (drop (p_offset p) src)), n))"

lemma parseEscape_width: "parseEscape src p = Inr (w, n) \<Longrightarrow> 2 \<le> n"
  by (auto simp: parseEscape_def errorAt_def Let_def split: option.splits if_splits)

lemma parseChar_width:
  assumes "parseChar src p = Inr (w, n)" "p_offset p < length src"
  shows "1 \<le> n"
proof -
  have "map byte (take 4 (drop (p_offset p) src)) \<noteq> []"
    using assms(2) by simp
  from decode_rune_width [OF this] assms show ?thesis
    by (auto simp: parseChar_def errorAt_def Let_def dest: parseEscape_width split: if_splits)
qed

definition growKey ::
  "limits \<Rightarrow> bool \<Rightarrow> parser \<Rightarrow> nat list \<Rightarrow> nat list \<Rightarrow> (sj_error, parser \<times> nat list) result" where
  "growKey lim decodeKey p decoded w =
     (if decodeKey
      then bind_result (checkDecodedKeyGrowth lim p (length decoded) (length w))
             (\<lambda>_. bind_result (chargeExtra lim p (int (length w)))
                (\<lambda>p. Inr (p, decoded @ w)))
      else Inr (p, decoded))"

lemma growKey_offset: "growKey lim k p decoded w = Inr (q, d) \<Longrightarrow> p_offset q = p_offset p"
  by (auto simp: growKey_def bind_result_eq_Inr chargeExtra_Inr split: if_splits)

function parseStringBody ::
  "string \<Rightarrow> limits \<Rightarrow> bool \<Rightarrow> parser \<Rightarrow> nat list \<Rightarrow> (sj_error, parser \<times> nat list) result" where
  "parseStringBody src lim decodeKey p decoded =
     (if length src \<le> p_offset p then errorAt (p_offset p) UnterminatedString
      else if src_byte src (p_offset p) = 34
      then bind_result (advance src lim p 1) (\<lambda>p. Inr (p, decoded))
      else bind_result (parseChar src p)
        (\<lambda>(w, n). bind_result (growKey lim decodeKey p decoded w)
           (\<lambda>(p, decoded). bind_result (advance src lim p n)
              (\<lambda>p. parseStringBody src lim decodeKey p decoded))))"
  by pat_completeness auto
termination
  by (relation "measure (\<lambda>(src, lim, k, p, d). length src - p_offset p)")
    (auto simp: advance_Inr dest!: parseChar_width growKey_offset)

declare parseStringBody.simps [simp del]

definition parseString ::
  "string \<Rightarrow> limits \<Rightarrow> bool \<Rightarrow> parser \<Rightarrow> (sj_error, parser \<times> nat list) result" where
  "parseString src lim decodeKey p =
     bind_result (advance src lim p 1) (\<lambda>p. parseStringBody src lim decodeKey p [])"

subsection \<open>Scalars\<close>

definition parseLiteral :: "string \<Rightarrow> limits \<Rightarrow> parser \<Rightarrow> string \<Rightarrow> (sj_error, parser) result" where
  "parseLiteral src lim p lit =
     (if length src - p_offset p < length lit then errorAt (p_offset p) IncompleteLiteral
      else if take (length lit) (drop (p_offset p) src) \<noteq> lit
      then errorAt (p_offset p) InvalidLiteral
      else advance src lim p (length lit))"

definition digit_next :: "string \<Rightarrow> parser \<Rightarrow> bool" where
  "digit_next src p \<longleftrightarrow> p_offset p < length src \<and> is_digit (src_byte src (p_offset p))"

definition parseSign :: "string \<Rightarrow> limits \<Rightarrow> parser \<Rightarrow> (sj_error, parser) result" where
  "parseSign src lim p =
     (if peek src p 45
      then bind_result (advance src lim p 1)
        (\<lambda>p. if p_offset p = length src then errorAt (p_offset p) IncompleteNumber else Inr p)
      else Inr p)"

definition parseIntegerPart :: "string \<Rightarrow> limits \<Rightarrow> parser \<Rightarrow> (sj_error, parser) result" where
  "parseIntegerPart src lim p =
     (if peek src p 48 then advance src lim p 1
      else if p_offset p < length src \<and> 49 \<le> src_byte src (p_offset p)
              \<and> src_byte src (p_offset p) \<le> 57
      then consumeDigits src lim p
      else errorAt (p_offset p) InvalidNumber)"

definition parseFraction :: "string \<Rightarrow> limits \<Rightarrow> parser \<Rightarrow> (sj_error, parser) result" where
  "parseFraction src lim p =
     (if peek src p 46
      then bind_result (advance src lim p 1)
        (\<lambda>p. if digit_next src p then consumeDigits src lim p else errorAt (p_offset p) FractionDigit)
      else Inr p)"

definition parseExponent :: "string \<Rightarrow> limits \<Rightarrow> parser \<Rightarrow> (sj_error, parser) result" where
  "parseExponent src lim p =
     (if peek src p 101 \<or> peek src p 69
      then bind_result (advance src lim p 1)
        (\<lambda>p. bind_result (if peek src p 43 \<or> peek src p 45 then advance src lim p 1 else Inr p)
           (\<lambda>p. if digit_next src p then consumeDigits src lim p
                else errorAt (p_offset p) ExponentDigit))
      else Inr p)"

definition parseNumber :: "string \<Rightarrow> limits \<Rightarrow> parser \<Rightarrow> (sj_error, parser) result" where
  "parseNumber src lim p =
     bind_result (parseSign src lim p)
       (\<lambda>p. bind_result (parseIntegerPart src lim p)
          (\<lambda>p. bind_result (parseFraction src lim p) (parseExponent src lim)))"

subsection \<open>Containers\<close>

text \<open>The stack's top frame is its head.\<close>

definition pushContainer ::
  "limits \<Rightarrow> parser \<Rightarrow> container_kind \<Rightarrow> container_state \<Rightarrow> (sj_error, parser) result" where
  "pushContainer lim p k st =
     (if MaxDepth lim < int (length (p_stack p)) + 1 then errorAt (p_offset p - 1) LimitDepth
      else Inr (p\<lparr>p_stack :=
        \<lparr>fr_kind = k, fr_state = st, fr_count = 0, fr_firstKey = [], fr_seen = None\<rparr> # p_stack p\<rparr>))"

definition closeContainer :: "string \<Rightarrow> limits \<Rightarrow> parser \<Rightarrow> (sj_error, parser) result" where
  "closeContainer src lim p =
     bind_result (advance src lim p 1) (\<lambda>p. Inr (p\<lparr>p_stack := tl (p_stack p)\<rparr>))"

text \<open>The \<^verbatim>\<open>switch\<close> of \<open>parseValue\<close> on the first byte of the value.\<close>

definition parseValueAt :: "string \<Rightarrow> limits \<Rightarrow> parser \<Rightarrow> (sj_error, parser) result" where
  "parseValueAt src lim p =
     (let b = src_byte src (p_offset p) in
      if b = 123 then
        bind_result (advance src lim p 1) (\<lambda>p. pushContainer lim p ObjectContainer ObjectKeyOrEnd)
      else if b = 91 then
        bind_result (advance src lim p 1) (\<lambda>p. pushContainer lim p ArrayContainer ArrayValueOrEnd)
      else if b = 34 then bind_result (parseString src lim False p) (\<lambda>(p, _). Inr p)
      else if b = 116 then parseLiteral src lim p ''true''
      else if b = 102 then parseLiteral src lim p ''false''
      else if b = 110 then parseLiteral src lim p ''null''
      else if b = 45 \<or> is_digit b then parseNumber src lim p
      else errorAt (p_offset p) ExpectedValue)"

definition parseValue :: "string \<Rightarrow> limits \<Rightarrow> parser \<Rightarrow> (sj_error, parser) result" where
  "parseValue src lim p0 =
     bind_result (skipWhitespace src lim p0)
       (\<lambda>p. if p_offset p = length src then errorAt (p_offset p) ExpectedValue
        else bind_result (addToken lim p) (parseValueAt src lim))"

text \<open>The duplicate check of one more key in the frame \<open>f\<close>, whose count already includes it.\<close>

definition recordKey :: "frame \<Rightarrow> string \<Rightarrow> frame option" where
  "recordKey f key =
     (if fr_count f = 1 then Some (f\<lparr>fr_firstKey := key\<rparr>)
      else
        (let f' = (case fr_seen f of
                     None \<Rightarrow> f\<lparr>fr_seen := Some [(fr_firstKey f, ())], fr_firstKey := []\<rparr>
                   | Some _ \<Rightarrow> f)
         in if fr_seen f = None \<and> key = fr_firstKey f then None
            else case fr_seen f' of
              None \<Rightarrow> Some f'
            | Some m \<Rightarrow> if gm_has m key then None else Some (f'\<lparr>fr_seen := Some (gs_add key m)\<rparr>)))"

definition parseObjectKey :: "string \<Rightarrow> limits \<Rightarrow> parser \<Rightarrow> frame \<Rightarrow> (sj_error, parser) result" where
  "parseObjectKey src lim p f =
     (if MaxObjectMembers lim \<le> fr_count f then errorAt (p_offset p) LimitMembers
      else if \<not> peek src p 34 then errorAt (p_offset p) ExpectedKey
      else bind_result (addToken lim p)
        (\<lambda>p. bind_result (parseString src lim True p)
          (\<lambda>(q, decoded). bind_result (chargeExtra lim q (3 * int (length decoded)))
             (\<lambda>q. let q' = q\<lparr>p_totalKeyBytes := p_totalKeyBytes q + int (length decoded)\<rparr> in
                (case recordKey (f\<lparr>fr_count := fr_count f + 1\<rparr>) (map char_of decoded) of
                   None \<Rightarrow> errorAt (p_offset p) DuplicateKey
                 | Some f' \<Rightarrow>
                     Inr (q'\<lparr>p_stack := f'\<lparr>fr_state := ObjectColon\<rparr> # tl (p_stack q')\<rparr>))))))"

definition parseArrayValue :: "string \<Rightarrow> limits \<Rightarrow> parser \<Rightarrow> frame \<Rightarrow> (sj_error, parser) result" where
  "parseArrayValue src lim p f =
     (if MaxArrayElements lim \<le> fr_count f then errorAt (p_offset p) LimitElements
      else parseValue src lim
        (p\<lparr>p_stack := f\<lparr>fr_count := fr_count f + 1, fr_state := ArrayNext\<rparr> # tl (p_stack p)\<rparr>))"

definition set_top :: "parser \<Rightarrow> frame \<Rightarrow> container_state \<Rightarrow> parser" where
  "set_top p f st = p\<lparr>p_stack := f\<lparr>fr_state := st\<rparr> # tl (p_stack p)\<rparr>"

definition stepFrame :: "string \<Rightarrow> limits \<Rightarrow> parser \<Rightarrow> frame \<Rightarrow> (sj_error, parser) result" where
  "stepFrame src lim p f =
     (case fr_state f of
        ObjectKeyOrEnd \<Rightarrow>
          if peek src p 125 then closeContainer src lim p else parseObjectKey src lim p f
      | ObjectKeyRequired \<Rightarrow> parseObjectKey src lim p f
      | ObjectColon \<Rightarrow>
          if \<not> peek src p 58 then errorAt (p_offset p) ExpectedColon
          else bind_result (advance src lim p 1) (\<lambda>p. Inr (set_top p f ObjectValue))
      | ObjectValue \<Rightarrow> parseValue src lim (set_top p f ObjectNext)
      | ObjectNext \<Rightarrow>
          if peek src p 125 then closeContainer src lim p
          else if peek src p 44
          then bind_result (advance src lim p 1) (\<lambda>p. Inr (set_top p f ObjectKeyRequired))
          else errorAt (p_offset p) ExpectedObjectNext
      | ArrayValueOrEnd \<Rightarrow>
          if peek src p 93 then closeContainer src lim p else parseArrayValue src lim p f
      | ArrayValueRequired \<Rightarrow> parseArrayValue src lim p f
      | ArrayNext \<Rightarrow>
          if peek src p 93 then closeContainer src lim p
          else if peek src p 44
          then bind_result (advance src lim p 1) (\<lambda>p. Inr (set_top p f ArrayValueRequired))
          else errorAt (p_offset p) ExpectedArrayNext)"

definition stepContainer :: "string \<Rightarrow> limits \<Rightarrow> parser \<Rightarrow> (sj_error, parser) result" where
  "stepContainer src lim p0 =
     bind_result (skipWhitespace src lim p0)
       (\<lambda>p. case p_stack p of [] \<Rightarrow> Inr p | f # _ \<Rightarrow> stepFrame src lim p f)"

subsection \<open>Progress\<close>

text \<open>
  \<open>moved\<close> relates a parser to a later one: it went forward by at least \<open>n\<close> bytes, stayed
  inside the input, and charged the work budget for what it read and for each token.
  The stack is untouched; the operations on containers are treated separately.
\<close>

definition within :: "string \<Rightarrow> limits \<Rightarrow> parser \<Rightarrow> bool" where
  "within src lim p \<longleftrightarrow>
     p_offset p \<le> length src \<and> int (p_offset p) + p_tokens p \<le> p_work p
     \<and> p_work p \<le> MaxWorkBytes lim \<and> p_tokens p \<le> MaxTokens lim
     \<and> int (length (p_stack p)) \<le> MaxDepth lim"

definition moved :: "string \<Rightarrow> limits \<Rightarrow> nat \<Rightarrow> parser \<Rightarrow> parser \<Rightarrow> bool" where
  "moved src lim n p q \<longleftrightarrow>
     p_offset p + n \<le> p_offset q \<and> (p_offset q = p_offset p \<or> p_offset q \<le> length src)
     \<and> p_stack q = p_stack p
     \<and> (within src lim p \<longrightarrow> within src lim q)"

lemma moved_refl: "moved src lim 0 p p"
  by (simp add: moved_def)

lemma moved_trans: "moved src lim n p q \<Longrightarrow> moved src lim m q r \<Longrightarrow> moved src lim (n + m) p r"
  by (auto simp: moved_def)

lemma moved_weaken: "moved src lim n p q \<Longrightarrow> m \<le> n \<Longrightarrow> moved src lim m p q"
  by (auto simp: moved_def)

lemma advance_moved: "advance src lim p n = Inr q \<Longrightarrow> moved src lim n p q"
  by (auto simp: advance_Inr moved_def within_def)

lemma addToken_moved: "addToken lim p = Inr q \<Longrightarrow> moved src lim 0 p q"
  by (auto simp: addToken_Inr moved_def within_def)

lemma chargeExtra_moved: "chargeExtra lim p n = Inr q \<Longrightarrow> moved src lim 0 p q"
  by (auto simp: chargeExtra_Inr moved_def within_def)

lemma skipWhitespace_moved: "skipWhitespace src lim p = Inr q \<Longrightarrow> moved src lim 0 p q"
proof (induction src lim p rule: skipWhitespace.induct)
  case (1 src lim p)
  show ?case
  proof (cases "p_offset p < length src \<and> is_space (src_byte src (p_offset p))")
    case True
    with 1(2) obtain r where r: "advance src lim p 1 = Inr r" "skipWhitespace src lim r = Inr q"
      by (auto simp: skipWhitespace.simps [of src lim p] bind_result_eq_Inr)
    show ?thesis
      using moved_trans [OF advance_moved [OF r(1)] 1(1) [OF True r]] by (rule moved_weaken) simp
  next
    case False
    with 1(2) show ?thesis by (auto simp: skipWhitespace.simps [of src lim p] moved_refl)
  qed
qed

lemma consumeDigits_moved: "consumeDigits src lim p = Inr q \<Longrightarrow> moved src lim 0 p q"
proof (induction src lim p rule: consumeDigits.induct)
  case (1 src lim p)
  show ?case
  proof (cases "p_offset p < length src \<and> is_digit (src_byte src (p_offset p))")
    case True
    with 1(2) obtain r where r: "advance src lim p 1 = Inr r" "consumeDigits src lim r = Inr q"
      by (auto simp: consumeDigits.simps [of src lim p] bind_result_eq_Inr)
    show ?thesis
      using moved_trans [OF advance_moved [OF r(1)] 1(1) [OF True r]] by (rule moved_weaken) simp
  next
    case False
    with 1(2) show ?thesis by (auto simp: consumeDigits.simps [of src lim p] moved_refl)
  qed
qed

lemma consumeDigits_step:
  assumes "consumeDigits src lim p = Inr q" "digit_next src p"
  shows "moved src lim 1 p q"
proof -
  from assms obtain r where r: "advance src lim p 1 = Inr r" "consumeDigits src lim r = Inr q"
    by (auto simp: consumeDigits.simps [of src lim p] bind_result_eq_Inr digit_next_def)
  from moved_trans [OF advance_moved [OF r(1)] consumeDigits_moved [OF r(2)]] show ?thesis
    by (rule moved_weaken) simp
qed

lemma growKey_moved: "growKey lim k p decoded w = Inr (q, d) \<Longrightarrow> moved src lim 0 p q"
  by (auto simp: growKey_def bind_result_eq_Inr moved_refl dest: chargeExtra_moved split: if_splits)

lemma parseStringBody_moved:
  "parseStringBody src lim k p d = Inr (q, d') \<Longrightarrow> moved src lim 1 p q"
proof (induction src lim k p d rule: parseStringBody.induct)
  case (1 src lim k p d)
  show ?case
  proof (cases "length src \<le> p_offset p \<or> src_byte src (p_offset p) = 34")
    case True
    with 1(2) show ?thesis
      by (auto simp: parseStringBody.simps [of src lim k p d] errorAt_def bind_result_eq_Inr
          dest: advance_moved split: if_splits)
  next
    case False
    with 1(2) obtain w n p1 d1 p2 where s: "parseChar src p = Inr (w, n)"
      "growKey lim k p d w = Inr (p1, d1)" "advance src lim p1 n = Inr p2"
      "parseStringBody src lim k p2 d1 = Inr (q, d')"
      by (auto simp: parseStringBody.simps [of src lim k p d] bind_result_eq_Inr)
    have "moved src lim 1 p2 q"
      using 1(1) [OF _ _ s(1) _ s(2) _ s(3) s(4)] False by simp
    from moved_trans [OF moved_trans [OF growKey_moved [OF s(2)] advance_moved [OF s(3)]] this]
    show ?thesis by (rule moved_weaken) simp
  qed
qed

lemma parseString_moved: "parseString src lim k p = Inr (q, d) \<Longrightarrow> moved src lim 1 p q"
  by (auto simp: parseString_def bind_result_eq_Inr
      dest!: advance_moved parseStringBody_moved intro: moved_weaken [OF moved_trans])

lemma parseLiteral_moved: "parseLiteral src lim p lit = Inr q \<Longrightarrow> moved src lim (length lit) p q"
  by (auto simp: parseLiteral_def errorAt_def dest: advance_moved split: if_splits)

lemma parseSign_moved: "parseSign src lim p = Inr q \<Longrightarrow> moved src lim 0 p q"
  by (auto simp: parseSign_def errorAt_def bind_result_eq_Inr moved_refl
      dest!: advance_moved intro: moved_weaken split: if_splits)

lemma parseIntegerPart_moved: "parseIntegerPart src lim p = Inr q \<Longrightarrow> moved src lim 1 p q"
  using advance_moved [of src lim p 1 q] consumeDigits_step [of src lim p q]
  by (auto simp: parseIntegerPart_def errorAt_def digit_next_def is_digit_def split: if_splits)

lemma parseFraction_moved: "parseFraction src lim p = Inr q \<Longrightarrow> moved src lim 0 p q"
  by (auto simp: parseFraction_def errorAt_def bind_result_eq_Inr moved_refl
      dest!: advance_moved consumeDigits_moved intro: moved_weaken [OF moved_trans] split: if_splits)

lemma optional_advance_moved:
  "(if b then advance src lim p 1 else Inr p) = Inr q \<Longrightarrow> moved src lim 0 p q"
  using advance_moved [of src lim p 1 q] by (auto simp: moved_refl intro: moved_weaken split: if_splits)

lemma parseExponent_moved: "parseExponent src lim p = Inr q \<Longrightarrow> moved src lim 0 p q"
proof (cases "peek src p 101 \<or> peek src p 69")
  case True
  assume "parseExponent src lim p = Inr q"
  with True obtain r s where "advance src lim p 1 = Inr r"
    "(if peek src r 43 \<or> peek src r 45 then advance src lim r 1 else Inr r) = Inr s"
    "consumeDigits src lim s = Inr q"
    unfolding parseExponent_def errorAt_def if_P [OF True] bind_result_eq_Inr
    by (metis Inl_Inr_False)
  then show ?thesis
    by (meson advance_moved optional_advance_moved consumeDigits_moved moved_trans moved_weaken le0)
qed (simp add: parseExponent_def moved_refl)

lemma parseNumber_moved: "parseNumber src lim p = Inr q \<Longrightarrow> moved src lim 1 p q"
proof -
  assume "parseNumber src lim p = Inr q"
  then obtain a b c where s: "moved src lim 0 p a" "moved src lim 1 a b" "moved src lim 0 b c"
    "moved src lim 0 c q"
    by (auto simp: parseNumber_def bind_result_eq_Inr dest!: parseSign_moved parseIntegerPart_moved
        parseFraction_moved parseExponent_moved)
  from moved_trans [OF moved_trans [OF moved_trans [OF s(1,2)] s(3)] s(4)] show ?thesis by simp
qed

text \<open>A step that may change the stack: it consumes input and keeps every bound.\<close>

definition stepped :: "string \<Rightarrow> limits \<Rightarrow> parser \<Rightarrow> parser \<Rightarrow> bool" where
  "stepped src lim p q \<longleftrightarrow>
     p_offset p < p_offset q \<and> p_offset q \<le> length src
     \<and> (within src lim p \<longrightarrow> within src lim q)"

lemma moved_stepped: "moved src lim n p q \<Longrightarrow> 0 < n \<Longrightarrow> stepped src lim p q"
  by (auto simp: moved_def stepped_def)

lemma moved_then_stepped: "moved src lim 0 p q \<Longrightarrow> stepped src lim q r \<Longrightarrow> stepped src lim p r"
  by (auto simp: moved_def stepped_def)

lemma push_stepped:
  "bind_result (advance src lim p 1) (\<lambda>p. pushContainer lim p k st) = Inr r \<Longrightarrow> stepped src lim p r"
  by (auto simp: bind_result_eq_Inr advance_Inr pushContainer_def errorAt_def stepped_def within_def split: if_splits)

lemma scalar_stepped:
  "bind_result (parseString src lim False p) (\<lambda>(p, _). Inr p) = Inr q \<Longrightarrow> stepped src lim p q"
  "parseLiteral src lim p ''true'' = Inr q \<Longrightarrow> stepped src lim p q"
  "parseLiteral src lim p ''false'' = Inr q \<Longrightarrow> stepped src lim p q"
  "parseLiteral src lim p ''null'' = Inr q \<Longrightarrow> stepped src lim p q"
  "parseNumber src lim p = Inr q \<Longrightarrow> stepped src lim p q"
  by (auto simp: bind_result_eq_Inr dest!: parseString_moved parseLiteral_moved parseNumber_moved intro: moved_stepped)

lemma parseValueAt_stepped: "parseValueAt src lim p = Inr q \<Longrightarrow> stepped src lim p q"
  unfolding parseValueAt_def errorAt_def Let_def
  by (simp split: if_splits add: push_stepped [unfolded One_nat_def] scalar_stepped)

lemma parseValue_stepped: "parseValue src lim p = Inr q \<Longrightarrow> stepped src lim p q"
proof -
  assume "parseValue src lim p = Inr q"
  then obtain a b where s: "skipWhitespace src lim p = Inr a" "addToken lim a = Inr b"
    "parseValueAt src lim b = Inr q"
    by (auto simp: parseValue_def bind_result_eq_Inr errorAt_def split: if_splits)
  have "moved src lim 0 p b"
    using moved_trans [OF skipWhitespace_moved [OF s(1)] addToken_moved [OF s(2)]] by simp
  from moved_then_stepped [OF this parseValueAt_stepped [OF s(3)]] show ?thesis .
qed

lemma closeContainer_stepped: "closeContainer src lim p = Inr q \<Longrightarrow> stepped src lim p q"
  by (auto simp: closeContainer_def bind_result_eq_Inr advance_Inr stepped_def within_def)

lemma set_top_stepped:
  "advance src lim p 1 = Inr q \<Longrightarrow> p_stack p \<noteq> [] \<Longrightarrow> stepped src lim p (set_top q f st)"
  by (cases "p_stack p") (auto simp: advance_Inr stepped_def within_def set_top_def)

lemma stepped_new_top:
  "stepped src lim (p\<lparr>p_stack := f # tl (p_stack p)\<rparr>) q \<Longrightarrow> p_stack p \<noteq> [] \<Longrightarrow> stepped src lim p q"
  by (cases "p_stack p") (auto simp: stepped_def within_def)

lemma parseObjectKey_stepped:
  assumes "parseObjectKey src lim p f = Inr q" "p_stack p \<noteq> []"
  shows "stepped src lim p q"
proof -
  from assms(1) obtain a b c d f' where s: "addToken lim p = Inr a"
    "parseString src lim True a = Inr (b, d)" "chargeExtra lim b (3 * int (length d)) = Inr c"
    and q: "q = c\<lparr>p_totalKeyBytes := p_totalKeyBytes c + int (length d),
                p_stack := f' # tl (p_stack c)\<rparr>"
    by (auto simp: parseObjectKey_def errorAt_def bind_result_eq_Inr Let_def
        split: if_splits option.splits)
  have "moved src lim 1 p c"
    using moved_trans [OF moved_trans [OF addToken_moved [OF s(1)] parseString_moved [OF s(2)]]
        chargeExtra_moved [OF s(3)]] by simp
  then show ?thesis using assms(2) unfolding q
    by (cases "p_stack p") (auto simp: moved_def stepped_def within_def)
qed

lemma parseArrayValue_stepped:
  "parseArrayValue src lim p f = Inr q \<Longrightarrow> p_stack p \<noteq> [] \<Longrightarrow> stepped src lim p q"
  by (auto simp: parseArrayValue_def errorAt_def dest!: parseValue_stepped
      intro: stepped_new_top split: if_splits)

lemma stepFrame_stepped:
  "stepFrame src lim p f = Inr q \<Longrightarrow> p_stack p \<noteq> [] \<Longrightarrow> stepped src lim p q"
  by (cases "fr_state f")
    (auto simp: stepFrame_def errorAt_def bind_result_eq_Inr set_top_def
      intro: closeContainer_stepped parseObjectKey_stepped parseArrayValue_stepped
        set_top_stepped [unfolded set_top_def] stepped_new_top
      dest!: parseValue_stepped split: if_splits)

lemma stepContainer_stepped:
  assumes "stepContainer src lim p = Inr q" "p_stack p \<noteq> []"
  shows "stepped src lim p q"
proof -
  from assms obtain a where a: "skipWhitespace src lim p = Inr a"
    by (auto simp: stepContainer_def bind_result_eq_Inr)
  with skipWhitespace_moved have m: "moved src lim 0 p a" by blast
  with assms a have "stepped src lim a q"
    by (auto simp: stepContainer_def bind_result_eq_Inr moved_def intro: stepFrame_stepped
        split: list.splits)
  from moved_then_stepped [OF m this] show ?thesis .
qed

subsection \<open>The validator\<close>

text \<open>
  The loop of \<^verbatim>\<open>validate\<close> terminates because each step consumes input. \<open>validate\<close> returns
  the final parser state, so that the bounds on work, tokens and depth can be stated of a run;
  the exported functions only report success or the error.
\<close>

function runContainers :: "string \<Rightarrow> limits \<Rightarrow> parser \<Rightarrow> (sj_error, parser) result" where
  "runContainers src lim p =
     (if p_stack p = [] then Inr p
      else bind_result (stepContainer src lim p) (\<lambda>p. runContainers src lim p))"
  by pat_completeness auto
termination
proof (relation "measure (\<lambda>(src, lim, p). length src - p_offset p)")
qed (auto dest!: stepContainer_stepped simp: stepped_def)

declare runContainers.simps [simp del]

definition newParser :: parser where
  "newParser = \<lparr>p_offset = 0, p_work = 0, p_tokens = 0, p_totalKeyBytes = 0, p_stack = []\<rparr>"

definition validate :: "string \<Rightarrow> limits \<Rightarrow> (sj_error, parser) result" where
  "validate src lim =
     bind_result (skipWhitespace src lim newParser)
       (\<lambda>p. if p_offset p = length src then errorAt (p_offset p) ExpectedValue
        else bind_result (parseValue src lim p)
          (\<lambda>p. bind_result (runContainers src lim p)
             (\<lambda>p. bind_result (skipWhitespace src lim p)
                (\<lambda>p. if p_offset p \<noteq> length src then errorAt (p_offset p) TrailingToken else Inr p))))"

definition ValidateWithLimits :: "string \<Rightarrow> limits \<Rightarrow> (sj_error, unit) result" where
  "ValidateWithLimits src configured =
     bind_result (resolveLimits configured)
       (\<lambda>lim. if MaxInputBytes lim < int (length src) then Inl (SJ_Error 0 InputBytes)
        else bind_result (validate src lim) (\<lambda>_. Inr ()))"

definition zeroLimits :: limits where
  "zeroLimits =
     \<lparr>MaxInputBytes = 0, MaxDepth = 0, MaxTokens = 0, MaxObjectMembers = 0, MaxArrayElements = 0,
      MaxKeyBytes = 0, MaxTotalKeyBytes = 0, MaxWorkBytes = 0\<rparr>"

definition Validate :: "string \<Rightarrow> (sj_error, unit) result" where
  "Validate src = ValidateWithLimits src zeroLimits"

lemma runContainers_within:
  "runContainers src lim p = Inr q \<Longrightarrow> within src lim p \<Longrightarrow> within src lim q \<and> p_stack q = []"
proof (induction src lim p rule: runContainers.induct)
  case (1 src lim p)
  show ?case
  proof (cases "p_stack p = []")
    case True
    with 1 show ?thesis by (auto simp: runContainers.simps [of src lim p])
  next
    case False
    with 1(2) obtain r where r: "stepContainer src lim p = Inr r" "runContainers src lim r = Inr q"
      by (auto simp: runContainers.simps [of src lim p] bind_result_eq_Inr)
    with stepContainer_stepped [OF r(1) False] 1(3) have "within src lim r" by (simp add: stepped_def)
    with 1(1) [OF False r] show ?thesis .
  qed
qed

lemma resolveLimits_pos:
  "resolveLimits l = Inr lim \<Longrightarrow>
     0 < MaxInputBytes lim \<and> 0 < MaxDepth lim \<and> 0 < MaxTokens lim \<and> 0 < MaxWorkBytes lim"
  by (auto simp: resolveLimits_def validateNonNegative_def DefaultLimits_def
      intro!: orDefault_pos split: if_split_asm)

lemma validate_within:
  assumes "validate src lim = Inr q" and "0 \<le> MaxDepth lim" "0 \<le> MaxTokens lim" "0 \<le> MaxWorkBytes lim"
  shows "within src lim q \<and> p_stack q = [] \<and> p_offset q = length src"
proof -
  have 0: "within src lim newParser" using assms(2-4) by (simp add: within_def newParser_def)
  from assms(1) obtain a b c where s: "skipWhitespace src lim newParser = Inr a"
    "parseValue src lim a = Inr b" "runContainers src lim b = Inr c" "skipWhitespace src lim c = Inr q"
    "p_offset q = length src"
    unfolding validate_def errorAt_def bind_result_eq_Inr
    by (auto simp: bind_result_eq_Inr split: if_split_asm)
  have "within src lim b"
    using 0 skipWhitespace_moved [OF s(1)] parseValue_stepped [OF s(2)]
    by (simp add: moved_def stepped_def)
  with runContainers_within [OF s(3)] skipWhitespace_moved [OF s(4)] s(5) show ?thesis
    by (simp add: moved_def)
qed

text \<open>
  C37. Whatever the bytes, a validation that accepts consumed the whole input with every container
  closed, and spent at most the configured work budget, which covers each input byte and each
  token; so an input longer than the work budget, or with more tokens than allowed, is refused.
\<close>

theorem validate_bounds:
  assumes "resolveLimits configured = Inr lim" and "validate src lim = Inr q"
  shows "p_offset q = length src \<and> p_stack q = [] \<and> p_tokens q \<le> MaxTokens lim
    \<and> int (length src) + p_tokens q \<le> p_work q \<and> p_work q \<le> MaxWorkBytes lim"
  using validate_within [OF assms(2)] resolveLimits_pos [OF assms(1)] by (auto simp: within_def)

theorem validate_bounds_witness:
  "\<exists>q. validate ''[1,{\"a\":2}]'' DefaultLimits = Inr q
     \<and> p_offset q = 11 \<and> p_stack q = [] \<and> 11 + p_tokens q \<le> p_work q"
proof -
  have l: "resolveLimits zeroLimits = Inr DefaultLimits" by code_simp
  have q: "validate ''[1,{\"a\":2}]'' DefaultLimits =
      Inr \<lparr>p_offset = 11, p_work = 20, p_tokens = 5, p_totalKeyBytes = 1, p_stack = []\<rparr>"
    by code_simp
  from validate_bounds [OF l q] q show ?thesis by simp
qed

subsection \<open>Duplicate keys\<close>

text \<open>
  The parser keeps the keys of an open object as its first key alone until a second one arrives
  and as a set afterwards. \<open>frame_keys\<close> is what that representation stands for.
\<close>

definition frame_keys :: "frame \<Rightarrow> string set" where
  "frame_keys f =
     (case fr_seen f of Some m \<Rightarrow> fst ` set m | None \<Rightarrow> if fr_count f = 0 then {} else {fr_firstKey f})"

definition frame_ok :: "frame \<Rightarrow> bool" where
  "frame_ok f \<longleftrightarrow>
     0 \<le> fr_count f \<and> (fr_seen f = None \<longrightarrow> fr_count f \<le> 1) \<and> (fr_seen f \<noteq> None \<longrightarrow> 2 \<le> fr_count f)
     \<and> int (card (frame_keys f)) = fr_count f"

lemma set_update_keys: "fst ` set (AList.update k v m) = insert k (fst ` set m)"
  using AList.dom_update [of k v m] by simp

text \<open>
  The lazy representation of an object's keys is exact: a key is refused precisely when the
  object already has it (as decoded bytes), and otherwise is the one key that is added, the
  member count staying the number of distinct keys.
\<close>

theorem recordKey_exact:
  assumes "frame_ok f"
  shows "case recordKey (f\<lparr>fr_count := fr_count f + 1\<rparr>) key of
           None \<Rightarrow> key \<in> frame_keys f
         | Some f' \<Rightarrow> key \<notin> frame_keys f \<and> frame_keys f' = insert key (frame_keys f) \<and> frame_ok f'
                     \<and> fr_count f' = fr_count f + 1"
proof (cases "fr_seen f")
  case None
  with assms consider "fr_count f = 0" | "fr_count f = 1" by (fastforce simp: frame_ok_def)
  then show ?thesis
    by cases (use None in \<open>auto simp: recordKey_def frame_keys_def frame_ok_def Let_def\<close>)
next
  case (Some m)
  have "2 \<le> fr_count f" "int (card (fst ` set m)) = fr_count f"
    using assms Some by (auto simp: frame_ok_def frame_keys_def)
  with Some show ?thesis
    by (auto simp: recordKey_def frame_keys_def frame_ok_def Let_def map_of_eq_None_iff
        set_update_keys card_insert_if split: if_split_asm)
qed

theorem recordKey_exact_witness:
  "let f = \<lparr>fr_kind = ObjectContainer, fr_state = ObjectKeyRequired, fr_count = 1,
            fr_firstKey = ''a'', fr_seen = None\<rparr>
   in frame_ok f \<and> recordKey (f\<lparr>fr_count := 2\<rparr>) ''a'' = None
      \<and> (case recordKey (f\<lparr>fr_count := 2\<rparr>) ''b'' of None \<Rightarrow> False | Some f' \<Rightarrow> frame_keys f' = {''a'', ''b''})"
proof -
  define f where "f = \<lparr>fr_kind = ObjectContainer, fr_state = ObjectKeyRequired, fr_count = 1,
            fr_firstKey = ''a'', fr_seen = None\<rparr>"
  have ok: "frame_ok f" and k: "frame_keys f = {''a''}" by (simp_all add: f_def frame_ok_def frame_keys_def)
  have "recordKey (f\<lparr>fr_count := 2\<rparr>) ''a'' = None" by (simp add: f_def recordKey_def)
  moreover have "case recordKey (f\<lparr>fr_count := 2\<rparr>) ''b'' of None \<Rightarrow> False | Some f' \<Rightarrow> frame_keys f' = {''a'', ''b''}"
    using recordKey_exact [OF ok, of "''b''"] k by (auto simp: f_def split: option.splits)
  ultimately show ?thesis using ok by (simp add: f_def)
qed

end
