(* ===== verification/ToolArgs.thy ===== *)
theory ToolArgs
  imports StrictJson
begin

section \<open>\<^verbatim>\<open>internal/toolargs\<close>: replayable rewrites of tool arguments\<close>

text \<open>
  \<^verbatim>\<open>src/internal/toolargs/normalization.go\<close>: the byte-level scanner that finds the members of an
  argument object, the two closed normalisers, and \<open>Apply\<close>, which splices the rewritten values
  into the original bytes. Offsets are byte positions (\<^typ>\<open>nat\<close>); a loop over a suffix of the
  source is recursion on that suffix.
\<close>

definition CompactASCIIAlphanumericV1 :: string where
  "CompactASCIIAlphanumericV1 = ''compact-ascii-alphanumeric-v1''"

definition CoordinatePairXYV1 :: string where
  "CoordinatePairXYV1 = ''coordinate-pair-x-y-v1''"

definition MaximumJSONBytes :: int where
  "MaximumJSONBytes = 1048576"

record rule =
  Argument :: string
  Normalizer :: string

datatype ta_error =
    TooManyBytes | TooManyRules | NotStrictJSON sj_error | NotOneObject | RulesNotOrdered
  | UnsupportedNormalizer string string | CompactNotString string | CompactEmpty string
  | CompactUnsupportedByte string nat | CompactNothingLeft string
  | PairNotOnX string | PairNeedsY | PairWithY | PairNotTwoElements | PairNotIntegers

definition Supported :: "string \<Rightarrow> bool" where
  "Supported identity \<longleftrightarrow> identity = CompactASCIIAlphanumericV1 \<or> identity = CoordinatePairXYV1"

record objectMember =
  om_name :: string
  om_valueStart :: nat
  om_valueEnd :: nat

record replacement =
  re_start :: nat
  re_end :: nat
  re_value :: string

subsection \<open>Scanning the argument object\<close>

definition skipWs :: "string \<Rightarrow> nat \<Rightarrow> nat" where
  "skipWs src off = off + length (takeWhile (\<lambda>c. is_space (byte c)) (drop off src))"

fun string_end :: "string \<Rightarrow> bool \<Rightarrow> nat \<Rightarrow> nat option" where
  "string_end [] escaped off = None"
| "string_end (c # s) escaped off =
     (if escaped then string_end s False (off + 1)
      else if byte c = 92 then string_end s True (off + 1)
      else if byte c = 34 then Some (off + 1)
      else string_end s False (off + 1))"

definition scanStringEnd :: "string \<Rightarrow> nat \<Rightarrow> nat option" where
  "scanStringEnd src start =
     (if length src \<le> start \<or> src_byte src start \<noteq> 34 then None
      else string_end (drop (start + 1) src) False (start + 1))"

text \<open>
  One iteration of the loop of \<^verbatim>\<open>scanValueEnd\<close>: return the offset of this byte, the offset after
  it, or go on with the new depth and string state. \<open>opened\<close> says that the value starts with a
  bracket, as \<^verbatim>\<open>source[start]\<close> does in the code.
\<close>

datatype value_step = ReturnHere | ReturnAfter | Continue nat bool bool

definition value_step :: "bool \<Rightarrow> nat \<Rightarrow> nat \<Rightarrow> bool \<Rightarrow> bool \<Rightarrow> value_step" where
  "value_step opened b depth inString escaped =
     (if inString then
        if escaped then Continue depth True False
        else if b = 92 then Continue depth True True
        else if b = 34 then Continue depth False False
        else Continue depth True False
      else if b = 34 then Continue depth True False
      else if b = 123 \<or> b = 91 then Continue (depth + 1) False False
      else if b = 125 \<or> b = 93 then
        if depth = 0 then ReturnHere
        else if depth = 1 \<and> opened then ReturnAfter
        else Continue (depth - 1) False False
      else if b = 44 \<or> is_space b then
        if depth = 0 then ReturnHere else Continue depth False False
      else Continue depth False False)"

fun value_end :: "bool \<Rightarrow> string \<Rightarrow> nat \<Rightarrow> bool \<Rightarrow> bool \<Rightarrow> nat \<Rightarrow> nat" where
  "value_end opened [] depth inString escaped off = off"
| "value_end opened (c # s) depth inString escaped off =
     (case value_step opened (byte c) depth inString escaped of
        ReturnHere \<Rightarrow> off
      | ReturnAfter \<Rightarrow> off + 1
      | Continue d i e \<Rightarrow> value_end opened s d i e (off + 1))"

definition scanValueEnd :: "string \<Rightarrow> nat \<Rightarrow> nat option" where
  "scanValueEnd src start =
     (if length src \<le> start then None
      else if src_byte src start = 34 then scanStringEnd src start
      else Some (value_end (src_byte src start = 123 \<or> src_byte src start = 91)
                   (drop start src) 0 False False start))"

lemma skipWs_ge: "off \<le> skipWs src off"
  by (simp add: skipWs_def)

lemma skipWs_le: "off \<le> length src \<Longrightarrow> skipWs src off \<le> length src"
  using length_takeWhile_le [of "\<lambda>c. is_space (byte c)" "drop off src"] by (simp add: skipWs_def)

lemma string_end_bounds: "string_end s esc off = Some e \<Longrightarrow> off < e \<and> e \<le> off + length s"
  by (induction s esc off rule: string_end.induct) (fastforce split: if_splits)+

lemma scanStringEnd_bounds: "scanStringEnd src start = Some e \<Longrightarrow> start < e \<and> e \<le> length src"
  by (auto simp: scanStringEnd_def dest!: string_end_bounds split: if_splits)

lemma value_end_bounds:
  "off \<le> value_end opened s d i e off \<and> value_end opened s d i e off \<le> off + length s"
  by (induction opened s d i e off rule: value_end.induct)
    (fastforce split: value_step.split)+

lemma scanValueEnd_bounds: "scanValueEnd src start = Some e \<Longrightarrow> start \<le> e \<and> e \<le> length src"
  using value_end_bounds [of start _ "drop start src" 0 False False]
  by (fastforce simp: scanValueEnd_def dest: scanStringEnd_bounds split: if_splits)

definition slice :: "string \<Rightarrow> nat \<Rightarrow> nat \<Rightarrow> string" where
  "slice src i j = take (j - i) (drop i src)"

text \<open>One member at \<open>off\<close>, the position of its key: the member, and where the loop goes on.\<close>

definition parseMember :: "string \<Rightarrow> nat \<Rightarrow> (objectMember \<times> nat) option" where
  "parseMember src off =
     (case scanStringEnd src off of
        None \<Rightarrow> None
      | Some keyEnd \<Rightarrow>
         (case unmarshal_string (slice src off keyEnd) of
            None \<Rightarrow> None
          | Some name \<Rightarrow>
             (let colon = skipWs src keyEnd in
              if length src \<le> colon \<or> src_byte src colon \<noteq> 58 then None
              else let valueStart = skipWs src (colon + 1) in
                (case scanValueEnd src valueStart of
                   None \<Rightarrow> None
                 | Some valueEnd \<Rightarrow>
                    (let nxt = skipWs src valueEnd;
                         m = \<lparr>om_name = name, om_valueStart = valueStart, om_valueEnd = valueEnd\<rparr> in
                     if length src \<le> nxt then None
                     else if src_byte src nxt = 44 then Some (m, nxt + 1)
                     else if src_byte src nxt = 125 then Some (m, nxt)
                     else None)))))"

lemma parseMember_bounds:
  "parseMember src off = Some (m, nxt) \<Longrightarrow>
     off < om_valueStart m \<and> om_valueStart m \<le> om_valueEnd m \<and> om_valueEnd m \<le> nxt \<and> nxt \<le> length src"
proof -
  assume "parseMember src off = Some (m, nxt)"
  then obtain k v n where s: "scanStringEnd src off = Some k"
    "scanValueEnd src (om_valueStart m) = Some (om_valueEnd m)"
    "om_valueStart m = skipWs src (skipWs src k + 1)"
    "n = skipWs src (om_valueEnd m)" "n < length src" "nxt = n + 1 \<or> nxt = n"
    by (auto simp: parseMember_def Let_def split: option.splits if_splits)
  with scanStringEnd_bounds [OF s(1)] scanValueEnd_bounds [OF s(2)]
    skipWs_ge [of k src] skipWs_ge [of "skipWs src k + 1" src] skipWs_ge [of "om_valueEnd m" src]
  show ?thesis by auto
qed

function members_loop :: "string \<Rightarrow> nat \<Rightarrow> objectMember list \<Rightarrow> objectMember list option" where
  "members_loop src off acc =
     (let o1 = skipWs src off in
      if length src \<le> o1 then None
      else if src_byte src o1 = 125 then
        if skipWs src (o1 + 1) = length src then Some acc else None
      else if src_byte src o1 \<noteq> 34 then None
      else (case parseMember src o1 of
              None \<Rightarrow> None
            | Some (m, nxt) \<Rightarrow> members_loop src nxt (acc @ [m])))"
  by pat_completeness auto
termination
proof (relation "measure (\<lambda>(src, off, acc). length src - off)", goal_cases)
  case (2 src off acc x p m nxt)
  then show ?case
    using parseMember_bounds [of src x m nxt] skipWs_ge [of off src] by auto
qed simp

declare members_loop.simps [simp del]

definition parseObjectMembers :: "string \<Rightarrow> objectMember list option" where
  "parseObjectMembers src =
     (let o1 = skipWs src 0 in
      if length src \<le> o1 \<or> src_byte src o1 \<noteq> 123 then None
      else members_loop src (o1 + 1) [])"

subsection \<open>The normalisers\<close>

definition is_alnum :: "nat \<Rightarrow> bool" where
  "is_alnum b \<longleftrightarrow> 97 \<le> b \<and> b \<le> 122 \<or> 65 \<le> b \<and> b \<le> 90 \<or> 48 \<le> b \<and> b \<le> 57"

definition is_separator :: "nat \<Rightarrow> bool" where
  "is_separator b \<longleftrightarrow> b \<in> {32, 9, 13, 10, 45, 95, 46, 44}"

fun compact_loop :: "string \<Rightarrow> string \<Rightarrow> bool \<Rightarrow> (nat, string \<times> bool) result" where
  "compact_loop [] res changed = Inr (res, changed)"
| "compact_loop (c # s) res changed =
     (if is_alnum (byte c) then compact_loop s (res @ [c]) changed
      else if is_separator (byte c) then compact_loop s res True
      else Inl (byte c))"

definition compactASCIIAlphanumeric :: "string \<Rightarrow> string \<Rightarrow> (ta_error, string \<times> bool) result" where
  "compactASCIIAlphanumeric arg source =
     (if source = [] then Inl (CompactEmpty arg)
      else case compact_loop source [] False of
        Inl b \<Rightarrow> Inl (CompactUnsupportedByte arg b)
      | Inr (res, changed) \<Rightarrow> if res = [] then Inl (CompactNothingLeft arg) else Inr (res, changed))"

text \<open>\<^verbatim>\<open>json.Marshal\<close> of a string of ASCII letters and digits, which needs no escape.\<close>

definition marshal_alnum :: "string \<Rightarrow> string" where
  "marshal_alnum s = CHR 0x22 # s @ [CHR 0x22]"

text \<open>
  The elements of a valid JSON array as \<^verbatim>\<open>json.Unmarshal\<close> into \<^verbatim>\<open>[]json.RawMessage\<close> delivers
  them: the text between the commas at depth one, without the white space around it.
\<close>

fun split_commas :: "string \<Rightarrow> nat \<Rightarrow> bool \<Rightarrow> bool \<Rightarrow> string \<Rightarrow> string list" where
  "split_commas [] depth inString escaped cur = [strip_space cur]"
| "split_commas (c # s) depth inString escaped cur =
     (if \<not> inString \<and> depth = 0 \<and> byte c = 44
      then strip_space cur # split_commas s 0 False False []
      else case value_step False (byte c) depth inString escaped of
        Continue d i e \<Rightarrow> split_commas s d i e (cur @ [c])
      | _ \<Rightarrow> split_commas s depth inString escaped (cur @ [c]))"

definition array_elements :: "string \<Rightarrow> string list option" where
  "array_elements raw =
     (if \<not> json_valid raw \<or> first_byte raw \<noteq> Some 91 then None
      else let inner = strip_space (butlast (tl (strip_space raw))) in
        Some (if inner = [] then [] else split_commas inner 0 False False []))"

text \<open>\<^verbatim>\<open>strconv.ParseInt(s, 10, 64)\<close> succeeds.\<close>

fun decimal :: "string \<Rightarrow> int \<Rightarrow> int option" where
  "decimal [] acc = Some acc"
| "decimal (c # s) acc = (if is_digit (byte c) then decimal s (acc * 10 + int (byte c - 48)) else None)"

definition parses_int64 :: "string \<Rightarrow> bool" where
  "parses_int64 s =
     (let neg = (s \<noteq> [] \<and> byte (hd s) = 45);
          digits = (if s \<noteq> [] \<and> (byte (hd s) = 45 \<or> byte (hd s) = 43) then tl s else s)
      in digits \<noteq> [] \<and>
         (case decimal digits 0 of
            None \<Rightarrow> False
          | Some n \<Rightarrow> if neg then n \<le> 9223372036854775808 else n \<le> 9223372036854775807))"

type_synonym members = "(string, objectMember) gomap"

definition normalizeCoordinatePairXY ::
  "string \<Rightarrow> rule \<Rightarrow> objectMember \<Rightarrow> members \<Rightarrow> (ta_error, replacement option) result" where
  "normalizeCoordinatePairXY src r m ms =
     (if Argument r \<noteq> ''x'' then Inl (PairNotOnX (Argument r))
      else let raw = slice src (om_valueStart m) (om_valueEnd m) in
        if raw = [] \<or> byte (hd raw) \<noteq> 91 then
          if gm_has ms ''y'' then Inr None else Inl PairNeedsY
        else if gm_has ms ''y'' then Inl PairWithY
        else case array_elements raw of
          Some [a, b] \<Rightarrow>
            if list_all (\<lambda>v. TrimSpace v \<noteq> [] \<and> parses_int64 (TrimSpace v)) [a, b]
            then Inr (Some \<lparr>re_start = om_valueStart m, re_end = om_valueEnd m,
                            re_value = a @ '',\"y\":'' @ b\<rparr>)
            else Inl PairNotIntegers
        | _ \<Rightarrow> Inl PairNotTwoElements)"

definition normalizeMember ::
  "string \<Rightarrow> rule \<Rightarrow> objectMember \<Rightarrow> members \<Rightarrow> (ta_error, replacement option) result" where
  "normalizeMember src r m ms =
     (if Normalizer r = CompactASCIIAlphanumericV1 then
        (case unmarshal_string (slice src (om_valueStart m) (om_valueEnd m)) of
           None \<Rightarrow> Inl (CompactNotString (Argument r))
         | Some v \<Rightarrow>
             bind_result (compactASCIIAlphanumeric (Argument r) v)
               (\<lambda>(normalized, changed).
                  if \<not> changed then Inr None
                  else Inr (Some \<lparr>re_start = om_valueStart m, re_end = om_valueEnd m,
                                  re_value = marshal_alnum normalized\<rparr>)))
      else if Normalizer r = CoordinatePairXYV1 then normalizeCoordinatePairXY src r m ms
      else Inl (UnsupportedNormalizer (Argument r) (Normalizer r)))"

subsection \<open>\<open>Apply\<close>\<close>

fun splice_at :: "string \<Rightarrow> nat \<Rightarrow> replacement list \<Rightarrow> string" where
  "splice_at src start [] = drop start src"
| "splice_at src start (r # rs) = slice src start (re_start r) @ re_value r @ splice_at src (re_end r) rs"

definition applyReplacements :: "string \<Rightarrow> replacement list \<Rightarrow> string" where
  "applyReplacements src rs = splice_at src 0 (sort_key re_start rs)"

text \<open>The loop over the rules. \<open>prev\<close> is the argument of the rule before, if there is one.\<close>

fun rules_loop ::
  "string \<Rightarrow> members \<Rightarrow> string option \<Rightarrow> rule list \<Rightarrow> replacement list \<Rightarrow> rule list
    \<Rightarrow> (ta_error, replacement list \<times> rule list) result" where
  "rules_loop src ms prev [] reps changed = Inr (reps, changed)"
| "rules_loop src ms prev (r # rs) reps changed =
     (if Argument r = [] \<or> Argument r \<noteq> TrimSpace (Argument r)
         \<or> (case prev of None \<Rightarrow> False | Some l \<Rightarrow> \<not> string_less l (Argument r))
      then Inl RulesNotOrdered
      else if \<not> Supported (Normalizer r) then Inl (UnsupportedNormalizer (Argument r) (Normalizer r))
      else case map_of ms (Argument r) of
        None \<Rightarrow> rules_loop src ms (Some (Argument r)) rs reps changed
      | Some m \<Rightarrow>
          bind_result (normalizeMember src r m ms)
            (\<lambda>rewritten. case rewritten of
               None \<Rightarrow> rules_loop src ms (Some (Argument r)) rs reps changed
             | Some x \<Rightarrow>
                 rules_loop src ms (Some (Argument r)) rs (reps @ [x]) (changed @ [r])))"

definition applyLimits :: limits where
  "applyLimits =
     \<lparr>MaxInputBytes = MaximumJSONBytes, MaxDepth = 32, MaxTokens = 16384, MaxObjectMembers = 4096,
      MaxArrayElements = 4096, MaxKeyBytes = 4096, MaxTotalKeyBytes = MaximumJSONBytes,
      MaxWorkBytes = 8 * MaximumJSONBytes\<rparr>"

definition byName :: "objectMember list \<Rightarrow> members" where
  "byName ms = fold (\<lambda>m. AList.update (om_name m) m) ms []"

definition Apply :: "string \<Rightarrow> rule list \<Rightarrow> (ta_error, string \<times> rule list) result" where
  "Apply src rules =
     (if MaximumJSONBytes < int (length src) then Inl TooManyBytes
      else if 4096 < length rules then Inl TooManyRules
      else case ValidateWithLimits src applyLimits of
        Inl e \<Rightarrow> Inl (NotStrictJSON e)
      | Inr _ \<Rightarrow>
         (case parseObjectMembers src of
            None \<Rightarrow> Inl NotOneObject
          | Some ms \<Rightarrow>
              bind_result (rules_loop src (byName ms) None rules [] [])
                (\<lambda>(reps, changed).
                   if reps = [] then Inr (src, []) else Inr (applyReplacements src reps, changed))))"

subsection \<open>What \<open>Apply\<close> leaves alone\<close>

text \<open>The members of an object lie one after the other, without overlap, inside the source.\<close>

abbreviation before :: "objectMember \<Rightarrow> objectMember \<Rightarrow> bool" where
  "before a b \<equiv> om_valueEnd a < om_valueStart b"

definition laid_out :: "string \<Rightarrow> objectMember list \<Rightarrow> bool" where
  "laid_out src ms \<longleftrightarrow>
     sorted_wrt before ms
     \<and> (\<forall>m\<in>set ms. om_valueStart m \<le> om_valueEnd m \<and> om_valueEnd m \<le> length src)"

lemma members_loop_laid_out:
  "members_loop src off acc = Some ms \<Longrightarrow> laid_out src acc \<Longrightarrow> (\<forall>m\<in>set acc. om_valueEnd m \<le> off)
    \<Longrightarrow> laid_out src ms"
proof (induction src off acc rule: members_loop.induct)
  case (1 src off acc)
  show ?case
  proof (cases "parseMember src (skipWs src off)")
    case None
    with 1(2,3) show ?thesis
      by (auto simp: members_loop.simps [of src off acc] Let_def split: if_splits)
  next
    case (Some mn)
    obtain m nxt where mn: "mn = (m, nxt)" by (cases mn)
    note b = parseMember_bounds [OF Some [unfolded mn]] skipWs_ge [of off src]
    have ok: "laid_out src (acc @ [m])" "\<forall>m\<in>set (acc @ [m]). om_valueEnd m \<le> nxt"
      using 1(3,4) b by (fastforce simp: laid_out_def sorted_wrt_snoc)+
    show ?thesis
      using 1(1) [OF refl _ _ _ Some mn [symmetric]] 1(2,3) ok Some mn
      by (auto simp: members_loop.simps [of src off acc] Let_def split: if_splits)
  qed
qed

lemma parseObjectMembers_laid_out: "parseObjectMembers src = Some ms \<Longrightarrow> laid_out src ms"
  using members_loop_laid_out [of src _ "[]" ms]
  by (auto simp: parseObjectMembers_def laid_out_def Let_def split: if_splits)

lemma byName_member:
  "map_of (byName ms) a = Some m \<Longrightarrow> m \<in> set ms \<and> om_name m = a"
proof -
  have "map_of (fold (\<lambda>m. AList.update (om_name m) m) ms acc) a = Some m \<Longrightarrow>
      m \<in> set ms \<and> om_name m = a \<or> map_of acc a = Some m" for acc
    by (induction ms arbitrary: acc) (fastforce split: if_splits)+
  from this [of "[]"] show "map_of (byName ms) a = Some m \<Longrightarrow> m \<in> set ms \<and> om_name m = a"
    by (simp add: byName_def)
qed

text \<open>The replacements an accepted rule list collects, one per changed rule, in rule order.\<close>

definition replaces :: "members \<Rightarrow> rule \<Rightarrow> replacement \<Rightarrow> bool" where
  "replaces ms r x \<longleftrightarrow>
     (\<exists>m. map_of ms (Argument r) = Some m \<and> re_start x = om_valueStart m \<and> re_end x = om_valueEnd m)"

lemma normalizeMember_replaces:
  "normalizeMember src r m ms = Inr (Some x) \<Longrightarrow> map_of ms (Argument r) = Some m \<Longrightarrow> replaces ms r x"
  by (auto simp: normalizeMember_def normalizeCoordinatePairXY_def replaces_def Let_def
      bind_result_eq_Inr split: if_splits option.splits list.splits)

lemma string_less_trans: "string_less a b \<Longrightarrow> string_less b c \<Longrightarrow> string_less a c"
proof (induction a b arbitrary: c rule: string_less.induct)
  case (2 d t)
  then show ?case by (cases c) auto
next
  case (4 x s y t)
  then show ?case by (cases c) auto
qed auto

lemma string_less_irrefl [simp]: "\<not> string_less a a"
  by (induction a) auto

lemma rules_loop_invariant:
  assumes "rules_loop src ms prev rs reps changed = Inr (reps', changed')"
    and "list_all2 (replaces ms) changed reps"
    and "sorted_wrt (\<lambda>a b. string_less (Argument a) (Argument b)) changed"
    and "\<forall>r\<in>set changed. case prev of None \<Rightarrow> False | Some l \<Rightarrow> Argument r = l \<or> string_less (Argument r) l"
  shows "list_all2 (replaces ms) changed' reps'
    \<and> sorted_wrt (\<lambda>a b. string_less (Argument a) (Argument b)) changed'
    \<and> set changed' \<subseteq> set changed \<union> set rs"
  using assms
proof (induction src ms prev rs reps changed rule: rules_loop.induct)
  case (2 src ms prev r rs reps changed)
  have prev: "\<forall>q\<in>set changed. string_less (Argument q) (Argument r)"
    using "2.prems"(1,4) by (auto split: if_splits option.splits dest: string_less_trans)
  show ?case
  proof (cases "map_of ms (Argument r)")
    case None
    with "2.prems" "2.IH"(1) [OF _ _ None] prev show ?thesis by (fastforce split: if_splits)
  next
    case (Some m)
    with "2.prems"(1) obtain x where x: "normalizeMember src r m ms = Inr x"
      by (auto simp: bind_result_eq_Inr split: if_splits)
    show ?thesis
    proof (cases x)
      case None
      with "2.prems" "2.IH"(2) [OF _ _ Some x None] prev Some x show ?thesis
        by (fastforce split: if_splits)
    next
      case (Some y)
      with x \<open>map_of ms (Argument r) = Some m\<close> have "replaces ms r y"
        by (auto intro: normalizeMember_replaces)
      with "2.prems" "2.IH"(3) [OF _ _ \<open>map_of ms (Argument r) = Some m\<close> x Some] prev Some x
        \<open>map_of ms (Argument r) = Some m\<close>
      show ?thesis
        by (fastforce simp: list_all2_appendI sorted_wrt_snoc split: if_splits)
    qed
  qed
qed simp

text \<open>Replacements that follow each other inside the source, from position \<open>n\<close> on.\<close>

fun ordered_from :: "string \<Rightarrow> nat \<Rightarrow> replacement list \<Rightarrow> bool" where
  "ordered_from src n [] \<longleftrightarrow> n \<le> length src"
| "ordered_from src n (r # rs) \<longleftrightarrow>
     n \<le> re_start r \<and> re_start r \<le> re_end r \<and> ordered_from src (re_end r) rs"

text \<open>Where the byte at \<open>i\<close> of the source is in the spliced output.\<close>

fun new_pos :: "nat \<Rightarrow> replacement list \<Rightarrow> nat \<Rightarrow> nat" where
  "new_pos n [] i = i - n"
| "new_pos n (r # rs) i =
     (if i < re_start r then i - n
      else (re_start r - n) + length (re_value r) + new_pos (re_end r) rs i)"

lemma ordered_from_le: "ordered_from src n rs \<Longrightarrow> n \<le> length src"
  by (induction src n rs rule: ordered_from.induct) auto

lemma splice_keeps:
  "ordered_from src n rs \<Longrightarrow> n \<le> i \<Longrightarrow> i < length src
    \<Longrightarrow> (\<forall>r\<in>set rs. \<not> (re_start r \<le> i \<and> i < re_end r))
    \<Longrightarrow> splice_at src n rs ! new_pos n rs i = src ! i"
proof (induction src n rs rule: splice_at.induct)
  case (1 src start)
  then show ?case by simp
next
  case (2 src start r rs)
  have le: "re_end r \<le> length src" using "2.prems"(1) ordered_from_le [of src "re_end r" rs] by simp
  have len: "length (slice src start (re_start r)) = re_start r - start"
    using "2.prems"(1) le by (auto simp: slice_def min_def)
  show ?case
  proof (cases "i < re_start r")
    case True
    moreover have "i - start < re_start r - start" using True "2.prems"(2) by simp
    ultimately show ?thesis using "2.prems"(2,3) by (simp add: nth_append len) (simp add: slice_def)
  next
    case False
    with "2.prems" have "splice_at src (re_end r) rs ! new_pos (re_end r) rs i = src ! i"
      by (intro "2.IH") auto
    with False show ?thesis by (simp add: nth_append len)
  qed
qed

lemma laid_out_cmp:
  "laid_out src ms \<Longrightarrow> a \<in> set ms \<Longrightarrow> b \<in> set ms \<Longrightarrow> a \<noteq> b \<Longrightarrow> before a b \<or> before b a"
  unfolding laid_out_def by (auto simp: in_set_conv_nth sorted_wrt_iff_nth_less) (metis nat_neq_iff)

lemma ordered_from_sorted:
  assumes "sorted_wrt (\<lambda>a b. re_end a \<le> re_start b) rs"
    and "\<forall>r\<in>set rs. re_start r \<le> re_end r \<and> re_end r \<le> length src" "n \<le> length src"
    and "\<forall>r\<in>set rs. n \<le> re_start r"
  shows "ordered_from src n rs"
  using assms by (induction rs arbitrary: n) auto

lemma replacements_ordered:
  assumes ms: "laid_out src ms" and l: "list_all2 (replaces (byName ms)) changed reps"
    and s: "sorted_wrt (\<lambda>a b. string_less (Argument a) (Argument b)) changed"
  shows "ordered_from src 0 (sort_key re_start reps)"
proof -
  have mem: "\<exists>m\<in>set ms. om_name m = Argument (changed ! i) \<and> re_start (reps ! i) = om_valueStart m
      \<and> re_end (reps ! i) = om_valueEnd m" if "i < length reps" for i
    using l that by (auto simp: list_all2_conv_all_nth replaces_def dest!: byName_member)
  have apart: "re_end (reps ! i) < re_start (reps ! j) \<or> re_end (reps ! j) < re_start (reps ! i)"
    if "i < length reps" "j < length reps" "i \<noteq> j" for i j
  proof -
    have "Argument (changed ! i) \<noteq> Argument (changed ! j)"
      using s that list_all2_lengthD [OF l] unfolding sorted_wrt_iff_nth_less
      by (metis nat_neq_iff string_less_irrefl)
    with mem [OF that(1)] mem [OF that(2)] laid_out_cmp [OF ms] show ?thesis by metis
  qed
  have rng: "\<forall>r\<in>set reps. re_start r \<le> re_end r \<and> re_end r \<le> length src"
    using mem ms by (fastforce simp: laid_out_def in_set_conv_nth)
  have "distinct (map re_start reps)"
    unfolding distinct_conv_nth
  proof (intro allI impI)
    fix i j assume ij: "i < length (map re_start reps)" "j < length (map re_start reps)" "i \<noteq> j"
    with rng have "re_start (reps ! i) \<le> re_end (reps ! i)" "re_start (reps ! j) \<le> re_end (reps ! j)"
      by simp_all
    with apart [of i j] ij show "map re_start reps ! i \<noteq> map re_start reps ! j" by auto
  qed
  then have "distinct (map re_start (sort_key re_start reps))"
    by (metis distinct_map mset_sort set_sort distinct_sort)
  then have "sorted_wrt (<) (map re_start (sort_key re_start reps))"
    by (simp add: strict_sorted_iff)
  then have "sorted_wrt (\<lambda>a b. re_start a < re_start b) (sort_key re_start reps)"
    by (simp add: sorted_wrt_map)
  then have "sorted_wrt (\<lambda>a b. re_end a \<le> re_start b) (sort_key re_start reps)"
  proof (rule sorted_wrt_mono_rel [rotated])
    fix a b assume "a \<in> set (sort_key re_start reps)" "b \<in> set (sort_key re_start reps)"
      and "re_start a < re_start b"
    then obtain i j where "a = reps ! i" "b = reps ! j" "i < length reps" "j < length reps" "i \<noteq> j"
      by (auto simp: in_set_conv_nth)
    moreover from this rng have "re_start b \<le> re_end b" by simp
    ultimately show "re_end a \<le> re_start b"
      using apart [of i j] \<open>re_start a < re_start b\<close> by auto
  qed
  with rng show ?thesis by (intro ordered_from_sorted) auto
qed

text \<open>
  C36. Normalisation only touches the values it names. Every byte of the source that is not inside
  the value of a top-level member named by a changed rule is in the output, at the position
  shifted by the rewritten values before it; the changed rules are among the given ones, and
  when none changed the bytes are the source's own.
\<close>

theorem Apply_keeps_unnamed_bytes:
  assumes "Apply src rules = Inr (out, changed)"
  shows "set changed \<subseteq> set rules \<and> (changed = [] \<longrightarrow> out = src) \<and>
    (\<exists>ms rs. parseObjectMembers src = Some ms \<and> out = splice_at src 0 rs \<and> ordered_from src 0 rs
      \<and> (\<forall>i<length src.
           (\<forall>m\<in>set ms. om_name m \<in> Argument ` set changed \<longrightarrow> i < om_valueStart m \<or> om_valueEnd m \<le> i)
           \<longrightarrow> out ! new_pos 0 rs i = src ! i))"
proof -
  from assms obtain ms reps ch where ms: "parseObjectMembers src = Some ms"
    and loop: "rules_loop src (byName ms) None rules [] [] = Inr (reps, ch)"
    and out: "(out, changed) = (if reps = [] then (src, []) else (applyReplacements src reps, ch))"
    by (auto simp: Apply_def bind_result_eq_Inr split: if_splits sum.splits option.splits)
  from rules_loop_invariant [OF loop]
  have l: "list_all2 (replaces (byName ms)) ch reps" and
    s: "sorted_wrt (\<lambda>a b. string_less (Argument a) (Argument b)) ch" and sub: "set ch \<subseteq> set rules"
    by auto
  have len: "reps = [] \<longleftrightarrow> ch = []" using list_all2_lengthD [OF l] by auto
  define rs where "rs = sort_key re_start reps"
  have ord: "ordered_from src 0 rs"
    using replacements_ordered [OF parseObjectMembers_laid_out [OF ms] l s] by (simp add: rs_def)
  have eq: "out = splice_at src 0 rs" "changed = ch"
    using out len by (auto simp: rs_def applyReplacements_def split: if_splits)
  have covered: "\<exists>m\<in>set ms. om_name m \<in> Argument ` set ch \<and> re_start r = om_valueStart m
      \<and> re_end r = om_valueEnd m" if r: "r \<in> set rs" for r
  proof -
    from r have "r \<in> set reps" by (simp add: rs_def)
    with l obtain q where "q \<in> set ch" "replaces (byName ms) q r"
      by (metis list_all2_conv_all_nth in_set_conv_nth nth_mem)
    then show ?thesis by (auto simp: replaces_def dest!: byName_member)
  qed
  have "splice_at src 0 rs ! new_pos 0 rs i = src ! i" if "i < length src"
    "\<forall>m\<in>set ms. om_name m \<in> Argument ` set ch \<longrightarrow> i < om_valueStart m \<or> om_valueEnd m \<le> i" for i
    using that covered by (intro splice_keeps [OF ord]) (fastforce simp: not_less)+
  with ms ord eq sub len show ?thesis by (auto simp: rs_def)
qed

theorem Apply_keeps_unnamed_bytes_witness:
  "\<exists>rs. ''{\"a\":\"B7\",\"b\": 1}'' = splice_at ''{\"a\":\"B-7\",\"b\": 1}'' 0 rs
     \<and> ''{\"a\":\"B7\",\"b\": 1}'' ! new_pos 0 rs 16 = CHR ''1''"
proof -
  let ?src = "''{\"a\":\"B-7\",\"b\": 1}''" and ?r = "\<lparr>Argument = ''a'', Normalizer = CompactASCIIAlphanumericV1\<rparr>"
  have a: "Apply ?src [?r] = Inr (''{\"a\":\"B7\",\"b\": 1}'', [?r])" by code_simp
  have m: "parseObjectMembers ?src =
      Some [\<lparr>om_name = ''a'', om_valueStart = 5, om_valueEnd = 10\<rparr>,
            \<lparr>om_name = ''b'', om_valueStart = 16, om_valueEnd = 17\<rparr>]" by code_simp
  from Apply_keeps_unnamed_bytes [OF a] obtain ms rs where ms: "parseObjectMembers ?src = Some ms"
    and out: "''{\"a\":\"B7\",\"b\": 1}'' = splice_at ?src 0 rs"
    and keep: "\<forall>i<length ?src. (\<forall>m\<in>set ms. om_name m \<in> Argument ` set [?r] \<longrightarrow>
        i < om_valueStart m \<or> om_valueEnd m \<le> i) \<longrightarrow> ''{\"a\":\"B7\",\"b\": 1}'' ! new_pos 0 rs i = ?src ! i"
    by blast
  have "''{\"a\":\"B7\",\"b\": 1}'' ! new_pos 0 rs 16 = ?src ! 16"
    by (rule keep [rule_format]) (use ms m in auto)
  with out show ?thesis by (intro exI [of _ rs]) simp
qed

subsection \<open>The compact identifier\<close>

lemma compact_loop_filter:
  "compact_loop s res ch = Inr (res', ch') \<Longrightarrow>
     res' = res @ filter (\<lambda>c. is_alnum (byte c)) s \<and> (ch' \<longleftrightarrow> ch \<or> (\<exists>c\<in>set s. \<not> is_alnum (byte c)))
     \<and> (\<forall>c\<in>set s. is_alnum (byte c) \<or> is_separator (byte c))"
  by (induction s res ch rule: compact_loop.induct) (auto split: if_splits)

lemma compact_loop_alnum:
  "\<forall>c\<in>set s. is_alnum (byte c) \<Longrightarrow> compact_loop s res ch = Inr (res @ s, ch)"
  by (induction s arbitrary: res) auto

text \<open>
  The compact identifier keeps exactly the letters and digits in order, reports a change
  exactly when it dropped something, and is idempotent: normalising its result again accepts it
  and reports no change, so a recorded derivation replays to the same bytes.
\<close>

theorem compact_idempotent:
  assumes "compactASCIIAlphanumeric arg s = Inr (r, changed)"
  shows "r = filter (\<lambda>c. is_alnum (byte c)) s \<and> r \<noteq> [] \<and> (changed \<longleftrightarrow> r \<noteq> s)
    \<and> compactASCIIAlphanumeric arg r = Inr (r, False)"
proof -
  from assms have r: "r = filter (\<lambda>c. is_alnum (byte c)) s" and ne: "r \<noteq> []"
    and ch: "changed \<longleftrightarrow> (\<exists>c\<in>set s. \<not> is_alnum (byte c))"
    by (auto simp: compactASCIIAlphanumeric_def dest!: compact_loop_filter split: if_splits sum.splits)
  have "changed \<longleftrightarrow> r \<noteq> s" using ch r by (metis filter_id_conv)
  moreover have "compact_loop r [] False = Inr (r, False)"
    using compact_loop_alnum [of r "[]" False] r by simp
  ultimately show ?thesis using r ne by (simp add: compactASCIIAlphanumeric_def)
qed

theorem compact_idempotent_witness:
  "compactASCIIAlphanumeric ''id'' ''AB-12'' = Inr (''AB12'', True)
   \<and> compactASCIIAlphanumeric ''id'' ''AB12'' = Inr (''AB12'', False)"
proof -
  have a: "compactASCIIAlphanumeric ''id'' ''AB-12'' = Inr (''AB12'', True)" by code_simp
  with compact_idempotent [OF a] show ?thesis by blast
qed

end
