(* ===== verification/Trajectory.thy ===== *)
theory Trajectory
  imports ToolArgs Sha256
begin

section \<open>\<^verbatim>\<open>trajectory\<close>: items of the canonical log and their validation\<close>

text \<open>
  The types of \<^verbatim>\<open>src/trajectory/trajectory.go\<close> and \<^verbatim>\<open>observation.go\<close>, the checks that look at
  one item only, the supersession resolver, and the replay of tool-call derivations
  (\<^verbatim>\<open>tool_call_derivation.go\<close>). The store that keeps the items is the next theory.

  A closed set of string constants is a datatype with one constructor per constant and one for
  every other string; the empty string, where the code treats it specially, has its own. Nil
  pointers are \<^const>\<open>None\<close>. Revisions, times and durations are compared and never computed
  with, so \<^verbatim>\<open>uint64\<close> is \<^typ>\<open>nat\<close>. The clones the code takes are identities on values.
\<close>

datatype kind =
    KindInstruction | KindObservation | KindReasoning | KindAssistant | KindAssistantState
  | KindRepair | KindToolProposal | KindToolProposalDisposition | KindToolCall | KindToolResult
  | KindToolPlaceholder | KindOther string

datatype phase =
    PhaseNone | PhaseRuntime | PhaseFast | PhaseSlow | PhaseTool | PhaseUser | PhaseObserver
  | PhaseOther string

datatype visibility =
    VisibilityNone | VisibilityPrepared | VisibilityQueued | VisibilityPlayed
  | VisibilityCancelled | VisibilityOther string

datatype authority = AuthorityUser | AuthorityObserver | AuthoritySystem | AuthorityOther string

datatype repair_status = RepairRequired | RepairResolved | RepairOther string

datatype disposition_kind =
    ToolProposalToolPolicySuppressed | ToolProposalRepetitionSuppressed | DispositionOther string

datatype derivation_kind = ToolCallDerivationSchemaNormalizationV1 | DerivationOther string

record producer =
  pr_phase :: phase
  pr_provider :: string
  pr_model :: string
  pr_reasoningEffort :: string
  pr_speechAuthority :: string

record tool_call =
  tc_callID :: string
  tc_name :: string
  tc_arguments :: string

record tool_proposal_disposition =
  td_proposalItemID :: string
  td_callID :: string
  td_name :: string
  td_kind :: disposition_kind

record tool_call_derivation =
  dv_kind :: derivation_kind
  dv_sourceDigest :: string
  dv_effectiveDigest :: string
  dv_registryReference :: string
  dv_registryDigest :: string
  dv_declarationDigest :: string
  dv_rewrites :: "rule list"

record tool_result =
  tr_callID :: string
  tr_name :: string
  tr_output :: string
  tr_error :: string

record tool_placeholder =
  tp_callID :: string
  tp_name :: string
  tp_reason :: string

record mark =
  mk_spoken :: string
  mk_cut :: string
  mk_pending :: string
  mk_measured :: bool
  mk_playedMS :: nat

record assistant_state =
  as_itemID :: string
  as_visibility :: visibility
  as_playedAudioMS :: nat
  as_heard :: "mark option"

record repair_state =
  rs_target :: string
  rs_status :: repair_status
  rs_repairItemID :: string
  rs_playedAudioMS :: nat

record event_metadata =
  ev_eventID :: string
  ev_type :: string
  ev_source :: string
  ev_channel :: string
  ev_occurredNS :: nat
  ev_correlationID :: string
  ev_supersedes :: nat
  ev_batchID :: string
  ev_batchIndex :: nat
  ev_batchSize :: nat

record media_ref =
  me_handle :: string
  me_mimeType :: string
  me_source :: string
  me_width :: int
  me_height :: int
  me_bytes :: int
  me_capturedNS :: nat

record observation_meta =
  om_observer :: string
  om_source :: string
  om_authority :: authority
  om_media :: "media_ref list"

record item =
  item_id :: string
  item_kind :: kind
  item_ns :: nat
  item_parents :: "string list"
  item_revision :: nat
  item_invocation :: string
  item_producer :: producer
  item_content :: string
  item_interrupted :: bool
  item_visibility :: visibility
  item_toolCall :: "tool_call option"
  item_derivation :: "tool_call_derivation option"
  item_disposition :: "tool_proposal_disposition option"
  item_toolResult :: "tool_result option"
  item_placeholder :: "tool_placeholder option"
  item_observation :: "observation_meta option"
  item_state :: "assistant_state option"
  item_repair :: "repair_state option"
  item_event :: "event_metadata option"
  item_stateType :: string
  item_providerState :: string

record snapshot =
  sn_version :: nat
  sn_items :: "item list"

type_synonym tool_identity = "string \<times> string"

subsection \<open>Why an item is refused\<close>

datatype common_fault =
    IDRequired | PhaseRequired | ProviderStateTypeRequired | ProviderStateInvalid
  | EventIncomplete | EventNotValidOn kind

datatype supersession_fault =
    SupersessionCommon common_fault | OnlyObservationSupersedes | SupersedesNotOlder
  | SupersedesUnknown nat | SupersedesTargetInvalid common_fault | DifferentStream nat
  | NotLatestOfStream | NotCausalToSuperseded string

datatype observation_fault =
    ObserverNameRequired | UserPhaseRequired | ObserverPhaseRequired | BadAuthority authority
  | MediaHandleRequired nat | MediaTypeRequired nat | MediaNegative nat | DuplicateMedia string

datatype derivation_fault =
    DerivationMissing | DerivationNotRuntime | UnknownDerivation derivation_kind
  | SourceDigestMismatch | EffectiveDigestMismatch | DigestsEqual | RegistryNotCanonical
  | RegistryDigestNotCanonical | DeclarationDigestNotCanonical | RewritesUnbounded
  | RewritesNotOrdered | RewriteUnsupported string | ReplayFailed ta_error
  | RewriteWithoutEffect | ReplayDiffers

datatype tool_fault =
    CallIDAndNameRequired | ArgumentsInvalidJSON | ArgumentsNotObject
  | UnscopedConflict string | DuplicateProposal string | ProposalConflictsWithCall string
  | UnknownDispositionKind | UnknownProposal string | DispositionNotRuntime
  | DispositionIncomplete | DispositionItemMismatch | DispositionChangesSource
  | DispositionChangesCall | DispositionNotCausal | AlreadyPromoted | AlreadyDisposed
  | DuplicateCall string | ProposalTerminal | PromotionNotCausal | PromotionChangesSource
  | PromotionChangesProposal | DerivationWithoutChange | InvalidDerivation derivation_fault
  | DerivationWithoutProposal

datatype outcome_fault =
    UnknownInInvocation string | AmbiguousCall string | UnknownCall string
  | ResultIncomplete | ResultNameMismatch | AlreadyResolved | ResultNotOneOutcome
  | PlaceholderIncomplete | PlaceholderReason | PlaceholderNameMismatch | DuplicatePlaceholder

datatype state_fault =
    UnknownAssistant string | BadTransition visibility visibility | PlayedMSOnlyWhenPlayed
  | RepairTargetRequired | RepairTargetNotAssistant | RepairNotPlayed | RepairRevisionNotLater
  | RepairRevisionUnknown | RepairNotCausal | RepairNeedsDuration | RepairNamesResolver
  | RepairAlreadyPending string | NoPendingRepair string | ResolvedHasDuration
  | ResolvedRevisionUnknown | ResolvedNotAssistant | ResolvedNotAuthoritative
  | ResolvedNotCausal | UnknownRepairStatus

datatype fault =
    CommonFault common_fault | DuplicateID string | TimeBackwards | OwnParent
  | DuplicateParent string | ParentMissing string | SupersessionFault supersession_fault
  | ProvenanceNotValidOn kind | DerivationNotValidOn kind | BadPayload kind | BadVisibility
  | ObservationFault observation_fault | ObserverNeedsProvenance
  | ToolFault tool_fault | OutcomeFault outcome_fault | StateFault state_fault | UnknownKind kind

subsection \<open>Checks of one item\<close>

definition validateCommon :: "item \<Rightarrow> common_fault option" where
  "validateCommon it =
     (if blank (item_id it) then Some IDRequired
      else if pr_phase (item_producer it) = PhaseNone then Some PhaseRequired
      else if item_stateType it = [] \<and> item_providerState it \<noteq> [] then Some ProviderStateTypeRequired
      else if item_stateType it \<noteq> [] \<and> (item_providerState it = [] \<or> \<not> json_valid (item_providerState it))
      then Some ProviderStateInvalid
      else case item_event it of
        None \<Rightarrow> None
      | Some e \<Rightarrow>
          if blank (ev_eventID e) \<or> blank (ev_type e) \<or> blank (ev_source e) \<or> blank (ev_channel e)
          then Some EventIncomplete
          else if item_kind it \<in> {KindObservation, KindToolResult, KindToolPlaceholder,
                                  KindAssistantState, KindRepair}
          then None else Some (EventNotValidOn (item_kind it)))"

definition AuthorityOf :: "item \<Rightarrow> authority" where
  "AuthorityOf it =
     (if item_kind it = KindObservation then
        (case item_observation it of
           Some m \<Rightarrow> om_authority m
         | None \<Rightarrow> if pr_phase (item_producer it) = PhaseObserver then AuthorityObserver
                   else AuthorityUser)
      else AuthoritySystem)"

definition validateMedia :: "nat \<Rightarrow> media_ref \<Rightarrow> observation_fault option" where
  "validateMedia i m =
     (if blank (me_handle m) then Some (MediaHandleRequired i)
      else if blank (me_mimeType m) then Some (MediaTypeRequired i)
      else if me_width m < 0 \<or> me_height m < 0 \<or> me_bytes m < 0 then Some (MediaNegative i)
      else None)"

fun validateMediaList :: "nat \<Rightarrow> string list \<Rightarrow> media_ref list \<Rightarrow> observation_fault option" where
  "validateMediaList i seen [] = None"
| "validateMediaList i seen (m # ms) =
     (case validateMedia i m of
        Some e \<Rightarrow> Some e
      | None \<Rightarrow>
          if me_handle m \<in> set seen then Some (DuplicateMedia (me_handle m))
          else validateMediaList (i + 1) (me_handle m # seen) ms)"

definition validateObservation :: "observation_meta \<Rightarrow> producer \<Rightarrow> observation_fault option" where
  "validateObservation m p =
     (if blank (om_observer m) then Some ObserverNameRequired
      else if om_authority m = AuthorityUser \<and> pr_phase p \<noteq> PhaseUser then Some UserPhaseRequired
      else if om_authority m = AuthorityObserver \<and> pr_phase p \<noteq> PhaseObserver then Some ObserverPhaseRequired
      else if om_authority m \<noteq> AuthorityUser \<and> om_authority m \<noteq> AuthorityObserver
      then Some (BadAuthority (om_authority m))
      else validateMediaList 0 [] (om_media m))"

definition validateToolCall :: "tool_call \<Rightarrow> tool_fault option" where
  "validateToolCall c =
     (if blank (tc_callID c) \<or> blank (tc_name c) then Some CallIDAndNameRequired
      else if tc_arguments c = [] \<or> \<not> json_valid (tc_arguments c) then Some ArgumentsInvalidJSON
      else if \<not> json_object (tc_arguments c) then Some ArgumentsNotObject
      else None)"

definition validatePlaceholder :: "tool_placeholder \<Rightarrow> outcome_fault option" where
  "validatePlaceholder p =
     (if blank (tp_callID p) \<or> blank (tp_name p) then Some PlaceholderIncomplete
      else if blank (tp_reason p) then Some PlaceholderReason
      else None)"

subsection \<open>Observation streams and supersession\<close>

definition sameObservationStream :: "item \<Rightarrow> item \<Rightarrow> bool" where
  "sameObservationStream l r =
     (case (item_event l, item_event r) of
        (Some a, Some b) \<Rightarrow>
          if ev_correlationID a \<noteq> [] \<and> ev_correlationID b \<noteq> []
          then ev_correlationID a = ev_correlationID b
          else if ev_channel a \<noteq> ev_channel b then False
          else if ev_source a = ev_source b then True
          else ev_channel a = ''voice'' \<and> AuthorityOf l = AuthorityUser \<and> AuthorityOf r = AuthorityUser
      | _ \<Rightarrow> True)"

text \<open>The greatest index whose item satisfies a test: the loops that walk down the prefix.\<close>

fun last_index :: "('a \<Rightarrow> bool) \<Rightarrow> 'a list \<Rightarrow> nat option" where
  "last_index P [] = None"
| "last_index P (x # xs) =
     (case last_index P xs of
        Some i \<Rightarrow> Some (Suc i)
      | None \<Rightarrow> if P x then Some 0 else None)"

text \<open>\<open>Inr None\<close> is the code's \<^verbatim>\<open>-1, nil\<close>: no supersession is declared.\<close>

definition ResolveObservationSupersession ::
  "item list \<Rightarrow> item \<Rightarrow> (supersession_fault, nat option) result" where
  "ResolveObservationSupersession prefix it =
     (case item_event it of
        None \<Rightarrow> Inr None
      | Some e \<Rightarrow>
         (if ev_supersedes e = 0 then Inr None
          else case validateCommon it of
            Some f \<Rightarrow> Inl (SupersessionCommon f)
          | None \<Rightarrow>
             (if item_kind it \<noteq> KindObservation then Inl OnlyObservationSupersedes
              else if item_revision it = 0 \<or> item_revision it \<le> ev_supersedes e then Inl SupersedesNotOlder
              else case last_index (\<lambda>c. item_kind c = KindObservation
                                       \<and> item_revision c = ev_supersedes e) prefix of
                None \<Rightarrow> Inl (SupersedesUnknown (ev_supersedes e))
              | Some i \<Rightarrow>
                 (let old = prefix ! i in
                  case validateCommon old of
                    Some f \<Rightarrow> Inl (SupersedesTargetInvalid f)
                  | None \<Rightarrow>
                     (if \<not> sameObservationStream old it then Inl (DifferentStream (ev_supersedes e))
                      else if (case last_index (\<lambda>c. item_kind c = KindObservation
                                                  \<and> sameObservationStream c it) prefix of
                                 None \<Rightarrow> False
                               | Some j \<Rightarrow> item_revision (prefix ! j) \<noteq> ev_supersedes e)
                      then Inl NotLatestOfStream
                      else if item_id old \<notin> set (item_parents it)
                      then Inl (NotCausalToSuperseded (item_id old))
                      else Inr (Some i))))))"

subsection \<open>Tool-call derivations\<close>

definition ToolCallArgumentsDigest :: "string \<Rightarrow> string" where
  "ToolCallArgumentsDigest args = ''sha256:'' @ sha256_hex args"

definition isCanonicalSHA256 :: "string \<Rightarrow> bool" where
  "isCanonicalSHA256 v \<longleftrightarrow>
     take 7 v = ''sha256:'' \<and> length v = 71 \<and> v = ToLower v
     \<and> list_all (\<lambda>c. hex_value (byte c) \<noteq> None) (drop 7 v)"

fun rewrites_fault :: "string option \<Rightarrow> rule list \<Rightarrow> derivation_fault option" where
  "rewrites_fault prev [] = None"
| "rewrites_fault prev (r # rs) =
     (if Argument r = [] \<or> Argument r \<noteq> TrimSpace (Argument r)
         \<or> (case prev of None \<Rightarrow> False | Some l \<Rightarrow> \<not> string_less l (Argument r))
      then Some RewritesNotOrdered
      else if \<not> Supported (Normalizer r) then Some (RewriteUnsupported (Normalizer r))
      else rewrites_fault (Some (Argument r)) rs)"

definition replayDerivation ::
  "string \<Rightarrow> string \<Rightarrow> rule list \<Rightarrow> derivation_fault option" where
  "replayDerivation source effective rules =
     (case Apply source rules of
        Inl e \<Rightarrow> Some (ReplayFailed e)
      | Inr (out, changed) \<Rightarrow>
          if changed \<noteq> rules then Some RewriteWithoutEffect
          else if out \<noteq> effective then Some ReplayDiffers
          else None)"

definition validateToolCallDerivation :: "item \<Rightarrow> tool_call \<Rightarrow> string \<Rightarrow> derivation_fault option" where
  "validateToolCallDerivation it call source =
     (case item_derivation it of
        None \<Rightarrow> Some DerivationMissing
      | Some d \<Rightarrow>
         (if pr_phase (item_producer it) \<noteq> PhaseRuntime then Some DerivationNotRuntime
          else if dv_kind d \<noteq> ToolCallDerivationSchemaNormalizationV1 then Some (UnknownDerivation (dv_kind d))
          else if dv_sourceDigest d \<noteq> ToolCallArgumentsDigest source then Some SourceDigestMismatch
          else if dv_effectiveDigest d \<noteq> ToolCallArgumentsDigest (tc_arguments call)
          then Some EffectiveDigestMismatch
          else if dv_sourceDigest d = dv_effectiveDigest d then Some DigestsEqual
          else if dv_registryReference d = [] \<or> dv_registryReference d \<noteq> TrimSpace (dv_registryReference d)
          then Some RegistryNotCanonical
          else if \<not> isCanonicalSHA256 (dv_registryDigest d) then Some RegistryDigestNotCanonical
          else if \<not> isCanonicalSHA256 (dv_declarationDigest d) then Some DeclarationDigestNotCanonical
          else if dv_rewrites d = [] \<or> 4096 < length (dv_rewrites d) then Some RewritesUnbounded
          else case rewrites_fault None (dv_rewrites d) of
            Some f \<Rightarrow> Some f
          | None \<Rightarrow> replayDerivation source (tc_arguments call) (dv_rewrites d)))"

definition isPromotedToolProposal :: "item \<Rightarrow> item \<Rightarrow> bool" where
  "isPromotedToolProposal proposal call \<longleftrightarrow>
     (case (item_toolCall proposal, item_toolCall call) of
        (Some p, Some c) \<Rightarrow>
          item_kind proposal = KindToolProposal \<and> item_kind call = KindToolCall
          \<and> item_invocation call = item_invocation proposal
          \<and> item_revision call = item_revision proposal
          \<and> tc_callID c = tc_callID p \<and> tc_name c = tc_name p
          \<and> item_id proposal \<in> set (item_parents call)
          \<and> validateToolCall p = None \<and> validateToolCall c = None
          \<and> (if tc_arguments c = tc_arguments p then item_derivation call = None
             else validateToolCallDerivation call c (tc_arguments p) = None)
      | _ \<Rightarrow> False)"

end
