(* ===== verification/Trajectory_Store.thy ===== *)
theory Trajectory_Store
  imports Trajectory
begin

section \<open>\<^verbatim>\<open>trajectory.Store\<close>: the append-only log\<close>

text \<open>
  The store of \<^verbatim>\<open>src/trajectory/trajectory.go\<close>: its record, the handler of every item kind, and the
  append operations. A handler takes the store and returns the updated store or the fault; the
  batch runs on a clone, so a fault leaves the store as it was, which the model expresses by not
  returning a store with an error. The store lock makes each operation atomic, so an operation is
  one function application. Prefix identities (\<^verbatim>\<open>prefixDigest\<close>, \<^verbatim>\<open>prefixTracking\<close>) are left out:
  this is the store that nobody asked for an identity.
\<close>

record proposal_record =
  pp_itemID :: string
  pp_invocation :: string
  pp_revision :: nat
  pp_call :: tool_call

record disposition_record =
  dr_itemID :: string
  dr_proposalItemID :: string
  dr_kind :: disposition_kind

record store =
  st_items :: "item list"
  st_byID :: "(string, nat) gomap"
  st_proposals :: "(tool_identity, proposal_record) gomap"
  st_dispositions :: "(tool_identity, disposition_record) gomap"
  st_calls :: "(tool_identity, string) gomap"
  st_results :: "tool_identity goset"
  st_placeholders :: "tool_identity goset"
  st_states :: "(string, visibility) gomap"
  st_repairs :: "(string, string) gomap"
  st_hasTime :: bool
  st_lastNS :: nat

definition NewStore :: store where
  "NewStore =
     \<lparr>st_items = [], st_byID = [], st_proposals = [], st_dispositions = [], st_calls = [],
      st_results = [], st_placeholders = [], st_states = [], st_repairs = [],
      st_hasTime = False, st_lastNS = 0\<rparr>"

datatype append_error =
    EmptyBatch | VersionConflict nat nat | Superseded kind nat nat | ItemError nat string kind fault

subsection \<open>Tools\<close>

definition resolveToolCall :: "store \<Rightarrow> string \<Rightarrow> string \<Rightarrow> (outcome_fault, tool_identity \<times> string) result" where
  "resolveToolCall s invo callID =
     (if invo \<noteq> [] then
        (case map_of (st_calls s) (invo, callID) of
           None \<Rightarrow> Inl (UnknownInInvocation callID)
         | Some n \<Rightarrow> Inr ((invo, callID), n))
      else
        (case filter (\<lambda>(k, _). snd k = callID) (st_calls s) of
           [] \<Rightarrow> Inl (UnknownCall callID)
         | [(k, n)] \<Rightarrow> Inr (k, n)
         | _ \<Rightarrow> Inl (AmbiguousCall callID)))"

definition normalizeToolInvocation :: "store \<Rightarrow> item \<Rightarrow> (outcome_fault, item) result" where
  "normalizeToolInvocation s it =
     (if item_invocation it \<noteq> [] then Inr it
      else
        (let callID =
           (case (item_kind it, item_toolResult it, item_placeholder it) of
              (KindToolResult, Some r, _) \<Rightarrow> Some (tr_callID r)
            | (KindToolPlaceholder, _, Some p) \<Rightarrow> Some (tp_callID p)
            | _ \<Rightarrow> None)
         in case callID of
              None \<Rightarrow> Inr it
            | Some c \<Rightarrow>
                if blank c then Inr it
                else bind_result (resolveToolCall s [] c) (\<lambda>(k, _). Inr (it\<lparr>item_invocation := fst k\<rparr>))))"

definition conflicts :: "tool_identity \<Rightarrow> tool_identity \<Rightarrow> bool" where
  "conflicts candidate identity \<longleftrightarrow>
     snd candidate = snd identity \<and> candidate \<noteq> identity \<and> (fst candidate = [] \<or> fst identity = [])"

definition hasUnscopedConflict :: "store \<Rightarrow> tool_identity \<Rightarrow> bool" where
  "hasUnscopedConflict s identity \<longleftrightarrow>
     list_ex (\<lambda>(k, _). conflicts k identity) (st_proposals s)
     \<or> list_ex (\<lambda>(k, _). conflicts k identity) (st_calls s)"

definition acceptToolProposal :: "store \<Rightarrow> item \<Rightarrow> tool_call \<Rightarrow> (tool_fault, store) result" where
  "acceptToolProposal s it c =
     (case validateToolCall c of
        Some f \<Rightarrow> Inl f
      | None \<Rightarrow>
         (let identity = (item_invocation it, tc_callID c) in
          if hasUnscopedConflict s identity then Inl (UnscopedConflict (tc_callID c))
          else if gm_has (st_proposals s) identity then Inl (DuplicateProposal (tc_callID c))
          else if gm_has (st_calls s) identity then Inl (ProposalConflictsWithCall (tc_callID c))
          else Inr (s\<lparr>st_proposals := AList.update identity
                 \<lparr>pp_itemID = item_id it, pp_invocation = item_invocation it,
                  pp_revision = item_revision it, pp_call = c\<rparr> (st_proposals s)\<rparr>)))"

definition validateToolProposalDisposition ::
  "item \<Rightarrow> tool_proposal_disposition \<Rightarrow> proposal_record \<Rightarrow> tool_fault option" where
  "validateToolProposalDisposition it d p =
     (if pr_phase (item_producer it) \<noteq> PhaseRuntime then Some DispositionNotRuntime
      else if blank (td_proposalItemID d) \<or> blank (td_callID d) \<or> blank (td_name d)
      then Some DispositionIncomplete
      else if td_proposalItemID d \<noteq> pp_itemID p then Some DispositionItemMismatch
      else if item_invocation it \<noteq> pp_invocation p \<or> item_revision it \<noteq> pp_revision p
      then Some DispositionChangesSource
      else if td_callID d \<noteq> tc_callID (pp_call p) \<or> td_name d \<noteq> tc_name (pp_call p)
      then Some DispositionChangesCall
      else if pp_itemID p \<notin> set (item_parents it) then Some DispositionNotCausal
      else None)"

definition acceptDisposition ::
  "store \<Rightarrow> item \<Rightarrow> tool_proposal_disposition \<Rightarrow> (tool_fault, store) result" where
  "acceptDisposition s it d =
     (if td_kind d \<noteq> ToolProposalToolPolicySuppressed \<and> td_kind d \<noteq> ToolProposalRepetitionSuppressed
      then Inl UnknownDispositionKind
      else
        (let identity = (item_invocation it, td_callID d) in
         case map_of (st_proposals s) identity of
           None \<Rightarrow> Inl (UnknownProposal (td_proposalItemID d))
         | Some p \<Rightarrow>
            (case validateToolProposalDisposition it d p of
               Some f \<Rightarrow> Inl f
             | None \<Rightarrow>
                (if gm_has (st_calls s) identity then Inl AlreadyPromoted
                 else if gm_has (st_dispositions s) identity then Inl AlreadyDisposed
                 else Inr (s\<lparr>st_dispositions := AList.update identity
                        \<lparr>dr_itemID = item_id it, dr_proposalItemID = td_proposalItemID d,
                         dr_kind = td_kind d\<rparr> (st_dispositions s)\<rparr>)))))"

definition validateToolCallPromotion :: "item \<Rightarrow> tool_call \<Rightarrow> proposal_record \<Rightarrow> tool_fault option" where
  "validateToolCallPromotion it c p =
     (if pp_itemID p \<notin> set (item_parents it) then Some PromotionNotCausal
      else if item_invocation it \<noteq> pp_invocation p \<or> item_revision it \<noteq> pp_revision p
      then Some PromotionChangesSource
      else if tc_callID c \<noteq> tc_callID (pp_call p) \<or> tc_name c \<noteq> tc_name (pp_call p)
      then Some PromotionChangesProposal
      else if tc_arguments c = tc_arguments (pp_call p) then
        (if item_derivation it \<noteq> None then Some DerivationWithoutChange else None)
      else if item_derivation it = None then Some PromotionChangesProposal
      else map_option InvalidDerivation (validateToolCallDerivation it c (tc_arguments (pp_call p))))"

definition unpromotedCall :: "store \<Rightarrow> item \<Rightarrow> tool_call \<Rightarrow> tool_fault option" where
  "unpromotedCall s it c =
     (if item_derivation it \<noteq> None then Some DerivationWithoutProposal
      else if list_ex (\<lambda>(k, p). snd k = tc_callID c \<and> pp_itemID p \<in> set (item_parents it)) (st_proposals s)
      then Some PromotionChangesSource
      else None)"

definition acceptToolCall :: "store \<Rightarrow> item \<Rightarrow> tool_call \<Rightarrow> (tool_fault, store) result" where
  "acceptToolCall s it c =
     (case validateToolCall c of
        Some f \<Rightarrow> Inl f
      | None \<Rightarrow>
         (let identity = (item_invocation it, tc_callID c) in
          if hasUnscopedConflict s identity then Inl (UnscopedConflict (tc_callID c))
          else if gm_has (st_calls s) identity then Inl (DuplicateCall (tc_callID c))
          else if gm_has (st_dispositions s) identity then Inl ProposalTerminal
          else
            (case (case map_of (st_proposals s) identity of
                     Some p \<Rightarrow> validateToolCallPromotion it c p
                   | None \<Rightarrow> unpromotedCall s it c) of
               Some f \<Rightarrow> Inl f
             | None \<Rightarrow> Inr (s\<lparr>st_calls := AList.update identity (tc_name c) (st_calls s)\<rparr>))))"

definition acceptToolResult :: "store \<Rightarrow> item \<Rightarrow> tool_result \<Rightarrow> (outcome_fault, store) result" where
  "acceptToolResult s it r =
     (if blank (tr_callID r) \<or> blank (tr_name r) then Inl ResultIncomplete
      else bind_result (resolveToolCall s (item_invocation it) (tr_callID r))
        (\<lambda>(identity, n).
           if n \<noteq> tr_name r then Inl ResultNameMismatch
           else if gm_has (st_results s) identity then Inl AlreadyResolved
           else
             (let hasOutput = (tr_output r \<noteq> []); hasError = (\<not> blank (tr_error r)) in
              if hasOutput = hasError \<or> hasOutput \<and> \<not> json_valid (tr_output r)
              then Inl ResultNotOneOutcome
              else Inr (s\<lparr>st_results := gs_add identity (st_results s),
                          st_placeholders := AList.delete identity (st_placeholders s)\<rparr>))))"

definition acceptToolPlaceholder :: "store \<Rightarrow> item \<Rightarrow> tool_placeholder \<Rightarrow> (outcome_fault, store) result" where
  "acceptToolPlaceholder s it p =
     (case validatePlaceholder p of
        Some f \<Rightarrow> Inl f
      | None \<Rightarrow>
         bind_result (resolveToolCall s (item_invocation it) (tp_callID p))
           (\<lambda>(identity, n).
              if n \<noteq> tp_name p then Inl PlaceholderNameMismatch
              else if gm_has (st_results s) identity then Inl AlreadyResolved
              else if gm_has (st_placeholders s) identity then Inl DuplicatePlaceholder
              else Inr (s\<lparr>st_placeholders := gs_add identity (st_placeholders s)\<rparr>)))"

subsection \<open>Visibility and repairs\<close>

definition transition_allowed :: "visibility \<Rightarrow> visibility \<Rightarrow> bool" where
  "transition_allowed cur new =
     (case cur of
        VisibilityPrepared \<Rightarrow> new \<in> {VisibilityQueued, VisibilityPlayed, VisibilityCancelled}
      | VisibilityQueued \<Rightarrow> new \<in> {VisibilityPlayed, VisibilityCancelled}
      | VisibilityPlayed \<Rightarrow> new = VisibilityPlayed
      | VisibilityCancelled \<Rightarrow> new = VisibilityCancelled
      | _ \<Rightarrow> False)"

definition transitionAssistant :: "store \<Rightarrow> assistant_state \<Rightarrow> (state_fault, store) result" where
  "transitionAssistant s a =
     (case map_of (st_states s) (as_itemID a) of
        None \<Rightarrow> Inl (UnknownAssistant (as_itemID a))
      | Some cur \<Rightarrow>
         (if \<not> transition_allowed cur (as_visibility a) then Inl (BadTransition cur (as_visibility a))
          else if as_visibility a \<noteq> VisibilityPlayed \<and> as_playedAudioMS a \<noteq> 0
          then Inl PlayedMSOnlyWhenPlayed
          else Inr (s\<lparr>st_states := AList.update (as_itemID a) (as_visibility a) (st_states s)\<rparr>)))"

definition hasObservationRevision :: "store \<Rightarrow> nat \<Rightarrow> bool" where
  "hasObservationRevision s r \<longleftrightarrow>
     list_ex (\<lambda>i. item_kind i = KindObservation \<and> item_revision i = r) (st_items s)"

text \<open>\<^verbatim>\<open>store.items[store.byID[id]]\<close> for an identifier that is present.\<close>

definition item_of :: "store \<Rightarrow> string \<Rightarrow> item option" where
  "item_of s i = (case map_of (st_byID s) i of None \<Rightarrow> None | Some n \<Rightarrow> Some (st_items s ! n))"

definition requireRepair :: "store \<Rightarrow> item \<Rightarrow> repair_state \<Rightarrow> item \<Rightarrow> (state_fault, store) result" where
  "requireRepair s it r target =
     (if map_of (st_states s) (rs_target r) \<noteq> Some VisibilityPlayed then Inl RepairNotPlayed
      else if item_revision it = 0 \<or> item_revision it \<le> item_revision target then Inl RepairRevisionNotLater
      else if \<not> hasObservationRevision s (item_revision it) then Inl RepairRevisionUnknown
      else if rs_target r \<notin> set (item_parents it) then Inl RepairNotCausal
      else if rs_playedAudioMS r = 0 then Inl RepairNeedsDuration
      else if rs_repairItemID r \<noteq> [] then Inl RepairNamesResolver
      else if gm_has (st_repairs s) (rs_target r) then Inl (RepairAlreadyPending (rs_target r))
      else Inr (s\<lparr>st_repairs := AList.update (rs_target r) (item_id it) (st_repairs s)\<rparr>))"

text \<open>A pending repair always names an item of the log (\<open>pending_in_log\<close> below), so the last
  branch of the lookup of the required item is not reached.\<close>

definition resolveRepair :: "store \<Rightarrow> item \<Rightarrow> repair_state \<Rightarrow> (state_fault, store) result" where
  "resolveRepair s it r =
     (case map_of (st_repairs s) (rs_target r) of
        None \<Rightarrow> Inl (NoPendingRepair (rs_target r))
      | Some requiredID \<Rightarrow>
         (if rs_playedAudioMS r \<noteq> 0 then Inl ResolvedHasDuration
          else if \<not> hasObservationRevision s (item_revision it) then Inl ResolvedRevisionUnknown
          else case item_of s (rs_repairItemID r) of
            None \<Rightarrow> Inl ResolvedNotAssistant
          | Some correction \<Rightarrow>
             (if item_kind correction \<noteq> KindAssistant \<or> rs_repairItemID r = rs_target r
              then Inl ResolvedNotAssistant
              else case item_of s requiredID of
                None \<Rightarrow> Inl ResolvedNotAuthoritative
              | Some required \<Rightarrow>
                 (if pr_phase (item_producer correction) \<noteq> PhaseSlow
                     \<or> item_revision correction \<noteq> item_revision it
                     \<or> item_revision it < item_revision required
                  then Inl ResolvedNotAuthoritative
                  else if rs_target r \<notin> set (item_parents it) \<or> rs_repairItemID r \<notin> set (item_parents it)
                  then Inl ResolvedNotCausal
                  else Inr (s\<lparr>st_repairs := AList.delete (rs_target r) (st_repairs s)\<rparr>)))))"

definition transitionRepair :: "store \<Rightarrow> item \<Rightarrow> repair_state \<Rightarrow> (state_fault, store) result" where
  "transitionRepair s it r =
     (if blank (rs_target r) then Inl RepairTargetRequired
      else case item_of s (rs_target r) of
        None \<Rightarrow> Inl RepairTargetNotAssistant
      | Some target \<Rightarrow>
         (if item_kind target \<noteq> KindAssistant then Inl RepairTargetNotAssistant
          else case rs_status r of
            RepairRequired \<Rightarrow> requireRepair s it r target
          | RepairResolved \<Rightarrow> resolveRepair s it r
          | RepairOther _ \<Rightarrow> Inl UnknownRepairStatus))"

subsection \<open>One item\<close>

definition payloadCount :: "item \<Rightarrow> nat" where
  "payloadCount it =
     (if item_toolCall it \<noteq> None then 1 else 0) + (if item_disposition it \<noteq> None then 1 else 0)
     + (if item_toolResult it \<noteq> None then 1 else 0) + (if item_state it \<noteq> None then 1 else 0)
     + (if item_repair it \<noteq> None then 1 else 0) + (if item_placeholder it \<noteq> None then 1 else 0)"

text \<open>The shape every item with one typed payload has: that payload, no content, no visibility.\<close>

definition one_payload :: "item \<Rightarrow> bool" where
  "one_payload it \<longleftrightarrow> payloadCount it = 1 \<and> item_content it = [] \<and> item_visibility it = VisibilityNone"

abbreviation lift_fault :: "('f \<Rightarrow> fault) \<Rightarrow> ('f, store) result \<Rightarrow> (fault, store) result" where
  "lift_fault c r \<equiv> (case r of Inl f \<Rightarrow> Inl (c f) | Inr s \<Rightarrow> Inr s)"

definition validateObservationItem :: "item \<Rightarrow> fault option" where
  "validateObservationItem it =
     (if blank (item_content it) \<or> payloadCount it \<noteq> 0 \<or> item_visibility it \<noteq> VisibilityNone
      then Some (BadPayload KindObservation)
      else case item_observation it of
        Some m \<Rightarrow> map_option ObservationFault (validateObservation m (item_producer it))
      | None \<Rightarrow>
          if pr_phase (item_producer it) = PhaseObserver then Some ObserverNeedsProvenance else None)"

definition validatePlainKind :: "store \<Rightarrow> item \<Rightarrow> (fault, store) result" where
  "validatePlainKind s it =
     (case item_kind it of
        KindInstruction \<Rightarrow>
          if blank (item_content it) \<or> payloadCount it \<noteq> 0 \<or> item_visibility it \<noteq> VisibilityNone
             \<or> item_observation it \<noteq> None
          then Inl (BadPayload KindInstruction) else Inr s
      | KindObservation \<Rightarrow>
          (case validateObservationItem it of Some f \<Rightarrow> Inl f | None \<Rightarrow> Inr s)
      | KindReasoning \<Rightarrow>
          if blank (item_content it) \<and> item_providerState it = [] then Inl (BadPayload KindReasoning)
          else if payloadCount it \<noteq> 0 \<or> item_visibility it \<noteq> VisibilityNone
          then Inl (BadPayload KindReasoning) else Inr s
      | KindAssistant \<Rightarrow>
          if item_content it = [] \<or> payloadCount it \<noteq> 0 then Inl (BadPayload KindAssistant)
          else if item_visibility it \<noteq> VisibilityPrepared \<and> item_visibility it \<noteq> VisibilityPlayed
          then Inl BadVisibility
          else Inr (s\<lparr>st_states := AList.update (item_id it) (item_visibility it) (st_states s)\<rparr>)
      | k \<Rightarrow> Inl (UnknownKind k))"

definition validateKind :: "store \<Rightarrow> item \<Rightarrow> (fault, store) result" where
  "validateKind s it =
     (let k = item_kind it in
      if k \<noteq> KindObservation \<and> item_observation it \<noteq> None then Inl (ProvenanceNotValidOn k)
      else if k \<noteq> KindToolCall \<and> item_derivation it \<noteq> None then Inl (DerivationNotValidOn k)
      else case k of
        KindAssistantState \<Rightarrow>
          (case item_state it of
             Some a \<Rightarrow> if one_payload it then lift_fault StateFault (transitionAssistant s a)
                       else Inl (BadPayload k)
           | None \<Rightarrow> Inl (BadPayload k))
      | KindRepair \<Rightarrow>
          (case item_repair it of
             Some r \<Rightarrow> if one_payload it then lift_fault StateFault (transitionRepair s it r)
                       else Inl (BadPayload k)
           | None \<Rightarrow> Inl (BadPayload k))
      | KindToolProposal \<Rightarrow>
          (case item_toolCall it of
             Some c \<Rightarrow> if one_payload it then lift_fault ToolFault (acceptToolProposal s it c)
                       else Inl (BadPayload k)
           | None \<Rightarrow> Inl (BadPayload k))
      | KindToolProposalDisposition \<Rightarrow>
          (case item_disposition it of
             Some d \<Rightarrow>
               if one_payload it \<and> item_stateType it = [] \<and> item_providerState it = []
               then lift_fault ToolFault (acceptDisposition s it d) else Inl (BadPayload k)
           | None \<Rightarrow> Inl (BadPayload k))
      | KindToolCall \<Rightarrow>
          (case item_toolCall it of
             Some c \<Rightarrow> if one_payload it then lift_fault ToolFault (acceptToolCall s it c)
                       else Inl (BadPayload k)
           | None \<Rightarrow> Inl (BadPayload k))
      | KindToolPlaceholder \<Rightarrow>
          (case item_placeholder it of
             Some p \<Rightarrow> if one_payload it then lift_fault OutcomeFault (acceptToolPlaceholder s it p)
                       else Inl (BadPayload k)
           | None \<Rightarrow> Inl (BadPayload k))
      | KindToolResult \<Rightarrow>
          (case item_toolResult it of
             Some r \<Rightarrow> if one_payload it then lift_fault OutcomeFault (acceptToolResult s it r)
                       else Inl (BadPayload k)
           | None \<Rightarrow> Inl (BadPayload k))
      | _ \<Rightarrow> validatePlainKind s it)"

fun parents_fault :: "store \<Rightarrow> string \<Rightarrow> string list \<Rightarrow> string list \<Rightarrow> fault option" where
  "parents_fault s i seen [] = None"
| "parents_fault s i seen (p # ps) =
     (if p = i then Some OwnParent
      else if p \<in> set seen then Some (DuplicateParent p)
      else if \<not> gm_has (st_byID s) p then Some (ParentMissing p)
      else parents_fault s i (p # seen) ps)"

definition default_visibility :: "item \<Rightarrow> item" where
  "default_visibility it =
     (if item_kind it = KindAssistant \<and> item_visibility it = VisibilityNone
      then it\<lparr>item_visibility := VisibilityPrepared\<rparr> else it)"

definition validateHead :: "store \<Rightarrow> item \<Rightarrow> fault option" where
  "validateHead s it =
     (case validateCommon it of
        Some f \<Rightarrow> Some (CommonFault f)
      | None \<Rightarrow>
          if gm_has (st_byID s) (item_id it) then Some (DuplicateID (item_id it))
          else if st_hasTime s \<and> item_ns it < st_lastNS s then Some TimeBackwards
          else parents_fault s (item_id it) [] (item_parents it))"

definition commit :: "store \<Rightarrow> item \<Rightarrow> store" where
  "commit s it =
     s\<lparr>st_byID := AList.update (item_id it) (length (st_items s)) (st_byID s),
       st_items := st_items s @ [it], st_hasTime := True, st_lastNS := item_ns it\<rparr>"

definition appendLocked :: "store \<Rightarrow> item \<Rightarrow> (fault, store) result" where
  "appendLocked s it0 =
     (let it1 = default_visibility it0 in
      case validateHead s it1 of
        Some f \<Rightarrow> Inl f
      | None \<Rightarrow>
         (case normalizeToolInvocation s it1 of
            Inl f \<Rightarrow> Inl (OutcomeFault f)
          | Inr it \<Rightarrow>
             (case ResolveObservationSupersession (st_items s) it of
                Inl f \<Rightarrow> Inl (SupersessionFault f)
              | Inr _ \<Rightarrow> bind_result (validateKind s it) (\<lambda>s'. Inr (commit s' it)))))"

subsection \<open>Batches\<close>

fun appendItems :: "nat \<Rightarrow> store \<Rightarrow> item list \<Rightarrow> (append_error, store) result" where
  "appendItems i s [] = Inr s"
| "appendItems i s (x # xs) =
     (case appendLocked s x of
        Inl f \<Rightarrow> Inl (ItemError i (item_id x) (item_kind x) f)
      | Inr s' \<Rightarrow> appendItems (i + 1) s' xs)"

definition appendBatchLocked :: "store \<Rightarrow> nat option \<Rightarrow> item list \<Rightarrow> (append_error, store) result" where
  "appendBatchLocked s expected items =
     (case expected of
        Some v \<Rightarrow> if v \<noteq> length (st_items s) then Inl (VersionConflict v (length (st_items s)))
                  else appendItems 0 s items
      | None \<Rightarrow> appendItems 0 s items)"

definition appendBatch :: "store \<Rightarrow> nat option \<Rightarrow> item list \<Rightarrow> (append_error, store) result" where
  "appendBatch s expected items =
     (if items = [] then Inl EmptyBatch else appendBatchLocked s expected items)"

definition AppendBatch :: "store \<Rightarrow> item list \<Rightarrow> (append_error, store) result" where
  "AppendBatch s items = appendBatch s None items"

definition Append :: "store \<Rightarrow> item \<Rightarrow> (append_error, store) result" where
  "Append s it = AppendBatch s [it]"

definition AppendBatchAt :: "store \<Rightarrow> nat \<Rightarrow> item list \<Rightarrow> (append_error, store) result" where
  "AppendBatchAt s v items = appendBatch s (Some v) items"

definition AppendBatchAfter ::
  "store \<Rightarrow> nat \<Rightarrow> (item \<Rightarrow> bool) option \<Rightarrow> item list \<Rightarrow> (append_error, store) result" where
  "AppendBatchAfter s base supersedes items =
     (case supersedes of
        None \<Rightarrow> AppendBatchAt s base items
      | Some P \<Rightarrow>
         (if items = [] then Inl EmptyBatch
          else if length (st_items s) < base then Inl (VersionConflict base (length (st_items s)))
          else case find P (drop base (st_items s)) of
            Some it \<Rightarrow> Inl (Superseded (item_kind it) base (length (st_items s)))
          | None \<Rightarrow> appendBatchLocked s None items))"

definition Snapshot :: "store \<Rightarrow> snapshot" where
  "Snapshot s = \<lparr>sn_version = length (st_items s), sn_items = st_items s\<rparr>"

definition Prefix :: "store \<Rightarrow> nat \<Rightarrow> snapshot option" where
  "Prefix s v =
     (if length (st_items s) < v then None
      else Some \<lparr>sn_version = v, sn_items = take v (st_items s)\<rparr>)"

end
