(* ===== verification/Trajectory_Log.thy ===== *)
theory Trajectory_Log
  imports Trajectory_Store
begin

section \<open>What the log guarantees\<close>

text \<open>
  Every index of the store changes with an appended item the way a \<open>*_step\<close> function says, which
  looks at the item alone. \<open>appendLocked_effect\<close> collects this once; the rest of the theory and
  the projections are proved from it.
\<close>

subsection \<open>The effect of one item on each index\<close>

definition states_step :: "(string, visibility) gomap \<Rightarrow> item \<Rightarrow> (string, visibility) gomap" where
  "states_step m it =
     (case item_kind it of
        KindAssistant \<Rightarrow> AList.update (item_id it) (item_visibility it) m
      | KindAssistantState \<Rightarrow>
          (case item_state it of None \<Rightarrow> m | Some a \<Rightarrow> AList.update (as_itemID a) (as_visibility a) m)
      | _ \<Rightarrow> m)"

definition repairs_step :: "(string, string) gomap \<Rightarrow> item \<Rightarrow> (string, string) gomap" where
  "repairs_step m it =
     (if item_kind it \<noteq> KindRepair then m
      else case item_repair it of
        None \<Rightarrow> m
      | Some r \<Rightarrow>
          (case rs_status r of
             RepairRequired \<Rightarrow> AList.update (rs_target r) (item_id it) m
           | RepairResolved \<Rightarrow> AList.delete (rs_target r) m
           | RepairOther _ \<Rightarrow> m))"

definition proposal_of :: "item \<Rightarrow> tool_call \<Rightarrow> proposal_record" where
  "proposal_of it c =
     \<lparr>pp_itemID = item_id it, pp_invocation = item_invocation it, pp_revision = item_revision it,
      pp_call = c\<rparr>"

definition proposals_step ::
  "(tool_identity, proposal_record) gomap \<Rightarrow> item \<Rightarrow> (tool_identity, proposal_record) gomap" where
  "proposals_step m it =
     (if item_kind it \<noteq> KindToolProposal then m
      else case item_toolCall it of
        None \<Rightarrow> m
      | Some c \<Rightarrow> AList.update (item_invocation it, tc_callID c) (proposal_of it c) m)"

definition dispositions_step ::
  "(tool_identity, disposition_record) gomap \<Rightarrow> item \<Rightarrow> (tool_identity, disposition_record) gomap" where
  "dispositions_step m it =
     (if item_kind it \<noteq> KindToolProposalDisposition then m
      else case item_disposition it of
        None \<Rightarrow> m
      | Some d \<Rightarrow>
          AList.update (item_invocation it, td_callID d)
            \<lparr>dr_itemID = item_id it, dr_proposalItemID = td_proposalItemID d, dr_kind = td_kind d\<rparr> m)"

definition calls_step :: "(tool_identity, string) gomap \<Rightarrow> item \<Rightarrow> (tool_identity, string) gomap" where
  "calls_step m it =
     (if item_kind it \<noteq> KindToolCall then m
      else case item_toolCall it of
        None \<Rightarrow> m
      | Some c \<Rightarrow> AList.update (item_invocation it, tc_callID c) (tc_name c) m)"

definition results_step :: "tool_identity goset \<Rightarrow> item \<Rightarrow> tool_identity goset" where
  "results_step m it =
     (if item_kind it \<noteq> KindToolResult then m
      else case item_toolResult it of
        None \<Rightarrow> m
      | Some r \<Rightarrow> gs_add (item_invocation it, tr_callID r) m)"

definition placeholders_step :: "tool_identity goset \<Rightarrow> item \<Rightarrow> tool_identity goset" where
  "placeholders_step m it =
     (case item_kind it of
        KindToolResult \<Rightarrow>
          (case item_toolResult it of None \<Rightarrow> m | Some r \<Rightarrow> AList.delete (item_invocation it, tr_callID r) m)
      | KindToolPlaceholder \<Rightarrow>
          (case item_placeholder it of None \<Rightarrow> m | Some p \<Rightarrow> gs_add (item_invocation it, tp_callID p) m)
      | _ \<Rightarrow> m)"

lemmas step_defs =
  states_step_def repairs_step_def proposals_step_def dispositions_step_def calls_step_def
  results_step_def placeholders_step_def

text \<open>The identity a result or placeholder is recorded under is its own invocation and call.\<close>

lemma resolveToolCall_identity:
  assumes "resolveToolCall s i c = Inr (k, n)"
  shows "snd k = c \<and> (i \<noteq> [] \<longrightarrow> fst k = i) \<and> (k, n) \<in> set (st_calls s)"
proof (cases "i = []")
  case True
  with assms have "filter (\<lambda>(k, _). snd k = c) (st_calls s) = [(k, n)]"
    by (auto simp: resolveToolCall_def split: list.splits)
  then have "(k, n) \<in> set (filter (\<lambda>(k, _). snd k = c) (st_calls s))" by simp
  with True show ?thesis by auto
next
  case False
  with assms show ?thesis by (auto simp: resolveToolCall_def dest: map_of_SomeD split: option.splits)
qed

definition outcome_callID :: "item \<Rightarrow> string option" where
  "outcome_callID it =
     (case (item_kind it, item_toolResult it, item_placeholder it) of
        (KindToolResult, Some r, _) \<Rightarrow> Some (tr_callID r)
      | (KindToolPlaceholder, _, Some p) \<Rightarrow> Some (tp_callID p)
      | _ \<Rightarrow> None)"

lemma outcome_callID_invocation [simp]:
  "outcome_callID (it\<lparr>item_invocation := i\<rparr>) = outcome_callID it"
  by (simp add: outcome_callID_def)

lemma normalize_outcome:
  "normalizeToolInvocation s it =
     (if item_invocation it \<noteq> [] then Inr it
      else case outcome_callID it of
        None \<Rightarrow> Inr it
      | Some c \<Rightarrow> if blank c then Inr it
                  else bind_result (resolveToolCall s [] c) (\<lambda>(k, _). Inr (it\<lparr>item_invocation := fst k\<rparr>)))"
  by (simp add: normalizeToolInvocation_def outcome_callID_def Let_def)

lemma normalize_same:
  assumes "normalizeToolInvocation s it0 = Inr it"
  shows "it = it0\<lparr>item_invocation := item_invocation it\<rparr>
    \<and> (item_invocation it0 \<noteq> [] \<longrightarrow> it = it0)
    \<and> (item_kind it0 \<noteq> KindToolResult \<and> item_kind it0 \<noteq> KindToolPlaceholder \<longrightarrow> it = it0)"
  using assms
  by (auto simp: normalize_outcome outcome_callID_def bind_result_eq_Inr split: if_splits option.splits kind.splits)

lemma invocation_id [simp]: "it\<lparr>item_invocation := item_invocation it\<rparr> = it"
  by (cases it) simp

lemma normalizeE:
  assumes "normalizeToolInvocation s it0 = Inr it"
  obtains i where "it = it0\<lparr>item_invocation := i\<rparr>"
    "i = item_invocation it0 \<or>
       item_invocation it0 = [] \<and> item_kind it0 \<in> {KindToolResult, KindToolPlaceholder}"
  using normalize_same [OF assms] by (metis insertCI item.select_convs(6) item.surjective item.update_convs(6))

text \<open>After normalisation the call is resolved to the item's own identity.\<close>

lemma normalized_resolves:
  assumes n: "normalizeToolInvocation s it0 = Inr it" and c: "outcome_callID it = Some c" "\<not> blank c"
    and r: "resolveToolCall s (item_invocation it) c = Inr (k, nm)"
  shows "k = (item_invocation it, c)"
proof (cases "item_invocation it0 = []")
  case False
  with normalize_same [OF n] resolveToolCall_identity [OF r] show ?thesis by (metis prod.collapse)
next
  case True
  have "outcome_callID it0 = Some c"
    using c(1) normalize_same [OF n] by (metis outcome_callID_invocation)
  with n True c(2) obtain k' n' where k': "resolveToolCall s [] c = Inr (k', n')" "item_invocation it = fst k'"
    by (auto simp: normalize_outcome bind_result_eq_Inr split: if_splits)
  show ?thesis
  proof (cases "fst k' = []")
    case True
    with k' r resolveToolCall_identity [OF k'(1)] show ?thesis by (auto simp: prod_eq_iff)
  next
    case False
    with k'(2) resolveToolCall_identity [OF r] show ?thesis by (metis prod.collapse)
  qed
qed

subsection \<open>The effect of one append\<close>

lemma validatePlainKind_effect:
  assumes "validatePlainKind s it = Inr s'"
  shows "s' = s\<lparr>st_states := states_step (st_states s) it\<rparr>
    \<and> item_kind it \<in> {KindInstruction, KindObservation, KindReasoning, KindAssistant}"
  using assms
  by (auto simp: validatePlainKind_def states_step_def split: kind.splits if_splits option.splits)

text \<open>\<open>item_effect s it\<close> is \<open>s\<close> with every index moved by its step.\<close>

definition item_effect :: "store \<Rightarrow> item \<Rightarrow> store" where
  "item_effect s it =
     s\<lparr>st_proposals := proposals_step (st_proposals s) it,
       st_dispositions := dispositions_step (st_dispositions s) it,
       st_calls := calls_step (st_calls s) it,
       st_results := results_step (st_results s) it,
       st_placeholders := placeholders_step (st_placeholders s) it,
       st_states := states_step (st_states s) it,
       st_repairs := repairs_step (st_repairs s) it\<rparr>"

lemma transitionAssistant_effect:
  "transitionAssistant s a = Inr s' \<Longrightarrow>
     s' = s\<lparr>st_states := AList.update (as_itemID a) (as_visibility a) (st_states s)\<rparr>"
  by (auto simp: transitionAssistant_def split: option.splits if_splits)

lemma transitionRepair_effect:
  "transitionRepair s it r = Inr s' \<Longrightarrow>
     (rs_status r = RepairRequired \<and>
        s' = s\<lparr>st_repairs := AList.update (rs_target r) (item_id it) (st_repairs s)\<rparr>)
     \<or> (rs_status r = RepairResolved \<and> s' = s\<lparr>st_repairs := AList.delete (rs_target r) (st_repairs s)\<rparr>)"
  by (auto simp: transitionRepair_def requireRepair_def resolveRepair_def
      split: option.splits if_splits repair_status.splits)

lemma acceptToolProposal_effect:
  "acceptToolProposal s it c = Inr s' \<Longrightarrow>
     s' = s\<lparr>st_proposals := AList.update (item_invocation it, tc_callID c) (proposal_of it c) (st_proposals s)\<rparr>"
  by (auto simp: acceptToolProposal_def proposal_of_def Let_def split: option.splits if_splits)

lemma acceptDisposition_effect:
  "acceptDisposition s it d = Inr s' \<Longrightarrow>
     s' = s\<lparr>st_dispositions := AList.update (item_invocation it, td_callID d)
        \<lparr>dr_itemID = item_id it, dr_proposalItemID = td_proposalItemID d, dr_kind = td_kind d\<rparr>
        (st_dispositions s)\<rparr>"
  by (auto simp: acceptDisposition_def Let_def split: option.splits if_splits)

lemma acceptToolCall_effect:
  "acceptToolCall s it c = Inr s' \<Longrightarrow>
     s' = s\<lparr>st_calls := AList.update (item_invocation it, tc_callID c) (tc_name c) (st_calls s)\<rparr>"
  by (auto simp: acceptToolCall_def Let_def split: option.splits if_splits)

lemma acceptToolResult_effect:
  assumes "acceptToolResult s it r = Inr s'" and "normalizeToolInvocation s it0 = Inr it"
    and "item_kind it = KindToolResult" "item_toolResult it = Some r"
  shows "s' = s\<lparr>st_results := gs_add (item_invocation it, tr_callID r) (st_results s),
      st_placeholders := AList.delete (item_invocation it, tr_callID r) (st_placeholders s)\<rparr>
    \<and> \<not> gm_has (st_results s) (item_invocation it, tr_callID r)
    \<and> ((item_invocation it, tr_callID r), tr_name r) \<in> set (st_calls s)"
proof -
  from assms(1) obtain k where b: "\<not> blank (tr_callID r)"
    and k: "resolveToolCall s (item_invocation it) (tr_callID r) = Inr (k, tr_name r)"
    and rest: "\<not> gm_has (st_results s) k" "s' = s\<lparr>st_results := gs_add k (st_results s),
      st_placeholders := AList.delete k (st_placeholders s)\<rparr>"
    by (auto simp: acceptToolResult_def bind_result_eq_Inr Let_def split: if_splits)
  have "k = (item_invocation it, tr_callID r)"
    using normalized_resolves [OF assms(2) _ b k] assms(3,4) by (simp add: outcome_callID_def)
  with rest resolveToolCall_identity [OF k] show ?thesis by simp
qed

lemma acceptToolPlaceholder_effect:
  assumes "acceptToolPlaceholder s it p = Inr s'" and "normalizeToolInvocation s it0 = Inr it"
    and "item_kind it = KindToolPlaceholder" "item_placeholder it = Some p"
  shows "s' = s\<lparr>st_placeholders := gs_add (item_invocation it, tp_callID p) (st_placeholders s)\<rparr>
    \<and> \<not> gm_has (st_results s) (item_invocation it, tp_callID p)
    \<and> ((item_invocation it, tp_callID p), tp_name p) \<in> set (st_calls s)"
proof -
  from assms(1) obtain k where b: "\<not> blank (tp_callID p)"
    and k: "resolveToolCall s (item_invocation it) (tp_callID p) = Inr (k, tp_name p)"
    and rest: "\<not> gm_has (st_results s) k" "s' = s\<lparr>st_placeholders := gs_add k (st_placeholders s)\<rparr>"
    by (auto simp: acceptToolPlaceholder_def validatePlaceholder_def bind_result_eq_Inr
        split: if_splits option.splits)
  have "k = (item_invocation it, tp_callID p)"
    using normalized_resolves [OF assms(2) _ b k] assms(3,4) by (simp add: outcome_callID_def)
  with rest resolveToolCall_identity [OF k] show ?thesis by simp
qed

text \<open>Which handler accepted the item, one case per kind.\<close>

lemma validateKind_cases:
  assumes "validateKind s it = Inr s'"
  obtains
    (plain) "validatePlainKind s it = Inr s'"
  | (state) a where "item_kind it = KindAssistantState" "item_state it = Some a" "transitionAssistant s a = Inr s'"
  | (repair) r where "item_kind it = KindRepair" "item_repair it = Some r" "transitionRepair s it r = Inr s'"
  | (proposal) c where "item_kind it = KindToolProposal" "item_toolCall it = Some c" "acceptToolProposal s it c = Inr s'"
  | (disposition) d where "item_kind it = KindToolProposalDisposition" "item_disposition it = Some d"
      "acceptDisposition s it d = Inr s'"
  | (call) c where "item_kind it = KindToolCall" "item_toolCall it = Some c" "acceptToolCall s it c = Inr s'"
  | (placeholder) p where "item_kind it = KindToolPlaceholder" "item_placeholder it = Some p"
      "acceptToolPlaceholder s it p = Inr s'"
  | (result) r where "item_kind it = KindToolResult" "item_toolResult it = Some r" "acceptToolResult s it r = Inr s'"
proof (cases "item_kind it")
  case KindAssistantState
  with assms that(2) show thesis
    by (auto simp: validateKind_def Let_def split: if_splits option.splits sum.splits)
next
  case KindRepair
  with assms that(3) show thesis
    by (auto simp: validateKind_def Let_def split: if_splits option.splits sum.splits)
next
  case KindToolProposal
  with assms that(4) show thesis
    by (auto simp: validateKind_def Let_def split: if_splits option.splits sum.splits)
next
  case KindToolProposalDisposition
  with assms that(5) show thesis
    by (auto simp: validateKind_def Let_def split: if_splits option.splits sum.splits)
next
  case KindToolCall
  with assms that(6) show thesis
    by (auto simp: validateKind_def Let_def split: if_splits option.splits sum.splits)
next
  case KindToolPlaceholder
  with assms that(7) show thesis
    by (auto simp: validateKind_def Let_def split: if_splits option.splits sum.splits)
next
  case KindToolResult
  with assms that(8) show thesis
    by (auto simp: validateKind_def Let_def split: if_splits option.splits sum.splits)
qed (use assms that(1) in \<open>auto simp: validateKind_def Let_def split: if_splits\<close>)

lemma validateKind_effect:
  assumes "validateKind s it = Inr s'" and n: "normalizeToolInvocation s it0 = Inr it"
  shows "s' = item_effect s it"
  using assms(1)
proof (cases rule: validateKind_cases)
  case plain
  from validatePlainKind_effect [OF plain] show ?thesis
    by (elim conjE insertE emptyE) (simp_all add: item_effect_def step_defs)
next
  case (result r)
  with acceptToolResult_effect [OF result(3) n result(1,2)] show ?thesis
    by (simp add: item_effect_def step_defs)
next
  case (placeholder p)
  with acceptToolPlaceholder_effect [OF placeholder(3) n placeholder(1,2)] show ?thesis
    by (simp add: item_effect_def step_defs)
next
  case (repair r)
  with transitionRepair_effect [OF repair(3)] show ?thesis
    by (auto simp: item_effect_def step_defs)
qed (auto simp: item_effect_def step_defs dest!: transitionAssistant_effect acceptToolProposal_effect
      acceptDisposition_effect acceptToolCall_effect)

text \<open>
  \<open>appended s it0 it s'\<close>: the store took \<open>it0\<close> and recorded it as \<open>it\<close>. Everything the proofs need
  to know about a successful append.
\<close>

definition appended :: "store \<Rightarrow> item \<Rightarrow> item \<Rightarrow> store \<Rightarrow> bool" where
  "appended s it0 it s' \<longleftrightarrow>
     validateHead s (default_visibility it0) = None
     \<and> normalizeToolInvocation s (default_visibility it0) = Inr it
     \<and> isl (ResolveObservationSupersession (st_items s) it) = False
     \<and> validateKind s it = Inr (item_effect s it)
     \<and> s' = commit (item_effect s it) it"

lemma appendLocked_appended:
  "appendLocked s it0 = Inr s' \<longleftrightarrow> (\<exists>it. appended s it0 it s')"
  by (auto simp: appendLocked_def appended_def Let_def bind_result_eq_Inr dest: validateKind_effect
      split: option.splits sum.splits)

lemma item_effect_frame [simp]:
  "st_items (item_effect s it) = st_items s" "st_byID (item_effect s it) = st_byID s"
  "st_hasTime (item_effect s it) = st_hasTime s" "st_lastNS (item_effect s it) = st_lastNS s"
  by (simp_all add: item_effect_def)

lemma commit_indexes [simp]:
  "st_items (commit s it) = st_items s @ [it]"
  "st_byID (commit s it) = AList.update (item_id it) (length (st_items s)) (st_byID s)"
  "st_hasTime (commit s it)" "st_lastNS (commit s it) = item_ns it"
  "st_proposals (commit s it) = st_proposals s" "st_dispositions (commit s it) = st_dispositions s"
  "st_calls (commit s it) = st_calls s" "st_results (commit s it) = st_results s"
  "st_placeholders (commit s it) = st_placeholders s" "st_states (commit s it) = st_states s"
  "st_repairs (commit s it) = st_repairs s"
  by (simp_all add: commit_def)

subsection \<open>Reachable stores\<close>

text \<open>The stores the exported operations can produce, one operation per rule.\<close>

inductive reachable :: "store \<Rightarrow> bool" where
  new: "reachable NewStore"
| batch: "reachable s \<Longrightarrow> AppendBatch s items = Inr s' \<Longrightarrow> reachable s'"
| batch_at: "reachable s \<Longrightarrow> AppendBatchAt s v items = Inr s' \<Longrightarrow> reachable s'"
| batch_after: "reachable s \<Longrightarrow> AppendBatchAfter s v P items = Inr s' \<Longrightarrow> reachable s'"

text \<open>Later stores of the same log: any number of accepted items on top.\<close>

inductive extends :: "store \<Rightarrow> store \<Rightarrow> bool" where
  extends_refl: "extends s s"
| extends_step: "extends s t \<Longrightarrow> appended t it0 it t' \<Longrightarrow> extends s t'"

lemma extends_trans: "extends t u \<Longrightarrow> extends s t \<Longrightarrow> extends s u"
  by (induction rule: extends.induct) (auto intro: extends.intros)

lemma appendItems_extends: "appendItems n s xs = Inr s' \<Longrightarrow> extends s s'"
proof (induction xs arbitrary: n s)
  case (Cons x xs)
  then obtain it t where "appended s x it t" "appendItems (n + 1) t xs = Inr s'"
    by (auto simp: appendLocked_appended split: sum.splits)
  then have "extends s t" "extends t s'"
    using Cons.IH by (auto intro: extends_step [OF extends_refl])
  then show ?case by (rule extends_trans [rotated])
qed (auto intro: extends.intros)

lemma appendBatchLocked_items:
  "appendBatchLocked s v xs = Inr s' \<Longrightarrow> appendItems 0 s xs = Inr s' \<and> (\<forall>n. v = Some n \<longrightarrow> n = length (st_items s))"
  by (auto simp: appendBatchLocked_def split: option.splits if_splits)

lemma append_ops_items:
  "AppendBatch s xs = Inr s' \<Longrightarrow> appendItems 0 s xs = Inr s'"
  "AppendBatchAt s v xs = Inr s' \<Longrightarrow> appendItems 0 s xs = Inr s'"
  "AppendBatchAfter s v P xs = Inr s' \<Longrightarrow> appendItems 0 s xs = Inr s'"
  by (auto simp: AppendBatch_def AppendBatchAt_def AppendBatchAfter_def appendBatch_def
      dest!: appendBatchLocked_items split: if_splits option.splits)

lemmas append_ops_extend = append_ops_items [THEN appendItems_extends]

lemma reachable_append: "reachable s \<Longrightarrow> appended s it0 it s' \<Longrightarrow> reachable s'"
proof -
  assume r: "reachable s" and "appended s it0 it s'"
  then have "appendLocked s it0 = Inr s'" by (auto simp: appendLocked_appended)
  then have "AppendBatch s [it0] = Inr s'"
    by (simp add: AppendBatch_def appendBatch_def appendBatchLocked_def)
  with r show ?thesis by (rule reachable.batch)
qed

lemma extends_reachable: "extends s t \<Longrightarrow> reachable s \<Longrightarrow> reachable t"
  by (induction rule: extends.induct) (auto intro: reachable_append)

lemma reachable_iff_extends: "reachable s \<longleftrightarrow> extends NewStore s"
proof
  assume "reachable s"
  then show "extends NewStore s"
    by (induction rule: reachable.induct) (auto intro: extends.intros extends_trans append_ops_extend)
next
  assume "extends NewStore s"
  then show "reachable s" by (rule extends_reachable) (rule reachable.new)
qed

lemma reachable_item_induct [consumes 1, case_names new item]:
  assumes "reachable s" and "P NewStore"
    and "\<And>s it0 it s'. reachable s \<Longrightarrow> P s \<Longrightarrow> appended s it0 it s' \<Longrightarrow> P s'"
  shows "P s"
proof -
  have "extends t s \<Longrightarrow> t = NewStore \<Longrightarrow> reachable s \<and> P s" for t s
    by (induction rule: extends.induct) (auto intro: assms(2,3) reachable_append reachable.new)
  with assms(1) show ?thesis by (auto simp: reachable_iff_extends)
qed

lemma extends_item_induct [consumes 2, case_names refl item]:
  assumes "extends s t" "reachable s" and "P s"
    and "\<And>t it0 it t'. reachable t \<Longrightarrow> P t \<Longrightarrow> appended t it0 it t' \<Longrightarrow> P t'"
  shows "P t"
  using assms
proof (induction rule: extends.induct)
  case (extends_step s t it0 it t')
  then show ?case by (meson extends_reachable)
qed simp

lemma appended_items: "appended s it0 it s' \<Longrightarrow> st_items s' = st_items s @ [it]"
  by (simp add: appended_def)

lemma items_new [simp]: "st_items NewStore = []"
  by (simp add: NewStore_def)

text \<open>
  An index kept up to date item by item is a projection of the log. The locale states it for any
  index; the store's own indexes are its instances.
\<close>

locale incremental_index =
  fixes index :: "store \<Rightarrow> 'm" and step :: "'m \<Rightarrow> item \<Rightarrow> 'm" and start :: 'm
  assumes index_new: "index NewStore = start"
    and index_append: "appended s it0 it s' \<Longrightarrow> index s' = step (index s) it"
begin

lemma projection: "reachable s \<Longrightarrow> index s = foldl step start (st_items s)"
  by (induction rule: reachable_item_induct)
    (simp_all add: index_new index_append appended_items)

lemma determined: "reachable s \<Longrightarrow> reachable t \<Longrightarrow> st_items s = st_items t \<Longrightarrow> index s = index t"
  by (simp add: projection)

end

interpretation states: incremental_index st_states states_step "[]"
  by unfold_locales (auto simp: NewStore_def appended_def item_effect_def)

interpretation repairs: incremental_index st_repairs repairs_step "[]"
  by unfold_locales (auto simp: NewStore_def appended_def item_effect_def)

interpretation proposals: incremental_index st_proposals proposals_step "[]"
  by unfold_locales (auto simp: NewStore_def appended_def item_effect_def)

interpretation dispositions: incremental_index st_dispositions dispositions_step "[]"
  by unfold_locales (auto simp: NewStore_def appended_def item_effect_def)

interpretation calls: incremental_index st_calls calls_step "[]"
  by unfold_locales (auto simp: NewStore_def appended_def item_effect_def)

interpretation results: incremental_index st_results results_step "[]"
  by unfold_locales (auto simp: NewStore_def appended_def item_effect_def)

interpretation placeholders: incremental_index st_placeholders placeholders_step "[]"
  by unfold_locales (auto simp: NewStore_def appended_def item_effect_def)

subsection \<open>Well-formed logs\<close>

lemma parents_fault_None:
  "parents_fault s i seen ps = None \<longleftrightarrow>
     i \<notin> set ps \<and> distinct ps \<and> set ps \<inter> set seen = {} \<and> (\<forall>p\<in>set ps. gm_has (st_byID s) p)"
  by (induction s i seen ps rule: parents_fault.induct) auto

lemma default_visibility_simps [simp]:
  "item_id (default_visibility it) = item_id it" "item_kind (default_visibility it) = item_kind it"
  "item_ns (default_visibility it) = item_ns it" "item_parents (default_visibility it) = item_parents it"
  "item_invocation (default_visibility it) = item_invocation it"
  "item_event (default_visibility it) = item_event it" "item_revision (default_visibility it) = item_revision it"
  "validateCommon (default_visibility it) = validateCommon it"
  by (simp_all add: default_visibility_def validateCommon_def cong: if_cong option.case_cong)

lemma validateCommon_invocation [simp]: "validateCommon (it\<lparr>item_invocation := i\<rparr>) = validateCommon it"
  by (simp add: validateCommon_def cong: if_cong option.case_cong)

lemma validateHead_invocation: "validateHead s (it\<lparr>item_invocation := i\<rparr>) = validateHead s it"
  by (simp add: validateHead_def cong: if_cong option.case_cong)

text \<open>What the head checks establish for the recorded item.\<close>

lemma appended_head:
  assumes "appended s it0 it s'"
  shows "validateHead s it = None"
  using assms normalize_same [of s "default_visibility it0" it] validateHead_invocation
  unfolding appended_def by metis

lemma appended_checks:
  assumes "appended s it0 it s'"
  shows "validateCommon it = None" "\<not> gm_has (st_byID s) (item_id it)"
    "st_hasTime s \<longrightarrow> st_lastNS s \<le> item_ns it"
    "item_id it \<notin> set (item_parents it)" "distinct (item_parents it)"
    "\<forall>p\<in>set (item_parents it). gm_has (st_byID s) p"
  using appended_head [OF assms]
  by (auto simp: validateHead_def parents_fault_None split: option.splits if_splits)

definition well_formed :: "store \<Rightarrow> bool" where
  "well_formed s \<longleftrightarrow>
     distinct (map item_id (st_items s))
     \<and> (\<forall>i n. map_of (st_byID s) i = Some n \<longleftrightarrow> n < length (st_items s) \<and> item_id (st_items s ! n) = i)
     \<and> sorted (map item_ns (st_items s))
     \<and> (\<forall>x\<in>set (st_items s). st_hasTime s \<and> item_ns x \<le> st_lastNS s)
     \<and> (\<forall>n<length (st_items s). validateCommon (st_items s ! n) = None
          \<and> distinct (item_parents (st_items s ! n))
          \<and> set (item_parents (st_items s ! n)) \<subseteq> item_id ` set (take n (st_items s)))"

lemma well_formed_known:
  assumes "well_formed s"
  shows "gm_has (st_byID s) i \<longleftrightarrow> i \<in> item_id ` set (st_items s)"
proof -
  have "gm_has (st_byID s) i \<longleftrightarrow> (\<exists>n<length (st_items s). item_id (st_items s ! n) = i)"
    using assms by (fastforce simp: well_formed_def)
  then show ?thesis by (metis image_iff in_set_conv_nth)
qed

lemma well_formed_new: "well_formed NewStore"
  by (simp add: well_formed_def NewStore_def)

lemma well_formed_append:
  assumes wf: "well_formed s" and a: "appended s it0 it s'"
  shows "well_formed s'"
proof -
  note c = appended_checks [OF a]
  have fresh: "item_id it \<notin> item_id ` set (st_items s)"
    using c(2) well_formed_known [OF wf] by blast
  have items: "st_items s' = st_items s @ [it]" by (rule appended_items [OF a])
  have byID: "map_of (st_byID s') i = Some n \<longleftrightarrow> n < length (st_items s') \<and> item_id (st_items s' ! n) = i"
    for i n
  proof (cases "i = item_id it")
    case True
    have "item_id (st_items s ! m) \<noteq> item_id it" if "m < length (st_items s)" for m
      using fresh that by (metis image_eqI nth_mem)
    with True a show ?thesis by (auto simp: appended_def items nth_append less_Suc_eq)
  next
    case False
    with a have "map_of (st_byID s') i = map_of (st_byID s) i" by (simp add: appended_def)
    with wf False show ?thesis by (auto simp: well_formed_def items nth_append)
  qed
  have time: "\<forall>x\<in>set (st_items s). item_ns x \<le> item_ns it"
    using wf c(3) unfolding well_formed_def by (meson order_trans)
  have parents: "set (item_parents it) \<subseteq> item_id ` set (st_items s)"
    using c(6) well_formed_known [OF wf] by blast
  show ?thesis
    unfolding well_formed_def
  proof (intro conjI)
    show "distinct (map item_id (st_items s'))"
      using wf fresh by (auto simp: well_formed_def items)
    show "\<forall>i n. map_of (st_byID s') i = Some n \<longleftrightarrow> n < length (st_items s') \<and> item_id (st_items s' ! n) = i"
      using byID by blast
    show "sorted (map item_ns (st_items s'))"
      using wf time by (auto simp: well_formed_def items sorted_append)
    show "\<forall>x\<in>set (st_items s'). st_hasTime s' \<and> item_ns x \<le> st_lastNS s'"
      using a time by (auto simp: appended_def)
    show "\<forall>n<length (st_items s'). validateCommon (st_items s' ! n) = None
          \<and> distinct (item_parents (st_items s' ! n))
          \<and> set (item_parents (st_items s' ! n)) \<subseteq> item_id ` set (take n (st_items s'))"
      using wf c(1,5) parents by (auto simp: well_formed_def items nth_append less_Suc_eq)
  qed
qed

lemma reachable_well_formed: "reachable s \<Longrightarrow> well_formed s"
  by (induction rule: reachable_item_induct) (auto intro: well_formed_new well_formed_append)

subsection \<open>The log determines the store\<close>

text \<open>What the store records differs from what it was given only in the two fields it normalises.\<close>

definition recorded_as :: "item \<Rightarrow> item \<Rightarrow> bool" where
  "recorded_as x y \<longleftrightarrow>
     y = x\<lparr>item_visibility := item_visibility y, item_invocation := item_invocation y\<rparr>
     \<and> (item_visibility y \<noteq> item_visibility x \<longrightarrow>
          item_kind x = KindAssistant \<and> item_visibility x = VisibilityNone \<and> item_visibility y = VisibilityPrepared)
     \<and> (item_invocation y \<noteq> item_invocation x \<longrightarrow>
          item_invocation x = [] \<and> item_kind x \<in> {KindToolResult, KindToolPlaceholder})"

lemma appended_recorded:
  assumes "appended s x y s'"
  shows "recorded_as x y"
proof -
  from assms have "normalizeToolInvocation s (default_visibility x) = Inr y" by (simp add: appended_def)
  then obtain i where "y = (default_visibility x)\<lparr>item_invocation := i\<rparr>"
    "i = item_invocation x \<or> item_invocation x = [] \<and> item_kind x \<in> {KindToolResult, KindToolPlaceholder}"
    by (rule normalizeE) simp
  then show ?thesis
    by (cases x) (auto simp: recorded_as_def default_visibility_def split: if_splits)
qed

lemma normalize_idem:
  assumes "normalizeToolInvocation s it0 = Inr it"
  shows "normalizeToolInvocation s it = Inr it"
proof -
  from assms obtain i where it: "it = it0\<lparr>item_invocation := i\<rparr>"
    "i = item_invocation it0 \<or> item_invocation it0 = []" by (rule normalizeE) blast
  show ?thesis
  proof (cases "i = []")
    case True
    with it have "item_invocation it0 = i" by auto
    with it(1) have "it = it0" by (metis invocation_id)
    with assms show ?thesis by simp
  qed (simp add: it normalize_outcome)
qed

lemma default_visibility_idem: "default_visibility (default_visibility it) = default_visibility it"
  by (simp add: default_visibility_def)

lemma appended_again:
  assumes "appended s it0 it s'"
  shows "appended s it it s'"
proof -
  have "normalizeToolInvocation s (default_visibility it0) = Inr it" using assms by (simp add: appended_def)
  note n = normalize_idem [OF this]
  from \<open>normalizeToolInvocation s (default_visibility it0) = Inr it\<close>
  have "default_visibility it = it"
    by (rule normalizeE) (auto simp: default_visibility_def)
  then show ?thesis using assms n appended_head [OF assms] by (simp add: appended_def)
qed

lemma appendItems_snoc:
  "appendItems n s (xs @ [x]) =
     bind_result (appendItems n s xs)
       (\<lambda>t. case appendLocked t x of
              Inl f \<Rightarrow> Inl (ItemError (n + length xs) (item_id x) (item_kind x) f)
            | Inr t' \<Rightarrow> Inr t')"
proof (induction xs arbitrary: n s)
  case (Cons a xs)
  show ?case by (cases "appendLocked s a") (simp_all add: Cons cong: sum.case_cong)
qed (auto split: sum.splits)

lemma replay_items: "reachable s \<Longrightarrow> appendItems 0 NewStore (st_items s) = Inr s"
proof (induction rule: reachable_item_induct)
  case (item s it0 it s')
  from appended_again [OF item.hyps(2)] have "appendLocked s it = Inr s'" by (auto simp: appendLocked_appended)
  with item show ?case by (simp add: appended_items [OF item.hyps(2)] appendItems_snoc)
qed simp

text \<open>Every item was admitted by the store of exactly the items before it.\<close>

lemma item_admitted:
  "reachable s \<Longrightarrow> n < length (st_items s) \<Longrightarrow>
     \<exists>t t'. reachable t \<and> st_items t = take n (st_items s) \<and> appended t (st_items s ! n) (st_items s ! n) t'"
proof (induction rule: reachable_item_induct)
  case (item s it0 it s')
  show ?case
  proof (cases "n < length (st_items s)")
    case True
    with item.IH show ?thesis by (simp add: appended_items [OF item.hyps(2)] nth_append)
  next
    case False
    with item.prems have "n = length (st_items s)" by (simp add: appended_items [OF item.hyps(2)])
    with item.hyps(1) appended_again [OF item.hyps(2)] show ?thesis
      by (auto simp: appended_items [OF item.hyps(2)] nth_append)
  qed
qed simp

subsection \<open>What the tool indexes hold\<close>

definition tool_id :: "item \<Rightarrow> tool_identity option" where
  "tool_id x = map_option (\<lambda>c. (item_invocation x, tc_callID c)) (item_toolCall x)"

definition is_call :: "tool_identity \<Rightarrow> item \<Rightarrow> bool" where
  "is_call k x \<longleftrightarrow> item_kind x = KindToolCall \<and> tool_id x = Some k"

definition is_proposal :: "tool_identity \<Rightarrow> item \<Rightarrow> bool" where
  "is_proposal k x \<longleftrightarrow> item_kind x = KindToolProposal \<and> tool_id x = Some k"

definition is_result :: "tool_identity \<Rightarrow> item \<Rightarrow> bool" where
  "is_result k x \<longleftrightarrow> item_kind x = KindToolResult
     \<and> map_option (\<lambda>r. (item_invocation x, tr_callID r)) (item_toolResult x) = Some k"

definition is_disposition :: "tool_identity \<Rightarrow> item \<Rightarrow> bool" where
  "is_disposition k x \<longleftrightarrow> item_kind x = KindToolProposalDisposition
     \<and> map_option (\<lambda>d. (item_invocation x, td_callID d)) (item_disposition x) = Some k"

lemmas tool_item_defs = tool_id_def is_call_def is_proposal_def is_result_def is_disposition_def

lemma set_update_subset: "set (AList.update k v m) \<subseteq> insert (k, v) (set m)"
  by (induction m) auto

lemma calls_fold_entry:
  "(k, n) \<in> set (foldl calls_step m xs) \<Longrightarrow>
     (k, n) \<in> set m \<or> (\<exists>x\<in>set xs. is_call k x \<and> map_option tc_name (item_toolCall x) = Some n)"
proof (induction xs arbitrary: m)
  case (Cons x xs)
  from Cons.IH [OF Cons.prems [simplified]] show ?case
    using set_update_subset [of _ _ m]
    by (fastforce simp: calls_step_def tool_item_defs split: if_splits option.splits)
qed simp

lemma calls_fold_has:
  "gm_has (foldl calls_step m xs) k \<longleftrightarrow> gm_has m k \<or> (\<exists>x\<in>set xs. is_call k x)"
  by (induction xs arbitrary: m)
    (auto simp: calls_step_def tool_item_defs split: if_splits option.splits)

lemma results_fold_has:
  "gm_has (foldl results_step m xs) k \<longleftrightarrow> gm_has m k \<or> (\<exists>x\<in>set xs. is_result k x)"
  by (induction xs arbitrary: m)
    (auto simp: results_step_def tool_item_defs split: if_splits option.splits)

lemma dispositions_fold_has:
  "gm_has (foldl dispositions_step m xs) k \<longleftrightarrow> gm_has m k \<or> (\<exists>x\<in>set xs. is_disposition k x)"
  by (induction xs arbitrary: m)
    (auto simp: dispositions_step_def tool_item_defs split: if_splits option.splits)

lemma proposals_fold_has:
  "gm_has (foldl proposals_step m xs) k \<longleftrightarrow> gm_has m k \<or> (\<exists>x\<in>set xs. is_proposal k x)"
  by (induction xs arbitrary: m)
    (auto simp: proposals_step_def tool_item_defs split: if_splits option.splits)

lemma proposals_fold_entry:
  "map_of (foldl proposals_step m xs) k = Some p \<Longrightarrow>
     map_of m k = Some p \<or> (\<exists>x\<in>set xs. is_proposal k x \<and> map_option (proposal_of x) (item_toolCall x) = Some p)"
  by (induction xs arbitrary: m)
    (fastforce simp: proposals_step_def tool_item_defs split: if_splits option.splits)+

lemma index_has:
  assumes "reachable s"
  shows "gm_has (st_calls s) k \<longleftrightarrow> (\<exists>x\<in>set (st_items s). is_call k x)"
    "gm_has (st_results s) k \<longleftrightarrow> (\<exists>x\<in>set (st_items s). is_result k x)"
    "gm_has (st_dispositions s) k \<longleftrightarrow> (\<exists>x\<in>set (st_items s). is_disposition k x)"
    "gm_has (st_proposals s) k \<longleftrightarrow> (\<exists>x\<in>set (st_items s). is_proposal k x)"
  using calls_fold_has [of "[]" "st_items s" k] results_fold_has [of "[]" "st_items s" k]
    dispositions_fold_has [of "[]" "st_items s" k] proposals_fold_has [of "[]" "st_items s" k]
  by (simp_all add: calls.projection [OF assms] results.projection [OF assms]
      dispositions.projection [OF assms] proposals.projection [OF assms])

end
