(* ===== verification/Trajectory_Projections.thy ===== *)
theory Trajectory_Projections
  imports Trajectory_Log "HOL-Library.Sublist"
begin

section \<open>Projections of a snapshot\<close>

text \<open>
  The read-only functions of \<^verbatim>\<open>src/trajectory\<close> that providers and the runtime use to interpret a
  snapshot: pending repairs, assistant visibility and what was heard, tool-result matching,
  unresolved calls, promoted and terminal proposals. Then what they say of the log of a
  reachable store: each agrees with the index the store validates against.
\<close>

subsection \<open>Repairs and visibility\<close>

record pending_repair =
  pr_target :: string
  pr_requiredID :: string
  pr_playedMS :: nat

fun pendingRepairs_step ::
  "(string, pending_repair) gomap \<times> string list \<Rightarrow> item \<Rightarrow> (string, pending_repair) gomap \<times> string list" where
  "pendingRepairs_step (pending, order) it =
     (if item_kind it \<noteq> KindRepair then (pending, order)
      else case item_repair it of
        None \<Rightarrow> (pending, order)
      | Some r \<Rightarrow>
         (case rs_status r of
            RepairRequired \<Rightarrow>
              (AList.update (rs_target r)
                 \<lparr>pr_target = rs_target r, pr_requiredID = item_id it, pr_playedMS = rs_playedAudioMS r\<rparr>
                 pending,
               if rs_target r \<in> set order then order else order @ [rs_target r])
          | RepairResolved \<Rightarrow> (AList.delete (rs_target r) pending, order)
          | RepairOther _ \<Rightarrow> (pending, order)))"

definition PendingRepairs :: "snapshot \<Rightarrow> pending_repair list" where
  "PendingRepairs sn =
     (let (pending, order) = foldl pendingRepairs_step ([], []) (sn_items sn)
      in List.map_filter (map_of pending) order)"

definition BatchIntroducesPendingRepair :: "item list \<Rightarrow> bool" where
  "BatchIntroducesPendingRepair items =
     list_ex snd
       (foldl (\<lambda>m it. case (item_kind it, item_repair it) of
                 (KindRepair, Some r) \<Rightarrow> AList.update (rs_target r) (rs_status r = RepairRequired) m
               | _ \<Rightarrow> m) [] items)"

definition AssistantVisibility :: "snapshot \<Rightarrow> (string, visibility) gomap" where
  "AssistantVisibility sn =
     foldl (\<lambda>m it.
       (case item_kind it of
          KindAssistant \<Rightarrow>
            AList.update (item_id it)
              (if item_visibility it = VisibilityNone then VisibilityPrepared else item_visibility it) m
        | KindAssistantState \<Rightarrow>
            (case item_state it of
               None \<Rightarrow> m | Some a \<Rightarrow> AList.update (as_itemID a) (as_visibility a) m)
        | _ \<Rightarrow> m)) [] (sn_items sn)"

definition AssistantHeard :: "snapshot \<Rightarrow> (string, mark) gomap" where
  "AssistantHeard sn =
     foldl (\<lambda>m it.
       (case (item_kind it, item_state it) of
          (KindAssistantState, Some a) \<Rightarrow>
            (case as_heard a of None \<Rightarrow> m | Some h \<Rightarrow> AList.update (as_itemID a) h m)
        | _ \<Rightarrow> m)) [] (sn_items sn)"

definition CancelledAssistantInvocations :: "snapshot \<Rightarrow> string list" where
  "CancelledAssistantInvocations sn =
     (let vis = AssistantVisibility sn in
      remdups (map item_invocation
        (filter (\<lambda>it. item_kind it = KindAssistant \<and> item_invocation it \<noteq> []
                     \<and> map_of vis (item_id it) = Some VisibilityCancelled) (sn_items sn))))"

definition mark_complete :: "mark \<Rightarrow> bool" where
  "mark_complete m \<longleftrightarrow> blank (mk_pending m)"

definition PartlyHeardAssistantInvocations :: "snapshot \<Rightarrow> string list" where
  "PartlyHeardAssistantInvocations sn =
     (let heard = AssistantHeard sn in
      remdups (map item_invocation
        (filter (\<lambda>it. item_kind it = KindAssistant \<and> item_invocation it \<noteq> []
                     \<and> (case map_of heard (item_id it) of None \<Rightarrow> False | Some m \<Rightarrow> \<not> mark_complete m))
           (sn_items sn))))"

subsection \<open>Tool calls and their outcomes\<close>

record pending_call =
  pc_itemID :: string
  pc_revision :: nat
  pc_invocation :: string
  pc_call :: tool_call

definition call_identity :: "item \<Rightarrow> tool_identity option" where
  "call_identity it = (if item_kind it = KindToolCall then tool_id it else None)"

text \<open>\<^verbatim>\<open>toolCallScopes\<close> groups the identities of the calls by call ID; here the group of one ID.\<close>

definition toolCallScopes :: "snapshot \<Rightarrow> string \<Rightarrow> tool_identity list" where
  "toolCallScopes sn callID =
     filter (\<lambda>k. snd k = callID) (List.map_filter call_identity (sn_items sn))"

definition snapshotToolIdentity :: "string \<Rightarrow> string \<Rightarrow> snapshot \<Rightarrow> tool_identity option" where
  "snapshotToolIdentity invo callID sn =
     (if invo \<noteq> [] then
        (if (invo, callID) \<in> set (toolCallScopes sn callID) then Some (invo, callID) else None)
      else case toolCallScopes sn callID of [k] \<Rightarrow> Some k | _ \<Rightarrow> None)"

definition result_identity :: "snapshot \<Rightarrow> item \<Rightarrow> tool_identity option" where
  "result_identity sn it =
     (case (item_kind it, item_toolResult it) of
        (KindToolResult, Some r) \<Rightarrow> snapshotToolIdentity (item_invocation it) (tr_callID r) sn
      | _ \<Rightarrow> None)"

definition placeholder_identity :: "snapshot \<Rightarrow> item \<Rightarrow> tool_identity option" where
  "placeholder_identity sn it =
     (case (item_kind it, item_placeholder it) of
        (KindToolPlaceholder, Some p) \<Rightarrow> snapshotToolIdentity (item_invocation it) (tp_callID p) sn
      | _ \<Rightarrow> None)"

text \<open>The call items that satisfy \<open>keep\<close> and whose identity is not in \<open>resolved\<close>, in log order.\<close>

definition pending_calls :: "(item \<Rightarrow> bool) \<Rightarrow> tool_identity list \<Rightarrow> snapshot \<Rightarrow> pending_call list" where
  "pending_calls keep resolved sn =
     List.map_filter
       (\<lambda>it. case (item_kind it, item_toolCall it) of
          (KindToolCall, Some c) \<Rightarrow>
            if keep it \<and> (item_invocation it, tc_callID c) \<notin> set resolved
            then Some \<lparr>pc_itemID = item_id it, pc_revision = item_revision it,
                       pc_invocation = item_invocation it, pc_call = c\<rparr>
            else None
        | _ \<Rightarrow> None) (sn_items sn)"

definition UnresolvedToolCalls :: "snapshot \<Rightarrow> pending_call list" where
  "UnresolvedToolCalls sn =
     pending_calls (\<lambda>_. True)
       (List.map_filter (result_identity sn) (sn_items sn)
        @ List.map_filter (placeholder_identity sn) (sn_items sn)) sn"

datatype match_error =
    InvocationRequired | EmptyResults | NoOutstanding | CountMismatch nat nat
  | DuplicateResult string | MissingResult string | MatchNameMismatch string string

fun provided_results ::
  "tool_result list \<Rightarrow> (string, tool_result) gomap \<Rightarrow> (match_error, (string, tool_result) gomap) result" where
  "provided_results [] m = Inr m"
| "provided_results (r # rs) m =
     (if gm_has m (tr_callID r) then Inl (DuplicateResult (tr_callID r))
      else provided_results rs (AList.update (tr_callID r) r m))"

fun match_pending ::
  "(string, tool_result) gomap \<Rightarrow> pending_call list \<Rightarrow> (match_error, (pending_call \<times> tool_result) list) result" where
  "match_pending m [] = Inr []"
| "match_pending m (p # ps) =
     (case map_of m (tc_callID (pc_call p)) of
        None \<Rightarrow> Inl (MissingResult (tc_callID (pc_call p)))
      | Some r \<Rightarrow>
          if tr_name r \<noteq> tc_name (pc_call p) then Inl (MatchNameMismatch (tr_name r) (tc_name (pc_call p)))
          else bind_result (match_pending m ps) (\<lambda>rest. Inr ((p, r) # rest)))"

definition MatchToolResultBatch ::
  "snapshot \<Rightarrow> string \<Rightarrow> tool_result list \<Rightarrow> (match_error, (pending_call \<times> tool_result) list) result" where
  "MatchToolResultBatch sn invocationID results =
     (if blank invocationID then Inl InvocationRequired
      else if results = [] then Inl EmptyResults
      else
        (let pending = pending_calls (\<lambda>it. item_invocation it = invocationID)
               (List.map_filter (result_identity sn) (sn_items sn)) sn in
         if pending = [] then Inl NoOutstanding
         else if length results \<noteq> length pending then Inl (CountMismatch (length pending) (length results))
         else bind_result (provided_results results []) (\<lambda>m. match_pending m pending)))"

subsection \<open>Proposals\<close>

text \<open>The proposals before position \<open>n\<close> that the item at \<open>n\<close> promotes.\<close>

definition promotedBy :: "item list \<Rightarrow> nat \<Rightarrow> string list" where
  "promotedBy items n =
     (case call_identity (items ! n) of
        None \<Rightarrow> []
      | Some k \<Rightarrow>
          map item_id (filter (\<lambda>p. item_kind p = KindToolProposal \<and> tool_id p = Some k
                                  \<and> isPromotedToolProposal p (items ! n)) (take n items)))"

definition PromotedToolProposalIDs :: "snapshot \<Rightarrow> string list" where
  "PromotedToolProposalIDs sn =
     remdups (concat (map (promotedBy (sn_items sn)) [0..<length (sn_items sn)]))"

definition validateSnapshotShape :: "snapshot \<Rightarrow> bool" where
  "validateSnapshotShape sn \<longleftrightarrow> sn_version sn = length (sn_items sn)"

text \<open>The proposals a disposition made terminal, and the dispositions, by item ID.\<close>

definition TerminalToolProposalIDs :: "snapshot \<Rightarrow> string list \<times> string list" where
  "TerminalToolProposalIDs sn =
     (if \<not> validateSnapshotShape sn \<or> sn_items sn = [] then ([], [])
      else case AppendBatch NewStore (sn_items sn) of
        Inl _ \<Rightarrow> ([], [])
      | Inr s \<Rightarrow> (map (\<lambda>(_, d). dr_proposalItemID d) (st_dispositions s),
                  map (\<lambda>(_, d). dr_itemID d) (st_dispositions s)))"

subsection \<open>A small log\<close>

text \<open>
  A conversation the examples below evaluate: a question, a tool proposal promoted to a call and
  answered, a second proposal that policy suppressed, an answer that was played, a correction of
  the question, and the repair it makes necessary. A second tool call is still open.
\<close>

definition plain_item :: "string \<Rightarrow> kind \<Rightarrow> phase \<Rightarrow> nat \<Rightarrow> string list \<Rightarrow> nat \<Rightarrow> string \<Rightarrow> item" where
  "plain_item i k p ns parents r content =
     \<lparr>item_id = i, item_kind = k, item_ns = ns, item_parents = parents, item_revision = r,
      item_invocation = [],
      item_producer = \<lparr>pr_phase = p, pr_provider = [], pr_model = [], pr_reasoningEffort = [],
                       pr_speechAuthority = []\<rparr>,
      item_content = content, item_interrupted = False, item_visibility = VisibilityNone,
      item_toolCall = None, item_derivation = None, item_disposition = None, item_toolResult = None,
      item_placeholder = None, item_observation = None, item_state = None, item_repair = None,
      item_event = None, item_stateType = [], item_providerState = []\<rparr>"

definition example_items :: "item list" where
  "example_items =
     (let call = \<lparr>tc_callID = ''c0'', tc_name = ''lookup'', tc_arguments = ''{}''\<rparr>;
          call1 = \<lparr>tc_callID = ''c1'', tc_name = ''buy'', tc_arguments = ''{}''\<rparr> in
     [plain_item ''o1'' KindObservation PhaseUser 1 [] 1 ''a'',
      (plain_item ''p0'' KindToolProposal PhaseSlow 2 [''o1''] 1 [])
        \<lparr>item_invocation := ''inv'', item_toolCall := Some call\<rparr>,
      (plain_item ''p1'' KindToolProposal PhaseSlow 2 [''o1''] 1 [])
        \<lparr>item_invocation := ''inv'', item_toolCall := Some call1\<rparr>,
      (plain_item ''t0'' KindToolCall PhaseRuntime 3 [''p0''] 1 [])
        \<lparr>item_invocation := ''inv'', item_toolCall := Some call\<rparr>,
      (plain_item ''d1'' KindToolProposalDisposition PhaseRuntime 3 [''p1''] 1 [])
        \<lparr>item_invocation := ''inv'', item_disposition :=
           Some \<lparr>td_proposalItemID = ''p1'', td_callID = ''c1'', td_name = ''buy'',
                 td_kind = ToolProposalToolPolicySuppressed\<rparr>\<rparr>,
      (plain_item ''r0'' KindToolResult PhaseTool 4 [''t0''] 1 [])
        \<lparr>item_toolResult := Some \<lparr>tr_callID = ''c0'', tr_name = ''lookup'', tr_output = ''1'', tr_error = []\<rparr>\<rparr>,
      (plain_item ''t2'' KindToolCall PhaseRuntime 4 [] 1 [])
        \<lparr>item_invocation := ''inv'', item_toolCall :=
           Some \<lparr>tc_callID = ''c2'', tc_name = ''find'', tc_arguments = ''{}''\<rparr>\<rparr>,
      plain_item ''a0'' KindAssistant PhaseFast 5 [''o1''] 1 ''y'',
      (plain_item ''s0'' KindAssistantState PhaseRuntime 6 [] 1 [])
        \<lparr>item_state := Some \<lparr>as_itemID = ''a0'', as_visibility = VisibilityPlayed,
                             as_playedAudioMS = 700, as_heard = None\<rparr>\<rparr>,
      (plain_item ''o2'' KindObservation PhaseUser 7 [''o1''] 2 ''b'')
        \<lparr>item_event := Some \<lparr>ev_eventID = ''e2'', ev_type = ''user'', ev_source = ''mic'',
            ev_channel = ''voice'', ev_occurredNS = 7, ev_correlationID = [], ev_supersedes = 1,
            ev_batchID = [], ev_batchIndex = 0, ev_batchSize = 0\<rparr>\<rparr>,
      (plain_item ''q0'' KindRepair PhaseRuntime 8 [''a0''] 2 [])
        \<lparr>item_repair := Some \<lparr>rs_target = ''a0'', rs_status = RepairRequired, rs_repairItemID = [],
                              rs_playedAudioMS = 700\<rparr>\<rparr>])"

definition example_early :: store where
  "example_early = (case AppendBatch NewStore (take 9 example_items) of Inr s \<Rightarrow> s | Inl _ \<Rightarrow> NewStore)"

definition example_store :: store where
  "example_store = (case AppendBatch example_early (drop 9 example_items) of Inr s \<Rightarrow> s | Inl _ \<Rightarrow> NewStore)"

definition example_results :: "tool_result list" where
  "example_results = [\<lparr>tr_callID = ''c2'', tr_name = ''find'', tr_output = ''2'', tr_error = []\<rparr>]"

text \<open>One evaluation for all the examples.\<close>

definition example_facts :: "store \<Rightarrow> store \<Rightarrow> bool" where
  "example_facts s t \<longleftrightarrow>
     map_of (st_states s) ''a0'' = Some VisibilityPlayed
     \<and> is_call (''inv'', ''c0'') (st_items t ! 3) \<and> is_proposal (''inv'', ''c0'') (st_items t ! 1)
     \<and> is_proposal (''inv'', ''c1'') (st_items t ! 2)
     \<and> is_disposition (''inv'', ''c1'') (st_items t ! 4) \<and> is_result (''inv'', ''c0'') (st_items t ! 5)
     \<and> map_option ev_supersedes (item_event (st_items t ! 9)) = Some 1
     \<and> map item_id (st_items t) = map item_id example_items
     \<and> (case MatchToolResultBatch (Snapshot t) ''inv'' example_results of Inr [(p, r)] \<Rightarrow> True | _ \<Rightarrow> False)
     \<and> map pc_itemID (UnresolvedToolCalls (Snapshot t)) = [''t2'']
     \<and> map pr_target (PendingRepairs (Snapshot t)) = [''a0'']"

lemma example_run:
  "(case AppendBatch NewStore (take 9 example_items) of
      Inl _ \<Rightarrow> False
    | Inr s \<Rightarrow> (case AppendBatch s (drop 9 example_items) of Inl _ \<Rightarrow> False | Inr t \<Rightarrow> example_facts s t)) = True"
  by code_simp

lemma example_accepted:
  "AppendBatch NewStore (take 9 example_items) = Inr example_early"
  "AppendBatch example_early (drop 9 example_items) = Inr example_store"
  "example_facts example_early example_store"
  using example_run by (auto simp: example_early_def example_store_def split: sum.splits)

lemma example_reachable: "reachable example_early" "reachable example_store"
  using reachable.batch [OF reachable.new example_accepted(1)] reachable.batch [OF _ example_accepted(2)]
  by blast+

lemma example_extends: "extends example_early example_store"
  by (rule append_ops_extend(1) [OF example_accepted(2)])

lemmas example_log = example_accepted(3) [unfolded example_facts_def]

lemma example_length: "length (st_items example_store) = 11"
proof -
  have "map item_id (st_items example_store) = map item_id example_items" using example_log by blast
  then have "length (st_items example_store) = length example_items" by (metis length_map)
  then show ?thesis by (simp add: example_items_def Let_def)
qed

subsection \<open>Appending\<close>

lemma appendItems_recorded:
  "appendItems n s xs = Inr s' \<Longrightarrow> \<exists>ys. st_items s' = st_items s @ ys \<and> list_all2 recorded_as xs ys"
proof (induction xs arbitrary: n s)
  case (Cons x xs)
  then obtain y t where t: "appended s x y t" "appendItems (n + 1) t xs = Inr s'"
    by (auto simp: appendLocked_appended split: sum.splits)
  with Cons.IH obtain ys where "st_items s' = st_items t @ ys" "list_all2 recorded_as xs ys" by blast
  with t show ?case
    by (intro exI [of _ "y # ys"]) (simp add: appended_items [OF t(1)] appended_recorded [OF t(1)])
qed simp

lemma extends_items: "extends s t \<Longrightarrow> \<exists>ys. st_items t = st_items s @ ys"
  by (induction rule: extends.induct) (auto simp: appended_items)

lemma appendItems_error:
  "appendItems n s xs = Inl e \<Longrightarrow>
     \<exists>i f t. i < length xs \<and> e = ItemError (n + i) (item_id (xs ! i)) (item_kind (xs ! i)) f
       \<and> appendItems n s (take i xs) = Inr t \<and> appendLocked t (xs ! i) = Inl f"
proof (induction xs arbitrary: n s)
  case (Cons x xs)
  show ?case
  proof (cases "appendLocked s x")
    case (Inl f)
    with Cons.prems show ?thesis by (intro exI [of _ 0]) auto
  next
    case (Inr t)
    with Cons.prems Cons.IH [of "n + 1" t] obtain i f u where "i < length xs"
      "e = ItemError (n + 1 + i) (item_id (xs ! i)) (item_kind (xs ! i)) f"
      "appendItems (n + 1) t (take i xs) = Inr u" "appendLocked u (xs ! i) = Inl f" by auto
    with Inr show ?thesis by (intro exI [of _ "Suc i"]) auto
  qed
qed simp

text \<open>
  C1. The safe-point commit is all or nothing and appends only. It succeeds exactly at the expected
  version, and then the earlier items are untouched and every item of the batch is recorded, in
  order, with nothing changed but the default visibility of an assistant item and the invocation
  of an unscoped tool outcome.
\<close>

theorem AppendBatchAt_appends:
  assumes "AppendBatchAt s v items = Inr s'"
  shows "v = length (st_items s) \<and> length (st_items s') = v + length items
    \<and> take v (st_items s') = st_items s \<and> list_all2 recorded_as items (drop v (st_items s'))"
proof -
  from assms have v: "v = length (st_items s)"
    by (auto simp: AppendBatchAt_def appendBatch_def dest!: appendBatchLocked_items split: if_splits)
  from appendItems_recorded [OF append_ops_items(2) [OF assms]] obtain ys
    where "st_items s' = st_items s @ ys" "list_all2 recorded_as items ys" by blast
  with v show ?thesis by (auto dest: list_all2_lengthD)
qed

theorem AppendBatchAt_appends_witness:
  "AppendBatchAt NewStore 0 (take 9 example_items) = Inr example_early
   \<and> length (st_items example_early) = 9 \<and> list_all2 recorded_as (take 9 example_items) (st_items example_early)"
proof -
  have a: "AppendBatchAt NewStore 0 (take 9 example_items) = Inr example_early"
    using example_accepted(1)
    by (auto simp: AppendBatch_def AppendBatchAt_def appendBatch_def appendBatchLocked_def split: if_splits)
  have "length (take 9 example_items) = 9" by (simp add: example_items_def Let_def)
  with AppendBatchAt_appends [OF a] a show ?thesis by simp
qed

text \<open>
  A refused batch names the first item the log would not take: every item before it was
  admissible in order, and that item was refused by the store those items lead to.
\<close>

theorem AppendBatch_names_first_refused:
  assumes "AppendBatch s items = Inl (ItemError i ident k f)"
  shows "i < length items \<and> ident = item_id (items ! i) \<and> k = item_kind (items ! i)
    \<and> (\<exists>t. (i = 0 \<longrightarrow> t = s) \<and> (i > 0 \<longrightarrow> AppendBatch s (take i items) = Inr t)
          \<and> Append t (items ! i) = Inl (ItemError 0 ident k f))"
proof -
  from assms have "appendItems 0 s items = Inl (ItemError i ident k f)"
    by (auto simp: AppendBatch_def appendBatch_def appendBatchLocked_def split: if_splits)
  from appendItems_error [OF this] obtain t where i: "i < length items" "ident = item_id (items ! i)"
    "k = item_kind (items ! i)" "appendItems 0 s (take i items) = Inr t" "appendLocked t (items ! i) = Inl f"
    by auto
  moreover have "take i items \<noteq> []" if "i > 0" using that i(1) by auto
  ultimately show ?thesis
    by (intro conjI exI [of _ t])
      (auto simp: AppendBatch_def Append_def appendBatch_def appendBatchLocked_def)
qed

theorem AppendBatch_names_first_refused_witness:
  "let x = plain_item ''o'' KindObservation PhaseUser 1 [] 1 ''a'' in
   \<exists>t. AppendBatch NewStore [x] = Inr t
     \<and> Append t x = Inl (ItemError 0 ''o'' KindObservation (DuplicateID ''o''))"
proof -
  let ?x = "plain_item ''o'' KindObservation PhaseUser 1 [] 1 ''a''"
  have e: "AppendBatch NewStore [?x, ?x] = Inl (ItemError 1 ''o'' KindObservation (DuplicateID ''o''))"
    by code_simp
  from AppendBatch_names_first_refused [OF e] show ?thesis by (simp add: Let_def)
qed

text \<open>
  A commit that only tolerates harmless progress: it goes through exactly when nothing appended
  since the base version is superseding, and otherwise the store is not touched.
\<close>

theorem AppendBatchAfter_guards:
  "(\<exists>s'. AppendBatchAfter s base (Some P) items = Inr s') \<longleftrightarrow>
     base \<le> length (st_items s) \<and> (\<forall>x\<in>set (drop base (st_items s)). \<not> P x)
     \<and> (\<exists>s'. AppendBatch s items = Inr s')"
proof (cases "find P (drop base (st_items s))")
  case None
  then have "\<forall>x\<in>set (drop base (st_items s)). \<not> P x" by (metis find_None_iff)
  with None show ?thesis
    by (simp add: AppendBatchAfter_def AppendBatch_def appendBatch_def not_less)
next
  case (Some y)
  then have "\<exists>x\<in>set (drop base (st_items s)). P x" by (metis find_Some_iff nth_mem)
  with Some show ?thesis by (simp add: AppendBatchAfter_def)
qed

theorem AppendBatchAfter_guards_witness:
  "(\<exists>s'. AppendBatchAfter example_early 9 (Some (\<lambda>x. item_kind x = KindObservation)) (drop 9 example_items) = Inr s')
   \<and> \<not> (\<exists>s'. AppendBatchAfter example_early 0 (Some (\<lambda>x. True)) (drop 9 example_items) = Inr s')"
proof -
  have "length (take 9 example_items) = 9" by (simp add: example_items_def Let_def)
  with appendItems_recorded [OF append_ops_items(1) [OF example_accepted(1)]]
  have n: "length (st_items example_early) = 9" by (auto dest: list_all2_lengthD)
  then have ne: "st_items example_early \<noteq> []" by auto
  show ?thesis
    unfolding AppendBatchAfter_guards using n ne example_accepted(2) by (auto simp: neq_Nil_conv)
qed

text \<open>
  C10. Every log the store can hold is well formed: identifiers are unique and indexed exactly,
  commit times never go back, every item passes the common checks, and its causal parents are
  distinct and precede it.
\<close>

theorem reachable_log_well_formed:
  assumes "reachable s"
  shows "distinct (map item_id (st_items s))
    \<and> (\<forall>i n. map_of (st_byID s) i = Some n \<longleftrightarrow> n < length (st_items s) \<and> item_id (st_items s ! n) = i)
    \<and> sorted (map item_ns (st_items s))
    \<and> (\<forall>n<length (st_items s). validateCommon (st_items s ! n) = None
          \<and> distinct (item_parents (st_items s ! n))
          \<and> set (item_parents (st_items s ! n)) \<subseteq> item_id ` set (take n (st_items s)))"
  using reachable_well_formed [OF assms] by (simp add: well_formed_def)

theorem reachable_log_well_formed_witness:
  "reachable example_store \<and> length (st_items example_store) = 11
   \<and> distinct (map item_id (st_items example_store)) \<and> sorted (map item_ns (st_items example_store))"
  using reachable_log_well_formed [OF example_reachable(2)] example_reachable(2) example_length by blast

text \<open>
  C30. The log is the whole state: replaying the recorded items of any reachable store through a new
  store is accepted and rebuilds the very same store, every index included.
\<close>

theorem replay_rebuilds_store:
  assumes "reachable s" and "st_items s \<noteq> []"
  shows "AppendBatch NewStore (sn_items (Snapshot s)) = Inr s"
  using replay_items [OF assms(1)] assms(2)
  by (simp add: AppendBatch_def appendBatch_def appendBatchLocked_def Snapshot_def)

theorem replay_rebuilds_store_witness:
  "AppendBatch NewStore (sn_items (Snapshot example_store)) = Inr example_store"
proof -
  have "st_items example_store \<noteq> []" using example_length by auto
  from replay_rebuilds_store [OF example_reachable(2) this] show ?thesis .
qed

subsection \<open>Visibility\<close>

lemma appended_kind: "appended s it0 it s' \<Longrightarrow> validateKind s it = Inr (item_effect s it)"
  by (simp add: appended_def)

lemma appended_states: "appended s it0 it s' \<Longrightarrow> st_states s' = states_step (st_states s) it"
  by (rule states.index_append)

lemma plain_assistant:
  "validateKind s it = Inr s' \<Longrightarrow> item_kind it = KindAssistant \<Longrightarrow>
     item_visibility it = VisibilityPrepared \<or> item_visibility it = VisibilityPlayed"
  by (cases rule: validateKind_cases) (auto simp: validatePlainKind_def split: if_splits)

lemma state_transition:
  assumes "validateKind s it = Inr s'" "item_kind it = KindAssistantState"
  obtains a cur where "item_state it = Some a" "map_of (st_states s) (as_itemID a) = Some cur"
    "transition_allowed cur (as_visibility a)"
  using assms
  by (cases rule: validateKind_cases)
    (auto simp: transitionAssistant_def validatePlainKind_def split: option.splits if_splits)

lemma assistant_visible:
  assumes "reachable s" "x \<in> set (st_items s)" "item_kind x = KindAssistant"
  shows "item_visibility x = VisibilityPrepared \<or> item_visibility x = VisibilityPlayed"
proof -
  from assms(2) obtain n where n: "n < length (st_items s)" "x = st_items s ! n"
    by (auto simp: in_set_conv_nth)
  from item_admitted [OF assms(1) n(1)] n(2) show ?thesis
    using plain_assistant [OF appended_kind assms(3)] by blast
qed

lemma AssistantVisibility_states:
  assumes "reachable s"
  shows "AssistantVisibility (Snapshot s) = st_states s"
proof -
  have "\<forall>x\<in>set xs. item_kind x = KindAssistant \<longrightarrow> item_visibility x \<noteq> VisibilityNone \<Longrightarrow>
      foldl (\<lambda>m it.
       (case item_kind it of
          KindAssistant \<Rightarrow>
            AList.update (item_id it)
              (if item_visibility it = VisibilityNone then VisibilityPrepared else item_visibility it) m
        | KindAssistantState \<Rightarrow>
            (case item_state it of
               None \<Rightarrow> m | Some a \<Rightarrow> AList.update (as_itemID a) (as_visibility a) m)
        | _ \<Rightarrow> m)) m xs = foldl states_step m xs" for m xs
    by (induction xs arbitrary: m) (auto simp: states_step_def split: kind.split)
  moreover have "\<forall>x\<in>set (st_items s). item_kind x = KindAssistant \<longrightarrow> item_visibility x \<noteq> VisibilityNone"
    using assistant_visible [OF assms] by fastforce
  ultimately show ?thesis
    by (simp add: AssistantVisibility_def Snapshot_def states.projection [OF assms])
qed

lemma states_named:
  "reachable s \<Longrightarrow> gm_has (st_states s) i \<Longrightarrow> \<exists>x\<in>set (st_items s). item_id x = i \<and> item_kind x = KindAssistant"
proof (induction rule: reachable_item_induct)
  case new
  then show ?case by (simp add: NewStore_def)
next
  case (item s it0 it s')
  note it = appended_items [OF item.hyps(2)] appended_states [OF item.hyps(2)]
  show ?case
  proof (cases "gm_has (st_states s) i")
    case True
    with item.IH it show ?thesis by auto
  next
    case False
    with item.prems have "item_kind it = KindAssistant \<and> item_id it = i"
      using appended_kind [OF item.hyps(2)]
      by (auto simp: it states_step_def split: kind.splits option.splits if_splits elim!: state_transition)
    with it show ?thesis by auto
  qed
qed

lemma settled_visibility_stays:
  assumes r: "reachable s" and a: "appended s it0 it s'"
    and v: "map_of (st_states s) i = Some v" "v = VisibilityPlayed \<or> v = VisibilityCancelled"
  shows "map_of (st_states s') i = Some v"
proof -
  have fresh: "item_id it \<noteq> i"
  proof
    assume "item_id it = i"
    with appended_checks(2) [OF a] well_formed_known [OF reachable_well_formed [OF r]]
    have "i \<notin> item_id ` set (st_items s)" by blast
    with states_named [OF r] v(1) show False by (metis image_eqI option.distinct(1))
  qed
  show ?thesis
  proof (cases "item_kind it = KindAssistantState")
    case True
    from state_transition [OF appended_kind [OF a] True] obtain b cur where
      "item_state it = Some b" "map_of (st_states s) (as_itemID b) = Some cur"
      "transition_allowed cur (as_visibility b)" .
    with v True show ?thesis
      by (auto simp: appended_states [OF a] states_step_def transition_allowed_def)
  next
    case False
    with fresh v show ?thesis
      by (auto simp: appended_states [OF a] states_step_def split: kind.split)
  qed
qed

text \<open>
  C2. The visibility a provider reads from a snapshot is the one the store validated transitions
  against, and what was played or cancelled stays so: no later log of the same session reports
  played audio as unheard, or cancelled content as played.
\<close>

theorem settled_visibility_is_permanent:
  assumes "reachable s" and "extends s t"
    and "map_of (AssistantVisibility (Snapshot s)) i = Some v"
    and "v = VisibilityPlayed \<or> v = VisibilityCancelled"
  shows "map_of (AssistantVisibility (Snapshot t)) i = Some v"
proof -
  have "map_of (st_states t) i = Some v"
    using assms(2,1)
  proof (induction rule: extends_item_induct)
    case refl
    then show ?case using assms(1,3) by (simp add: AssistantVisibility_states)
  next
    case (item t it0 it t')
    from settled_visibility_stays [OF item.hyps item.IH assms(4)] show ?case .
  qed
  with assms(1,2) show ?thesis by (simp add: AssistantVisibility_states extends_reachable)
qed

theorem settled_visibility_is_permanent_witness:
  "map_of (AssistantVisibility (Snapshot example_store)) ''a0'' = Some VisibilityPlayed"
proof -
  have "map_of (AssistantVisibility (Snapshot example_early)) ''a0'' = Some VisibilityPlayed"
    using example_log by (simp add: AssistantVisibility_states [OF example_reachable(1)])
  from settled_visibility_is_permanent [OF example_reachable(1) example_extends this] show ?thesis by simp
qed

subsection \<open>Repairs\<close>

lemma map_of_map_filter:
  "distinct order \<Longrightarrow> (\<And>k p. k \<in> set order \<Longrightarrow> g k = Some p \<Longrightarrow> t p = k) \<Longrightarrow>
     map_of (map (\<lambda>p. (t p, q p)) (List.map_filter g order)) k =
       (if k \<in> set order then map_option q (g k) else None)"
proof (induction order)
  case (Cons a order)
  then show ?case
    by (cases "g a") auto
qed simp

lemma map_filter_targets:
  "distinct order \<Longrightarrow> (\<And>k p. k \<in> set order \<Longrightarrow> g k = Some p \<Longrightarrow> t p = k) \<Longrightarrow>
     distinct (map t (List.map_filter g order)) \<and> set (map t (List.map_filter g order)) \<subseteq> set order"
proof (induction order)
  case (Cons a order)
  then have IH: "distinct (map t (List.map_filter g order))" "set (map t (List.map_filter g order)) \<subseteq> set order"
    and hd: "\<And>p. g a = Some p \<Longrightarrow> t p = a" by auto
  with Cons.prems(1) show ?case by (cases "g a") auto
qed simp

text \<open>The projection's loop state against the store's index.\<close>

definition repair_view :: "(string, pending_repair) gomap \<times> string list \<Rightarrow> (string, string) gomap \<Rightarrow> bool" where
  "repair_view st m \<longleftrightarrow>
     (\<forall>k. map_of m k = map_option pr_requiredID (map_of (fst st) k))
     \<and> distinct (snd st) \<and> (\<forall>k p. map_of (fst st) k = Some p \<longrightarrow> k \<in> set (snd st) \<and> pr_target p = k)"

lemma repair_view_step:
  "repair_view st m \<Longrightarrow> repair_view (pendingRepairs_step st it) (repairs_step m it)"
  by (cases st) (auto simp: repair_view_def repairs_step_def split: option.splits repair_status.splits)

lemma repair_view_fold:
  "repair_view st m \<Longrightarrow> repair_view (foldl pendingRepairs_step st xs) (foldl repairs_step m xs)"
  by (induction xs arbitrary: st m) (simp_all add: repair_view_step del: pendingRepairs_step.simps)

lemma PendingRepairs_index:
  assumes "reachable s"
  shows "map_of (map (\<lambda>p. (pr_target p, pr_requiredID p)) (PendingRepairs (Snapshot s))) = map_of (st_repairs s)"
    "distinct (map pr_target (PendingRepairs (Snapshot s)))"
proof -
  obtain pend ord where po: "foldl pendingRepairs_step ([], []) (st_items s) = (pend, ord)" by force
  have "repair_view (pend, ord) (st_repairs s)"
    using repair_view_fold [of "([], [])" "[]" "st_items s"]
    by (simp add: po repairs.projection [OF assms] repair_view_def)
  then have v: "\<And>k. map_of (st_repairs s) k = map_option pr_requiredID (map_of pend k)" "distinct ord"
    "\<And>k p. map_of pend k = Some p \<Longrightarrow> k \<in> set ord \<and> pr_target p = k" by (auto simp: repair_view_def)
  have eq: "PendingRepairs (Snapshot s) = List.map_filter (map_of pend) ord"
    by (simp add: PendingRepairs_def Snapshot_def po)
  show "map_of (map (\<lambda>p. (pr_target p, pr_requiredID p)) (PendingRepairs (Snapshot s))) = map_of (st_repairs s)"
  proof
    fix k
    have "map_of (map (\<lambda>p. (pr_target p, pr_requiredID p)) (List.map_filter (map_of pend) ord)) k =
        (if k \<in> set ord then map_option pr_requiredID (map_of pend k) else None)"
      using v by (intro map_of_map_filter) auto
    with v show "map_of (map (\<lambda>p. (pr_target p, pr_requiredID p)) (PendingRepairs (Snapshot s))) k
        = map_of (st_repairs s) k"
      by (cases "map_of pend k") (auto simp: eq)
  qed
  show "distinct (map pr_target (PendingRepairs (Snapshot s)))"
    using map_filter_targets [of ord "map_of pend" pr_target] v by (simp add: eq)
qed

lemma repair_required:
  assumes "validateKind s it = Inr s'" "item_kind it = KindRepair"
  obtains r target where "item_repair it = Some r" "item_of s (rs_target r) = Some target"
    "item_kind target = KindAssistant"
    "rs_status r = RepairRequired \<longrightarrow> map_of (st_states s) (rs_target r) = Some VisibilityPlayed"
  using assms
  by (cases rule: validateKind_cases)
    (auto simp: transitionRepair_def requireRepair_def validatePlainKind_def
      split: option.splits if_splits repair_status.splits)

lemma item_of_log:
  assumes "reachable s" "item_of s i = Some x"
  shows "x \<in> set (st_items s) \<and> item_id x = i"
  using assms reachable_well_formed [OF assms(1)]
  by (auto simp: item_of_def well_formed_def split: option.splits)

lemma pending_in_log:
  "reachable s \<Longrightarrow> map_of (st_repairs s) i = Some q \<Longrightarrow>
     map_of (st_states s) i = Some VisibilityPlayed
     \<and> (\<exists>y\<in>set (st_items s). item_id y = q \<and> item_kind y = KindRepair)"
proof (induction rule: reachable_item_induct)
  case new
  then show ?case by (simp add: NewStore_def)
next
  case (item s it0 it s')
  note a = item.hyps(2)
  have eq: "st_repairs s' = repairs_step (st_repairs s) it" by (rule repairs.index_append [OF a])
  show ?case
  proof (cases "map_of (st_repairs s) i = Some q")
    case True
    with item.IH settled_visibility_stays [OF item.hyps] show ?thesis by (auto simp: appended_items [OF a])
  next
    case False
    with item.prems have k: "item_kind it = KindRepair"
      by (auto simp: eq repairs_step_def split: if_splits)
    from repair_required [OF appended_kind [OF a] k] obtain r where r: "item_repair it = Some r"
      "rs_status r = RepairRequired \<longrightarrow> map_of (st_states s) (rs_target r) = Some VisibilityPlayed" .
    with False item.prems k have "i = rs_target r" "rs_status r = RepairRequired" "q = item_id it"
      by (auto simp: eq repairs_step_def split: if_splits repair_status.splits)
    with r k settled_visibility_stays [OF item.hyps] show ?thesis by (auto simp: appended_items [OF a])
  qed
qed

text \<open>
  C34. The repair obligations read from a snapshot are the ones the store enforces: one entry per
  target, each naming the repair item that required it, and each target is assistant content that
  was really played, so a correction is never owed for something nobody heard.
\<close>

theorem PendingRepairs_matches_store:
  assumes "reachable s"
  shows "distinct (map pr_target (PendingRepairs (Snapshot s)))
    \<and> map_of (map (\<lambda>p. (pr_target p, pr_requiredID p)) (PendingRepairs (Snapshot s))) = map_of (st_repairs s)
    \<and> (\<forall>p\<in>set (PendingRepairs (Snapshot s)).
         map_of (AssistantVisibility (Snapshot s)) (pr_target p) = Some VisibilityPlayed
         \<and> (\<exists>y\<in>set (st_items s). item_id y = pr_requiredID p \<and> item_kind y = KindRepair))"
proof (intro conjI ballI)
  fix p assume p: "p \<in> set (PendingRepairs (Snapshot s))"
  have "map_of (map (\<lambda>p. (pr_target p, pr_requiredID p)) (PendingRepairs (Snapshot s))) (pr_target p)
      = Some (pr_requiredID p)"
    using p PendingRepairs_index(2) [OF assms] by (intro map_of_is_SomeI) (auto simp: comp_def)
  then have "map_of (st_repairs s) (pr_target p) = Some (pr_requiredID p)"
    by (simp add: PendingRepairs_index(1) [OF assms])
  from pending_in_log [OF assms this]
  show "map_of (AssistantVisibility (Snapshot s)) (pr_target p) = Some VisibilityPlayed"
    "\<exists>y\<in>set (st_items s). item_id y = pr_requiredID p \<and> item_kind y = KindRepair"
    by (simp_all add: AssistantVisibility_states [OF assms])
qed (rule PendingRepairs_index [OF assms])+

theorem PendingRepairs_matches_store_witness:
  "map pr_target (PendingRepairs (Snapshot example_store)) = [''a0'']
   \<and> map_of (AssistantVisibility (Snapshot example_store)) ''a0'' = Some VisibilityPlayed"
proof -
  have t: "map pr_target (PendingRepairs (Snapshot example_store)) = [''a0'']" using example_log by blast
  then obtain p where "PendingRepairs (Snapshot example_store) = [p]" "pr_target p = ''a0''" by auto
  with PendingRepairs_matches_store [OF example_reachable(2)] t show ?thesis by auto
qed

subsection \<open>Tool calls\<close>

lemma nth_in_take: "i < j \<Longrightarrow> j \<le> length xs \<Longrightarrow> xs ! i \<in> set (take j xs)"
  by (metis length_take min.absorb2 nth_mem nth_take)

lemma outcome_of_call:
  assumes "appended s it0 it s'" and "is_result k it"
  obtains r where "item_toolResult it = Some r" "k = (item_invocation it, tr_callID r)"
    "\<not> gm_has (st_results s) k" "(k, tr_name r) \<in> set (st_calls s)"
proof -
  from assms(2) obtain r where r: "item_kind it = KindToolResult" "item_toolResult it = Some r"
    "k = (item_invocation it, tr_callID r)" by (auto simp: is_result_def)
  from appended_kind [OF assms(1)] r have "acceptToolResult s it r = Inr (item_effect s it)"
    by (cases rule: validateKind_cases) (auto simp: validatePlainKind_def)
  moreover have "normalizeToolInvocation s (default_visibility it0) = Inr it"
    using assms(1) by (simp add: appended_def)
  ultimately show thesis using that acceptToolResult_effect r by metis
qed

lemma call_entry_item:
  assumes "reachable s" "(k, n) \<in> set (st_calls s)"
  shows "\<exists>x\<in>set (st_items s). is_call k x \<and> map_option tc_name (item_toolCall x) = Some n"
  using calls_fold_entry [of k n "[]" "st_items s"] assms by (simp add: calls.projection [OF assms(1)])

text \<open>
  C9. In every reachable log a tool call has at most one terminal result, and each result was
  committed after the call it answers, in the same invocation and under the same name.
\<close>

theorem one_result_per_call:
  assumes "reachable s" and "n < length (st_items s)" and "is_result k (st_items s ! n)"
  shows "(\<forall>m<length (st_items s). is_result k (st_items s ! m) \<longrightarrow> m = n)
    \<and> (\<exists>m<n. is_call k (st_items s ! m)
         \<and> map_option tc_name (item_toolCall (st_items s ! m)) = map_option tr_name (item_toolResult (st_items s ! n)))"
proof
  have fresh: "\<not> is_result k (st_items s ! i)"
    if "i < j" "j < length (st_items s)" "is_result k (st_items s ! j)" for i j
  proof -
    from item_admitted [OF assms(1) that(2)] obtain t t' where t: "reachable t"
      "st_items t = take j (st_items s)" "appended t (st_items s ! j) (st_items s ! j) t'" by blast
    from outcome_of_call [OF t(3) that(3)] have "\<not> gm_has (st_results t) k" by blast
    with index_has(2) [OF t(1), of k] t(2) have "\<forall>x\<in>set (take j (st_items s)). \<not> is_result k x" by metis
    moreover have "st_items s ! i \<in> set (take j (st_items s))" using that(1,2) by (simp add: nth_in_take)
    ultimately show ?thesis by blast
  qed
  show "\<forall>m<length (st_items s). is_result k (st_items s ! m) \<longrightarrow> m = n"
    using fresh assms(2,3) by (metis nat_neq_iff)
  from item_admitted [OF assms(1,2)] obtain t t' where t: "reachable t"
    "st_items t = take n (st_items s)" "appended t (st_items s ! n) (st_items s ! n) t'" by blast
  from outcome_of_call [OF t(3) assms(3)] obtain r where r: "item_toolResult (st_items s ! n) = Some r"
    "(k, tr_name r) \<in> set (st_calls t)" by metis
  from call_entry_item [OF t(1) r(2)] obtain x where "x \<in> set (take n (st_items s))" "is_call k x"
    "map_option tc_name (item_toolCall x) = Some (tr_name r)" by (auto simp: t(2))
  then show "\<exists>m<n. is_call k (st_items s ! m)
      \<and> map_option tc_name (item_toolCall (st_items s ! m)) = map_option tr_name (item_toolResult (st_items s ! n))"
    using r(1) assms(2) by (auto simp: in_set_conv_nth)
qed

theorem one_result_per_call_witness:
  "{m. m < 11 \<and> is_result (''inv'', ''c0'') (st_items example_store ! m)} = {5}"
proof -
  have r: "is_result (''inv'', ''c0'') (st_items example_store ! 5)" using example_log by blast
  have "5 < length (st_items example_store)" by (simp add: example_length)
  from one_result_per_call [OF example_reachable(2) this r] r show ?thesis by (auto simp: example_length)
qed

lemma call_accepted:
  assumes "appended s it0 it s'" "is_call k it"
  obtains c where "item_toolCall it = Some c" "k = (item_invocation it, tc_callID c)"
    "acceptToolCall s it c = Inr (item_effect s it)"
proof -
  from assms(2) obtain c where c: "item_kind it = KindToolCall" "item_toolCall it = Some c"
    "k = (item_invocation it, tc_callID c)" by (auto simp: tool_item_defs)
  from appended_kind [OF assms(1)] c have "acceptToolCall s it c = Inr (item_effect s it)"
    by (cases rule: validateKind_cases) (auto simp: validatePlainKind_def)
  with c show thesis using that by blast
qed

lemma proposal_accepted:
  assumes "appended s it0 it s'" "is_proposal k it"
  obtains c where "item_toolCall it = Some c" "k = (item_invocation it, tc_callID c)"
    "acceptToolProposal s it c = Inr (item_effect s it)"
proof -
  from assms(2) obtain c where c: "item_kind it = KindToolProposal" "item_toolCall it = Some c"
    "k = (item_invocation it, tc_callID c)" by (auto simp: tool_item_defs)
  from appended_kind [OF assms(1)] c have "acceptToolProposal s it c = Inr (item_effect s it)"
    by (cases rule: validateKind_cases) (auto simp: validatePlainKind_def)
  with c show thesis using that by blast
qed

lemma disposition_accepted:
  assumes "appended s it0 it s'" "is_disposition k it"
  obtains d where "item_disposition it = Some d" "k = (item_invocation it, td_callID d)"
    "acceptDisposition s it d = Inr (item_effect s it)"
proof -
  from assms(2) obtain d where d: "item_kind it = KindToolProposalDisposition" "item_disposition it = Some d"
    "k = (item_invocation it, td_callID d)" by (auto simp: tool_item_defs)
  from appended_kind [OF assms(1)] d have "acceptDisposition s it d = Inr (item_effect s it)"
    by (cases rule: validateKind_cases) (auto simp: validatePlainKind_def)
  with d show thesis using that by blast
qed

text \<open>Proposals are unique and never follow a call of their identity.\<close>

lemma proposal_fresh:
  assumes "reachable s" "j < length (st_items s)" "is_proposal k (st_items s ! j)" "i < j"
  shows "\<not> is_proposal k (st_items s ! i) \<and> \<not> is_call k (st_items s ! i)"
proof -
  from item_admitted [OF assms(1,2)] obtain t t' where t: "reachable t"
    "st_items t = take j (st_items s)" "appended t (st_items s ! j) (st_items s ! j) t'" by blast
  from proposal_accepted [OF t(3) assms(3)] obtain c where k: "k = (item_invocation (st_items s ! j), tc_callID c)"
    and c: "acceptToolProposal t (st_items s ! j) c = Inr (item_effect t (st_items s ! j))" .
  from c have "\<not> gm_has (st_proposals t) k" "\<not> gm_has (st_calls t) k"
    unfolding k acceptToolProposal_def Let_def by (auto split: option.split_asm if_split_asm)
  with index_has(1,4) [OF t(1), of k] t(2)
  have "\<forall>x\<in>set (take j (st_items s)). \<not> is_proposal k x \<and> \<not> is_call k x" by metis
  moreover have "st_items s ! i \<in> set (take j (st_items s))" using assms(2,4) by (simp add: nth_in_take)
  ultimately show ?thesis by blast
qed

text \<open>What the store checked when it promoted a proposal is what the snapshot replay checks.\<close>

lemma promotion_replays:
  assumes "validateToolCallPromotion it c (proposal_of p pc) = None" and "validateToolCall c = None"
    and "validateToolCall pc = None" and "item_kind it = KindToolCall" "item_kind p = KindToolProposal"
    and "item_toolCall it = Some c" "item_toolCall p = Some pc"
  shows "isPromotedToolProposal p it"
  using assms
  by (auto simp: validateToolCallPromotion_def isPromotedToolProposal_def proposal_of_def
      split: if_splits)

lemma acceptToolCall_checks:
  assumes "acceptToolCall s it c = Inr s'"
  shows "validateToolCall c = None" "\<not> gm_has (st_calls s) (item_invocation it, tc_callID c)"
    "\<not> gm_has (st_dispositions s) (item_invocation it, tc_callID c)"
    "\<And>p. map_of (st_proposals s) (item_invocation it, tc_callID c) = Some p \<Longrightarrow>
       validateToolCallPromotion it c p = None"
  using assms unfolding acceptToolCall_def Let_def
  by (auto split: option.split_asm if_split_asm)

lemma acceptDisposition_checks:
  assumes "acceptDisposition s it d = Inr s'"
  shows "\<not> gm_has (st_calls s) (item_invocation it, td_callID d)"
    "\<not> gm_has (st_dispositions s) (item_invocation it, td_callID d)"
    "\<exists>p. map_of (st_proposals s) (item_invocation it, td_callID d) = Some p \<and> pp_itemID p = td_proposalItemID d"
  using assms unfolding acceptDisposition_def validateToolProposalDisposition_def Let_def
  by (auto split: option.split_asm if_split_asm)

lemma proposal_entry_item:
  assumes "reachable s" "map_of (st_proposals s) k = Some p"
  shows "\<exists>x\<in>set (st_items s). is_proposal k x \<and> map_option (proposal_of x) (item_toolCall x) = Some p"
  using proposals_fold_entry [of "[]" "st_items s" k p] assms by (simp add: proposals.projection [OF assms(1)])

lemma proposal_unique:
  assumes "reachable s" "x \<in> set (st_items s)" "y \<in> set (st_items s)" "is_proposal k x" "is_proposal k y"
  shows "x = y"
proof -
  from assms(2,3) obtain i j where "i < length (st_items s)" "x = st_items s ! i"
    "j < length (st_items s)" "y = st_items s ! j" by (auto simp: in_set_conv_nth)
  with proposal_fresh [OF assms(1)] assms(4,5) show ?thesis by (metis nat_neq_iff)
qed

lemma proposal_valid:
  assumes "reachable s" "x \<in> set (st_items s)" "is_proposal k x" "item_toolCall x = Some c"
  shows "validateToolCall c = None"
proof -
  from assms(2) obtain n where n: "n < length (st_items s)" "x = st_items s ! n" by (auto simp: in_set_conv_nth)
  with item_admitted [OF assms(1) n(1)] obtain t t' where "appended t x x t'" by blast
  from proposal_accepted [OF this assms(3)] obtain c' where "item_toolCall x = Some c'"
    "acceptToolProposal t x c' = Inr (item_effect t x)" .
  with assms(4) show ?thesis by (simp add: acceptToolProposal_def split: option.split_asm)
qed

lemma call_promotes:
  assumes "reachable s" and "n < length (st_items s)" "m < length (st_items s)"
    and "is_call k (st_items s ! n)" "is_proposal k (st_items s ! m)"
  shows "m < n \<and> isPromotedToolProposal (st_items s ! m) (st_items s ! n)"
proof -
  let ?p = "st_items s ! m" and ?c = "st_items s ! n"
  have "m \<noteq> n" using assms(4,5) by (auto simp: is_call_def is_proposal_def)
  with proposal_fresh [OF assms(1,3,5), of n] assms(4) have mn: "m < n" by (metis nat_neq_iff)
  from item_admitted [OF assms(1,2)] obtain t t' where t: "reachable t"
    "st_items t = take n (st_items s)" "appended t ?c ?c t'" by blast
  have p: "?p \<in> set (st_items t)" using mn assms(2) by (simp add: t(2) nth_in_take)
  from call_accepted [OF t(3) assms(4)] obtain c where c: "item_toolCall ?c = Some c"
    "k = (item_invocation ?c, tc_callID c)" "acceptToolCall t ?c c = Inr (item_effect t ?c)" .
  from p assms(5) index_has(4) [OF t(1), of k] obtain r where r: "map_of (st_proposals t) k = Some r" by blast
  from proposal_entry_item [OF t(1) r] proposal_unique [OF t(1) _ p _ assms(5)]
  obtain pc where pc: "item_toolCall ?p = Some pc" "r = proposal_of ?p pc" by fastforce
  have "isPromotedToolProposal ?p ?c"
  proof (rule promotion_replays)
    show "validateToolCallPromotion ?c c (proposal_of ?p pc) = None"
      using acceptToolCall_checks(4) [OF c(3)] r pc c(2) by simp
    show "validateToolCall pc = None" by (rule proposal_valid [OF t(1) p assms(5) pc(1)])
  qed (use assms(4,5) c pc acceptToolCall_checks(1) [OF c(3)] in \<open>auto simp: is_call_def is_proposal_def\<close>)
  with mn show ?thesis ..
qed

text \<open>
  C28. Execution authority never drifts from what the model proposed. In a reachable log, when an
  executable call and a proposal carry the same identity, the proposal is the only one, it
  precedes the call, and the call is a genuine promotion of it: causally linked, same invocation,
  revision and name, with byte-identical arguments or arguments that a recorded derivation
  reproduces.
\<close>

theorem call_promotes_its_proposal:
  assumes "reachable s" and "n < length (st_items s)" "m < length (st_items s)"
    and "is_call k (st_items s ! n)" "is_proposal k (st_items s ! m)"
  shows "m < n \<and> isPromotedToolProposal (st_items s ! m) (st_items s ! n)
    \<and> (\<forall>i<length (st_items s). is_proposal k (st_items s ! i) \<longrightarrow> i = m)"
  using call_promotes [OF assms] proposal_fresh [OF assms(1)] assms(3,5) by (metis nat_neq_iff)

theorem call_promotes_its_proposal_witness:
  "isPromotedToolProposal (st_items example_store ! 1) (st_items example_store ! 3)"
proof -
  have "is_call (''inv'', ''c0'') (st_items example_store ! 3)"
    "is_proposal (''inv'', ''c0'') (st_items example_store ! 1)" using example_log by blast+
  from call_promotes_its_proposal [OF example_reachable(2) _ _ this] show ?thesis by (simp add: example_length)
qed

text \<open>
  C29. A disposed proposal is terminal: in a reachable log no identity carries both a disposition and
  an executable call, whichever came first, and a proposal is disposed of at most once.
\<close>

theorem disposed_never_promoted:
  assumes "reachable s" and "n < length (st_items s)" "is_disposition k (st_items s ! n)"
  shows "(\<forall>m<length (st_items s). \<not> is_call k (st_items s ! m))
    \<and> (\<forall>m<length (st_items s). is_disposition k (st_items s ! m) \<longrightarrow> m = n)
    \<and> (\<exists>m<n. is_proposal k (st_items s ! m)
         \<and> map_option td_proposalItemID (item_disposition (st_items s ! n)) = Some (item_id (st_items s ! m)))"
proof -
  have pre: "\<not> is_call k (st_items s ! i) \<and> \<not> is_disposition k (st_items s ! i)"
    if "i < j" "j < length (st_items s)" "is_disposition k (st_items s ! j)" for i j
  proof -
    from item_admitted [OF assms(1) that(2)] obtain t t' where t: "reachable t"
      "st_items t = take j (st_items s)" "appended t (st_items s ! j) (st_items s ! j) t'" by blast
    from disposition_accepted [OF t(3) that(3)] acceptDisposition_checks(1,2)
    have "\<not> gm_has (st_calls t) k" "\<not> gm_has (st_dispositions t) k" by metis+
    with index_has(1,3) [OF t(1), of k] nth_in_take [OF that(1), of "st_items s"] that(2) t(2)
    show ?thesis by (metis less_or_eq_imp_le)
  qed
  have post: "\<not> is_disposition k (st_items s ! i)"
    if "i < j" "j < length (st_items s)" "is_call k (st_items s ! j)" for i j
  proof -
    from item_admitted [OF assms(1) that(2)] obtain t t' where t: "reachable t"
      "st_items t = take j (st_items s)" "appended t (st_items s ! j) (st_items s ! j) t'" by blast
    from call_accepted [OF t(3) that(3)] acceptToolCall_checks(3) have "\<not> gm_has (st_dispositions t) k" by metis
    with index_has(3) [OF t(1), of k] nth_in_take [OF that(1), of "st_items s"] that(2) t(2)
    show ?thesis by (metis less_or_eq_imp_le)
  qed
  from item_admitted [OF assms(1,2)] obtain t t' where t: "reachable t"
    "st_items t = take n (st_items s)" "appended t (st_items s ! n) (st_items s ! n) t'" by blast
  from disposition_accepted [OF t(3) assms(3)] obtain d where d: "item_disposition (st_items s ! n) = Some d"
    "k = (item_invocation (st_items s ! n), td_callID d)"
    "acceptDisposition t (st_items s ! n) d = Inr (item_effect t (st_items s ! n))" .
  from acceptDisposition_checks(3) [OF d(3)] proposal_entry_item [OF t(1)]
  obtain p where "p \<in> set (take n (st_items s))" "is_proposal k p" "td_proposalItemID d = item_id p"
    unfolding d(2) t(2) by (fastforce simp: proposal_of_def)
  then have "\<exists>m<n. is_proposal k (st_items s ! m)
      \<and> map_option td_proposalItemID (item_disposition (st_items s ! n)) = Some (item_id (st_items s ! m))"
    using d(1) assms(2) by (auto simp: in_set_conv_nth)
  moreover have "\<not> is_call k (st_items s ! n)" using assms(3) by (auto simp: is_call_def is_disposition_def)
  ultimately show ?thesis using pre post assms(2,3) by (metis nat_neq_iff)
qed

theorem disposed_never_promoted_witness:
  "is_disposition (''inv'', ''c1'') (st_items example_store ! 4)
   \<and> {m. m < 11 \<and> is_call (''inv'', ''c1'') (st_items example_store ! m)} = {}"
proof -
  have d: "is_disposition (''inv'', ''c1'') (st_items example_store ! 4)" using example_log by blast
  from disposed_never_promoted [OF example_reachable(2) _ d] d show ?thesis by (simp add: example_length)
qed

subsection \<open>Supersession\<close>

lemma last_index_Some:
  "last_index P xs = Some i \<Longrightarrow> i < length xs \<and> P (xs ! i) \<and> (\<forall>j. i < j \<and> j < length xs \<longrightarrow> \<not> P (xs ! j))"
proof (induction xs arbitrary: i)
  case (Cons x xs)
  show ?case
  proof (cases "last_index P xs")
    case None
    have "\<forall>y\<in>set xs. \<not> P y" using None
      by (induction xs) (auto split: option.splits if_splits)
    with None Cons.prems show ?thesis by (auto simp: nth_Cons split: nat.splits if_splits)
  next
    case (Some j)
    with Cons.IH [OF Some] Cons.prems show ?thesis
      by (auto simp: nth_Cons split: nat.splits)
  qed
qed simp

lemma last_index_found: "P x \<Longrightarrow> x \<in> set xs \<Longrightarrow> \<exists>i. last_index P xs = Some i"
  by (induction xs) (auto split: option.split)

text \<open>
  An accepted correction replaces exactly the newest observation of its own stream: the item it
  supersedes has the older revision it names, is one of its causal parents, belongs to the same
  source stream, and no other observation of that stream lies between the two.
\<close>

theorem superseded_is_latest_of_stream:
  assumes "reachable s" and "n < length (st_items s)"
    and "item_event (st_items s ! n) = Some e" "ev_supersedes e \<noteq> 0"
  shows "\<exists>i<n. item_kind (st_items s ! i) = KindObservation \<and> item_kind (st_items s ! n) = KindObservation
    \<and> item_revision (st_items s ! i) = ev_supersedes e \<and> ev_supersedes e < item_revision (st_items s ! n)
    \<and> item_id (st_items s ! i) \<in> set (item_parents (st_items s ! n))
    \<and> sameObservationStream (st_items s ! i) (st_items s ! n)
    \<and> (\<forall>j. i < j \<and> j < n \<and> item_kind (st_items s ! j) = KindObservation \<longrightarrow>
          \<not> sameObservationStream (st_items s ! j) (st_items s ! n))"
proof -
  let ?it = "st_items s ! n" and ?pre = "take n (st_items s)"
  from item_admitted [OF assms(1,2)] obtain t t' where "st_items t = ?pre" "appended t ?it ?it t'" by blast
  then have "\<not> isl (ResolveObservationSupersession ?pre ?it)" by (simp add: appended_def)
  then obtain i where i: "last_index (\<lambda>c. item_kind c = KindObservation \<and> item_revision c = ev_supersedes e) ?pre = Some i"
    and k: "item_kind ?it = KindObservation" "ev_supersedes e < item_revision ?it"
      "sameObservationStream (?pre ! i) ?it" "item_id (?pre ! i) \<in> set (item_parents ?it)"
    and latest: "\<not> (case last_index (\<lambda>c. item_kind c = KindObservation \<and> sameObservationStream c ?it) ?pre of
        None \<Rightarrow> False | Some j \<Rightarrow> item_revision (?pre ! j) \<noteq> ev_supersedes e)"
    using assms(3,4)
    by (auto simp: ResolveObservationSupersession_def Let_def split: option.split_asm if_split_asm)
  note li = last_index_Some [OF i]
  have "i < n" using li by simp
  from li have "?pre ! i \<in> set ?pre" by (metis nth_mem)
  with last_index_found [of "\<lambda>c. item_kind c = KindObservation \<and> sameObservationStream c ?it" "?pre ! i"] li k(3)
  obtain j where j: "last_index (\<lambda>c. item_kind c = KindObservation \<and> sameObservationStream c ?it) ?pre = Some j" by blast
  note lj = last_index_Some [OF j]
  have "item_revision (?pre ! j) = ev_supersedes e" using latest j by simp
  with li lj have "\<not> i < j" by blast
  moreover have "\<not> j < i" using li lj k(3) by blast
  ultimately have "j = i" by simp
  with lj have "\<forall>m. i < m \<and> m < n \<and> item_kind (st_items s ! m) = KindObservation \<longrightarrow>
      \<not> sameObservationStream (st_items s ! m) ?it" using assms(2) by simp
  with \<open>i < n\<close> li k assms(2) show ?thesis by (intro exI [of _ i]) simp
qed

theorem superseded_is_latest_of_stream_witness:
  "\<exists>i<9. item_revision (st_items example_store ! i) = 1
     \<and> item_id (st_items example_store ! i) \<in> set (item_parents (st_items example_store ! 9))"
proof -
  from example_log obtain e where e: "item_event (st_items example_store ! 9) = Some e" "ev_supersedes e = 1" by blast
  from superseded_is_latest_of_stream [OF example_reachable(2) _ e(1)] e(2) show ?thesis
    by (auto simp: example_length)
qed

subsection \<open>Which calls are still open\<close>

lemma call_identity_iff: "call_identity x = Some k \<longleftrightarrow> is_call k x"
  by (simp add: call_identity_def is_call_def)

lemma set_map_filter: "set (List.map_filter f xs) = {y. \<exists>x\<in>set xs. f x = Some y}"
  by (induction xs) (auto split: option.splits)

lemma call_unique:
  assumes "reachable s" "i < j" "j < length (st_items s)" "is_call k (st_items s ! j)"
  shows "\<not> is_call k (st_items s ! i)
    \<and> (\<forall>k'. is_call k' (st_items s ! i) \<longrightarrow> snd k' = snd k \<longrightarrow> fst k' \<noteq> [] \<and> fst k \<noteq> [])"
proof -
  from item_admitted [OF assms(1,3)] obtain t t' where t: "reachable t"
    "st_items t = take j (st_items s)" "appended t (st_items s ! j) (st_items s ! j) t'" by blast
  have i: "st_items s ! i \<in> set (st_items t)" using assms(2,3) by (simp add: t(2) nth_in_take)
  from call_accepted [OF t(3) assms(4)] obtain c where k: "k = (item_invocation (st_items s ! j), tc_callID c)"
    and c: "acceptToolCall t (st_items s ! j) c = Inr (item_effect t (st_items s ! j))" .
  have fresh: "\<not> gm_has (st_calls t) k" using acceptToolCall_checks(2) [OF c] k by simp
  have "\<not> hasUnscopedConflict t k"
    using c unfolding k acceptToolCall_def Let_def by (auto split: option.split_asm if_split_asm)
  then have "\<not> conflicts k' k" if "gm_has (st_calls t) k'" for k'
    using that by (auto simp: hasUnscopedConflict_def list_ex_iff map_of_eq_None_iff)
  with fresh index_has(1) [OF t(1)] i show ?thesis by (metis conflicts_def)
qed

lemma distinct_map_filter:
  "(\<forall>i j k. i < j \<and> j < length xs \<and> f (xs ! j) = Some k \<longrightarrow> f (xs ! i) \<noteq> Some k) \<Longrightarrow>
     distinct (List.map_filter f xs)"
proof (induction xs)
  case (Cons x xs)
  have "distinct (List.map_filter f xs)"
  proof (rule Cons.IH, intro allI impI)
    fix i j k assume "i < j \<and> j < length xs \<and> f (xs ! j) = Some k"
    with Cons.prems [rule_format, of "Suc i" "Suc j" k] show "f (xs ! i) \<noteq> Some k" by simp
  qed
  moreover have "\<forall>y\<in>set xs. f y \<noteq> f x" if "f x = Some k" for k
  proof
    fix y assume "y \<in> set xs"
    then obtain i where "i < length xs" "y = xs ! i" by (auto simp: in_set_conv_nth)
    with Cons.prems [rule_format, of 0 "Suc i" k] that show "f y \<noteq> f x" by auto
  qed
  ultimately show ?case by (auto simp: set_map_filter split: option.split)
qed simp

lemma calls_distinct:
  assumes "reachable s"
  shows "distinct (List.map_filter call_identity (st_items s))"
  by (rule distinct_map_filter) (auto simp: call_identity_iff dest: call_unique [OF assms])

text \<open>An identity that occurs among the calls is resolved to itself.\<close>

lemma distinct_singleton_list: "distinct xs \<Longrightarrow> set xs = {a} \<Longrightarrow> xs = [a]"
proof -
  assume d: "distinct xs" "set xs = {a}"
  then have "length xs = 1" using distinct_card [OF d(1)] by simp
  then obtain b where "xs = [b]" by (metis One_nat_def length_0_conv length_Suc_conv)
  with d(2) show ?thesis by simp
qed

lemma snapshotToolIdentity_known:
  assumes "reachable s" "\<exists>x\<in>set (st_items s). is_call (i, c) x"
  shows "snapshotToolIdentity i c (Snapshot s) = Some (i, c)"
proof -
  let ?ks = "List.map_filter call_identity (st_items s)"
  have mem: "(i, c) \<in> set ?ks" using assms(2) by (auto simp: set_map_filter call_identity_iff)
  show ?thesis
  proof (cases "i = []")
    case False
    with mem show ?thesis by (simp add: snapshotToolIdentity_def toolCallScopes_def Snapshot_def)
  next
    case True
    have same: "k = (i, c)" if "k \<in> set ?ks" "snd k = c" for k
    proof -
      from that assms(2) obtain m n where mn: "m < length (st_items s)" "is_call k (st_items s ! m)"
        "n < length (st_items s)" "is_call (i, c) (st_items s ! n)"
        by (auto simp: set_map_filter call_identity_iff in_set_conv_nth)
      have "\<not> m < n" using call_unique [OF assms(1) _ mn(3,4), of m] mn(2) that(2) True by (metis fst_conv snd_conv)
      moreover have "\<not> n < m" using call_unique [OF assms(1) _ mn(1,2), of n] mn(4) that(2) True by (metis fst_conv snd_conv)
      ultimately have "m = n" by simp
      with mn(2,4) show ?thesis by (simp add: is_call_def)
    qed
    have "distinct (filter (\<lambda>k. snd k = c) ?ks)" using calls_distinct [OF assms(1)] by simp
    moreover have "set (filter (\<lambda>k. snd k = c) ?ks) = {(i, c)}"
    proof (rule set_eqI)
      fix k show "k \<in> set (filter (\<lambda>k. snd k = c) ?ks) \<longleftrightarrow> k \<in> {(i, c)}"
        using mem same [of k] by fastforce
    qed
    ultimately have "filter (\<lambda>k. snd k = c) ?ks = [(i, c)]"
      by (rule distinct_singleton_list)
    with True show ?thesis by (simp add: snapshotToolIdentity_def toolCallScopes_def Snapshot_def)
  qed
qed

definition is_placeholder :: "tool_identity \<Rightarrow> item \<Rightarrow> bool" where
  "is_placeholder k x \<longleftrightarrow> item_kind x = KindToolPlaceholder
     \<and> map_option (\<lambda>p. (item_invocation x, tp_callID p)) (item_placeholder x) = Some k"

lemma placeholder_of_call:
  assumes "appended s it0 it s'" and "is_placeholder k it"
  shows "\<not> gm_has (st_results s) k \<and> (\<exists>n. (k, n) \<in> set (st_calls s))"
proof -
  from assms(2) obtain p where p: "item_kind it = KindToolPlaceholder" "item_placeholder it = Some p"
    "k = (item_invocation it, tp_callID p)" by (auto simp: is_placeholder_def)
  from appended_kind [OF assms(1)] p have "acceptToolPlaceholder s it p = Inr (item_effect s it)"
    by (cases rule: validateKind_cases) (auto simp: validatePlainKind_def)
  moreover have "normalizeToolInvocation s (default_visibility it0) = Inr it"
    using assms(1) by (simp add: appended_def)
  ultimately show ?thesis using acceptToolPlaceholder_effect p by metis
qed

lemma outcome_has_call:
  assumes "reachable s" "x \<in> set (st_items s)" "is_result k x \<or> is_placeholder k x"
  shows "\<exists>y\<in>set (st_items s). is_call k y"
proof -
  from assms(2) obtain n where n: "n < length (st_items s)" "x = st_items s ! n" by (auto simp: in_set_conv_nth)
  from item_admitted [OF assms(1) n(1)] n(2) obtain t t' where t: "reachable t"
    "st_items t = take n (st_items s)" "appended t x x t'" by blast
  with assms(3) obtain nm where "(k, nm) \<in> set (st_calls t)"
    using outcome_of_call [OF t(3)] placeholder_of_call [OF t(3)] by metis
  from call_entry_item [OF t(1) this] t(2) show ?thesis by (metis in_set_takeD)
qed

lemma placeholder_index:
  "reachable s \<Longrightarrow> gm_has (st_placeholders s) k \<longleftrightarrow>
     (\<exists>x\<in>set (st_items s). is_placeholder k x) \<and> \<not> (\<exists>x\<in>set (st_items s). is_result k x)"
proof (induction rule: reachable_item_induct)
  case new
  then show ?case by (simp add: NewStore_def)
next
  case (item s it0 it s')
  note a = item.hyps(2)
  have eq: "st_placeholders s' = placeholders_step (st_placeholders s) it" by (rule placeholders.index_append [OF a])
  have none: "\<not> (\<exists>x\<in>set (st_items s). is_result k x)" if "is_placeholder k it"
    using placeholder_of_call [OF a that] index_has(2) [OF item.hyps(1)] by blast
  show ?case
    using item.IH none
    by (auto simp: eq placeholders_step_def appended_items [OF a] is_placeholder_def is_result_def
        split: kind.splits option.splits if_splits)
qed

lemma result_identities:
  assumes "reachable s"
  shows "set (List.map_filter (result_identity (Snapshot s)) (st_items s)) = {k. \<exists>x\<in>set (st_items s). is_result k x}"
proof -
  have "result_identity (Snapshot s) x = Some k \<longleftrightarrow> is_result k x" if x: "x \<in> set (st_items s)" for x k
  proof (cases "\<exists>k. is_result k x")
    case True
    then obtain k' where k': "is_result k' x" ..
    from outcome_has_call [OF assms x] k' have "\<exists>y\<in>set (st_items s). is_call k' y" by blast
    then have "snapshotToolIdentity (fst k') (snd k') (Snapshot s) = Some k'"
      using snapshotToolIdentity_known [OF assms, of "fst k'" "snd k'"] by simp
    with k' show ?thesis by (auto simp: result_identity_def is_result_def)
  next
    case False
    then show ?thesis by (auto simp: result_identity_def is_result_def split: kind.splits option.splits)
  qed
  then show ?thesis by (auto simp: set_map_filter)
qed

lemma placeholder_identities:
  assumes "reachable s"
  shows "set (List.map_filter (placeholder_identity (Snapshot s)) (st_items s))
    = {k. \<exists>x\<in>set (st_items s). is_placeholder k x}"
proof -
  have "placeholder_identity (Snapshot s) x = Some k \<longleftrightarrow> is_placeholder k x" if x: "x \<in> set (st_items s)" for x k
  proof (cases "\<exists>k. is_placeholder k x")
    case True
    then obtain k' where k': "is_placeholder k' x" ..
    from outcome_has_call [OF assms x] k' have "\<exists>y\<in>set (st_items s). is_call k' y" by blast
    then have "snapshotToolIdentity (fst k') (snd k') (Snapshot s) = Some k'"
      using snapshotToolIdentity_known [OF assms, of "fst k'" "snd k'"] by simp
    with k' show ?thesis by (auto simp: placeholder_identity_def is_placeholder_def)
  next
    case False
    then show ?thesis
      by (auto simp: placeholder_identity_def is_placeholder_def split: kind.splits option.splits)
  qed
  then show ?thesis by (auto simp: set_map_filter)
qed

definition pc_identity :: "pending_call \<Rightarrow> tool_identity" where
  "pc_identity p = (pc_invocation p, tc_callID (pc_call p))"

lemma map_map_filter: "map g (List.map_filter f xs) = List.map_filter (\<lambda>x. map_option g (f x)) xs"
  by (induction xs) (auto split: option.split)

definition open_identity :: "(item \<Rightarrow> bool) \<Rightarrow> tool_identity list \<Rightarrow> item \<Rightarrow> tool_identity option" where
  "open_identity keep resolved it =
     (case call_identity it of
        Some k \<Rightarrow> if keep it \<and> k \<notin> set resolved then Some k else None
      | None \<Rightarrow> None)"

lemma open_identity_iff:
  "open_identity keep resolved it = Some k \<longleftrightarrow> is_call k it \<and> keep it \<and> k \<notin> set resolved"
  by (auto simp: open_identity_def call_identity_iff [symmetric] split: option.split)

lemma pending_calls_identities:
  "map pc_identity (pending_calls keep resolved sn) =
     List.map_filter (open_identity keep resolved) (sn_items sn)"
  unfolding pending_calls_def map_map_filter
  by (rule arg_cong [where f = "\<lambda>f. List.map_filter f (sn_items sn)"])
    (auto simp: fun_eq_iff pc_identity_def open_identity_def call_identity_def tool_id_def
      split: kind.split option.split)

lemma pending_calls_set:
  "set (map pc_identity (pending_calls keep resolved sn)) =
     {k. \<exists>x\<in>set (sn_items sn). is_call k x \<and> keep x \<and> k \<notin> set resolved}"
  by (simp only: pending_calls_identities set_map_filter open_identity_iff)

lemma pending_calls_distinct:
  assumes "reachable s"
  shows "distinct (map pc_identity (pending_calls keep resolved (Snapshot s)))"
  unfolding pending_calls_identities
proof (rule distinct_map_filter, intro allI impI)
  fix i j k
  assume "i < j \<and> j < length (sn_items (Snapshot s)) \<and> open_identity keep resolved (sn_items (Snapshot s) ! j) = Some k"
  then show "open_identity keep resolved (sn_items (Snapshot s) ! i) \<noteq> Some k"
    using call_unique [OF assms, of i j k] by (simp add: open_identity_iff Snapshot_def)
qed

text \<open>
  C35. The calls a runtime is told to wait for are exactly those the store still owes an outcome:
  each unresolved call is listed once, and it has an executable call, no terminal result, and no
  placeholder in force.
\<close>

theorem UnresolvedToolCalls_matches_store:
  assumes "reachable s"
  shows "distinct (map pc_identity (UnresolvedToolCalls (Snapshot s)))
    \<and> set (map pc_identity (UnresolvedToolCalls (Snapshot s))) =
        {k. gm_has (st_calls s) k \<and> \<not> gm_has (st_results s) k \<and> \<not> gm_has (st_placeholders s) k}"
proof
  show "distinct (map pc_identity (UnresolvedToolCalls (Snapshot s)))"
    unfolding UnresolvedToolCalls_def by (rule pending_calls_distinct [OF assms])
  show "set (map pc_identity (UnresolvedToolCalls (Snapshot s))) =
        {k. gm_has (st_calls s) k \<and> \<not> gm_has (st_results s) k \<and> \<not> gm_has (st_placeholders s) k}"
    unfolding UnresolvedToolCalls_def pending_calls_set set_append
    using result_identities [OF assms] placeholder_identities [OF assms]
    by (simp only: index_has [OF assms] placeholder_index [OF assms])
      (auto simp: Snapshot_def)
qed

theorem UnresolvedToolCalls_matches_store_witness:
  "map pc_itemID (UnresolvedToolCalls (Snapshot example_store)) = [''t2'']
   \<and> (\<exists>k. gm_has (st_calls example_store) k \<and> \<not> gm_has (st_results example_store) k)"
proof -
  have u: "map pc_itemID (UnresolvedToolCalls (Snapshot example_store)) = [''t2'']" using example_log by blast
  then obtain p where "p \<in> set (UnresolvedToolCalls (Snapshot example_store))" by fastforce
  then have "pc_identity p \<in> set (map pc_identity (UnresolvedToolCalls (Snapshot example_store)))" by simp
  with UnresolvedToolCalls_matches_store [OF example_reachable(2)] u show ?thesis by blast
qed

subsection \<open>Matching a batch of results\<close>

lemma provided_results_distinct:
  "provided_results rs m = Inr m' \<Longrightarrow> distinct (map tr_callID rs) \<and> (\<forall>r\<in>set rs. \<not> gm_has m (tr_callID r))"
  by (induction rs m rule: provided_results.induct) (auto split: if_splits)

lemma provided_results_entry:
  "provided_results rs m = Inr m' \<Longrightarrow> map_of m' c = Some r \<Longrightarrow>
     map_of m c = Some r \<or> r \<in> set rs \<and> tr_callID r = c"
  by (induction rs m rule: provided_results.induct) (fastforce split: if_splits)+

lemma match_pending_Inr:
  "match_pending m ps = Inr pairs \<Longrightarrow>
     map fst pairs = ps \<and>
     (\<forall>(p, r)\<in>set pairs. map_of m (tc_callID (pc_call p)) = Some r \<and> tr_name r = tc_name (pc_call p))"
  by (induction ps arbitrary: pairs) (auto simp: bind_result_eq_Inr split: option.splits if_splits)

lemma same_mset:
  assumes "distinct xs" "distinct ys" "set xs \<subseteq> set ys" "length xs = length ys"
  shows "mset xs = mset ys"
proof -
  have "card (set xs) = card (set ys)" using assms by (simp add: distinct_card)
  then have "set xs = set ys" using assms(3) by (simp add: card_subset_eq)
  with assms(1,2) show ?thesis by (simp add: set_eq_iff_mset_eq_distinct)
qed

text \<open>
  Matching a batch of tool results is exact and keeps canonical order: every open call of the
  invocation, in log order, is paired with a result of the same identifier and name, and the
  paired results are the given ones, each used once. No call is left over and no result is
  dropped or used twice.
\<close>

theorem MatchToolResultBatch_exact:
  assumes "reachable s" and "MatchToolResultBatch (Snapshot s) invo results = Inr pairs"
  shows "set (map (\<lambda>(p, r). pc_identity p) pairs) =
      {k. fst k = invo \<and> gm_has (st_calls s) k \<and> \<not> gm_has (st_results s) k}
    \<and> distinct (map (\<lambda>(p, r). pc_identity p) pairs)
    \<and> subseq (map (\<lambda>(p, r). pc_identity p) pairs) (List.map_filter call_identity (st_items s))
    \<and> (\<forall>(p, r)\<in>set pairs. tr_callID r = tc_callID (pc_call p) \<and> tr_name r = tc_name (pc_call p))
    \<and> mset (map snd pairs) = mset results"
proof -
  define pend where "pend = pending_calls (\<lambda>it. item_invocation it = invo)
      (List.map_filter (result_identity (Snapshot s)) (st_items s)) (Snapshot s)"
  from assms(2) obtain m where len: "length results = length pend"
    and m: "provided_results results [] = Inr m" and mp: "match_pending m pend = Inr pairs"
    by (auto simp: MatchToolResultBatch_def pend_def Snapshot_def Let_def bind_result_eq_Inr split: if_splits)
  note pairs = match_pending_Inr [OF mp]
  have ident: "map (\<lambda>(p, r). pc_identity p) pairs = map pc_identity pend"
    using pairs by (metis (no_types, lifting) case_prod_unfold list.map_comp map_eq_conv comp_apply)
  have dist: "distinct (map pc_identity pend)" unfolding pend_def by (rule pending_calls_distinct [OF assms(1)])
  have inv: "fst k = invo" if "is_call k x" "item_invocation x = invo" for k x
    using that by (auto simp: is_call_def tool_id_def)
  have inv': "item_invocation x = fst k" if "is_call k x" for k x
    using that by (auto simp: is_call_def tool_id_def)
  have ids: "set (map pc_identity pend) = {k. fst k = invo \<and> gm_has (st_calls s) k \<and> \<not> gm_has (st_results s) k}"
    unfolding pend_def pending_calls_set result_identities [OF assms(1)]
    by (simp only: index_has [OF assms(1)]) (auto simp: Snapshot_def dest: inv inv')
  have match: "\<forall>(p, r)\<in>set pairs. r \<in> set results \<and> tr_callID r = tc_callID (pc_call p) \<and> tr_name r = tc_name (pc_call p)"
    using pairs provided_results_entry [OF m] by fastforce
  have "map (tr_callID \<circ> snd) pairs = map (snd \<circ> (\<lambda>(p, r). pc_identity p)) pairs"
    using match by (auto simp: pc_identity_def)
  moreover have "inj_on snd (set (map pc_identity pend))" unfolding ids by (auto simp: inj_on_def prod_eq_iff)
  ultimately have "distinct (map (tr_callID \<circ> snd) pairs)"
    using dist ident by (metis (no_types, lifting) distinct_map list.map_comp)
  then have "distinct (map snd pairs)" by (metis distinct_map list.map_comp)
  moreover have "distinct results" using provided_results_distinct [OF m] by (simp add: distinct_map)
  moreover have "set (map snd pairs) \<subseteq> set results" using match by auto
  moreover have "length (map snd pairs) = length results" using pairs len by (metis length_map)
  ultimately have "mset (map snd pairs) = mset results" by (rule same_mset)
  moreover have "subseq (map pc_identity pend) (List.map_filter call_identity (st_items s))"
  proof -
    have "subseq (List.map_filter (open_identity keep res) xs) (List.map_filter call_identity xs)" for keep res xs
      by (induction xs) (auto simp: open_identity_def split: option.split)
    then show ?thesis by (simp add: pend_def pending_calls_identities Snapshot_def)
  qed
  ultimately show ?thesis using ids dist ident match by auto
qed

theorem MatchToolResultBatch_exact_witness:
  "\<exists>pairs. MatchToolResultBatch (Snapshot example_store) ''inv'' example_results = Inr pairs
     \<and> mset (map snd pairs) = mset example_results \<and> length pairs = 1"
proof -
  have "case MatchToolResultBatch (Snapshot example_store) ''inv'' example_results of
      Inr [(p, r)] \<Rightarrow> True | _ \<Rightarrow> False" using example_log by blast
  then obtain q where q: "MatchToolResultBatch (Snapshot example_store) ''inv'' example_results = Inr [q]"
    by (auto split: sum.splits list.splits)
  from MatchToolResultBatch_exact [OF example_reachable(2) q] q show ?thesis by (intro exI [of _ "[q]"]) simp
qed

subsection \<open>What became of a proposal\<close>

lemma same_id_same_item:
  assumes "reachable s" "x \<in> set (st_items s)" "y \<in> set (st_items s)" "item_id x = item_id y"
  shows "x = y"
proof -
  have "inj_on item_id (set (st_items s))"
    using reachable_well_formed [OF assms(1)] by (simp add: well_formed_def distinct_map)
  then show ?thesis using assms(2-4) by (metis inj_onD)
qed

lemma is_proposal_fun: "is_proposal k x \<Longrightarrow> is_proposal k' x \<Longrightarrow> k = k'"
  by (simp add: is_proposal_def)

lemma promotedBy_iff:
  "i \<in> set (promotedBy xs n) \<longleftrightarrow>
     (\<exists>k. is_call k (xs ! n) \<and> (\<exists>p\<in>set (take n xs). is_proposal k p \<and> isPromotedToolProposal p (xs ! n) \<and> item_id p = i))"
proof (cases "call_identity (xs ! n)")
  case None
  then have "\<not> is_call k (xs ! n)" for k using call_identity_iff by (metis option.distinct(1))
  with None show ?thesis by (simp add: promotedBy_def)
next
  case (Some k)
  then have "is_call k' (xs ! n) \<longleftrightarrow> k' = k" for k' using call_identity_iff by (metis option.inject)
  with Some show ?thesis by (auto simp: promotedBy_def is_proposal_def)
qed

lemma PromotedToolProposalIDs_iff:
  "i \<in> set (PromotedToolProposalIDs sn) \<longleftrightarrow> (\<exists>n<length (sn_items sn). i \<in> set (promotedBy (sn_items sn) n))"
  by (auto simp: PromotedToolProposalIDs_def)

lemma dispositions_fold_entry:
  "(k, d) \<in> set (foldl dispositions_step m xs) \<Longrightarrow>
     (k, d) \<in> set m \<or> (\<exists>x\<in>set xs. is_disposition k x
        \<and> map_option td_proposalItemID (item_disposition x) = Some (dr_proposalItemID d))"
proof (induction xs arbitrary: m)
  case (Cons x xs)
  from Cons.IH [OF Cons.prems [simplified]] show ?case
    using set_update_subset [of _ _ m]
    by (fastforce simp: dispositions_step_def tool_item_defs split: if_splits option.splits)
qed simp

lemma disposition_names_proposal:
  assumes "reachable s" "x \<in> set (st_items s)" "is_disposition k x"
  shows "\<exists>p\<in>set (st_items s). is_proposal k p \<and> map_option td_proposalItemID (item_disposition x) = Some (item_id p)"
proof -
  from assms(2) obtain n where n: "n < length (st_items s)" "x = st_items s ! n" by (auto simp: in_set_conv_nth)
  from item_admitted [OF assms(1) n(1)] n(2) obtain t t' where t: "reachable t"
    "st_items t = take n (st_items s)" "appended t x x t'" by blast
  from disposition_accepted [OF t(3) assms(3)] obtain d where d: "item_disposition x = Some d"
    "k = (item_invocation x, td_callID d)" "acceptDisposition t x d = Inr (item_effect t x)" .
  from acceptDisposition_checks(3) [OF d(3)] d(2) obtain r where
    r: "map_of (st_proposals t) k = Some r" "pp_itemID r = td_proposalItemID d" by blast
  from proposal_entry_item [OF t(1) r(1)] obtain p where "p \<in> set (take n (st_items s))" "is_proposal k p"
    "map_option (proposal_of p) (item_toolCall p) = Some r" by (auto simp: t(2))
  with r(2) d(1) show ?thesis by (intro bexI [of _ p]) (auto simp: proposal_of_def dest: in_set_takeD)
qed

lemma Terminal_iff:
  assumes "reachable s" "st_items s \<noteq> []"
  shows "fst (TerminalToolProposalIDs (Snapshot s)) = map (\<lambda>(_, d). dr_proposalItemID d) (st_dispositions s)"
  using replay_items [OF assms(1)] assms(2)
  by (simp add: TerminalToolProposalIDs_def validateSnapshotShape_def Snapshot_def AppendBatch_def
      appendBatch_def appendBatchLocked_def)

lemma own_proposal:
  assumes "reachable s" "p \<in> set (st_items s)" "is_proposal k p"
    and "q \<in> set (st_items s)" "is_proposal k' q" "item_id q = item_id p"
  shows "k' = k"
  using same_id_same_item [OF assms(1,4,2,6)] is_proposal_fun [OF assms(3)] assms(5) by blast

lemma promoted_iff_call:
  assumes "reachable s" "p \<in> set (st_items s)" "is_proposal k p"
  shows "item_id p \<in> set (PromotedToolProposalIDs (Snapshot s)) \<longleftrightarrow> gm_has (st_calls s) k"
proof
  let ?xs = "st_items s"
  assume "item_id p \<in> set (PromotedToolProposalIDs (Snapshot s))"
  then obtain n k' q where "n < length ?xs" "is_call k' (?xs ! n)" "q \<in> set (take n ?xs)"
    "is_proposal k' q" "item_id q = item_id p"
    unfolding PromotedToolProposalIDs_iff promotedBy_iff Snapshot_def snapshot.simps by blast
  with own_proposal [OF assms in_set_takeD] index_has(1) [OF assms(1), of k] show "gm_has (st_calls s) k"
    by (metis nth_mem)
next
  let ?xs = "st_items s"
  assume "gm_has (st_calls s) k"
  with index_has(1) [OF assms(1), of k] obtain n where n: "n < length ?xs" "is_call k (?xs ! n)"
    by (metis in_set_conv_nth)
  from assms(2) obtain m where m: "m < length ?xs" "p = ?xs ! m" by (auto simp: in_set_conv_nth)
  from call_promotes [OF assms(1) n(1) m(1) n(2)] assms(3) m(2)
  have mn: "m < n" and "isPromotedToolProposal p (?xs ! n)" by auto
  moreover have "p \<in> set (take n ?xs)" using mn n(1) m(2) by (simp add: nth_in_take)
  ultimately show "item_id p \<in> set (PromotedToolProposalIDs (Snapshot s))"
    using n assms(3) unfolding PromotedToolProposalIDs_iff promotedBy_iff Snapshot_def snapshot.simps by blast
qed

lemma terminal_iff_disposition:
  assumes "reachable s" "p \<in> set (st_items s)" "is_proposal k p"
  shows "item_id p \<in> set (fst (TerminalToolProposalIDs (Snapshot s))) \<longleftrightarrow> gm_has (st_dispositions s) k"
proof -
  have ne: "st_items s \<noteq> []" using assms(2) by auto
  have entry: "\<exists>x\<in>set (st_items s). is_disposition k' x
      \<and> map_option td_proposalItemID (item_disposition x) = Some (dr_proposalItemID d)"
    if "(k', d) \<in> set (st_dispositions s)" for k' d
    using dispositions_fold_entry [of k' d "[]" "st_items s"] that
    by (simp add: dispositions.projection [OF assms(1)])
  show ?thesis
  proof
    assume "item_id p \<in> set (fst (TerminalToolProposalIDs (Snapshot s)))"
    then obtain k' d where d: "(k', d) \<in> set (st_dispositions s)" "dr_proposalItemID d = item_id p"
      unfolding Terminal_iff [OF assms(1) ne] by auto
    from entry [OF d(1)] d(2) obtain x where x: "x \<in> set (st_items s)" "is_disposition k' x"
      "map_option td_proposalItemID (item_disposition x) = Some (item_id p)" by auto
    from disposition_names_proposal [OF assms(1) x(1,2)] x(3) own_proposal [OF assms] have "k' = k" by fastforce
    with x index_has(3) [OF assms(1), of k] show "gm_has (st_dispositions s) k" by blast
  next
    assume "gm_has (st_dispositions s) k"
    then obtain d where d: "(k, d) \<in> set (st_dispositions s)" by (metis map_of_SomeD not_None_eq)
    from entry [OF d] obtain x where x: "x \<in> set (st_items s)" "is_disposition k x"
      "map_option td_proposalItemID (item_disposition x) = Some (dr_proposalItemID d)" by blast
    from disposition_names_proposal [OF assms(1) x(1,2)] obtain q where "q \<in> set (st_items s)" "is_proposal k q"
      "dr_proposalItemID d = item_id q" using x(3) by auto
    with proposal_unique [OF assms(1) _ assms(2) _ assms(3)] have "dr_proposalItemID d = item_id p" by blast
    with d show "item_id p \<in> set (fst (TerminalToolProposalIDs (Snapshot s)))"
      unfolding Terminal_iff [OF assms(1) ne] by force
  qed
qed

text \<open>
  The two projections that tell a provider what became of a proposal agree with the log: a
  proposal is reported promoted exactly when an executable call of its identity was committed,
  terminal exactly when a disposition of its identity was.
\<close>

theorem proposal_classification:
  assumes "reachable s" and "p \<in> set (st_items s)" "is_proposal k p"
  shows "(item_id p \<in> set (PromotedToolProposalIDs (Snapshot s)) \<longleftrightarrow> (\<exists>x\<in>set (st_items s). is_call k x))
    \<and> (item_id p \<in> set (fst (TerminalToolProposalIDs (Snapshot s))) \<longleftrightarrow> (\<exists>x\<in>set (st_items s). is_disposition k x))"
  using promoted_iff_call [OF assms] terminal_iff_disposition [OF assms] index_has(1,3) [OF assms(1), of k] by simp

theorem proposal_classification_witness:
  "item_id (st_items example_store ! 1) \<in> set (PromotedToolProposalIDs (Snapshot example_store))
   \<and> item_id (st_items example_store ! 2) \<in> set (fst (TerminalToolProposalIDs (Snapshot example_store)))"
proof -
  note l = example_log
  have m: "st_items example_store ! n \<in> set (st_items example_store)" if "n < 11" for n
    using that by (simp add: example_length)
  have "is_proposal (''inv'', ''c0'') (st_items example_store ! 1)" "is_call (''inv'', ''c0'') (st_items example_store ! 3)"
    "is_proposal (''inv'', ''c1'') (st_items example_store ! 2)"
    "is_disposition (''inv'', ''c1'') (st_items example_store ! 4)" using l by blast+
  with proposal_classification [OF example_reachable(2) m [of 1], of "(''inv'', ''c0'')"]
    proposal_classification [OF example_reachable(2) m [of 2], of "(''inv'', ''c1'')"] m [of 3] m [of 4]
  show ?thesis by auto
qed

end
