(* ===== verification/Ledger.thy ===== *)
theory Ledger
  imports Trajectory
begin

section \<open>\<^verbatim>\<open>action.Ledger\<close>: the commit boundary\<close>

text \<open>
  \<^verbatim>\<open>src/action/ledger.go\<close>: one record per decided output, how far it crossed the boundary to the
  world, and the repairs owed. Commitments are stored behind pointers that the ledger alone
  holds and copies out by value, so the map holds values. Every method takes the ledger lock and
  is one atomic step.
\<close>

datatype commitment_kind = KindSpeech | KindText | KindToolAction | KindComputerAction | KindUnknown string

datatype commitment_state = StatePrepared | StateQueued | StateEmitting | StatePlayed | StateCancelled

definition Terminal :: "commitment_state \<Rightarrow> bool" where
  "Terminal st \<longleftrightarrow> st = StatePlayed \<or> st = StateCancelled"

definition StateCrossed :: "commitment_state \<Rightarrow> bool" where
  "StateCrossed st \<longleftrightarrow> st = StateEmitting \<or> st = StatePlayed"

definition ParseConfirm :: "string \<Rightarrow> string option" where
  "ParseConfirm v =
     (let c = ToLower (TrimSpace v) in
      if c = [] \<or> c = ''never'' then Some ''never''
      else if c = ''policy'' \<or> c = ''always'' then Some c
      else None)"

record commitment =
  co_id :: string
  co_kind :: commitment_kind
  co_itemIDs :: "string list"
  co_callID :: string
  co_revision :: nat
  co_phase :: phase
  co_authority :: string
  co_confirm :: string
  co_state :: commitment_state
  co_playedMS :: nat
  co_cancelReason :: string

record obligation =
  ob_commitmentID :: string
  ob_itemIDs :: "string list"
  ob_playedMS :: nat
  ob_revision :: nat
  ob_resolved :: bool

record ledger =
  lg_commitments :: "(string, commitment) gomap"
  lg_order :: "string list"
  lg_callIDs :: "(string, string) gomap"
  lg_obligations :: "obligation list"

datatype ledger_error =
    CommitmentIDRequired | UnknownCommitmentKind string | BadConfirm string | DuplicateCommitment string
  | ErrUnknownCommitment string | ErrAlreadyCrossed string commitment_state
  | ErrInvalidTransition string commitment_state | ErrDuplicateCall string string

definition NewLedger :: ledger where
  "NewLedger = \<lparr>lg_commitments = [], lg_order = [], lg_callIDs = [], lg_obligations = []\<rparr>"

definition storeCommitment :: "ledger \<Rightarrow> commitment \<Rightarrow> ledger" where
  "storeCommitment l c =
     l\<lparr>lg_commitments := AList.update (co_id c) c (lg_commitments l), lg_order := lg_order l @ [co_id c]\<rparr>"

definition Prepare :: "ledger \<Rightarrow> commitment \<Rightarrow> (ledger_error, ledger) result" where
  "Prepare l c0 =
     (if blank (co_id c0) then Inl CommitmentIDRequired
      else case co_kind c0 of
        KindUnknown k \<Rightarrow> Inl (UnknownCommitmentKind k)
      | _ \<Rightarrow>
         (case ParseConfirm (co_confirm c0) of
            None \<Rightarrow> Inl (BadConfirm (co_confirm c0))
          | Some cf \<Rightarrow>
             (let c = c0\<lparr>co_confirm := cf, co_state := StatePrepared\<rparr> in
              if gm_has (lg_commitments l) (co_id c) then Inl (DuplicateCommitment (co_id c))
              else if co_callID c = [] then Inr (storeCommitment l c)
              else case map_of (lg_callIDs l) (co_callID c) of
                Some previous \<Rightarrow> Inl (ErrDuplicateCall (co_callID c) previous)
              | None \<Rightarrow>
                  Inr (storeCommitment
                         (l\<lparr>lg_callIDs := AList.update (co_callID c) (co_id c) (lg_callIDs l)\<rparr>) c))))"

definition set_commitment :: "ledger \<Rightarrow> string \<Rightarrow> commitment \<Rightarrow> ledger" where
  "set_commitment l i c = l\<lparr>lg_commitments := AList.update i c (lg_commitments l)\<rparr>"

definition transition ::
  "ledger \<Rightarrow> string \<Rightarrow> commitment_state \<Rightarrow> (commitment_state \<Rightarrow> bool) \<Rightarrow> (ledger_error, ledger) result" where
  "transition l i nxt allowed =
     (case map_of (lg_commitments l) i of
        None \<Rightarrow> Inl (ErrUnknownCommitment i)
      | Some c \<Rightarrow>
         (if co_state c = nxt then Inr l
          else if \<not> allowed (co_state c) then
            (if StateCrossed (co_state c) then Inl (ErrAlreadyCrossed i (co_state c))
             else Inl (ErrInvalidTransition i (co_state c)))
          else Inr (set_commitment l i (c\<lparr>co_state := nxt\<rparr>))))"

definition Queue :: "ledger \<Rightarrow> string \<Rightarrow> (ledger_error, ledger) result" where
  "Queue l i = transition l i StateQueued (\<lambda>cur. cur = StatePrepared)"

definition Emit :: "ledger \<Rightarrow> string \<Rightarrow> (ledger_error, ledger) result" where
  "Emit l i =
     transition l i StateEmitting (\<lambda>cur. cur = StatePrepared \<or> cur = StateQueued \<or> cur = StateEmitting)"

definition Complete :: "ledger \<Rightarrow> string \<Rightarrow> nat \<Rightarrow> (ledger_error, ledger) result" where
  "Complete l i playedMS =
     (case map_of (lg_commitments l) i of
        None \<Rightarrow> Inl (ErrUnknownCommitment i)
      | Some c \<Rightarrow>
         (if Terminal (co_state c) then Inl (ErrInvalidTransition i (co_state c))
          else Inr (set_commitment l i (c\<lparr>co_state := StatePlayed, co_playedMS := playedMS\<rparr>))))"

text \<open>The updated ledger and whether anything had already crossed.\<close>

definition Cancel :: "ledger \<Rightarrow> string \<Rightarrow> string \<Rightarrow> (ledger_error, ledger \<times> bool) result" where
  "Cancel l i reason =
     (case map_of (lg_commitments l) i of
        None \<Rightarrow> Inl (ErrUnknownCommitment i)
      | Some c \<Rightarrow>
         (if co_state c = StateCancelled then Inr (l, False)
          else if co_state c = StatePlayed then Inr (l, True)
          else if StateCrossed (co_state c)
          then Inr (set_commitment l i (c\<lparr>co_cancelReason := reason, co_state := StatePlayed\<rparr>), True)
          else Inr (set_commitment l i (c\<lparr>co_cancelReason := reason, co_state := StateCancelled\<rparr>), False)))"

definition open_for :: "string \<Rightarrow> obligation \<Rightarrow> bool" where
  "open_for i ob \<longleftrightarrow> ob_commitmentID ob = i \<and> \<not> ob_resolved ob"

definition Invalidate :: "ledger \<Rightarrow> string \<Rightarrow> nat \<Rightarrow> (ledger \<times> obligation) option" where
  "Invalidate l i byRevision =
     (case map_of (lg_commitments l) i of
        None \<Rightarrow> None
      | Some c \<Rightarrow>
         (if \<not> StateCrossed (co_state c) then None
          else if list_ex (open_for i) (lg_obligations l) then None
          else
            (let ob = \<lparr>ob_commitmentID = i, ob_itemIDs = co_itemIDs c, ob_playedMS = co_playedMS c,
                       ob_revision = byRevision, ob_resolved = False\<rparr>
             in Some (l\<lparr>lg_obligations := lg_obligations l @ [ob]\<rparr>, ob))))"

fun resolve_first :: "string \<Rightarrow> obligation list \<Rightarrow> obligation list option" where
  "resolve_first i [] = None"
| "resolve_first i (ob # obs) =
     (if open_for i ob then Some (ob\<lparr>ob_resolved := True\<rparr> # obs)
      else map_option (\<lambda>r. ob # r) (resolve_first i obs))"

definition ResolveObligation :: "ledger \<Rightarrow> string \<Rightarrow> ledger \<times> bool" where
  "ResolveObligation l i =
     (case resolve_first i (lg_obligations l) of
        None \<Rightarrow> (l, False)
      | Some obs \<Rightarrow> (l\<lparr>lg_obligations := obs\<rparr>, True))"

definition Obligations :: "ledger \<Rightarrow> obligation list" where
  "Obligations l = filter (\<lambda>ob. \<not> ob_resolved ob) (lg_obligations l)"

definition Lookup :: "ledger \<Rightarrow> string \<Rightarrow> commitment option" where
  "Lookup l i = map_of (lg_commitments l) i"

text \<open>\<^verbatim>\<open>ledger.commitments[id]\<close> for the identifiers of \<^verbatim>\<open>ledger.order\<close>.\<close>

definition in_order :: "ledger \<Rightarrow> commitment list" where
  "in_order l = List.map_filter (map_of (lg_commitments l)) (lg_order l)"

definition Crossed :: "ledger \<Rightarrow> (commitment \<Rightarrow> bool) \<Rightarrow> commitment list" where
  "Crossed l match = filter (\<lambda>c. StateCrossed (co_state c) \<and> match c) (in_order l)"

definition Truncated :: "ledger \<Rightarrow> string \<Rightarrow> nat \<Rightarrow> ledger \<times> bool" where
  "Truncated l i playedMS =
     (case map_of (lg_commitments l) i of
        None \<Rightarrow> (l, False)
      | Some c \<Rightarrow>
         (if \<not> StateCrossed (co_state c) then (l, False)
          else ((set_commitment l i (c\<lparr>co_playedMS := playedMS\<rparr>))
                  \<lparr>lg_obligations := map (\<lambda>ob. if open_for i ob then ob\<lparr>ob_playedMS := playedMS\<rparr> else ob)
                                      (lg_obligations l)\<rparr>, True)))"

definition Cancellable :: "ledger \<Rightarrow> (commitment \<Rightarrow> bool) \<Rightarrow> commitment list" where
  "Cancellable l match =
     filter (\<lambda>c. \<not> Terminal (co_state c) \<and> \<not> StateCrossed (co_state c) \<and> match c) (in_order l)"

definition Outstanding :: "ledger \<Rightarrow> commitment list" where
  "Outstanding l = Cancellable l (\<lambda>_. True)"

definition LedgerSnapshot :: "ledger \<Rightarrow> commitment list" where
  "LedgerSnapshot l = in_order l"

subsection \<open>Runs of the ledger\<close>

inductive ledger_step :: "ledger \<Rightarrow> ledger \<Rightarrow> bool" where
  prepare: "Prepare l c = Inr l' \<Longrightarrow> ledger_step l l'"
| queue: "Queue l i = Inr l' \<Longrightarrow> ledger_step l l'"
| emit: "Emit l i = Inr l' \<Longrightarrow> ledger_step l l'"
| complete: "Complete l i ms = Inr l' \<Longrightarrow> ledger_step l l'"
| cancel: "Cancel l i r = Inr (l', b) \<Longrightarrow> ledger_step l l'"
| invalidate: "Invalidate l i v = Some (l', ob) \<Longrightarrow> ledger_step l l'"
| resolve: "ResolveObligation l i = (l', b) \<Longrightarrow> ledger_step l l'"
| truncate: "Truncated l i ms = (l', b) \<Longrightarrow> ledger_step l l'"

abbreviation ledger_run :: "ledger \<Rightarrow> ledger \<Rightarrow> bool" where
  "ledger_run \<equiv> ledger_step\<^sup>*\<^sup>*"

text \<open>
  \<open>evolves\<close> is everything a step may do to an existing commitment: its identity is fixed, what
  crossed stays crossed, a terminal state stays.
\<close>

definition evolves :: "commitment \<Rightarrow> commitment \<Rightarrow> bool" where
  "evolves c d \<longleftrightarrow>
     co_id d = co_id c \<and> co_kind d = co_kind c \<and> co_itemIDs d = co_itemIDs c \<and> co_callID d = co_callID c
     \<and> co_revision d = co_revision c \<and> co_phase d = co_phase c \<and> co_authority d = co_authority c
     \<and> co_confirm d = co_confirm c
     \<and> (StateCrossed (co_state c) \<longrightarrow> StateCrossed (co_state d))
     \<and> (Terminal (co_state c) \<longrightarrow> co_state d = co_state c)"

lemma evolves_refl: "evolves c c"
  by (simp add: evolves_def)

lemma evolves_trans: "evolves a b \<Longrightarrow> evolves b c \<Longrightarrow> evolves a c"
  by (auto simp: evolves_def)

lemma Prepare_effect:
  assumes "Prepare l c0 = Inr l'"
  obtains c where "co_id c = co_id c0" "co_state c = StatePrepared" "co_callID c = co_callID c0"
    "\<not> gm_has (lg_commitments l) (co_id c)"
    "lg_commitments l' = AList.update (co_id c) c (lg_commitments l)"
    "lg_order l' = lg_order l @ [co_id c]" "lg_obligations l' = lg_obligations l"
    "lg_callIDs l' = (if co_callID c = [] then lg_callIDs l else AList.update (co_callID c) (co_id c) (lg_callIDs l))"
    "co_callID c \<noteq> [] \<longrightarrow> \<not> gm_has (lg_callIDs l) (co_callID c)"
proof -
  from assms obtain cf where "ParseConfirm (co_confirm c0) = Some cf"
    by (auto simp: Prepare_def split: if_splits option.splits commitment_kind.splits)
  with assms show thesis
    by (intro that [of "c0\<lparr>co_confirm := cf, co_state := StatePrepared\<rparr>"])
      (auto simp: Prepare_def storeCommitment_def Let_def split: if_splits option.splits commitment_kind.splits)
qed

text \<open>Every other step changes at most one existing commitment, and only forward.\<close>

definition changed :: "ledger \<Rightarrow> ledger \<Rightarrow> bool" where
  "changed l l' \<longleftrightarrow>
     lg_order l' = lg_order l \<and> lg_callIDs l' = lg_callIDs l
     \<and> (lg_commitments l' = lg_commitments l
        \<or> (\<exists>i c d. map_of (lg_commitments l) i = Some c \<and> evolves c d
             \<and> lg_commitments l' = AList.update i d (lg_commitments l)))"

lemma changed_same:
  "lg_commitments l' = lg_commitments l \<Longrightarrow> lg_order l' = lg_order l \<Longrightarrow> lg_callIDs l' = lg_callIDs l
    \<Longrightarrow> changed l l'"
  by (simp add: changed_def)

lemma changed_set: "map_of (lg_commitments l) i = Some c \<Longrightarrow> evolves c d \<Longrightarrow> changed l (set_commitment l i d)"
  by (auto simp: changed_def set_commitment_def)

lemma changed_obligations: "changed l l' \<Longrightarrow> changed l (l'\<lparr>lg_obligations := obs\<rparr>)"
  by (simp add: changed_def)

lemmas state_defs = evolves_def StateCrossed_def Terminal_def

lemma transition_changed:
  assumes "transition l i nxt allowed = Inr l'"
    and "\<And>cur. allowed cur \<Longrightarrow> \<not> Terminal cur \<and> (StateCrossed cur \<longrightarrow> StateCrossed nxt)"
  shows "changed l l'"
  using assms
  by (auto simp: transition_def evolves_def intro!: changed_same changed_set split: option.splits if_splits)

lemma step_changed:
  assumes "ledger_step l l'"
  shows "(\<exists>c. Prepare l c = Inr l') \<or> changed l l'"
  using assms
proof cases
  case (prepare c)
  then show ?thesis by blast
next
  case (queue i)
  then show ?thesis unfolding Queue_def by (auto simp: state_defs dest!: transition_changed)
next
  case (emit i)
  then show ?thesis unfolding Emit_def by (auto simp: state_defs dest!: transition_changed)
next
  case (complete i ms)
  then have "changed l l'"
    by (auto simp: Complete_def state_defs intro!: changed_set split: option.splits if_splits)
  then show ?thesis ..
next
  case (cancel i r b)
  then have "changed l l'"
    by (auto simp: Cancel_def state_defs intro!: changed_same changed_set split: option.splits if_splits)
  then show ?thesis ..
next
  case (invalidate i v ob)
  then have "changed l l'"
    by (auto simp: Invalidate_def Let_def intro!: changed_same split: option.splits if_splits)
  then show ?thesis ..
next
  case (resolve i b)
  then have "changed l l'"
    by (auto simp: ResolveObligation_def intro!: changed_same split: option.splits)
  then show ?thesis ..
next
  case (truncate i ms b)
  then have "changed l l'"
    by (auto simp: Truncated_def state_defs intro!: changed_same changed_obligations changed_set
        split: option.splits if_splits)
  then show ?thesis ..
qed

lemma step_evolves:
  assumes "ledger_step l l'" "Lookup l i = Some c"
  shows "\<exists>d. Lookup l' i = Some d \<and> evolves c d"
proof (cases "changed l l'")
  case True
  with assms(2) show ?thesis by (auto simp: changed_def Lookup_def evolves_refl)
next
  case False
  with step_changed [OF assms(1)] obtain c0 where "Prepare l c0 = Inr l'" by blast
  from Prepare_effect [OF this] assms(2) show ?thesis
    by (metis Lookup_def evolves_refl fun_upd_apply map_of_update option.distinct(1))
qed

interpretation committed: stable ledger_step "\<lambda>l. \<exists>d. Lookup l i = Some d \<and> evolves c d" for i c
proof unfold_locales
  fix l l' assume "ledger_step l l'" "\<exists>d. Lookup l i = Some d \<and> evolves c d"
  then show "\<exists>d. Lookup l' i = Some d \<and> evolves c d" by (metis step_evolves evolves_trans)
qed

text \<open>What \<^verbatim>\<open>Cancel\<close> answers and leaves behind: whether it had crossed, and the commitment ended accordingly.\<close>

definition ended_as :: "commitment \<Rightarrow> commitment \<Rightarrow> bool" where
  "ended_as d e \<longleftrightarrow> co_itemIDs e = co_itemIDs d \<and> co_callID e = co_callID d \<and> co_playedMS e = co_playedMS d
     \<and> co_state e = (if StateCrossed (co_state d) then StatePlayed else StateCancelled)
     \<and> (Terminal (co_state d) \<longrightarrow> e = d)"

lemma Cancel_reports:
  assumes "Lookup l i = Some d"
  shows "\<exists>l' e. Cancel l i reason = Inr (l', StateCrossed (co_state d)) \<and> Lookup l' = (Lookup l)(i \<mapsto> e) \<and> ended_as d e"
proof (cases "Terminal (co_state d)")
  case True
  then have "ended_as d d" by (auto simp: ended_as_def StateCrossed_def Terminal_def)
  moreover have "Lookup l = (Lookup l)(i \<mapsto> d)" using assms by (simp add: fun_upd_idem)
  ultimately show ?thesis
    using assms True by (intro exI [of _ l] exI [of _ d]) (auto simp: Cancel_def Lookup_def state_defs)
next
  case False
  let ?e = "d\<lparr>co_cancelReason := reason, co_state := (if StateCrossed (co_state d) then StatePlayed else StateCancelled)\<rparr>"
  have "ended_as d ?e" using False by (simp add: ended_as_def)
  then show ?thesis
    using assms False
    by (intro exI [of _ "set_commitment l i ?e"] exI [of _ ?e]) (auto simp: Cancel_def Lookup_def Terminal_def set_commitment_def fun_eq_iff)
qed

text \<open>
  C8. What reached the world cannot be taken back. In every later ledger a commitment is still there
  under its identifier with the same content and call, one that had crossed the boundary is still
  recorded as crossed, and a finished one keeps its final state. Cancelling it there, for whatever
  reason, succeeds, answers whether it had crossed, and changes no other commitment: what had crossed
  ends as played with its content, call and played time, and is never recorded as cancelled; what
  had not ends as cancelled; what was finished is left exactly as it was.
\<close>

theorem crossed_is_irreversible:
  assumes "ledger_run l l'" and "Lookup l i = Some c"
  shows "\<exists>d. Lookup l' i = Some d \<and> co_itemIDs d = co_itemIDs c \<and> co_callID d = co_callID c
    \<and> (StateCrossed (co_state c) \<longrightarrow> StateCrossed (co_state d))
    \<and> (Terminal (co_state c) \<longrightarrow> co_state d = co_state c)
    \<and> (\<exists>l'' e. Cancel l' i reason = Inr (l'', StateCrossed (co_state d)) \<and> Lookup l'' = (Lookup l')(i \<mapsto> e)
         \<and> co_itemIDs e = co_itemIDs c \<and> co_callID e = co_callID c \<and> co_playedMS e = co_playedMS d
         \<and> co_state e = (if StateCrossed (co_state d) then StatePlayed else StateCancelled)
         \<and> (Terminal (co_state d) \<longrightarrow> e = d))"
proof -
  from assms(2) have "\<exists>d. Lookup l i = Some d \<and> evolves c d" by (simp add: evolves_refl)
  from committed.run_keeps [OF assms(1) this] obtain d where d: "Lookup l' i = Some d" "evolves c d" by blast
  from Cancel_reports [OF d(1)] d show ?thesis by (auto simp: evolves_def ended_as_def)
qed

subsection \<open>The ledger's invariant\<close>

definition ledger_ok :: "ledger \<Rightarrow> bool" where
  "ledger_ok l \<longleftrightarrow>
     distinct (lg_order l)
     \<and> (\<forall>i. i \<in> set (lg_order l) \<longleftrightarrow> gm_has (lg_commitments l) i)
     \<and> (\<forall>i c. map_of (lg_commitments l) i = Some c \<longrightarrow> co_id c = i
          \<and> (co_callID c \<noteq> [] \<longrightarrow> map_of (lg_callIDs l) (co_callID c) = Some i))"

definition obligations_ok :: "ledger \<Rightarrow> bool" where
  "obligations_ok l \<longleftrightarrow>
     (\<forall>ob\<in>set (lg_obligations l). \<exists>c. map_of (lg_commitments l) (ob_commitmentID ob) = Some c
        \<and> StateCrossed (co_state c))
     \<and> (\<forall>i. length (filter (open_for i) (lg_obligations l)) \<le> 1)"

lemma changed_ok:
  assumes "changed l l'" "ledger_ok l"
  shows "ledger_ok l'"
proof -
  from assms(1) consider (same) "lg_commitments l' = lg_commitments l"
    | (one) i c d where "map_of (lg_commitments l) i = Some c" "evolves c d"
        "lg_commitments l' = AList.update i d (lg_commitments l)"
    by (auto simp: changed_def)
  then show ?thesis
  proof cases
    case same
    with assms show ?thesis by (simp add: changed_def ledger_ok_def)
  next
    case (one i c d)
    with assms show ?thesis by (auto simp: changed_def ledger_ok_def evolves_def)
  qed
qed

lemma Prepare_ok:
  assumes "Prepare l c0 = Inr l'" "ledger_ok l"
  shows "ledger_ok l'"
proof -
  from Prepare_effect [OF assms(1)] obtain c where c: "\<not> gm_has (lg_commitments l) (co_id c)"
    "lg_commitments l' = AList.update (co_id c) c (lg_commitments l)"
    "lg_order l' = lg_order l @ [co_id c]"
    "lg_callIDs l' = (if co_callID c = [] then lg_callIDs l else AList.update (co_callID c) (co_id c) (lg_callIDs l))"
    "co_callID c \<noteq> [] \<longrightarrow> \<not> gm_has (lg_callIDs l) (co_callID c)" .
  moreover have "co_callID d \<noteq> co_callID c" if "map_of (lg_commitments l) i = Some d" "co_callID d \<noteq> []" for i d
    using that c(5) assms(2) by (metis ledger_ok_def option.distinct(1))
  ultimately show ?thesis using assms(2) by (auto simp: ledger_ok_def)
qed

lemma step_ledger_ok: "ledger_step l l' \<Longrightarrow> ledger_ok l \<Longrightarrow> ledger_ok l'"
  using step_changed changed_ok Prepare_ok by blast

lemma resolve_first_filter:
  "resolve_first i obs = Some obs' \<Longrightarrow>
     map ob_commitmentID obs' = map ob_commitmentID obs
     \<and> length (filter (open_for j) obs') \<le> length (filter (open_for j) obs)"
  by (induction obs arbitrary: obs') (fastforce simp: open_for_def split: if_splits)+

lemma commitments_stay_crossed:
  assumes "ledger_step l l'" "map_of (lg_commitments l) i = Some c" "StateCrossed (co_state c)"
  shows "\<exists>c. map_of (lg_commitments l') i = Some c \<and> StateCrossed (co_state c)"
  using step_evolves [OF assms(1), of i c] assms(2,3) by (auto simp: Lookup_def evolves_def)

lemma open_for_played:
  "open_for j \<circ> (\<lambda>ob. if open_for i ob then ob\<lparr>ob_playedMS := ms\<rparr> else ob) = open_for j"
  by (auto simp: fun_eq_iff open_for_def)

text \<open>The identifiers the obligations of \<open>l'\<close> name had crossed before the step.\<close>

definition named_crossed :: "ledger \<Rightarrow> obligation list \<Rightarrow> bool" where
  "named_crossed l obs \<longleftrightarrow>
     (\<forall>i\<in>ob_commitmentID ` set obs. \<exists>c. map_of (lg_commitments l) i = Some c \<and> StateCrossed (co_state c))"

lemma obligations_ok_alt:
  "obligations_ok l \<longleftrightarrow>
     named_crossed l (lg_obligations l) \<and> (\<forall>i. length (filter (open_for i) (lg_obligations l)) \<le> 1)"
  by (auto simp: obligations_ok_def named_crossed_def)

lemma step_obligations:
  assumes "ledger_step l l'" "obligations_ok l"
  shows "named_crossed l (lg_obligations l') \<and> (\<forall>j. length (filter (open_for j) (lg_obligations l')) \<le> 1)"
  using assms(1)
proof cases
  case (invalidate i v ob)
  then have "\<forall>o'\<in>set (lg_obligations l). \<not> open_for i o'" "\<exists>c. map_of (lg_commitments l) i = Some c \<and> StateCrossed (co_state c)"
    "lg_obligations l' = lg_obligations l @ [ob]" "ob_commitmentID ob = i"
    by (auto simp: Invalidate_def Let_def list_ex_iff split: option.splits if_splits)
  moreover from this have "filter (open_for i) (lg_obligations l) = []" by (simp add: filter_empty_conv)
  ultimately show ?thesis using assms(2) by (auto simp: obligations_ok_alt named_crossed_def open_for_def)
next
  case (resolve i b)
  show ?thesis
  proof (cases "resolve_first i (lg_obligations l)")
    case None
    with resolve assms(2) show ?thesis by (auto simp: ResolveObligation_def obligations_ok_alt)
  next
    case (Some obs)
    with resolve have "lg_obligations l' = obs" by (auto simp: ResolveObligation_def)
    moreover have "named_crossed l obs"
      using resolve_first_filter [OF Some] assms(2)
      unfolding obligations_ok_alt named_crossed_def by (metis list.set_map)
    ultimately show ?thesis using resolve_first_filter [OF Some] assms(2)
      by (metis dual_order.trans obligations_ok_alt)
  qed
next
  case (truncate i ms b)
  have "ob_commitmentID ` set (map (\<lambda>ob. if open_for i ob then ob\<lparr>ob_playedMS := ms\<rparr> else ob) obs)
      = ob_commitmentID ` set obs" for obs
    by (induction obs) auto
  with truncate assms(2) show ?thesis
    by (auto simp: Truncated_def set_commitment_def obligations_ok_alt named_crossed_def open_for_played filter_map
        split: option.splits if_splits)
next
  case (prepare c)
  from Prepare_effect [OF prepare] have "lg_obligations l' = lg_obligations l" by metis
  with assms(2) show ?thesis by (simp add: obligations_ok_alt)
qed (use assms(2) in \<open>auto simp: Queue_def Emit_def transition_def Complete_def Cancel_def set_commitment_def
      obligations_ok_alt split: option.splits if_splits\<close>)

lemma step_obligations_ok:
  assumes "ledger_step l l'" "obligations_ok l"
  shows "obligations_ok l'"
  using step_obligations [OF assms] commitments_stay_crossed [OF assms(1)]
  unfolding obligations_ok_alt named_crossed_def by blast

interpretation book: stable ledger_step "\<lambda>l. ledger_ok l \<and> obligations_ok l"
  by unfold_locales (auto intro: step_ledger_ok step_obligations_ok)

lemma new_ledger_ok: "ledger_ok NewLedger \<and> obligations_ok NewLedger"
  by (simp add: ledger_ok_def obligations_ok_def NewLedger_def)

text \<open>
  The call identifier is an idempotency key and repairs are owed once: in every ledger a session
  can reach, no two commitments carry the same non-empty call, a repair is only owed for a
  commitment that crossed the boundary, and at most one repair per commitment is open.
\<close>

theorem calls_and_repairs_are_unique:
  assumes "ledger_run NewLedger l"
  shows "(\<forall>i j c d. Lookup l i = Some c \<and> Lookup l j = Some d \<and> co_callID c = co_callID d \<and> co_callID c \<noteq> []
            \<longrightarrow> i = j)
    \<and> (\<forall>ob\<in>set (Obligations l). \<exists>c. Lookup l (ob_commitmentID ob) = Some c \<and> StateCrossed (co_state c))
    \<and> distinct (map ob_commitmentID (Obligations l))"
proof -
  from book.run_keeps [OF assms new_ledger_ok] have ok: "ledger_ok l" "obligations_ok l" by auto
  have "distinct (map ob_commitmentID (filter (\<lambda>ob. \<not> ob_resolved ob) obs))"
    if "\<forall>i. length (filter (open_for i) obs) \<le> 1" for obs
    using that
  proof (induction obs)
    case (Cons ob obs)
    have "\<forall>i. length (filter (open_for i) obs) \<le> 1"
      using Cons.prems by (metis filter.simps(2) le_SucI length_Cons not_less_eq_eq dual_order.trans)
    with Cons.IH have IH: "distinct (map ob_commitmentID (filter (\<lambda>ob. \<not> ob_resolved ob) obs))" by blast
    have "filter (open_for (ob_commitmentID ob)) obs = []" if "\<not> ob_resolved ob"
      using Cons.prems [rule_format, of "ob_commitmentID ob"] that by (simp add: open_for_def)
    with IH show ?case by (auto simp: filter_empty_conv open_for_def)
  qed simp
  with ok show ?thesis
    by (auto simp: Obligations_def Lookup_def ledger_ok_def obligations_ok_def) (metis option.inject)
qed

subsection \<open>What can be stopped and what can only be repaired\<close>

lemma set_map_filter_iff: "set (List.map_filter f xs) = {y. \<exists>x\<in>set xs. f x = Some y}"
  by (induction xs) (auto split: option.splits)

lemma in_order_set:
  assumes "ledger_ok l"
  shows "set (in_order l) = {c. \<exists>i. Lookup l i = Some c}"
  using assms by (auto simp: in_order_def set_map_filter_iff ledger_ok_def Lookup_def)

text \<open>
  The two views a barge-in uses split the ledger: a commitment of a reachable ledger is either
  still cancellable, or crossed and only repairable, or was cancelled, and exactly one of these.
\<close>

theorem cancellable_crossed_partition:
  assumes "ledger_run NewLedger l"
  shows "set (LedgerSnapshot l) =
      set (Cancellable l (\<lambda>_. True)) \<union> set (Crossed l (\<lambda>_. True)) \<union> {c \<in> set (LedgerSnapshot l). co_state c = StateCancelled}
    \<and> set (Cancellable l (\<lambda>_. True)) \<inter> set (Crossed l (\<lambda>_. True)) = {}
    \<and> (\<forall>c\<in>set (Cancellable l (\<lambda>_. True)).
         Cancel l (co_id c) r = Inr (set_commitment l (co_id c) (c\<lparr>co_cancelReason := r, co_state := StateCancelled\<rparr>), False))
    \<and> (\<forall>c\<in>set (Crossed l (\<lambda>_. True)). \<exists>l'. Cancel l (co_id c) r = Inr (l', True))"
proof (intro conjI)
  from book.run_keeps [OF assms new_ledger_ok] have ok: "ledger_ok l" by auto
  have found: "map_of (lg_commitments l) (co_id c) = Some c" if "c \<in> set (in_order l)" for c
    using that ok by (auto simp: in_order_set [OF ok] Lookup_def ledger_ok_def)
  show "set (LedgerSnapshot l) =
      set (Cancellable l (\<lambda>_. True)) \<union> set (Crossed l (\<lambda>_. True)) \<union> {c \<in> set (LedgerSnapshot l). co_state c = StateCancelled}"
    by (auto simp: LedgerSnapshot_def Cancellable_def Crossed_def state_defs)
  show "set (Cancellable l (\<lambda>_. True)) \<inter> set (Crossed l (\<lambda>_. True)) = {}"
    by (auto simp: Cancellable_def Crossed_def)
  show "\<forall>c\<in>set (Cancellable l (\<lambda>_. True)).
         Cancel l (co_id c) r = Inr (set_commitment l (co_id c) (c\<lparr>co_cancelReason := r, co_state := StateCancelled\<rparr>), False)"
    using found by (auto simp: Cancellable_def Cancel_def state_defs)
  show "\<forall>c\<in>set (Crossed l (\<lambda>_. True)). \<exists>l'. Cancel l (co_id c) r = Inr (l', True)"
    using found by (auto simp: Crossed_def Cancel_def state_defs)
qed

subsection \<open>A run\<close>

definition example_commitment :: commitment where
  "example_commitment =
     \<lparr>co_id = ''u1'', co_kind = KindSpeech, co_itemIDs = [''a0''], co_callID = ''k'', co_revision = 1,
      co_phase = PhaseFast, co_authority = [], co_confirm = [], co_state = StatePlayed, co_playedMS = 0,
      co_cancelReason = []\<rparr>"

definition example_prepared :: ledger where
  "example_prepared = (case Prepare NewLedger example_commitment of Inr l \<Rightarrow> l | Inl _ \<Rightarrow> NewLedger)"

definition example_emitting :: ledger where
  "example_emitting = (case Emit example_prepared ''u1'' of Inr l \<Rightarrow> l | Inl _ \<Rightarrow> NewLedger)"

definition example_owed :: ledger where
  "example_owed = (case Invalidate example_emitting ''u1'' 2 of Some (l, _) \<Rightarrow> l | None \<Rightarrow> NewLedger)"

lemma example_ledger_eval:
  "isl (Prepare NewLedger example_commitment) = False" "isl (Emit example_prepared ''u1'') = False"
  "(Invalidate example_emitting ''u1'' 2 = None) = False"
  "map_option co_state (Lookup example_emitting ''u1'') = Some StateEmitting"
  "map ob_commitmentID (Obligations example_owed) = [''u1'']"
  "map co_state (LedgerSnapshot example_emitting) = [StateEmitting]"
  "Outstanding example_emitting = []"
  by code_simp+

lemma example_ledger_steps:
  "ledger_step NewLedger example_prepared" "ledger_step example_prepared example_emitting"
  "ledger_step example_emitting example_owed"
proof -
  show "ledger_step NewLedger example_prepared"
    using example_ledger_eval(1) by (cases "Prepare NewLedger example_commitment")
      (auto simp: example_prepared_def intro: ledger_step.prepare)
  show "ledger_step example_prepared example_emitting"
    using example_ledger_eval(2) by (cases "Emit example_prepared ''u1''")
      (auto simp: example_emitting_def intro: ledger_step.emit)
  show "ledger_step example_emitting example_owed"
    using example_ledger_eval(3) by (cases "Invalidate example_emitting ''u1'' 2")
      (auto simp: example_owed_def intro: ledger_step.invalidate)
qed

lemma example_ledger_run: "ledger_run NewLedger example_emitting" "ledger_run NewLedger example_owed"
  using example_ledger_steps by (meson rtranclp.rtrancl_refl rtranclp.rtrancl_into_rtrancl)+

theorem crossed_is_irreversible_witness:
  "(\<exists>d. Lookup example_owed ''u1'' = Some d \<and> StateCrossed (co_state d))
    \<and> (\<exists>l e. Cancel example_owed ''u1'' ''user spoke'' = Inr (l, True) \<and> Lookup l ''u1'' = Some e \<and> co_state e = StatePlayed)"
proof -
  from example_ledger_eval(4) obtain c where c: "Lookup example_emitting ''u1'' = Some c" "co_state c = StateEmitting"
    by auto
  have "ledger_run example_emitting example_owed" using example_ledger_steps(3) by blast
  from crossed_is_irreversible [OF this c(1), of "''user spoke''"] c(2) show ?thesis by (auto simp: StateCrossed_def)
qed

theorem calls_and_repairs_are_unique_witness:
  "map ob_commitmentID (Obligations example_owed) = [''u1'']
   \<and> (\<exists>c. Lookup example_owed ''u1'' = Some c \<and> StateCrossed (co_state c))"
proof -
  have o: "map ob_commitmentID (Obligations example_owed) = [''u1'']" by (rule example_ledger_eval(5))
  then obtain ob where "ob \<in> set (Obligations example_owed)" "ob_commitmentID ob = ''u1''" by auto
  with calls_and_repairs_are_unique [OF example_ledger_run(2)] o show ?thesis by metis
qed

theorem cancellable_crossed_partition_witness:
  "length (Crossed example_emitting (\<lambda>_. True)) = 1 \<and> Cancellable example_emitting (\<lambda>_. True) = []"
proof -
  have e: "Cancellable example_emitting (\<lambda>_. True) = []" using example_ledger_eval(7) by (simp add: Outstanding_def)
  have s: "map co_state (LedgerSnapshot example_emitting) = [StateEmitting]" by (rule example_ledger_eval(6))
  then obtain c where c: "LedgerSnapshot example_emitting = [c]" "co_state c = StateEmitting" by auto
  have n: "{d. d = c \<and> co_state d = StateCancelled} = {}" using c(2) by auto
  have "c \<in> set (Crossed example_emitting (\<lambda>_. True))"
    using cancellable_crossed_partition [OF example_ledger_run(1), of "[]"] e c(1) n by auto
  moreover have "length (Crossed example_emitting (\<lambda>_. True)) \<le> length (LedgerSnapshot example_emitting)"
    by (simp add: Crossed_def LedgerSnapshot_def)
  ultimately show ?thesis using c e by (cases "Crossed example_emitting (\<lambda>_. True)") auto
qed

text \<open>
  What \<^verbatim>\<open>Outstanding\<close> omits: a commitment that is being emitted has not reached a terminal state
  and is not listed. The list is the cancellable commitments, not every unfinished one.
\<close>

theorem Outstanding_omits_emitting:
  assumes "Lookup l i = Some c" and "co_state c = StateEmitting"
  shows "\<not> Terminal (co_state c) \<and> c \<notin> set (Outstanding l)"
  using assms(2) by (auto simp: Outstanding_def Cancellable_def state_defs)

theorem Outstanding_omits_emitting_witness:
  "\<exists>c. Lookup example_emitting ''u1'' = Some c \<and> \<not> Terminal (co_state c) \<and> c \<notin> set (Outstanding example_emitting)"
proof -
  from example_ledger_eval(4) obtain c where c: "Lookup example_emitting ''u1'' = Some c" "co_state c = StateEmitting"
    by auto
  from Outstanding_omits_emitting [OF c] c(1) show ?thesis by blast
qed

end
