(* ===== verification/Registry.thy ===== *)
theory Registry
  imports Ledger
begin

section \<open>\<^verbatim>\<open>action.Registry\<close>: the declared tools\<close>

text \<open>
  The declaration half of \<^verbatim>\<open>src/action/tools.go\<close>: what \<^verbatim>\<open>Declare\<close> checks and rewrites in a tool
  declaration, the schema check of its argument normalisers, \<^verbatim>\<open>Replace\<close>, \<^verbatim>\<open>Lookup\<close> and \<^verbatim>\<open>Specs\<close>.
  A dispatcher is known to the registry only as present or absent, so it is the name it reports.
  \<^verbatim>\<open>Lookup\<close> is \<open>LookupTool\<close> here, beside the \<^verbatim>\<open>Lookup\<close> of the ledger. Each method takes the registry
  lock once and is one atomic step; \<^verbatim>\<open>slices.Clone\<close> copies values that are immutable here.
\<close>

text \<open>\<^verbatim>\<open>ToolArgumentNormalizer\<close> has the two fields of a rule of \<^verbatim>\<open>toolargs\<close>.\<close>

type_synonym tool_argument_normalizer = rule

record tool_spec =
  ts_name :: string
  ts_description :: string
  ts_parameters :: string
  ts_normalizers :: "tool_argument_normalizer list"
  ts_confirm :: string
  ts_background :: bool
  ts_target :: string
  ts_dispatcher :: "string option"

record registry =
  rg_specs :: "(string, tool_spec) gomap"
  rg_order :: "string list"

datatype schema_fault =
    SchemaNotStrict sj_error | NotAnObjectSchema | UndeclaredProperty string
  | PropertyNotStrict string sj_error | PropertyUndecodable string | NoSingleType string
  | NotAString string | PairNeedsIntegerX | PairNeedsPropertyY | PairNeedsIntegerY | PairNeedsRequired

datatype declare_error =
    NameAndDescriptionRequired | DeclaresBadConfirm string | ParametersNotJSON | ParametersNotObject
  | TooManyNormalizers | NonCanonicalArgument nat | RepeatedArgument string
  | UnsupportedArgument string string | BadSchema schema_fault

definition NewRegistry :: registry where
  "NewRegistry = \<lparr>rg_specs = [], rg_order = []\<rparr>"

subsection \<open>Decoding the schema\<close>

text \<open>
  \<^verbatim>\<open>json.Unmarshal\<close> into a struct walks the members of the object in order and assigns each to the
  field whose name has the same folding: ASCII letters in upper case, and U+017F and U+212A, which
  fold to S and K. A later member of the same folding assigns again. The walk of the members is
  the one of \<^const>\<open>parseObjectMembers\<close>, which agrees with the decoder on valid JSON.
\<close>

definition upper_byte :: "char \<Rightarrow> char" where
  "upper_byte c = (if 97 \<le> byte c \<and> byte c \<le> 122 then char_of (byte c - 32) else c)"

fun fold_name :: "string \<Rightarrow> string" where
  "fold_name [] = []"
| "fold_name (c # s) =
     (if byte c = 197 \<and> map byte (take 1 s) = [191] then CHR ''S'' # fold_name (drop 1 s)
      else if byte c = 226 \<and> map byte (take 2 s) = [132, 170] then CHR ''K'' # fold_name (drop 2 s)
      else upper_byte c # fold_name s)"

definition object_members :: "string \<Rightarrow> (string \<times> string) list option" where
  "object_members raw =
     (if \<not> json_object raw then None
      else map_option (map (\<lambda>m. (om_name m, ToolArgs.slice raw (om_valueStart m) (om_valueEnd m)))) (parseObjectMembers raw))"

definition is_null :: "string \<Rightarrow> bool" where
  "is_null raw \<longleftrightarrow> json_valid raw \<and> first_byte raw = Some 110"

text \<open>Decoding into a string variable that holds \<open>old\<close>; \<^verbatim>\<open>null\<close> leaves it alone.\<close>

definition string_into :: "string \<Rightarrow> string \<Rightarrow> string option" where
  "string_into old raw = (if is_null raw then Some old else unmarshal_string raw)"

text \<open>
  \<^verbatim>\<open>Required []string\<close>: decoding writes into the slice that is there, so a \<^verbatim>\<open>null\<close> element keeps
  what the backing array holds at its index; \<open>sc_requiredLen\<close> is the length of the slice.
\<close>

record schema =
  sc_type :: string
  sc_properties :: "(string, string) gomap option"
  sc_required :: "string list"
  sc_requiredLen :: nat

definition emptySchema :: schema where
  "emptySchema = \<lparr>sc_type = [], sc_properties = None, sc_required = [], sc_requiredLen = 0\<rparr>"

fun strings_into :: "string list \<Rightarrow> string list \<Rightarrow> string list option" where
  "strings_into old [] = Some old"
| "strings_into old (e # es) =
     (case string_into (case old of [] \<Rightarrow> [] | x # _ \<Rightarrow> x) e of
        None \<Rightarrow> None
      | Some v \<Rightarrow> map_option (\<lambda>r. v # r) (strings_into (drop 1 old) es))"

definition decode_properties :: "(string, string) gomap option \<Rightarrow> string \<Rightarrow> (string, string) gomap option option" where
  "decode_properties old raw =
     (if is_null raw then Some None
      else map_option
        (\<lambda>ms. Some (foldl (\<lambda>m (k, v). AList.update k v m) (case old of None \<Rightarrow> [] | Some m \<Rightarrow> m) ms))
        (object_members raw))"

definition decode_required :: "schema \<Rightarrow> string \<Rightarrow> schema option" where
  "decode_required sc raw =
     (if is_null raw then Some (sc\<lparr>sc_required := [], sc_requiredLen := 0\<rparr>)
      else case array_elements raw of
        None \<Rightarrow> None
      | Some es \<Rightarrow>
         (if es = [] then Some (sc\<lparr>sc_required := [], sc_requiredLen := 0\<rparr>)
          else map_option (\<lambda>b. sc\<lparr>sc_required := b, sc_requiredLen := length es\<rparr>) (strings_into (sc_required sc) es)))"

definition decode_schema_member :: "schema option \<Rightarrow> string \<times> string \<Rightarrow> schema option" where
  "decode_schema_member so kv =
     (case so of
        None \<Rightarrow> None
      | Some sc \<Rightarrow>
         (if fold_name (fst kv) = ''TYPE'' then
            map_option (\<lambda>v. sc\<lparr>sc_type := v\<rparr>) (string_into (sc_type sc) (snd kv))
          else if fold_name (fst kv) = ''PROPERTIES'' then
            map_option (\<lambda>p. sc\<lparr>sc_properties := p\<rparr>) (decode_properties (sc_properties sc) (snd kv))
          else if fold_name (fst kv) = ''REQUIRED'' then decode_required sc (snd kv)
          else Some sc))"

definition decode_schema :: "string \<Rightarrow> schema option" where
  "decode_schema raw =
     (if is_null raw then Some emptySchema
      else case object_members raw of
        None \<Rightarrow> None
      | Some ms \<Rightarrow> foldl decode_schema_member (Some emptySchema) ms)"

definition requires :: "schema \<Rightarrow> string \<Rightarrow> bool" where
  "requires sc n \<longleftrightarrow> n \<in> set (take (sc_requiredLen sc) (sc_required sc))"

text \<open>
  \<^verbatim>\<open>struct{Type json.RawMessage}\<close> and then \<^verbatim>\<open>json.Unmarshal(property.Type, &propertyType)\<close>. The
  outer option is the first decoding, the inner one the second: a raw \<^verbatim>\<open>null\<close> decodes to the empty
  string, a missing member does not decode.
\<close>

definition property_type :: "string \<Rightarrow> string option option" where
  "property_type raw =
     (if is_null raw then Some None
      else case object_members raw of
        None \<Rightarrow> None
      | Some ms \<Rightarrow>
          Some (case find_last (\<lambda>kv. fold_name (fst kv) = ''TYPE'') ms of
                  None \<Rightarrow> None
                | Some kv \<Rightarrow> unmarshal_string (snd kv)))"

subsection \<open>Declaring\<close>

definition pair_fault :: "schema \<Rightarrow> (string, string) gomap \<Rightarrow> tool_argument_normalizer \<Rightarrow> string \<Rightarrow> schema_fault option" where
  "pair_fault sc props r ptype =
     (if Argument r \<noteq> ''x'' \<or> ptype \<noteq> ''integer'' then Some PairNeedsIntegerX
      else case map_of props ''y'' of
        None \<Rightarrow> Some PairNeedsPropertyY
      | Some y \<Rightarrow>
         (case Validate y of
            Inl e \<Rightarrow> Some (PropertyNotStrict ''y'' e)
          | Inr _ \<Rightarrow>
             (if property_type y \<noteq> Some (Some ''integer'') then Some PairNeedsIntegerY
              else if \<not> requires sc ''x'' \<or> \<not> requires sc ''y'' then Some PairNeedsRequired
              else None)))"

definition normalizer_fault :: "schema \<Rightarrow> (string, string) gomap \<Rightarrow> tool_argument_normalizer \<Rightarrow> schema_fault option" where
  "normalizer_fault sc props r =
     (case map_of props (Argument r) of
        None \<Rightarrow> Some (UndeclaredProperty (Argument r))
      | Some raw \<Rightarrow>
         (case Validate raw of
            Inl e \<Rightarrow> Some (PropertyNotStrict (Argument r) e)
          | Inr _ \<Rightarrow>
             (case property_type raw of
                None \<Rightarrow> Some (PropertyUndecodable (Argument r))
              | Some None \<Rightarrow> Some (NoSingleType (Argument r))
              | Some (Some ptype) \<Rightarrow>
                 (if Normalizer r = CompactASCIIAlphanumericV1 then
                    if ptype \<noteq> ''string'' then Some (NotAString (Argument r)) else None
                  else if Normalizer r = CoordinatePairXYV1 then pair_fault sc props r ptype
                  else None))))"

fun first_fault :: "('a \<Rightarrow> 'f option) \<Rightarrow> 'a list \<Rightarrow> 'f option" where
  "first_fault f [] = None"
| "first_fault f (x # xs) = (case f x of Some e \<Rightarrow> Some e | None \<Rightarrow> first_fault f xs)"

definition validateArgumentNormalizerSchema :: "string \<Rightarrow> tool_argument_normalizer list \<Rightarrow> schema_fault option" where
  "validateArgumentNormalizerSchema parameters ns =
     (case Validate parameters of
        Inl e \<Rightarrow> Some (SchemaNotStrict e)
      | Inr _ \<Rightarrow>
         (case decode_schema parameters of
            None \<Rightarrow> Some NotAnObjectSchema
          | Some sc \<Rightarrow>
             (if sc_type sc \<noteq> ''object'' then Some NotAnObjectSchema
              else case sc_properties sc of
                None \<Rightarrow> Some NotAnObjectSchema
              | Some props \<Rightarrow> first_fault (normalizer_fault sc props) ns)))"

text \<open>
  \<^verbatim>\<open>sort.Slice\<close> by argument. It need not be stable, but a declaration in which two normalisers
  name the same argument is refused whatever their order, so the stable order stands for all.
\<close>

fun insert_normalizer :: "tool_argument_normalizer \<Rightarrow> tool_argument_normalizer list \<Rightarrow> tool_argument_normalizer list" where
  "insert_normalizer r [] = [r]"
| "insert_normalizer r (x # xs) =
     (if string_less (Argument r) (Argument x) then r # x # xs else x # insert_normalizer r xs)"

definition sort_normalizers :: "tool_argument_normalizer list \<Rightarrow> tool_argument_normalizer list" where
  "sort_normalizers ns = foldl (\<lambda>acc r. insert_normalizer r acc) [] ns"

fun normalizers_fault :: "nat \<Rightarrow> string \<Rightarrow> tool_argument_normalizer list \<Rightarrow> declare_error option" where
  "normalizers_fault n lst [] = None"
| "normalizers_fault n lst (r # rs) =
     (if Argument r = [] \<or> Argument r \<noteq> TrimSpace (Argument r) then Some (NonCanonicalArgument n)
      else if 0 < n \<and> Argument r = lst then Some (RepeatedArgument (Argument r))
      else if \<not> Supported (Normalizer r) then Some (UnsupportedArgument (Argument r) (Normalizer r))
      else normalizers_fault (n + 1) (Argument r) rs)"

definition store_spec :: "registry \<Rightarrow> tool_spec \<Rightarrow> registry" where
  "store_spec rg s =
     rg\<lparr>rg_order := (if gm_has (rg_specs rg) (ts_name s) then rg_order rg else rg_order rg @ [ts_name s]),
        rg_specs := AList.update (ts_name s) s (rg_specs rg)\<rparr>"

definition Declare :: "registry \<Rightarrow> tool_spec \<Rightarrow> (declare_error, registry) result" where
  "Declare rg s0 =
     (if blank (ts_name s0) \<or> blank (ts_description s0) then Inl NameAndDescriptionRequired
      else case ParseConfirm (ts_confirm s0) of
        None \<Rightarrow> Inl (DeclaresBadConfirm (ts_confirm s0))
      | Some cf \<Rightarrow>
         (if ts_parameters s0 = [] \<or> \<not> json_valid (ts_parameters s0) then Inl ParametersNotJSON
          else if \<not> json_object (ts_parameters s0) then Inl ParametersNotObject
          else if 4096 < int (length (ts_normalizers s0)) then Inl TooManyNormalizers
          else
            (let s = s0\<lparr>ts_confirm := cf, ts_normalizers := sort_normalizers (ts_normalizers s0)\<rparr> in
             case normalizers_fault 0 [] (ts_normalizers s) of
               Some e \<Rightarrow> Inl e
             | None \<Rightarrow>
                (case (if ts_normalizers s = [] then None
                       else validateArgumentNormalizerSchema (ts_parameters s) (ts_normalizers s)) of
                   Some f \<Rightarrow> Inl (BadSchema f)
                 | None \<Rightarrow> Inr (store_spec rg s)))))"

fun declare_all :: "registry \<Rightarrow> tool_spec list \<Rightarrow> (declare_error, registry) result" where
  "declare_all rg [] = Inr rg"
| "declare_all rg (s # ss) = bind_result (Declare rg s) (\<lambda>rg'. declare_all rg' ss)"

text \<open>The registry afterwards and the error, if any: a refused set leaves the old one in place.\<close>

definition Replace :: "registry \<Rightarrow> tool_spec list \<Rightarrow> registry \<times> declare_error option" where
  "Replace rg ss =
     (case declare_all NewRegistry ss of
        Inl e \<Rightarrow> (rg, Some e)
      | Inr replacement \<Rightarrow> (rg\<lparr>rg_specs := rg_specs replacement, rg_order := rg_order replacement\<rparr>, None))"

definition LookupTool :: "registry \<Rightarrow> string \<Rightarrow> tool_spec option" where
  "LookupTool rg n = map_of (rg_specs rg) n"

text \<open>\<^verbatim>\<open>registry.specs[name]\<close> for the names of \<^verbatim>\<open>registry.order\<close>, all of which are declared.\<close>

definition Specs :: "registry \<Rightarrow> tool_spec list" where
  "Specs rg = List.map_filter (map_of (rg_specs rg)) (rg_order rg)"

subsection \<open>Every declared tool is canonical\<close>

lemma string_less_total: "\<not> string_less b a \<Longrightarrow> a \<noteq> b \<Longrightarrow> string_less a b"
proof (induction a b rule: string_less.induct)
  case (4 c s d t)
  then show ?case using linorder_less_linear [of "byte c" "byte d"] by auto
qed auto

abbreviation by_argument :: "tool_argument_normalizer \<Rightarrow> tool_argument_normalizer \<Rightarrow> bool" where
  "by_argument a b \<equiv> string_less (Argument a) (Argument b)"

lemma set_insert_normalizer: "set (insert_normalizer r xs) = insert r (set xs)"
  by (induction xs) auto

lemma length_insert_normalizer: "length (insert_normalizer r xs) = Suc (length xs)"
  by (induction xs) auto

lemma sorted_insert_normalizer:
  "sorted_wrt (\<lambda>a b. \<not> by_argument b a) xs \<Longrightarrow> sorted_wrt (\<lambda>a b. \<not> by_argument b a) (insert_normalizer r xs)"
proof (induction xs)
  case (Cons x xs)
  then show ?case
    by (auto simp: set_insert_normalizer dest: string_less_trans)
qed simp

lemma sort_normalizers_sorted:
  "sorted_wrt (\<lambda>a b. \<not> by_argument b a) (sort_normalizers ns) \<and> length (sort_normalizers ns) = length ns
    \<and> set (sort_normalizers ns) = set ns"
proof (induction ns rule: rev_induct)
  case (snoc r ns)
  then show ?case
    by (simp add: sort_normalizers_def sorted_insert_normalizer length_insert_normalizer set_insert_normalizer)
qed (simp add: sort_normalizers_def)

lemma normalizers_fault_Cons:
  "normalizers_fault n lst (r # rs) = None \<longleftrightarrow>
     Argument r \<noteq> [] \<and> TrimSpace (Argument r) = Argument r \<and> Supported (Normalizer r)
     \<and> \<not> (0 < n \<and> Argument r = lst) \<and> normalizers_fault (n + 1) (Argument r) rs = None"
  by (metis normalizers_fault.simps(2) option.distinct(1))

text \<open>In a sorted list it is enough that neighbours differ.\<close>

lemma normalizers_fault_None:
  assumes "normalizers_fault n lst rs = None" "sorted_wrt (\<lambda>a b. \<not> by_argument b a) rs"
  shows "sorted_wrt by_argument rs
    \<and> (\<forall>r\<in>set rs. Argument r \<noteq> [] \<and> TrimSpace (Argument r) = Argument r \<and> Supported (Normalizer r))"
  using assms
proof (induction rs arbitrary: n lst)
  case (Cons r rs)
  note r = Cons.prems(1) [unfolded normalizers_fault_Cons]
  have sorted: "\<forall>x\<in>set rs. \<not> by_argument x r" "sorted_wrt (\<lambda>a b. \<not> by_argument b a) rs"
    using Cons.prems(2) by simp_all
  from Cons.IH [OF _ sorted(2)] r have rest: "sorted_wrt by_argument rs"
    "\<forall>r\<in>set rs. Argument r \<noteq> [] \<and> TrimSpace (Argument r) = Argument r \<and> Supported (Normalizer r)"
    by blast+
  have "by_argument r x" if "x \<in> set rs" for x
  proof (cases rs)
    case (Cons y ys)
    with r have "Argument r \<noteq> Argument y" by (auto simp del: normalizers_fault.simps simp add: normalizers_fault_Cons)
    moreover from sorted(1) Cons have "\<not> by_argument y r" by simp
    ultimately have y: "by_argument r y" by (intro string_less_total)
    from Cons that rest(1) have "x = y \<or> by_argument y x" by auto
    with y show ?thesis by (auto dest: string_less_trans)
  qed (use that in simp)
  with r rest show ?case by simp
qed simp

text \<open>What the schema of a tool must say of an argument that a normaliser rewrites.\<close>

definition declared_argument :: "schema \<Rightarrow> (string, string) gomap \<Rightarrow> tool_argument_normalizer \<Rightarrow> bool" where
  "declared_argument sc props r \<longleftrightarrow>
     (case map_of props (Argument r) of
        None \<Rightarrow> False
      | Some raw \<Rightarrow>
         (if Normalizer r = CompactASCIIAlphanumericV1 then property_type raw = Some (Some ''string'')
          else Argument r = ''x'' \<and> property_type raw = Some (Some ''integer'')
            \<and> map_option property_type (map_of props ''y'') = Some (Some (Some ''integer''))
            \<and> requires sc ''x'' \<and> requires sc ''y''))"

definition schema_declares :: "string \<Rightarrow> tool_argument_normalizer list \<Rightarrow> bool" where
  "schema_declares parameters ns \<longleftrightarrow>
     (case decode_schema parameters of
        None \<Rightarrow> False
      | Some sc \<Rightarrow>
         sc_type sc = ''object''
         \<and> (case sc_properties sc of None \<Rightarrow> False | Some props \<Rightarrow> list_all (declared_argument sc props) ns))"

definition canonical_spec :: "tool_spec \<Rightarrow> bool" where
  "canonical_spec s \<longleftrightarrow>
     \<not> blank (ts_name s) \<and> \<not> blank (ts_description s)
     \<and> ts_confirm s \<in> {''never'', ''policy'', ''always''}
     \<and> json_object (ts_parameters s)
     \<and> length (ts_normalizers s) \<le> 4096
     \<and> sorted_wrt by_argument (ts_normalizers s)
     \<and> list_all (\<lambda>r. Supported (Normalizer r) \<and> Argument r \<noteq> [] \<and> TrimSpace (Argument r) = Argument r) (ts_normalizers s)
     \<and> (ts_normalizers s \<noteq> [] \<longrightarrow> schema_declares (ts_parameters s) (ts_normalizers s))"

lemma first_fault_None: "first_fault f xs = None \<longleftrightarrow> list_all (\<lambda>x. f x = None) xs"
  by (induction xs) (auto split: option.splits)

lemma normalizer_fault_None:
  assumes "normalizer_fault sc props r = None" "Supported (Normalizer r)"
  shows "declared_argument sc props r"
  using assms
  by (auto simp: normalizer_fault_def declared_argument_def pair_fault_def Supported_def
      CompactASCIIAlphanumericV1_def CoordinatePairXYV1_def split: option.splits sum.splits if_splits)

lemma validate_schema_None:
  assumes "validateArgumentNormalizerSchema p ns = None" "list_all (\<lambda>r. Supported (Normalizer r)) ns"
  shows "schema_declares p ns"
  using assms normalizer_fault_None
  by (auto simp: validateArgumentNormalizerSchema_def schema_declares_def first_fault_None list_all_iff
      split: option.splits sum.splits if_splits)

lemma ParseConfirm_known: "ParseConfirm v = Some c \<Longrightarrow> c \<in> {''never'', ''policy'', ''always''}"
  by (auto simp: ParseConfirm_def Let_def split: if_splits)

lemma Declare_stores:
  assumes "Declare rg s0 = Inr rg'"
  obtains s where "rg' = store_spec rg s" "ts_name s = ts_name s0" "canonical_spec s"
    "s = s0\<lparr>ts_confirm := ts_confirm s, ts_normalizers := ts_normalizers s\<rparr>"
proof -
  from assms obtain cf where cf: "ParseConfirm (ts_confirm s0) = Some cf"
    by (auto simp: Declare_def split: if_splits option.splits)
  define s where "s = s0\<lparr>ts_confirm := cf, ts_normalizers := sort_normalizers (ts_normalizers s0)\<rparr>"
  from assms cf have s: "rg' = store_spec rg s" "\<not> blank (ts_name s0)" "\<not> blank (ts_description s0)"
    "json_object (ts_parameters s0)" "length (ts_normalizers s0) \<le> 4096"
    "normalizers_fault 0 [] (sort_normalizers (ts_normalizers s0)) = None"
    "sort_normalizers (ts_normalizers s0) \<noteq> [] \<longrightarrow>
       validateArgumentNormalizerSchema (ts_parameters s0) (sort_normalizers (ts_normalizers s0)) = None"
    by (auto simp: Declare_def s_def Let_def split: if_splits option.splits)
  note n = normalizers_fault_None [OF s(6)] sort_normalizers_sorted [of "ts_normalizers s0"]
  have "canonical_spec s"
    using s n ParseConfirm_known [OF cf] validate_schema_None
    by (auto simp: canonical_spec_def s_def list_all_iff)
  with s(1) show thesis by (intro that [of s]) (simp_all add: s_def)
qed

definition registry_ok :: "registry \<Rightarrow> bool" where
  "registry_ok rg \<longleftrightarrow>
     distinct (rg_order rg) \<and> (\<forall>n. n \<in> set (rg_order rg) \<longleftrightarrow> gm_has (rg_specs rg) n)
     \<and> (\<forall>n s. map_of (rg_specs rg) n = Some s \<longrightarrow> ts_name s = n \<and> canonical_spec s)"

inductive registry_step :: "registry \<Rightarrow> registry \<Rightarrow> bool" where
  declare_step: "Declare rg s = Inr rg' \<Longrightarrow> registry_step rg rg'"
| replace_step: "Replace rg ss = (rg', e) \<Longrightarrow> registry_step rg rg'"

lemma NewRegistry_ok: "registry_ok NewRegistry"
  by (simp add: registry_ok_def NewRegistry_def)

lemma Declare_ok: "Declare rg s = Inr rg' \<Longrightarrow> registry_ok rg \<Longrightarrow> registry_ok rg'"
  by (elim Declare_stores) (auto simp: registry_ok_def store_spec_def)

lemma declare_all_ok: "declare_all rg ss = Inr rg' \<Longrightarrow> registry_ok rg \<Longrightarrow> registry_ok rg'"
  by (induction ss arbitrary: rg) (auto simp: bind_result_eq_Inr dest: Declare_ok)

interpretation registry: stable registry_step registry_ok
proof unfold_locales
  fix rg rg' assume "registry_step rg rg'" "registry_ok rg"
  then show "registry_ok rg'"
    by cases (auto simp: Replace_def registry_ok_def dest: Declare_ok declare_all_ok [OF _ NewRegistry_ok]
        split: sum.splits)
qed

lemma Specs_lookup: "registry_ok rg \<Longrightarrow> s \<in> set (Specs rg) \<longleftrightarrow> LookupTool rg (ts_name s) = Some s"
proof -
  assume ok: "registry_ok rg"
  have "s \<in> set (Specs rg) \<longleftrightarrow> (\<exists>n\<in>set (rg_order rg). LookupTool rg n = Some s)"
    by (simp add: Specs_def LookupTool_def set_map_filter_iff)
  also have "\<dots> \<longleftrightarrow> LookupTool rg (ts_name s) = Some s"
    using ok unfolding registry_ok_def LookupTool_def by (metis option.distinct(1))
  finally show ?thesis .
qed

lemma Specs_names:
  assumes "registry_ok rg"
  shows "map ts_name (Specs rg) = rg_order rg"
proof -
  have "map ts_name (List.map_filter (map_of (rg_specs rg)) ns) = ns" if "set ns \<subseteq> set (rg_order rg)" for ns
    using that assms by (induction ns) (auto simp: map_filter_simps registry_ok_def split: option.splits)
  then show ?thesis by (simp add: Specs_def)
qed

text \<open>
  C15. Whatever sequence of declarations and replacements a session makes, every name is declared at
  most once, \<^verbatim>\<open>Lookup\<close> and \<^verbatim>\<open>Specs\<close> agree, and every declared tool is canonical: its confirmation
  requirement is one of the three known ones (an omitted one has become \<^verbatim>\<open>never\<close>), its parameters are
  one JSON object, and its argument normalisers are in strictly ascending order of argument, supported,
  and each rewrites an argument that the schema declares with the type the normaliser needs.
\<close>

theorem declared_tools_are_canonical:
  assumes "registry_step\<^sup>*\<^sup>* NewRegistry rg"
  shows "distinct (map ts_name (Specs rg))
    \<and> (\<forall>n s. LookupTool rg n = Some s \<longleftrightarrow> s \<in> set (Specs rg) \<and> ts_name s = n)
    \<and> list_all canonical_spec (Specs rg)"
proof -
  have ok: "registry_ok rg" by (rule registry.run_keeps [OF assms NewRegistry_ok])
  show ?thesis
  proof (intro conjI allI)
    show "distinct (map ts_name (Specs rg))" using ok by (simp add: Specs_names registry_ok_def)
    show "LookupTool rg n = Some s \<longleftrightarrow> s \<in> set (Specs rg) \<and> ts_name s = n" for n s
      using ok Specs_lookup [OF ok, of s] by (auto simp: LookupTool_def registry_ok_def)
    show "list_all canonical_spec (Specs rg)"
      using ok Specs_lookup [OF ok] by (auto simp: list_all_iff LookupTool_def registry_ok_def)
  qed
qed

definition example_tool :: "string \<Rightarrow> string \<Rightarrow> string \<Rightarrow> tool_argument_normalizer list \<Rightarrow> tool_spec" where
  "example_tool n cf ps ns =
     \<lparr>ts_name = n, ts_description = ''d'', ts_parameters = ps, ts_normalizers = ns, ts_confirm = cf,
      ts_background = False, ts_target = [], ts_dispatcher = Some ''func''\<rparr>"


text \<open>The checks of \<^verbatim>\<open>Declare\<close> one by one, for evaluation.\<close>

lemma Declare_accepts:
  assumes "\<not> blank (ts_name s)" "\<not> blank (ts_description s)" "ParseConfirm (ts_confirm s) = Some cf"
    "json_object (ts_parameters s)" "length (ts_normalizers s) \<le> 4096"
    "normalizers_fault 0 [] (sort_normalizers (ts_normalizers s)) = None"
    "sort_normalizers (ts_normalizers s) = []
     \<or> validateArgumentNormalizerSchema (ts_parameters s) (sort_normalizers (ts_normalizers s)) = None"
  shows "Declare rg s = Inr (store_spec rg (s\<lparr>ts_confirm := cf, ts_normalizers := sort_normalizers (ts_normalizers s)\<rparr>))"
  using assms json_valid_nonempty by (auto simp: Declare_def json_object_def Let_def)

definition example_schema :: string where
  "example_schema = ''{\"type\":\"object\",\"properties\":{\"id\":{\"type\":\"string\"}}}''"

definition example_rule :: tool_argument_normalizer where
  "example_rule = \<lparr>Argument = ''id'', Normalizer = CompactASCIIAlphanumericV1\<rparr>"

lemma example_strict: "Validate example_schema = Inr ()"
  by code_simp

lemma example_object: "json_object example_schema" "\<not> is_null example_schema"
  by code_simp+

lemma example_members:
  "object_members example_schema = Some [(''type'', ''\"object\"''), (''properties'', ''{\"id\":{\"type\":\"string\"}}'')]"
  by code_simp

lemma example_fields: "string_into [] ''\"object\"'' = Some ''object''"
  "fold_name ''type'' = ''TYPE''" "fold_name ''properties'' = ''PROPERTIES''"
  by code_simp+

lemma example_properties:
  "decode_properties None ''{\"id\":{\"type\":\"string\"}}'' = Some (Some [(''id'', ''{\"type\":\"string\"}'')])"
  by code_simp

lemmas example_decoding = example_strict example_object example_members example_fields example_properties

lemma example_schema_decodes:
  "decode_schema example_schema =
     Some \<lparr>sc_type = ''object'', sc_properties = Some [(''id'', ''{\"type\":\"string\"}'')], sc_required = [], sc_requiredLen = 0\<rparr>"
  by (simp add: decode_schema_def decode_schema_member_def emptySchema_def example_decoding del: fold_name.simps)

lemma example_property:
  "Validate ''{\"type\":\"string\"}'' = Inr ()" "property_type ''{\"type\":\"string\"}'' = Some (Some ''string'')"
  by code_simp+

lemma example_schema_ok: "validateArgumentNormalizerSchema example_schema [example_rule] = None"
  by (simp add: validateArgumentNormalizerSchema_def example_strict example_schema_decodes normalizer_fault_def
      example_rule_def example_property)

definition example_tools :: "tool_spec list" where
  "example_tools =
     [example_tool ''pay'' '' Policy '' ''{}'' [], example_tool ''find'' [] example_schema [example_rule],
      example_tool ''pay'' ''always'' ''{}'' []]"

lemma example_texts:
  "\<not> blank ''pay''" "\<not> blank ''find''" "\<not> blank ''d''" "json_object ''{}''"
  "ParseConfirm '' Policy '' = Some ''policy''" "ParseConfirm [] = Some ''never''" "ParseConfirm ''always'' = Some ''always''"
  "sort_normalizers [] = []" "sort_normalizers [example_rule] = [example_rule]"
  "normalizers_fault 0 [] [example_rule] = None"
  by code_simp+

definition example_registry :: registry where
  "example_registry =
     (let pay = example_tool ''pay'' ''always'' ''{}'' []; find = example_tool ''find'' ''never'' example_schema [example_rule] in
      \<lparr>rg_specs = [(''pay'', pay), (''find'', find)], rg_order = [''pay'', ''find'']\<rparr>)"

lemma example_registry_declared: "declare_all NewRegistry example_tools = Inr example_registry"
  by (simp add: example_tools_def example_tool_def Declare_accepts example_texts example_schema_ok
      example_object normalizers_fault.simps(1) store_spec_def NewRegistry_def example_registry_def del: normalizers_fault.simps(2))

theorem declared_tools_are_canonical_witness:
  "map (\<lambda>s. (ts_name s, ts_confirm s)) (Specs example_registry) = [(''pay'', ''always''), (''find'', ''never'')]
   \<and> list_all canonical_spec (Specs example_registry)"
proof -
  have "Replace NewRegistry example_tools = (example_registry, None)"
    by (simp add: Replace_def example_registry_declared)
  then have "registry_step\<^sup>*\<^sup>* NewRegistry example_registry" by (blast intro: replace_step)
  from declared_tools_are_canonical [OF this] show ?thesis
    by (simp add: Specs_def example_registry_def example_tool_def map_filter_simps)
qed

end
