(* ===== verification/Tools.thy ===== *)
theory Tools
  imports Registry Trajectory_Projections
begin

section \<open>\<^verbatim>\<open>action.Tools\<close>: the dispatch boundary\<close>

text \<open>
  The dispatch half of \<^verbatim>\<open>src/action/tools.go\<close>. \<^verbatim>\<open>Dispatch\<close> and \<^verbatim>\<open>EmitRemote\<close> run on any number of
  goroutines at once and share the registry, the ledger, the trajectory store, the results and the
  calls in flight. Each takes several locks one after the other, so a call in progress is a
  \<open>dispatching\<close> thread with a program counter, and \<open>advance_thread\<close> performs its next atomic region: from
  one lock to the next, or one call to a confirmer, a dispatcher or the audit. \<open>Dispatch\<close> is a thread
  run to its end with nothing in between; \<open>tools_step\<close> interleaves threads with each other and with
  the other users of the shared components.

  Confirmers and dispatchers belong to the deployment: what one answers is an argument of the
  region that asks it. \<open>tl_text\<close> stands for \<^verbatim>\<open>err.Error()\<close>; the text is only ever reported. The
  context is handed through to the deployment's code and looked at nowhere else.
  \<open>tl_trace\<close> records the interactions with the world in order: confirmations asked, dispatchers run,
  calls released to the client, audit records.
\<close>

datatype tools_error =
    ErrUnknownTool string | ErrGraphNativeNormalizationRequired string | ErrNoAuthority string
  | AlreadyDispatching string | NoDispatcher string | HasDispatcher string
  | LedgerRefused ledger_error | ConfirmerFailed string | ErrNotConfirmed string | MismatchedIdentity string

record confirmation_request =
  cr_call :: tool_call
  cr_confirm :: string
  cr_target :: string

text \<open>\<^verbatim>\<open>ElapsedNS\<close> of a record is never set by this code.\<close>

record audit_record =
  au_callID :: string
  au_name :: string
  au_target :: string
  au_phase :: phase
  au_confirmed :: bool
  au_executed :: bool
  au_error :: string

datatype tool_event =
    Asked confirmation_request "(string, bool) result"
  | Ran tool_spec tool_call "(string, tool_result) result"
  | Released tool_spec tool_call
  | Audited audit_record

record tools =
  tl_registry :: registry
  tl_ledger :: ledger
  tl_store :: store
  tl_confirmer :: bool
  tl_policy :: "(tool_call \<Rightarrow> bool) option"
  tl_audit :: bool
  tl_text :: "tools_error \<Rightarrow> string"
  tl_results :: "(string, tool_result) gomap"
  tl_inFlight :: "string goset"
  tl_trace :: "tool_event list"

datatype new_tools_error = RegistryRequired | LedgerRequired | StoreRequired | NormalizersDeclared string

definition NewTools ::
  "registry option \<Rightarrow> ledger option \<Rightarrow> store option \<Rightarrow> bool \<Rightarrow> (tool_call \<Rightarrow> bool) option \<Rightarrow> bool
    \<Rightarrow> (tools_error \<Rightarrow> string) \<Rightarrow> (new_tools_error, tools) result" where
  "NewTools registry ledger store confirmer policy audit text =
     (case registry of None \<Rightarrow> Inl RegistryRequired | Some rg \<Rightarrow>
      case ledger of None \<Rightarrow> Inl LedgerRequired | Some l \<Rightarrow>
      case store of None \<Rightarrow> Inl StoreRequired | Some st \<Rightarrow>
      case find (\<lambda>s. ts_normalizers s \<noteq> []) (Specs rg) of
        Some s \<Rightarrow> Inl (NormalizersDeclared (ts_name s))
      | None \<Rightarrow>
         Inr \<lparr>tl_registry = rg, tl_ledger = l, tl_store = st, tl_confirmer = confirmer, tl_policy = policy,
              tl_audit = audit, tl_text = text, tl_results = [], tl_inFlight = [], tl_trace = []\<rparr>)"

subsection \<open>What the regions read\<close>

definition commitmentID :: "tool_call \<Rightarrow> string" where
  "commitmentID c = ''action_'' @ tc_callID c"

text \<open>An item of the log that commits exactly this call as executable.\<close>

definition matching_call :: "tool_call \<Rightarrow> item \<Rightarrow> bool" where
  "matching_call c it \<longleftrightarrow> item_kind it = KindToolCall \<and> item_toolCall it = Some c"

fun authoritative_loop :: "tool_call \<Rightarrow> bool \<Rightarrow> item list \<Rightarrow> bool" where
  "authoritative_loop c found [] = found"
| "authoritative_loop c found (it # its) =
     (if matching_call c it then
        if item_derivation it \<noteq> None then False else authoritative_loop c True its
      else authoritative_loop c found its)"

definition authoritative :: "tools \<Rightarrow> tool_call \<Rightarrow> bool" where
  "authoritative T c = authoritative_loop c False (sn_items (Snapshot (tl_store T)))"

definition producerPhase :: "tools \<Rightarrow> string \<Rightarrow> string \<Rightarrow> phase option" where
  "producerPhase T callID name =
     map_option (\<lambda>it. pr_phase (item_producer it))
       (find (\<lambda>it. item_kind it = KindToolCall
            \<and> (case item_toolCall it of None \<Rightarrow> False | Some c \<Rightarrow> tc_callID c = callID \<and> tc_name c = name))
          (sn_items (Snapshot (tl_store T))))"

definition happened :: "tool_event \<Rightarrow> tools \<Rightarrow> tools" where
  "happened e T = T\<lparr>tl_trace := tl_trace T @ [e]\<rparr>"

definition audited :: "tools \<Rightarrow> tool_call \<Rightarrow> tool_spec \<Rightarrow> bool \<Rightarrow> bool \<Rightarrow> string \<Rightarrow> tools" where
  "audited T c s confirmed executed err =
     (if tl_audit T then
        happened (Audited \<lparr>au_callID = tc_callID c, au_name = tc_name c, au_target = ts_target s,
                           au_phase = (case producerPhase T (tc_callID c) (tc_name c) of None \<Rightarrow> PhaseNone | Some p \<Rightarrow> p),
                           au_confirmed = confirmed, au_executed = executed, au_error = err\<rparr>) T
      else T)"

subsection \<open>Threads\<close>

record answers =
  an_confirm :: "(string, bool) result"
  an_dispatch :: "(string, tool_result) result"

text \<open>
  Where a thread stands. \<open>Claimed\<close> is the entry of \<^verbatim>\<open>authorize\<close>, \<open>Authorized\<close> its successful return,
  \<open>Leaving\<close> the deferred release of the call in flight.
\<close>

datatype tools_pc =
    Started
  | Found tool_spec
  | Trusted tool_spec
  | Claimed tool_spec
  | Prepared tool_spec
  | Refused tool_spec string string tools_error
  | Withdrawing string tools_error
  | Confirmed tool_spec
  | Authorized tool_spec
  | Emitted tool_spec
  | Answered tool_spec "(tools_error, tool_result) result"
  | Closed tool_spec "(tools_error, tool_result) result"
  | Recording tool_spec bool string "(tools_error, tool_result option) result"
  | Leaving "(tools_error, tool_result option) result"
  | Returned "(tools_error, tool_result option) result"

record dispatching =
  th_remote :: bool
  th_call :: tool_call
  th_pc :: tools_pc

definition find_tool :: "tools \<Rightarrow> bool \<Rightarrow> tool_call \<Rightarrow> tools_pc" where
  "find_tool T remote c =
     (case LookupTool (tl_registry T) (tc_name c) of
        None \<Rightarrow> Returned (Inl (ErrUnknownTool (tc_name c)))
      | Some s \<Rightarrow>
         (if ts_normalizers s \<noteq> [] then Returned (Inl (ErrGraphNativeNormalizationRequired (tc_name c)))
          else if remote \<and> ts_dispatcher s \<noteq> None then Returned (Inl (HasDispatcher (tc_name c)))
          else Found s))"

text \<open>Only \<^verbatim>\<open>Dispatch\<close> looks at the results and marks the call as in flight.\<close>

definition claim_call :: "tools \<Rightarrow> bool \<Rightarrow> tool_call \<Rightarrow> tool_spec \<Rightarrow> tools \<times> tools_pc" where
  "claim_call T remote c s =
     (if remote then (T, Claimed s)
      else case map_of (tl_results T) (tc_callID c) of
        Some r \<Rightarrow> (T, Returned (Inr (Some r)))
      | None \<Rightarrow>
         (if gm_has (tl_inFlight T) (tc_callID c) then (T, Returned (Inl (AlreadyDispatching (tc_callID c))))
          else (T\<lparr>tl_inFlight := gs_add (tc_callID c) (tl_inFlight T)\<rparr>, Claimed s)))"

definition action_kind :: "tool_call \<Rightarrow> commitment_kind" where
  "action_kind c = (if take 9 (tc_name c) = ''computer.'' then KindComputerAction else KindToolAction)"

definition action_commitment :: "tool_call \<Rightarrow> tool_spec \<Rightarrow> commitment" where
  "action_commitment c s =
     \<lparr>co_id = commitmentID c, co_kind = action_kind c, co_itemIDs = [], co_callID = tc_callID c, co_revision = 0,
      co_phase = PhaseNone, co_authority = [], co_confirm = ts_confirm s, co_state = StatePrepared,
      co_playedMS = 0, co_cancelReason = []\<rparr>"

fun is_duplicate_call :: "ledger_error \<Rightarrow> bool" where
  "is_duplicate_call (ErrDuplicateCall _ _) = True"
| "is_duplicate_call _ = False"

fun is_invalid_transition :: "ledger_error \<Rightarrow> bool" where
  "is_invalid_transition (ErrInvalidTransition _ _) = True"
| "is_invalid_transition _ = False"

definition prepare_action :: "tools \<Rightarrow> tool_call \<Rightarrow> tool_spec \<Rightarrow> tools \<times> tools_pc" where
  "prepare_action T c s =
     (case Prepare (tl_ledger T) (action_commitment c s) of
        Inr l \<Rightarrow> (T\<lparr>tl_ledger := l\<rparr>, Prepared s)
      | Inl e \<Rightarrow> (T, if is_duplicate_call e then Prepared s else Leaving (Inl (LedgerRefused e))))"

text \<open>
  \<^verbatim>\<open>confirm\<close> and the two refusals of \<^verbatim>\<open>authorize\<close>. Without a confirmer \<^verbatim>\<open>NewTools\<close> installs \<^verbatim>\<open>DenyAll\<close>,
  which nobody is asked by.
\<close>

definition unasked :: "tools \<Rightarrow> tool_call \<Rightarrow> tool_spec \<Rightarrow> bool" where
  "unasked T c s \<longleftrightarrow>
     ts_confirm s = ''never''
     \<or> ts_confirm s = ''policy'' \<and> (case tl_policy T of None \<Rightarrow> False | Some p \<Rightarrow> p c)"

definition confirm :: "answers \<Rightarrow> tools \<Rightarrow> tool_call \<Rightarrow> tool_spec \<Rightarrow> tools \<times> (string, bool) result" where
  "confirm an T c s =
     (if unasked T c s then (T, Inr True)
      else if \<not> tl_confirmer T then (T, Inr False)
      else (happened (Asked \<lparr>cr_call = c, cr_confirm = ts_confirm s, cr_target = ts_target s\<rparr> (an_confirm an)) T,
            an_confirm an))"

definition notConfirmed :: string where
  "notConfirmed = ''action was not confirmed''"

definition confirm_action :: "answers \<Rightarrow> tools \<Rightarrow> tool_call \<Rightarrow> tool_spec \<Rightarrow> tools \<times> tools_pc" where
  "confirm_action an T c s =
     (fst (confirm an T c s),
      case snd (confirm an T c s) of
        Inl e \<Rightarrow> Refused s e e (ConfirmerFailed e)
      | Inr b \<Rightarrow> if b then Confirmed s
                  else Refused s notConfirmed ''not confirmed'' (ErrNotConfirmed (tc_name c)))"

definition withdraw_action :: "tools \<Rightarrow> tool_call \<Rightarrow> string \<Rightarrow> tools_error \<Rightarrow> tools \<times> tools_pc" where
  "withdraw_action T c reason e =
     (case Cancel (tl_ledger T) (commitmentID c) reason of
        Inl _ \<Rightarrow> T
      | Inr (l, _) \<Rightarrow> T\<lparr>tl_ledger := l\<rparr>, Leaving (Inl e))"

definition queue_action :: "tools \<Rightarrow> tool_call \<Rightarrow> tool_spec \<Rightarrow> tools \<times> tools_pc" where
  "queue_action T c s =
     (case Queue (tl_ledger T) (commitmentID c) of
        Inr l \<Rightarrow> (T\<lparr>tl_ledger := l\<rparr>, Authorized s)
      | Inl e \<Rightarrow> (T, if is_invalid_transition e then Authorized s else Leaving (Inl (LedgerRefused e))))"

definition emit_action :: "tools \<Rightarrow> bool \<Rightarrow> tool_call \<Rightarrow> tool_spec \<Rightarrow> tools \<times> tools_pc" where
  "emit_action T remote c s =
     (if \<not> remote \<and> ts_dispatcher s = None then (T, Leaving (Inl (NoDispatcher (tc_name c))))
      else case Emit (tl_ledger T) (commitmentID c) of
        Inl e \<Rightarrow>
          (T, if remote then Recording s False (tl_text T (LedgerRefused e)) (Inl (LedgerRefused e))
              else Leaving (Inl (LedgerRefused e)))
      | Inr l \<Rightarrow>
          (if remote then (happened (Released s c) (T\<lparr>tl_ledger := l\<rparr>), Recording s True [] (Inr None))
           else (T\<lparr>tl_ledger := l\<rparr>, Emitted s)))"

text \<open>What becomes of the dispatcher's answer: an error is a result, a foreign identity an error.\<close>

definition outcome_of :: "tool_call \<Rightarrow> (string, tool_result) result \<Rightarrow> (tools_error, tool_result) result" where
  "outcome_of c answer =
     (let r = (case answer of
                 Inl e \<Rightarrow> \<lparr>tr_callID = tc_callID c, tr_name = tc_name c, tr_output = [], tr_error = e\<rparr>
               | Inr r \<Rightarrow> r)
      in if tr_callID r \<noteq> tc_callID c \<or> tr_name r \<noteq> tc_name c then Inl (MismatchedIdentity (tc_name c)) else Inr r)"

definition run_dispatcher :: "answers \<Rightarrow> tools \<Rightarrow> tool_call \<Rightarrow> tool_spec \<Rightarrow> tools \<times> tools_pc" where
  "run_dispatcher an T c s = (happened (Ran s c (an_dispatch an)) T, Answered s (outcome_of c (an_dispatch an)))"

text \<open>\<^verbatim>\<open>Complete\<close>, also the ledger step after a dispatcher has answered; its error is dropped.\<close>

definition CompleteCall :: "tools \<Rightarrow> string \<Rightarrow> tools" where
  "CompleteCall T callID =
     (case Complete (tl_ledger T) (''action_'' @ callID) 0 of Inl _ \<Rightarrow> T | Inr l \<Rightarrow> T\<lparr>tl_ledger := l\<rparr>)"

definition store_result :: "tools \<Rightarrow> tool_call \<Rightarrow> tool_spec \<Rightarrow> (tools_error, tool_result) result \<Rightarrow> tools \<times> tools_pc" where
  "store_result T c s r =
     (case r of
        Inl e \<Rightarrow> (T, Recording s True (tl_text T e) (Inl e))
      | Inr x \<Rightarrow> (T\<lparr>tl_results := AList.update (tc_callID c) x (tl_results T)\<rparr>,
                   Recording s True (tr_error x) (Inr (Some x))))"

definition leave :: "tools \<Rightarrow> bool \<Rightarrow> tool_call \<Rightarrow> tools" where
  "leave T remote c = (if remote then T else T\<lparr>tl_inFlight := AList.delete (tc_callID c) (tl_inFlight T)\<rparr>)"

fun advance_pc :: "answers \<Rightarrow> bool \<Rightarrow> tool_call \<Rightarrow> tools \<Rightarrow> tools_pc \<Rightarrow> tools \<times> tools_pc" where
  "advance_pc an remote c T Started = (T, find_tool T remote c)"
| "advance_pc an remote c T (Found s) =
     (T, if authoritative T c then Trusted s else Returned (Inl (ErrNoAuthority (tc_callID c))))"
| "advance_pc an remote c T (Trusted s) = claim_call T remote c s"
| "advance_pc an remote c T (Claimed s) = prepare_action T c s"
| "advance_pc an remote c T (Prepared s) = confirm_action an T c s"
| "advance_pc an remote c T (Refused s err reason e) = (audited T c s False False err, Withdrawing reason e)"
| "advance_pc an remote c T (Withdrawing reason e) = withdraw_action T c reason e"
| "advance_pc an remote c T (Confirmed s) = queue_action T c s"
| "advance_pc an remote c T (Authorized s) = emit_action T remote c s"
| "advance_pc an remote c T (Emitted s) = run_dispatcher an T c s"
| "advance_pc an remote c T (Answered s r) = (CompleteCall T (tc_callID c), Closed s r)"
| "advance_pc an remote c T (Closed s r) = store_result T c s r"
| "advance_pc an remote c T (Recording s executed err res) = (audited T c s True executed err, Leaving res)"
| "advance_pc an remote c T (Leaving res) = (leave T remote c, Returned res)"
| "advance_pc an remote c T (Returned res) = (T, Returned res)"

definition advance_thread :: "answers \<Rightarrow> tools \<Rightarrow> dispatching \<Rightarrow> tools \<times> dispatching" where
  "advance_thread an T th =
     (let (T', pc) = advance_pc an (th_remote th) (th_call th) T (th_pc th) in (T', th\<lparr>th_pc := pc\<rparr>))"

subsection \<open>A call run to its end\<close>

fun rank :: "tools_pc \<Rightarrow> nat" where
  "rank Started = 12"
| "rank (Found _) = 11"
| "rank (Trusted _) = 10"
| "rank (Claimed _) = 9"
| "rank (Prepared _) = 8"
| "rank (Refused _ _ _ _) = 7"
| "rank (Withdrawing _ _) = 6"
| "rank (Confirmed _) = 7"
| "rank (Authorized _) = 6"
| "rank (Emitted _) = 5"
| "rank (Answered _ _) = 4"
| "rank (Closed _ _) = 3"
| "rank (Recording _ _ _ _) = 2"
| "rank (Leaving _) = 1"
| "rank (Returned _) = 0"

lemmas region_defs =
  find_tool_def claim_call_def prepare_action_def confirm_action_def withdraw_action_def queue_action_def
  emit_action_def run_dispatcher_def store_result_def leave_def

lemma rank_advance: "0 < rank pc \<Longrightarrow> rank (snd (advance_pc an remote c T pc)) < rank pc"
  by (cases pc) (auto simp: region_defs split: option.split sum.split prod.split)

fun returned :: "tools_pc \<Rightarrow> (tools_error, tool_result option) result option" where
  "returned (Returned res) = Some res"
| "returned _ = None"

lemma returned_rank: "returned pc = None \<longleftrightarrow> 0 < rank pc"
  by (cases pc) auto

function run_pc :: "answers \<Rightarrow> bool \<Rightarrow> tool_call \<Rightarrow> tools \<Rightarrow> tools_pc \<Rightarrow> tools \<times> (tools_error, tool_result option) result" where
  "run_pc an remote c T pc =
     (case returned pc of
        Some res \<Rightarrow> (T, res)
      | None \<Rightarrow> run_pc an remote c (fst (advance_pc an remote c T pc)) (snd (advance_pc an remote c T pc)))"
  by pat_completeness auto
termination
  by (relation "measure (\<lambda>p. rank (snd (snd (snd (snd p)))))") (simp_all add: returned_rank rank_advance)

declare run_pc.simps [simp del]

definition Dispatch :: "answers \<Rightarrow> tools \<Rightarrow> tool_call \<Rightarrow> tools \<times> (tools_error, tool_result option) result" where
  "Dispatch an T c = run_pc an False c T Started"

definition EmitRemote :: "answers \<Rightarrow> tools \<Rightarrow> tool_call \<Rightarrow> tools \<times> tools_error option" where
  "EmitRemote an T c =
     (let (T', r) = run_pc an True c T Started in (T', case r of Inl e \<Rightarrow> Some e | Inr _ \<Rightarrow> None))"

text \<open>One entry of the results of \<^verbatim>\<open>DispatchAll\<close>. \<^verbatim>\<open>Dispatch\<close> never succeeds without a result.\<close>

definition batch_entry :: "tools \<Rightarrow> tool_call \<Rightarrow> (tools_error, tool_result option) result \<Rightarrow> tool_result" where
  "batch_entry T c r =
     (case r of
        Inr (Some x) \<Rightarrow> x
      | Inr None \<Rightarrow> \<lparr>tr_callID = [], tr_name = [], tr_output = [], tr_error = []\<rparr>
      | Inl e \<Rightarrow> \<lparr>tr_callID = tc_callID c, tr_name = tc_name c, tr_output = [], tr_error = tl_text T e\<rparr>)"

fun DispatchAll :: "tools \<Rightarrow> (answers \<times> tool_call) list \<Rightarrow> tools \<times> tool_result list" where
  "DispatchAll T [] = (T, [])"
| "DispatchAll T ((an, c) # cs) =
     (let T' = fst (Dispatch an T c); r = snd (Dispatch an T c) in
      (fst (DispatchAll T' cs), batch_entry T c r # snd (DispatchAll T' cs)))"

end
