(* ===== verification/Tools_Properties.thy ===== *)
theory Tools_Properties
  imports Tools
begin

section \<open>What reaches the world through the dispatch boundary\<close>

text \<open>
  Threads of \<^const>\<open>advance_thread\<close> interleaved with each other and with everything else that uses the
  registry, the ledger and the log. The locale \<open>dispatch_guarantee\<close> is the rule for such runs: what a
  thread has established holds on whatever the others do, because the shared components only grow.
  Its two instances give the evidence behind every execution and the origin of every stored result.
\<close>

subsection \<open>Interleaved runs\<close>

text \<open>
  The other components may take any step of the ledger except one: \<^verbatim>\<open>Prepare\<close> under an
  identifier that begins with \<^verbatim>\<open>action_\<close>, which this code keeps for itself.
\<close>

inductive tools_step :: "tools \<times> dispatching list \<Rightarrow> tools \<times> dispatching list \<Rightarrow> bool" where
  call: "tools_step (T, ths) (T, ths @ [\<lparr>th_remote = remote, th_call = c, th_pc = Started\<rparr>])"
| region: "i < length ths \<Longrightarrow> advance_thread an T (ths ! i) = (T', th) \<Longrightarrow> tools_step (T, ths) (T', ths[i := th])"
| client_result: "tools_step (T, ths) (CompleteCall T callID, ths)"
| other_ledger: "ledger_step (tl_ledger T) l
    \<Longrightarrow> (\<And>i. Lookup (tl_ledger T) (''action_'' @ i) = None \<Longrightarrow> Lookup l (''action_'' @ i) = None)
    \<Longrightarrow> tools_step (T, ths) (T\<lparr>tl_ledger := l\<rparr>, ths)"
| log_grows: "extends (tl_store T) st \<Longrightarrow> tools_step (T, ths) (T\<lparr>tl_store := st\<rparr>, ths)"
| redeclare: "registry_step (tl_registry T) rg \<Longrightarrow> tools_step (T, ths) (T\<lparr>tl_registry := rg\<rparr>, ths)"

abbreviation tools_run :: "tools \<times> dispatching list \<Rightarrow> tools \<times> dispatching list \<Rightarrow> bool" where
  "tools_run \<equiv> tools_step\<^sup>*\<^sup>*"

definition moves_on :: "tools \<Rightarrow> tools \<Rightarrow> bool" where
  "moves_on T T' \<longleftrightarrow>
     extends (tl_store T) (tl_store T') \<and> ledger_run (tl_ledger T) (tl_ledger T')
     \<and> (\<exists>es. tl_trace T' = tl_trace T @ es)
     \<and> tl_policy T' = tl_policy T \<and> tl_confirmer T' = tl_confirmer T \<and> tl_text T' = tl_text T"

lemma moves_on_refl [simp]: "moves_on T T"
  by (simp add: moves_on_def extends_refl)

lemma moves_on_trans: "moves_on T U \<Longrightarrow> moves_on U V \<Longrightarrow> moves_on T V"
  by (auto simp: moves_on_def intro: extends_trans)

lemma moves_on_ledger: "ledger_run (tl_ledger T) l \<Longrightarrow> moves_on T (T\<lparr>tl_ledger := l\<rparr>)"
  by (simp add: moves_on_def extends_refl)

lemma moves_on_happened: "moves_on T (happened e T)"
  by (simp add: moves_on_def happened_def extends_refl)

lemma moves_on_bookkeeping [simp]:
  "moves_on T (T\<lparr>tl_results := r\<rparr>)" "moves_on T (T\<lparr>tl_inFlight := f\<rparr>)" "moves_on T (T\<lparr>tl_registry := rg\<rparr>)"
  by (simp_all add: moves_on_def extends_refl)

lemma audited_cases: "audited T c s b x e = T \<or> (\<exists>au. audited T c s b x e = happened (Audited au) T)"
  by (auto simp: audited_def)

lemma CompleteCall_ledger: "\<exists>l. CompleteCall T i = T\<lparr>tl_ledger := l\<rparr> \<and> ledger_run (tl_ledger T) l"
proof (cases "Complete (tl_ledger T) (''action_'' @ i) 0")
  case (Inr l)
  then show ?thesis by (auto simp: CompleteCall_def intro: ledger_step.complete)
next
  case (Inl e)
  then show ?thesis by (auto simp: CompleteCall_def intro!: exI [of _ "tl_ledger T"])
qed

lemma moves_on_CompleteCall: "moves_on T (CompleteCall T i)"
  using CompleteCall_ledger [of T i] moves_on_ledger by metis

lemma moves_on_audited: "moves_on T (audited T c s b x e)"
  using audited_cases [of T c s b x e] moves_on_happened [of T] by auto

lemma moves_on_region: "moves_on T (fst (advance_pc an remote c T pc))"
proof (cases pc)
  case (Claimed s)
  then show ?thesis
    by (auto simp: prepare_action_def intro!: moves_on_ledger intro: ledger_step.prepare split: sum.split)
next
  case (Prepared s)
  then show ?thesis by (auto simp: confirm_action_def confirm_def moves_on_happened)
next
  case (Withdrawing r e)
  then show ?thesis
    by (auto simp: withdraw_action_def intro!: moves_on_ledger intro: ledger_step.cancel split: sum.split prod.split)
next
  case (Confirmed s)
  then show ?thesis
    by (auto simp: queue_action_def intro!: moves_on_ledger intro: ledger_step.queue split: sum.split)
next
  case (Authorized s)
  have "moves_on T (happened e (T\<lparr>tl_ledger := l\<rparr>))" if "Emit (tl_ledger T) (commitmentID c) = Inr l" for e l
    using that by (intro moves_on_trans [OF moves_on_ledger moves_on_happened]) (auto intro: ledger_step.emit)
  with Authorized show ?thesis
    by (auto simp: emit_action_def intro!: moves_on_ledger intro: ledger_step.emit split: sum.split)
qed (auto simp: claim_call_def run_dispatcher_def store_result_def leave_def moves_on_happened moves_on_audited
    moves_on_CompleteCall split: option.split sum.split)

subsection \<open>The rule for runs\<close>

definition sound :: "tools \<Rightarrow> bool" where
  "sound T \<longleftrightarrow> reachable (tl_store T) \<and> registry_ok (tl_registry T)"

lemma moves_on_sound: "moves_on T T' \<Longrightarrow> tl_registry T' = tl_registry T \<Longrightarrow> sound T \<Longrightarrow> sound T'"
  by (auto simp: moves_on_def sound_def intro: extends_reachable)

lemma region_registry: "tl_registry (fst (advance_pc an remote c T pc)) = tl_registry T"
  by (cases pc) (auto simp: region_defs confirm_def happened_def audited_def CompleteCall_def
      split: option.split sum.split prod.split)

text \<open>A step that is no region leaves the trace, the results and the calls in flight alone.\<close>

definition elsewhere :: "tools \<Rightarrow> tools \<Rightarrow> bool" where
  "elsewhere T T' \<longleftrightarrow>
     moves_on T T' \<and> tl_trace T' = tl_trace T \<and> tl_results T' = tl_results T \<and> tl_inFlight T' = tl_inFlight T"

lemma tools_step_cases [consumes 2, case_names call region elsewhere]:
  assumes "tools_step (T, ths) (T', ths')" "sound T"
  obtains remote c where "T' = T" "ths' = ths @ [\<lparr>th_remote = remote, th_call = c, th_pc = Started\<rparr>]"
  | i an pc' where "i < length ths"
      "advance_pc an (th_remote (ths ! i)) (th_call (ths ! i)) T (th_pc (ths ! i)) = (T', pc')"
      "ths' = ths[i := (ths ! i)\<lparr>th_pc := pc'\<rparr>]" "moves_on T T'" "sound T'"
  | "elsewhere T T'" "sound T'" "ths' = ths"
      "\<And>i. Lookup (tl_ledger T) (''action_'' @ i) = None \<Longrightarrow> Lookup (tl_ledger T') (''action_'' @ i) = None"
  using assms(1)
proof cases
  case (region i an th)
  obtain pc' where pc: "advance_pc an (th_remote (ths ! i)) (th_call (ths ! i)) T (th_pc (ths ! i)) = (T', pc')"
    "th = (ths ! i)\<lparr>th_pc := pc'\<rparr>"
    using region by (auto simp: advance_thread_def split: prod.splits)
  have "moves_on T T'" "tl_registry T' = tl_registry T"
    using moves_on_region [of T] region_registry pc(1) by (metis fst_conv)+
  with region pc assms(2) show thesis by (intro that(2)) (auto intro: moves_on_sound)
next
  case (client_result i)
  obtain l where l: "T' = T\<lparr>tl_ledger := l\<rparr>" "ledger_run (tl_ledger T) l"
    using CompleteCall_ledger [of T i] client_result by auto
  have "Lookup (tl_ledger T) j = None \<Longrightarrow> Lookup (tl_ledger T') j = None" for j
    using client_result
    by (auto simp: CompleteCall_def Complete_def set_commitment_def Lookup_def split: option.splits if_splits)
  with l client_result assms(2) show thesis
    by (intro that(3)) (auto simp: elsewhere_def sound_def intro: moves_on_ledger)
next
  case (other_ledger l)
  with assms(2) show thesis by (intro that(3)) (auto simp: elsewhere_def sound_def intro: moves_on_ledger)
next
  case (log_grows st)
  with assms(2) show thesis
    by (intro that(3)) (auto simp: elsewhere_def moves_on_def sound_def intro: extends_reachable)
next
  case (redeclare rg)
  with assms(2) show thesis
    by (intro that(3)) (auto simp: elsewhere_def sound_def intro: registry.step_keeps)
qed (use that(1) in blast)

locale dispatch_guarantee =
  fixes ok :: "tools \<Rightarrow> bool \<Rightarrow> tool_call \<Rightarrow> tools_pc \<Rightarrow> bool" and kept :: "tools \<Rightarrow> bool"
  assumes at_start: "ok T remote c Started"
    and ok_grows: "moves_on T T' \<Longrightarrow> ok T remote c pc \<Longrightarrow> ok T' remote c pc"
    and kept_elsewhere: "elsewhere T T' \<Longrightarrow> kept T \<Longrightarrow> kept T'"
    and by_region: "sound T \<Longrightarrow> kept T \<Longrightarrow> ok T remote c pc \<Longrightarrow> advance_pc an remote c T pc = (T', pc')
      \<Longrightarrow> ok T' remote c pc' \<and> kept T'"
begin

abbreviation all_ok :: "tools \<times> dispatching list \<Rightarrow> bool" where
  "all_ok s \<equiv> sound (fst s) \<and> kept (fst s)
     \<and> (\<forall>th\<in>set (snd s). ok (fst s) (th_remote th) (th_call th) (th_pc th))"

lemma step_ok:
  assumes "tools_step (T, ths) (T', ths')" "all_ok (T, ths)"
  shows "all_ok (T', ths')"
proof -
  from assms(2) have "sound T" by simp
  from assms(1) this show ?thesis
  proof (cases rule: tools_step_cases)
    case (call remote c)
    with assms(2) show ?thesis by (auto intro: at_start)
  next
    case (region i an pc')
    have "ths ! i \<in> set ths" using region by simp
    with assms(2) region have "ok T' (th_remote (ths ! i)) (th_call (ths ! i)) pc' \<and> kept T'"
      by (intro by_region) auto
    with assms(2) region show ?thesis
      by (auto dest!: set_update_subset_insert [THEN subsetD] intro: ok_grows)
  next
    case elsewhere
    with assms(2) show ?thesis by (auto simp: elsewhere_def intro: ok_grows kept_elsewhere [unfolded elsewhere_def])
  qed
qed

lemma run_ok: "tools_run s s' \<Longrightarrow> all_ok s \<Longrightarrow> all_ok s'"
proof (induction rule: rtranclp_induct)
  case (step t u)
  then show ?case using step_ok [of "fst t" "snd t" "fst u" "snd u"] by simp
qed

end

subsection \<open>The evidence behind an execution\<close>

text \<open>The log commits exactly this call, as executable and without derivation.\<close>

definition call_committed :: "tools \<Rightarrow> tool_call \<Rightarrow> bool" where
  "call_committed T c \<longleftrightarrow> (\<exists>it\<in>set (st_items (tl_store T)). matching_call c it \<and> item_derivation it = None)"

text \<open>The declared requirement is met without asking, or the confirmer was asked about this very call and agreed.\<close>

definition approved :: "tools \<Rightarrow> tool_event list \<Rightarrow> tool_call \<Rightarrow> tool_spec \<Rightarrow> bool" where
  "approved T es c s \<longleftrightarrow>
     unasked T c s \<or> Asked \<lparr>cr_call = c, cr_confirm = ts_confirm s, cr_target = ts_target s\<rparr> (Inr True) \<in> set es"

definition crossed_over :: "tools \<Rightarrow> tool_call \<Rightarrow> bool" where
  "crossed_over T c \<longleftrightarrow>
     (\<exists>d. Lookup (tl_ledger T) (commitmentID c) = Some d \<and> StateCrossed (co_state d))"

definition tool_for :: "bool \<Rightarrow> tool_call \<Rightarrow> tool_spec \<Rightarrow> bool" where
  "tool_for remote c s \<longleftrightarrow>
     ts_name s = tc_name c \<and> canonical_spec s \<and> ts_normalizers s = [] \<and> (remote \<longrightarrow> ts_dispatcher s = None)"

fun standing :: "tools \<Rightarrow> bool \<Rightarrow> tool_call \<Rightarrow> tools_pc \<Rightarrow> bool" where
  "standing T remote c (Found s) = tool_for remote c s"
| "standing T remote c (Trusted s) = (tool_for remote c s \<and> call_committed T c)"
| "standing T remote c (Claimed s) = (tool_for remote c s \<and> call_committed T c)"
| "standing T remote c (Prepared s) = (tool_for remote c s \<and> call_committed T c)"
| "standing T remote c (Confirmed s) = (tool_for remote c s \<and> call_committed T c \<and> approved T (tl_trace T) c s)"
| "standing T remote c (Authorized s) = (tool_for remote c s \<and> call_committed T c \<and> approved T (tl_trace T) c s)"
| "standing T remote c (Emitted s) =
     (tool_for remote c s \<and> call_committed T c \<and> approved T (tl_trace T) c s \<and> crossed_over T c \<and> ts_dispatcher s \<noteq> None)"
| "standing T remote c _ = True"

fun justified :: "tools \<Rightarrow> tool_event list \<Rightarrow> tool_event \<Rightarrow> bool" where
  "justified T es (Ran s c _) =
     (tool_for False c s \<and> ts_dispatcher s \<noteq> None \<and> call_committed T c \<and> approved T es c s \<and> crossed_over T c)"
| "justified T es (Released s c) = (tool_for True c s \<and> call_committed T c \<and> approved T es c s \<and> crossed_over T c)"
| "justified T es _ = True"

definition trace_justified :: "tools \<Rightarrow> bool" where
  "trace_justified T \<longleftrightarrow> (\<forall>n<length (tl_trace T). justified T (take n (tl_trace T)) (tl_trace T ! n))"

lemma committed_grows: "moves_on T T' \<Longrightarrow> call_committed T c \<Longrightarrow> call_committed T' c"
  by (fastforce simp: moves_on_def call_committed_def dest: extends_items)

lemma crossed_grows:
  assumes "moves_on T T'" "crossed_over T c"
  shows "crossed_over T' c"
proof -
  from assms(2) obtain d where d: "Lookup (tl_ledger T) (commitmentID c) = Some d" "StateCrossed (co_state d)"
    by (auto simp: crossed_over_def)
  then have "\<exists>d'. Lookup (tl_ledger T) (commitmentID c) = Some d' \<and> evolves d d'" by (simp add: evolves_refl)
  with assms(1) have "\<exists>d'. Lookup (tl_ledger T') (commitmentID c) = Some d' \<and> evolves d d'"
    by (auto simp: moves_on_def intro: committed.run_keeps)
  with d(2) show ?thesis by (auto simp: crossed_over_def evolves_def)
qed

lemma approved_grows: "moves_on T T' \<Longrightarrow> approved T es c s \<Longrightarrow> set es \<subseteq> set es' \<Longrightarrow> approved T' es' c s"
  by (auto simp: moves_on_def approved_def unasked_def)

lemma approved_trace: "moves_on T T' \<Longrightarrow> approved T (tl_trace T) c s \<Longrightarrow> approved T' (tl_trace T') c s"
  by (rule approved_grows) (auto simp: moves_on_def)

lemmas evidence_grows = committed_grows crossed_grows approved_trace

lemma standing_grows: "moves_on T T' \<Longrightarrow> standing T remote c pc \<Longrightarrow> standing T' remote c pc"
  by (cases pc) (auto intro: evidence_grows)

lemma justified_grows: "moves_on T T' \<Longrightarrow> justified T es e \<Longrightarrow> justified T' es e"
  by (cases e) (auto intro: committed_grows crossed_grows approved_grows [OF _ _ order_refl])

lemma trace_justified_same:
  "moves_on T T' \<Longrightarrow> tl_trace T' = tl_trace T \<Longrightarrow> trace_justified T \<Longrightarrow> trace_justified T'"
  by (auto simp: trace_justified_def intro: justified_grows)

lemma trace_justified_snoc:
  assumes "moves_on T T'" "tl_trace T' = tl_trace T @ [e]" "trace_justified T" "justified T' (tl_trace T) e"
  shows "trace_justified T'"
  using assms justified_grows [OF assms(1)]
  by (auto simp: trace_justified_def nth_append less_Suc_eq)

lemma authoritative_committed: "authoritative T c \<Longrightarrow> call_committed T c"
proof -
  have "authoritative_loop c b its \<Longrightarrow> b \<or> (\<exists>it\<in>set its. matching_call c it \<and> item_derivation it = None)" for b its
    by (induction c b its rule: authoritative_loop.induct) (auto split: if_splits)
  then show "authoritative T c \<Longrightarrow> call_committed T c"
    by (auto simp: authoritative_def call_committed_def Snapshot_def)
qed

lemma happened_sel [simp]:
  "tl_trace (happened e T) = tl_trace T @ [e]" "tl_ledger (happened e T) = tl_ledger T"
  "tl_store (happened e T) = tl_store T" "tl_results (happened e T) = tl_results T"
  "tl_policy (happened e T) = tl_policy T"
  by (simp_all add: happened_def)

lemma find_tool_standing: "sound T \<Longrightarrow> standing T remote c (find_tool T remote c)"
  by (auto simp: find_tool_def sound_def registry_ok_def LookupTool_def tool_for_def split: option.split)

lemma emit_crossed: "Emit l i = Inr l' \<Longrightarrow> \<exists>d. Lookup l' i = Some d \<and> StateCrossed (co_state d)"
  by (auto simp: Emit_def transition_def set_commitment_def Lookup_def StateCrossed_def
      split: option.splits if_splits)

lemma region_standing:
  assumes "sound T" "standing T remote c pc"
  shows "standing (fst (advance_pc an remote c T pc)) remote c (snd (advance_pc an remote c T pc))"
    (is "standing ?T remote c ?pc")
proof -
  have g: "moves_on T ?T" by (rule moves_on_region)
  show ?thesis
  proof (cases pc)
    case Started
    with assms(1) show ?thesis by (simp add: find_tool_standing)
  next
    case (Found s)
    with assms show ?thesis by (auto intro: authoritative_committed)
  next
    case (Trusted s)
    with assms(2) g show ?thesis by (auto simp: claim_call_def call_committed_def split: option.split)
  next
    case (Claimed s)
    with assms(2) g show ?thesis
      by (auto simp: prepare_action_def intro: evidence_grows split: sum.split sum.split_asm)
  next
    case (Prepared s)
    with assms(2) g show ?thesis
      by (auto simp: confirm_action_def confirm_def approved_def unasked_def call_committed_def split: sum.split)
  next
    case (Confirmed s)
    with assms(2) g show ?thesis
      by (auto simp: queue_action_def approved_def unasked_def call_committed_def split: sum.split)
  next
    case (Authorized s)
    with assms(2) g show ?thesis
      by (auto simp: emit_action_def crossed_over_def approved_def unasked_def call_committed_def dest: emit_crossed
          split: sum.split)
  qed (auto simp: withdraw_action_def run_dispatcher_def store_result_def split: sum.split prod.split)
qed

lemma audited_trace:
  "tl_trace (audited T c s b x e) = tl_trace T
   \<or> (\<exists>au. tl_trace (audited T c s b x e) = tl_trace T @ [Audited au])"
  using audited_cases [of T c s b x e] by auto

lemma region_trace:
  assumes "standing T remote c pc"
  shows "tl_trace (fst (advance_pc an remote c T pc)) = tl_trace T
    \<or> (\<exists>e. tl_trace (fst (advance_pc an remote c T pc)) = tl_trace T @ [e]
          \<and> justified (fst (advance_pc an remote c T pc)) (tl_trace T) e)"
proof (cases pc)
  case (Refused s err r e)
  then show ?thesis using audited_trace [of T c s False False err] by auto
next
  case (Recording s x err res)
  then show ?thesis using audited_trace [of T c s True x err] by auto
next
  case (Prepared s)
  then show ?thesis by (auto simp: confirm_action_def confirm_def)
next
  case (Authorized s)
  with assms show ?thesis
    by (auto simp: emit_action_def crossed_over_def call_committed_def approved_def unasked_def
        dest: emit_crossed split: sum.split)
next
  case (Emitted s)
  with assms show ?thesis
    by (auto simp: run_dispatcher_def tool_for_def crossed_over_def call_committed_def approved_def unasked_def)
qed (auto simp: region_defs CompleteCall_def split: option.split sum.split prod.split)

interpretation evidence: dispatch_guarantee standing trace_justified
proof unfold_locales
  fix T T' remote c pc an pc'
  assume a: "sound T" "trace_justified T" "standing T remote c pc" "advance_pc an remote c T pc = (T', pc')"
  have "standing T' remote c pc'" using region_standing [OF a(1,3), of an] a(4) by simp
  moreover have "trace_justified T'"
    using region_trace [OF a(3), of an] a(2,4) moves_on_region [of T an remote c pc]
    by (auto intro: trace_justified_same trace_justified_snoc)
  ultimately show "standing T' remote c pc' \<and> trace_justified T'" ..
qed (auto intro: standing_grows trace_justified_same simp: elsewhere_def)

definition tools_start :: "tools \<Rightarrow> bool" where
  "tools_start T \<longleftrightarrow>
     (\<exists>rg l st confirmer policy audit text.
        NewTools (Some rg) (Some l) (Some st) confirmer policy audit text = Inr T
        \<and> registry_step\<^sup>*\<^sup>* NewRegistry rg \<and> reachable st)"

lemma tools_start_fields:
  assumes "tools_start T"
  shows "sound T" "tl_trace T = []" "tl_results T = []" "tl_inFlight T = []"
  using assms registry.run_keeps [OF _ NewRegistry_ok]
  by (auto simp: tools_start_def NewTools_def sound_def split: option.splits)

subsection \<open>Where the declaration comes from\<close>









subsection \<open>At most one execution per call\<close>

fun executes :: "string \<Rightarrow> tool_event \<Rightarrow> bool" where
  "executes i (Ran _ c _) \<longleftrightarrow> tc_callID c = i"
| "executes i (Released _ c) \<longleftrightarrow> tc_callID c = i"
| "executes i _ \<longleftrightarrow> False"

text \<open>A thread between its \<^verbatim>\<open>Prepare\<close> and the execution.\<close>

fun underway :: "tools_pc \<Rightarrow> bool" where
  "underway (Prepared _) = True"
| "underway (Confirmed _) = True"
| "underway (Authorized _) = True"
| "underway (Emitted _) = True"
| "underway _ = False"

definition pursues :: "string \<Rightarrow> dispatching \<Rightarrow> bool" where
  "pursues i th \<longleftrightarrow> tc_callID (th_call th) = i \<and> underway (th_pc th)"

text \<open>
  Before the action is in the ledger nothing was executed, and a thread underway can only have been
  let through because the call is committed under another identifier. Afterwards executions and
  threads underway together are at most one.
\<close>

definition at_most_once :: "string \<Rightarrow> tools \<Rightarrow> dispatching list \<Rightarrow> bool" where
  "at_most_once i T ths \<longleftrightarrow>
     (if Lookup (tl_ledger T) (''action_'' @ i) = None
      then filter (executes i) (tl_trace T) = []
        \<and> (filter (pursues i) ths \<noteq> [] \<longrightarrow> gm_has (lg_callIDs (tl_ledger T)) i)
      else length (filter (executes i) (tl_trace T)) + length (filter (pursues i) ths) \<le> 1)"

lemma filter_update_count:
  "n < length xs \<Longrightarrow>
     length (filter P (xs[n := x])) + (if P (xs ! n) then 1 else 0) = length (filter P xs) + (if P x then 1 else 0)"
proof (induction xs arbitrary: n)
  case (Cons y ys)
  then show ?case by (cases n) auto
qed simp

lemma step_callIDs: "ledger_step l l' \<Longrightarrow> gm_has (lg_callIDs l) i \<Longrightarrow> gm_has (lg_callIDs l') i"
  using step_changed [of l l'] by (auto simp: changed_def elim!: Prepare_effect split: if_splits)

interpretation call_ids: stable ledger_step "\<lambda>l. gm_has (lg_callIDs l) i" for i
  by unfold_locales (rule step_callIDs)

lemma lookup_run: "ledger_run l l' \<Longrightarrow> Lookup l i \<noteq> None \<Longrightarrow> Lookup l' i \<noteq> None"
  using committed.run_keeps [of l l' i] evolves_refl by fastforce

lemma committed_callID:
  assumes "reachable (tl_store T)" "call_committed T c"
  shows "tc_callID c \<noteq> []"
proof -
  from assms(2) obtain n where n: "n < length (st_items (tl_store T))" "matching_call c (st_items (tl_store T) ! n)"
    by (auto simp: call_committed_def in_set_conv_nth)
  from item_admitted [OF assms(1) n(1)] obtain t t' where
    "appended t (st_items (tl_store T) ! n) (st_items (tl_store T) ! n) t'" by blast
  from appended_kind [OF this] n(2) have "validateToolCall c = None"
    by (cases rule: validateKind_cases) (auto simp: matching_call_def validatePlainKind_def acceptToolCall_def split: option.splits)
  then show ?thesis by (auto simp: validateToolCall_def split: if_splits)
qed

text \<open>A region that leaves the count alone.\<close>

definition uncounted :: "tools \<Rightarrow> tools_pc \<Rightarrow> tools \<Rightarrow> tools_pc \<Rightarrow> bool" where
  "uncounted T pc T' pc' \<longleftrightarrow>
     (\<forall>i. filter (executes i) (tl_trace T') = filter (executes i) (tl_trace T))
     \<and> (underway pc' \<longrightarrow> underway pc)
     \<and> (\<forall>i. Lookup (tl_ledger T) i = None \<longrightarrow> Lookup (tl_ledger T') i = None)"

lemmas ledger_defs = Cancel_def Queue_def Emit_def transition_def Complete_def set_commitment_def Lookup_def

lemma region_uncounted:
  assumes "advance_pc an remote c T pc = (T', pc')" "\<forall>s. pc \<noteq> Claimed s \<and> pc \<noteq> Authorized s \<and> pc \<noteq> Emitted s"
  shows "uncounted T pc T' pc'"
proof (cases pc)
  case (Withdrawing r e)
  with assms show ?thesis
    by (auto simp: uncounted_def withdraw_action_def ledger_defs split: sum.splits option.splits if_splits)
next
  case (Confirmed s)
  with assms show ?thesis
    by (auto simp: uncounted_def queue_action_def ledger_defs split: sum.splits option.splits if_splits)
next
  case (Answered s r)
  with assms show ?thesis
    by (auto simp: uncounted_def CompleteCall_def ledger_defs split: sum.splits option.splits if_splits)
qed (use assms in \<open>auto simp: uncounted_def find_tool_def claim_call_def confirm_action_def confirm_def store_result_def
    leave_def audited_def split: option.splits sum.splits if_splits\<close>)

text \<open>The call's first \<^verbatim>\<open>Prepare\<close>, and a \<^verbatim>\<open>Prepare\<close> whose refusal is tolerated.\<close>

definition first_prepare :: "tools \<Rightarrow> tool_call \<Rightarrow> tools \<Rightarrow> bool" where
  "first_prepare T c T' \<longleftrightarrow>
     tl_trace T' = tl_trace T \<and> \<not> gm_has (lg_callIDs (tl_ledger T)) (tc_callID c)
     \<and> Lookup (tl_ledger T) (commitmentID c) = None
     \<and> (\<exists>d. Lookup (tl_ledger T') = (Lookup (tl_ledger T))(commitmentID c \<mapsto> d))"

lemma prepare_counts:
  assumes "sound T" "standing T remote c (Claimed s)" "advance_pc an remote c T (Claimed s) = (T', pc')"
  shows "first_prepare T c T' \<or> uncounted T (Claimed s) T' pc'
    \<or> T' = T \<and> Lookup (tl_ledger T) (commitmentID c) = None \<and> gm_has (lg_callIDs (tl_ledger T)) (tc_callID c)"
proof (cases "Prepare (tl_ledger T) (action_commitment c s)")
  case (Inr l)
  with assms(3) have T': "T' = T\<lparr>tl_ledger := l\<rparr>" by (simp add: prepare_action_def)
  have "tc_callID c \<noteq> []" using committed_callID [of T c] assms(1,2) by (simp add: sound_def)
  with Prepare_effect [OF Inr] obtain d where
    "\<not> gm_has (lg_commitments (tl_ledger T)) (commitmentID c)"
    "lg_commitments l = AList.update (commitmentID c) d (lg_commitments (tl_ledger T))"
    "\<not> gm_has (lg_callIDs (tl_ledger T)) (tc_callID c)"
    by (auto simp: action_commitment_def)
  with T' show ?thesis by (auto simp: first_prepare_def Lookup_def fun_eq_iff)
next
  case (Inl e)
  show ?thesis
  proof (cases "is_duplicate_call e")
    case True
    with Inl assms(3) show ?thesis
      by (auto simp: prepare_action_def Prepare_def action_commitment_def Lookup_def Let_def
          split: if_splits option.splits commitment_kind.splits)
  next
    case False
    with Inl assms(3) show ?thesis by (auto simp: prepare_action_def uncounted_def)
  qed
qed

text \<open>The execution itself.\<close>

definition execution :: "tools \<Rightarrow> tool_call \<Rightarrow> tools_pc \<Rightarrow> tools \<Rightarrow> tools_pc \<Rightarrow> bool" where
  "execution T c pc T' pc' \<longleftrightarrow>
     (\<exists>e. tl_trace T' = tl_trace T @ [e] \<and> (\<forall>i. executes i e \<longleftrightarrow> tc_callID c = i))
     \<and> underway pc \<and> \<not> underway pc' \<and> Lookup (tl_ledger T) (commitmentID c) \<noteq> None
     \<and> (\<forall>i. Lookup (tl_ledger T) i = None \<longrightarrow> Lookup (tl_ledger T') i = None)"

lemma emit_counts:
  assumes "advance_pc an remote c T (Authorized s) = (T', pc')"
  shows "execution T c (Authorized s) T' pc' \<or> uncounted T (Authorized s) T' pc'"
proof -
  have known: "Lookup (tl_ledger T) (commitmentID c) \<noteq> None"
    "Lookup (tl_ledger T) i = None \<Longrightarrow> Lookup l i = None"
    if "Emit (tl_ledger T) (commitmentID c) = Inr l" for i l
    using that by (auto simp: ledger_defs split: option.splits if_splits)
  with assms show ?thesis
    by (auto simp: emit_action_def execution_def uncounted_def split: sum.splits if_splits)
qed

lemma region_counts:
  assumes "sound T" "standing T remote c pc" "advance_pc an remote c T pc = (T', pc')"
  obtains (same) "uncounted T pc T' pc'"
  | (prepared) "first_prepare T c T'" "\<not> underway pc"
  | (tolerated) "T' = T" "Lookup (tl_ledger T) (commitmentID c) = None" "gm_has (lg_callIDs (tl_ledger T)) (tc_callID c)"
  | (executed) "execution T c pc T' pc'"
proof (cases "\<forall>s. pc \<noteq> Claimed s \<and> pc \<noteq> Authorized s \<and> pc \<noteq> Emitted s")
  case True
  with region_uncounted assms(3) same show thesis by blast
next
  case False
  then consider (c) s where "pc = Claimed s" | (a) s where "pc = Authorized s" | (e) s where "pc = Emitted s" by blast
  then show thesis
  proof cases
    case (c s)
    with prepare_counts assms that(1-3) show thesis by (metis underway.simps(8))
  next
    case (a s)
    with emit_counts assms(3) that(1,4) show thesis by blast
  next
    case (e s)
    with assms(2,3) show thesis
      by (intro executed) (auto simp: execution_def run_dispatcher_def crossed_over_def)
  qed
qed

lemma pursues_update:
  assumes "k < length ths"
  shows "length (filter (pursues i) (ths[k := (ths ! k)\<lparr>th_pc := pc'\<rparr>]))
      + (if tc_callID (th_call (ths ! k)) = i \<and> underway (th_pc (ths ! k)) then 1 else 0)
    = length (filter (pursues i) ths) + (if tc_callID (th_call (ths ! k)) = i \<and> underway pc' then 1 else 0)"
  using filter_update_count [OF assms, of "pursues i" "(ths ! k)\<lparr>th_pc := pc'\<rparr>"] by (simp add: pursues_def)

lemma at_most_once_grows:
  assumes "at_most_once i T ths" "moves_on T T'"
    and "filter (executes i) (tl_trace T') = filter (executes i) (tl_trace T)"
    and "length (filter (pursues i) ths') \<le> length (filter (pursues i) ths)"
    and "Lookup (tl_ledger T) (''action_'' @ i) = None \<Longrightarrow> Lookup (tl_ledger T') (''action_'' @ i) = None"
  shows "at_most_once i T' ths'"
proof (cases "Lookup (tl_ledger T) (''action_'' @ i) = None")
  case True
  with assms have "filter (pursues i) ths' \<noteq> [] \<Longrightarrow> gm_has (lg_callIDs (tl_ledger T)) i"
    by (auto simp: at_most_once_def)
  moreover have "ledger_run (tl_ledger T) (tl_ledger T')" using assms(2) by (simp add: moves_on_def)
  ultimately have "filter (pursues i) ths' \<noteq> [] \<Longrightarrow> gm_has (lg_callIDs (tl_ledger T')) i"
    using call_ids.run_keeps by blast
  with True assms(1,3,5) show ?thesis by (simp add: at_most_once_def)
next
  case False
  with assms(2) have "Lookup (tl_ledger T') (''action_'' @ i) \<noteq> None" by (auto simp: moves_on_def dest: lookup_run)
  with False assms(1,3,4) show ?thesis by (auto simp: at_most_once_def)
qed

lemma region_once:
  assumes "sound T" "k < length ths" "standing T (th_remote (ths ! k)) (th_call (ths ! k)) (th_pc (ths ! k))"
    and "advance_pc an (th_remote (ths ! k)) (th_call (ths ! k)) T (th_pc (ths ! k)) = (T', pc')"
    and "moves_on T T'" and o: "at_most_once i T ths"
  shows "at_most_once i T' (ths[k := (ths ! k)\<lparr>th_pc := pc'\<rparr>])" (is "at_most_once i T' ?ths'")
proof -
  let ?c = "th_call (ths ! k)"
  note n = pursues_update [OF assms(2), of i pc']
  have other: ?thesis if "i \<noteq> tc_callID ?c" "filter (executes i) (tl_trace T') = filter (executes i) (tl_trace T)"
    "Lookup (tl_ledger T) (''action_'' @ i) = None \<Longrightarrow> Lookup (tl_ledger T') (''action_'' @ i) = None"
    using that n by (intro at_most_once_grows [OF o assms(5)]) auto
  from assms(1,3,4) show ?thesis
  proof (cases rule: region_counts)
    case same
    then show ?thesis using n by (intro at_most_once_grows [OF o assms(5)]) (auto simp: uncounted_def split: if_splits)
  next
    case prepared
    show ?thesis
    proof (cases "i = tc_callID ?c")
      case True
      with prepared o have "filter (executes i) (tl_trace T') = []" "filter (pursues i) ths = []"
        "Lookup (tl_ledger T') (''action_'' @ i) \<noteq> None"
        by (auto simp: first_prepare_def at_most_once_def commitmentID_def)
      with n show ?thesis by (auto simp: at_most_once_def split: if_splits)
    next
      case False
      with prepared show ?thesis by (intro other) (auto simp: first_prepare_def commitmentID_def)
    qed
  next
    case tolerated
    with o other show ?thesis by (cases "i = tc_callID ?c") (auto simp: at_most_once_def commitmentID_def)
  next
    case executed
    show ?thesis
    proof (cases "i = tc_callID ?c")
      case True
      from executed True have "Lookup (tl_ledger T) (''action_'' @ i) \<noteq> None" "Lookup (tl_ledger T') (''action_'' @ i) \<noteq> None"
        using assms(5) by (auto simp: execution_def commitmentID_def moves_on_def dest: lookup_run)
      moreover have "length (filter (executes i) (tl_trace T')) = Suc (length (filter (executes i) (tl_trace T)))"
        "Suc (length (filter (pursues i) ?ths')) = length (filter (pursues i) ths)"
        using executed True n by (auto simp: execution_def)
      moreover from calculation(1) o have
        "length (filter (executes i) (tl_trace T)) + length (filter (pursues i) ths) \<le> 1"
        unfolding at_most_once_def by (simp only: if_False)
      ultimately have "length (filter (executes i) (tl_trace T')) + length (filter (pursues i) ?ths') \<le> 1" by linarith
      with \<open>Lookup (tl_ledger T') (''action_'' @ i) \<noteq> None\<close> show ?thesis
        unfolding at_most_once_def by (simp only: if_False)
    next
      case False
      with executed show ?thesis by (intro other) (auto simp: execution_def)
    qed
  qed
qed

definition once_and_sound :: "string \<Rightarrow> tools \<times> dispatching list \<Rightarrow> bool" where
  "once_and_sound i s \<longleftrightarrow> at_most_once i (fst s) (snd s) \<and> evidence.all_ok s"

interpretation once: stable tools_step "once_and_sound i" for i
proof unfold_locales
  fix s s' assume st: "tools_step s s'" and a: "once_and_sound i s"
  obtain T ths T' ths' where s: "s = (T, ths)" "s' = (T', ths')" by fastforce
  with a have "sound T" by (simp add: once_and_sound_def)
  from st [unfolded s] this have "at_most_once i T' ths'"
  proof (cases rule: tools_step_cases)
    case (call remote c)
    from a s have "at_most_once i T ths" by (simp add: once_and_sound_def)
    from at_most_once_grows [OF this moves_on_refl] call show ?thesis by (simp add: pursues_def)
  next
    case (region k an pc')
    with a s \<open>sound T\<close> show ?thesis by (auto simp: once_and_sound_def intro: region_once)
  next
    case elsewhere
    with a s show ?thesis
      by (auto simp: once_and_sound_def elsewhere_def intro: at_most_once_grows)
  qed
  with a st s show "once_and_sound i s'" using evidence.step_ok [of T ths T' ths'] by (simp add: once_and_sound_def)
qed

text \<open>
  C12. However the calls interleave and however often one is retried, a call identifier is executed at
  most once: over the whole run at most one dispatcher is started or one release to the client made under it.
\<close>

theorem a_call_runs_at_most_once:
  assumes "tools_start T" and "tools_run (T, []) (T', ths)"
  shows "length (filter (executes i) (tl_trace T')) \<le> 1"
proof -
  have "once_and_sound i (T, [])"
    using tools_start_fields [OF assms(1)] by (simp add: once_and_sound_def at_most_once_def trace_justified_def)
  from once.run_keeps [OF assms(2) this] show ?thesis
    by (auto simp: once_and_sound_def at_most_once_def split: if_splits)
qed

subsection \<open>Whole batches\<close>

lemma run_pc_run:
  "run_pc an remote c T pc = (T', res) \<Longrightarrow>
     tools_run (T, ths @ [\<lparr>th_remote = remote, th_call = c, th_pc = pc\<rparr>])
       (T', ths @ [\<lparr>th_remote = remote, th_call = c, th_pc = Returned res\<rparr>])"
proof (induction an remote c T pc rule: run_pc.induct)
  case (1 an remote c T pc)
  obtain T1 pc1 where a: "advance_pc an remote c T pc = (T1, pc1)" by fastforce
  show ?case
  proof (cases "returned pc")
    case None
    have "tools_step (T, ths @ [\<lparr>th_remote = remote, th_call = c, th_pc = pc\<rparr>])
       (T1, ths @ [\<lparr>th_remote = remote, th_call = c, th_pc = pc1\<rparr>])"
      using region [of "length ths" "ths @ [\<lparr>th_remote = remote, th_call = c, th_pc = pc\<rparr>]" an T] a
      by (simp add: advance_thread_def)
    moreover have "run_pc an remote c T1 pc1 = (T', res)"
      using "1.prems" None a by (simp add: run_pc.simps [of an remote c T pc])
    ultimately show ?thesis using "1.IH" [OF None] a by (simp add: converse_rtranclp_into_rtranclp)
  next
    case (Some r)
    then have "pc = Returned r" by (cases pc) auto
    with "1.prems" show ?thesis by (simp add: run_pc.simps [of an remote c T "Returned r"])
  qed
qed

lemma Dispatch_run:
  assumes "Dispatch an T c = (T', res)"
  shows "tools_run (T, ths) (T', ths @ [\<lparr>th_remote = False, th_call = c, th_pc = Returned res\<rparr>])"
proof -
  have "tools_step (T, ths) (T, ths @ [\<lparr>th_remote = False, th_call = c, th_pc = Started\<rparr>])" by (rule call)
  then show ?thesis by (rule converse_rtranclp_into_rtranclp) (rule run_pc_run [OF assms [unfolded Dispatch_def]])
qed

text \<open>A result given by a dispatcher that ran under this call identifier.\<close>

definition given :: "tools \<Rightarrow> string \<Rightarrow> tool_result \<Rightarrow> bool" where
  "given T i r \<longleftrightarrow> tr_callID r = i
     \<and> (\<exists>s c a. Ran s c a \<in> set (tl_trace T) \<and> tc_callID c = i \<and> outcome_of c a = Inr r)"

fun delivers :: "tools \<Rightarrow> bool \<Rightarrow> tool_call \<Rightarrow> (tools_error, tool_result option) result \<Rightarrow> bool" where
  "delivers T remote c (Inl e) = True"
| "delivers T remote c (Inr None) = remote"
| "delivers T remote c (Inr (Some r)) = given T (tc_callID c) r"

fun answering :: "tools \<Rightarrow> bool \<Rightarrow> tool_call \<Rightarrow> tools_pc \<Rightarrow> bool" where
  "answering T remote c (Answered s r) = (case r of Inl _ \<Rightarrow> True | Inr x \<Rightarrow> given T (tc_callID c) x)"
| "answering T remote c (Closed s r) = (case r of Inl _ \<Rightarrow> True | Inr x \<Rightarrow> given T (tc_callID c) x)"
| "answering T remote c (Recording s b err res) = delivers T remote c res"
| "answering T remote c (Leaving res) = delivers T remote c res"
| "answering T remote c (Returned res) = delivers T remote c res"
| "answering T remote c _ = True"

definition results_given :: "tools \<Rightarrow> bool" where
  "results_given T \<longleftrightarrow> (\<forall>i r. map_of (tl_results T) i = Some r \<longrightarrow> given T i r)"

lemma given_results [simp]: "given (T\<lparr>tl_results := m\<rparr>) i r = given T i r"
  by (simp add: given_def)

lemma given_grows: "moves_on T T' \<Longrightarrow> given T i r \<Longrightarrow> given T' i r"
  unfolding moves_on_def given_def by (metis Un_iff set_append)

lemma delivers_grows: "moves_on T T' \<Longrightarrow> delivers T remote c res \<Longrightarrow> delivers T' remote c res"
  by (cases "(T, remote, c, res)" rule: delivers.cases) (auto intro: given_grows)

lemma answering_grows: "moves_on T T' \<Longrightarrow> answering T remote c pc \<Longrightarrow> answering T' remote c pc"
  by (cases pc) (auto intro: given_grows delivers_grows split: sum.splits)

lemma results_given_same: "moves_on T T' \<Longrightarrow> tl_results T' = tl_results T \<Longrightarrow> results_given T \<Longrightarrow> results_given T'"
  by (auto simp: results_given_def intro: given_grows)

lemma region_results:
  assumes "\<forall>s r. pc \<noteq> Closed s r"
  shows "tl_results (fst (advance_pc an remote c T pc)) = tl_results T"
  using assms by (cases pc) (auto simp: region_defs confirm_def audited_def CompleteCall_def
      split: option.split sum.split prod.split)

lemma outcome_given: "outcome_of c a = Inr r \<Longrightarrow> Ran s c a \<in> set (tl_trace T) \<Longrightarrow> given T (tc_callID c) r"
  by (auto simp: given_def outcome_of_def Let_def split: if_splits)

lemma region_answering:
  assumes "results_given T" "answering T remote c pc"
  shows "answering (fst (advance_pc an remote c T pc)) remote c (snd (advance_pc an remote c T pc))"
proof -
  note g = moves_on_region [of T an remote c pc]
  from assms(2) have old: "answering (fst (advance_pc an remote c T pc)) remote c pc" by (rule answering_grows [OF g])
  show ?thesis
  proof (cases pc)
    case (Trusted s)
    with assms(1) show ?thesis by (auto simp: claim_call_def results_given_def split: option.split)
  next
    case (Emitted s)
    then show ?thesis by (auto simp: run_dispatcher_def intro: outcome_given split: sum.split)
  next
    case (Closed s r)
    with old show ?thesis by (auto simp: store_result_def split: sum.splits)
  next
    case (Recording s b err res)
    with old show ?thesis by simp
  next
    case (Leaving res)
    with old show ?thesis by simp
  next
    case (Answered s r)
    with old show ?thesis by simp
  next
    case (Returned res)
    with old show ?thesis by simp
  qed (auto simp: region_defs split: option.split sum.split prod.split)
qed

interpretation origin: dispatch_guarantee answering results_given
proof unfold_locales
  fix T T' remote c pc an pc'
  assume a: "sound T" "results_given T" "answering T remote c pc" "advance_pc an remote c T pc = (T', pc')"
  have g: "moves_on T T'" using moves_on_region [of T an remote c pc] a(4) by simp
  have "results_given T'"
  proof (cases pc)
    case (Closed s r)
    with a g show ?thesis
      by (cases r) (auto simp: store_result_def results_given_def split: if_splits)
  qed (use a g region_results [of pc an remote c T] in \<open>auto intro: results_given_same\<close>)
  with region_answering [OF a(2,3), of an] a(4) show "answering T' remote c pc' \<and> results_given T'" by simp
qed (auto intro: answering_grows results_given_same simp: elsewhere_def)

lemma Dispatch_delivers:
  assumes "tools_start T0" "tools_run (T0, []) (T, ths)" "Dispatch an T c = (T', res)"
  shows "tools_run (T0, []) (T', ths @ [\<lparr>th_remote = False, th_call = c, th_pc = Returned res\<rparr>]) \<and> delivers T' False c res"
proof -
  from assms(2) Dispatch_run [OF assms(3), of ths]
  have run: "tools_run (T0, []) (T', ths @ [\<lparr>th_remote = False, th_call = c, th_pc = Returned res\<rparr>])"
    by (rule rtranclp_trans)
  have "origin.all_ok (T0, [])" using tools_start_fields [OF assms(1)] by (simp add: results_given_def)
  from origin.run_ok [OF run this] run show ?thesis by simp
qed

lemma step_trace: "tools_step s s' \<Longrightarrow> sound (fst s) \<Longrightarrow> moves_on (fst s) (fst s')"
  by (cases s; cases s') (auto elim!: tools_step_cases simp: elsewhere_def)

lemma run_grows:
  assumes "tools_run s s'" "sound (fst s)"
  shows "moves_on (fst s) (fst s') \<and> sound (fst s')"
  using assms
proof (induction rule: rtranclp_induct)
  case (step t u)
  then have "sound (fst t)" "moves_on (fst s) (fst t)" by simp_all
  moreover have "sound (fst u)" using step.hyps(2) \<open>sound (fst t)\<close>
    by (cases t; cases u) (auto elim!: tools_step_cases)
  ultimately show ?case using step_trace [OF step.hyps(2)] by (blast intro: moves_on_trans)
qed simp

lemma DispatchAll_run:
  "DispatchAll T cs = (T', rs) \<Longrightarrow> \<exists>ths'. tools_run (T, ths) (T', ths')"
proof (induction cs arbitrary: T ths rs)
  case (Cons a cs)
  obtain an c where a: "a = (an, c)" by fastforce
  obtain T1 res where d: "Dispatch an T c = (T1, res)" by fastforce
  obtain rest where "DispatchAll T1 cs = (T', rest)"
    using Cons.prems a d by (cases "DispatchAll T1 cs") auto
  from Cons.IH [OF this] Dispatch_run [OF d, of ths] show ?case by (meson rtranclp_trans)
qed auto

text \<open>The state in which the call after these is dispatched.\<close>

definition dispatched_all :: "(answers \<times> tool_call) list \<Rightarrow> tools \<Rightarrow> tools" where
  "dispatched_all cs T = fold (\<lambda>(an, c) T. fst (Dispatch an T c)) cs T"

lemma dispatched_all_simps [simp]:
  "dispatched_all [] T = T" "dispatched_all ((an, c) # cs) T = dispatched_all cs (fst (Dispatch an T c))"
  by (simp_all add: dispatched_all_def)

definition answers_call :: "tools \<Rightarrow> tools \<Rightarrow> answers \<times> tool_call \<Rightarrow> tool_result \<Rightarrow> bool" where
  "answers_call T T' a r = (case a of (an, c) \<Rightarrow>
     (case snd (Dispatch an T c) of
        Inl e \<Rightarrow> r = \<lparr>tr_callID = tc_callID c, tr_name = tc_name c, tr_output = [], tr_error = tl_text T' e\<rparr>
      | Inr None \<Rightarrow> False
      | Inr (Some x) \<Rightarrow> r = x \<and> given T' (tc_callID c) x))"

lemma batch_entry_answers:
  assumes "Dispatch an T c = (T1, res)" "delivers T' False c res" "tl_text T' = tl_text T"
  shows "tr_callID (batch_entry T c res) = tc_callID c" "answers_call T T' (an, c) (batch_entry T c res)"
proof (atomize (full), cases res)
  case (Inr x)
  with assms obtain r where "x = Some r" "given T' (tc_callID c) r" by (cases x) auto
  with Inr assms(1) show "tr_callID (batch_entry T c res) = tc_callID c \<and> answers_call T T' (an, c) (batch_entry T c res)"
    by (simp add: batch_entry_def given_def answers_call_def)
qed (use assms in \<open>auto simp: batch_entry_def answers_call_def\<close>)

text \<open>
  C13. A batch is answered call by call. \<^verbatim>\<open>DispatchAll\<close> returns one entry per call, in the order of the
  calls and under their identifiers, whatever the confirmers and dispatchers answer; the calls are dispatched one after the other,
  each in the state the calls before it left. The entry of a call is what its own
  \<^verbatim>\<open>Dispatch\<close> returned there: the text of the error if it returned one, and otherwise the result itself, which a
  dispatcher that really ran under this identifier gave; a call that was not refused is never left without a result.
\<close>

theorem a_batch_is_answered_in_order:
  assumes "tools_start T0" and "tools_run (T0, []) (T, ths)" and "DispatchAll T cs = (T', rs)"
  shows "map tr_callID rs = map (\<lambda>(an, c). tc_callID c) cs \<and> T' = dispatched_all cs T
    \<and> (\<forall>n<length cs. case cs ! n of (an, c) \<Rightarrow>
         (case snd (Dispatch an (dispatched_all (take n cs) T) c) of
            Inl e \<Rightarrow> rs ! n = \<lparr>tr_callID = tc_callID c, tr_name = tc_name c, tr_output = [], tr_error = tl_text T' e\<rparr>
          | Inr None \<Rightarrow> False
          | Inr (Some r) \<Rightarrow> rs ! n = r \<and> given T' (tc_callID c) r))"
proof -
  have "map tr_callID rs = map (\<lambda>(an, c). tc_callID c) cs \<and> T' = dispatched_all cs T
    \<and> (\<forall>n<length cs. answers_call (dispatched_all (take n cs) T) T' (cs ! n) (rs ! n))"
    using assms(2,3)
  proof (induction cs arbitrary: T ths rs)
    case (Cons a cs)
    obtain an c where a: "a = (an, c)" by fastforce
    obtain T1 res where d: "Dispatch an T c = (T1, res)" by fastforce
    note r = Dispatch_delivers [OF assms(1) Cons.prems(1) d]
    obtain rest where rest: "DispatchAll T1 cs = (T', rest)" "rs = batch_entry T c res # rest"
      using Cons.prems(2) a d by (cases "DispatchAll T1 cs") auto
    note IH = Cons.IH [OF conjunct1 [OF r] rest(1)]
    obtain ths' where "tools_run (T1, ths) (T', ths')" using DispatchAll_run [OF rest(1)] by blast
    moreover have "sound T" "sound T1"
      using run_grows [OF Cons.prems(1)] run_grows [OF conjunct1 [OF r]] tools_start_fields(1) [OF assms(1)] by simp_all
    ultimately have g: "moves_on T1 T'" "moves_on T T1"
      using run_grows [of "(T1, ths)" "(T', ths')"] run_grows [OF Dispatch_run [OF d, of ths]] by simp_all
    have "delivers T' False c res" "tl_text T' = tl_text T"
      using conjunct2 [OF r] delivers_grows [OF g(1)] g by (simp_all add: moves_on_def)
    note entry = batch_entry_answers [OF d this]
    show ?case unfolding rest(2) a using IH entry d by (auto simp: nth_Cons split: nat.split)
  qed simp
  then show ?thesis unfolding answers_call_def by simp
qed

end
