(* ===== verification/Tools_Examples.thy ===== *)
theory Tools_Examples
  imports Tools_Properties
begin

section \<open>The dispatch boundary at work\<close>

text \<open>
  Two invocations each commit a tool call under the provider's identifier \<^verbatim>\<open>c1\<close>, for different tools. The
  example carries the witnesses of \<^theory_text>\<open>Tools_Properties\<close> and two findings about
  \<^verbatim>\<open>src/action/tools.go\<close>.
\<close>

definition call_item :: "string \<Rightarrow> string \<Rightarrow> tool_call \<Rightarrow> item" where
  "call_item i invocation c =
     (plain_item i KindToolCall PhaseRuntime 1 [] 1 [])\<lparr>item_invocation := invocation, item_toolCall := Some c\<rparr>"

definition pay_call :: tool_call where
  "pay_call = \<lparr>tc_callID = ''c1'', tc_name = ''pay'', tc_arguments = ''{}''\<rparr>"

definition find_call :: tool_call where
  "find_call = \<lparr>tc_callID = ''c1'', tc_name = ''find'', tc_arguments = ''{}''\<rparr>"

definition calls_store :: store where
  "calls_store =
     (case AppendBatch NewStore [call_item ''t1'' ''inv1'' pay_call, call_item ''t2'' ''inv2'' find_call] of
        Inr s \<Rightarrow> s | Inl _ \<Rightarrow> NewStore)"

lemma calls_store_run:
  "(case AppendBatch NewStore [call_item ''t1'' ''inv1'' pay_call, call_item ''t2'' ''inv2'' find_call] of
      Inl _ \<Rightarrow> False
    | Inr s \<Rightarrow> authoritative_loop pay_call False (st_items s) \<and> authoritative_loop find_call False (st_items s)) = True"
  by code_simp

lemma calls_store_facts:
  "AppendBatch NewStore [call_item ''t1'' ''inv1'' pay_call, call_item ''t2'' ''inv2'' find_call] = Inr calls_store"
  "authoritative_loop pay_call False (st_items calls_store)" "authoritative_loop find_call False (st_items calls_store)"
  using calls_store_run by (auto simp: calls_store_def split: sum.splits)

lemma calls_store_reachable: "reachable calls_store"
  by (rule reachable.batch [OF reachable.new calls_store_facts(1)])

definition pay_tool :: tool_spec where
  "pay_tool = example_tool ''pay'' ''always'' ''{}'' []"

definition find_tool_spec :: tool_spec where
  "find_tool_spec = example_tool ''find'' ''never'' ''{}'' []"

lemma calls_texts: "ParseConfirm ''never'' = Some ''never''"
  by code_simp

definition calls_registry :: registry where
  "calls_registry = \<lparr>rg_specs = [(''pay'', pay_tool), (''find'', find_tool_spec)], rg_order = [''pay'', ''find'']\<rparr>"

lemma calls_registry_step: "registry_step NewRegistry calls_registry"
proof (rule replace_step)
  show "Replace NewRegistry [pay_tool, find_tool_spec] = (calls_registry, None)"
    by (simp add: Replace_def pay_tool_def find_tool_spec_def example_tool_def Declare_accepts example_texts
        calls_texts normalizers_fault.simps(1) store_spec_def NewRegistry_def calls_registry_def del: normalizers_fault.simps(2))
qed

definition calls_tools :: tools where
  "calls_tools =
     \<lparr>tl_registry = calls_registry, tl_ledger = NewLedger, tl_store = calls_store, tl_confirmer = True,
      tl_policy = None, tl_audit = False, tl_text = \<lambda>_. ''refused'', tl_results = [], tl_inFlight = [], tl_trace = []\<rparr>"

lemma calls_tools_start: "tools_start calls_tools"
proof -
  have "NewTools (Some calls_registry) (Some NewLedger) (Some calls_store) True None False (\<lambda>_. ''refused'') = Inr calls_tools"
    by (simp add: NewTools_def calls_tools_def Specs_def map_filter_simps calls_registry_def pay_tool_def
        find_tool_spec_def example_tool_def)
  then show ?thesis
    unfolding tools_start_def using calls_registry_step calls_store_reachable by blast
qed

definition paid :: tool_result where
  "paid = \<lparr>tr_callID = ''c1'', tr_name = ''pay'', tr_output = ''1'', tr_error = []\<rparr>"

definition agreed :: answers where
  "agreed = \<lparr>an_confirm = Inr True, an_dispatch = Inr paid\<rparr>"

text \<open>The first call asks, runs and keeps its result.\<close>

definition pay_asked :: confirmation_request where
  "pay_asked = \<lparr>cr_call = pay_call, cr_confirm = ''always'', cr_target = []\<rparr>"


lemmas calls_defs = calls_tools_def calls_registry_def pay_call_def find_call_def pay_tool_def find_tool_spec_def
  example_tool_def agreed_def paid_def pay_asked_def

lemmas ledger_ops = Prepare_def Queue_def Emit_def transition_def Complete_def set_commitment_def storeCommitment_def
  StateCrossed_def Terminal_def

lemma commitment_texts: "\<not> blank ''action_c1''" 
  by code_simp

lemma calls_authoritative:
  "tl_store T = calls_store \<Longrightarrow> authoritative T pay_call" "tl_store T = calls_store \<Longrightarrow> authoritative T find_call"
  using calls_store_facts by (simp_all add: authoritative_def Snapshot_def)

lemma pay_evaluated:
  "let (T, res) = Dispatch agreed calls_tools pay_call in
     res = Inr (Some paid) \<and> tl_trace T = [Asked pay_asked (Inr True), Ran pay_tool pay_call (Inr paid)]
     \<and> tl_results T = [(''c1'', paid)] \<and> tl_registry T = calls_registry \<and> tl_store T = calls_store
     \<and> map (\<lambda>(i, c). (i, co_state c)) (lg_commitments (tl_ledger T)) = [(''action_c1'', StatePlayed)]"
  using calls_authoritative [unfolded calls_defs]
  by (simp add: Dispatch_def run_pc.simps region_defs calls_defs LookupTool_def action_commitment_def commitmentID_def
      action_kind_def ledger_ops calls_texts example_texts commitment_texts NewLedger_def confirm_def unasked_def
      outcome_of_def CompleteCall_def audited_def Let_def happened_def)

definition paid_tools :: tools where
  "paid_tools = fst (Dispatch agreed calls_tools pay_call)"

lemma paid_facts:
  "Dispatch agreed calls_tools pay_call = (paid_tools, Inr (Some paid))"
  "tl_trace paid_tools = [Asked pay_asked (Inr True), Ran pay_tool pay_call (Inr paid)]"
  "tl_results paid_tools = [(''c1'', paid)]" "tl_registry paid_tools = calls_registry" "tl_store paid_tools = calls_store"
  using pay_evaluated by (auto simp: paid_tools_def Let_def split: prod.splits)

lemmas paid_run = Dispatch_run [OF paid_facts(1), of "[]", simplified]


theorem a_call_runs_at_most_once_witness:
  "filter (executes ''c1'') (tl_trace paid_tools) = [Ran pay_tool pay_call (Inr paid)]"
  using a_call_runs_at_most_once [OF calls_tools_start paid_run, of "''c1''"]
  by (simp add: paid_facts pay_call_def)

subsection \<open>Retries\<close>

lemma find_tool_cases:
  obtains (refused) e where "find_tool T remote c = Returned (Inl e)"
  | (found) s where "find_tool T remote c = Found s"
  by (cases "find_tool T remote c") (auto simp: find_tool_def split: option.splits if_splits)

lemma run_pc_leaving_error: "snd (run_pc an remote c T (Leaving (Inl e))) = Inl e"
  "snd (run_pc an remote c T (Returned res)) = res"
  by (simp_all add: run_pc.simps)

lemma run_pc_leaving: "fst (run_pc an remote c T (Leaving res)) = leave T remote c"
  "fst (run_pc an remote c T (Returned res)) = T"
  by (simp_all add: run_pc.simps)

lemma Prepare_known:
  "Lookup l (commitmentID c) = Some d \<Longrightarrow>
     \<exists>e. Prepare l (action_commitment c s) = Inl e \<and> \<not> is_duplicate_call e"
  by (auto simp: Prepare_def Lookup_def action_commitment_def action_kind_def Let_def split: option.splits)

lemma run_claimed_known:
  assumes "Lookup (tl_ledger T) (commitmentID c) = Some d"
  shows "\<exists>e. run_pc an False c T (Claimed s) = (leave T False c, Inl e)"
proof -
  from Prepare_known [OF assms, of s] obtain e where "prepare_action T c s = (T, Leaving (Inl (LedgerRefused e)))"
    by (auto simp: prepare_action_def)
  then show ?thesis by (simp add: run_pc.simps)
qed

text \<open>
  C14. A call that was decided once is not decided again. As soon as the ledger holds the action of
  a call, whether it was refused, cancelled, failed or handed to the client, and no result is stored under its
  identifier, every further \<^verbatim>\<open>Dispatch\<close> of it returns an error without asking the confirmer, running
  a dispatcher or moving the ledger.
\<close>

theorem a_decided_call_is_not_retried:
  assumes "Lookup (tl_ledger T) (commitmentID c) = Some d" and "map_of (tl_results T) (tc_callID c) = None"
  shows "(\<exists>e. snd (Dispatch an T c) = Inl e)
    \<and> tl_trace (fst (Dispatch an T c)) = tl_trace T \<and> tl_ledger (fst (Dispatch an T c)) = tl_ledger T"
proof -
  have start: "Dispatch an T c = run_pc an False c T (find_tool T False c)"
    by (simp add: Dispatch_def run_pc.simps [of an False c T Started])
  show ?thesis
  proof (cases rule: find_tool_cases [of T False c])
    case (found s)
    have "run_pc an False c T (Found s)
        = (if authoritative T c then run_pc an False c T (Trusted s) else (T, Inl (ErrNoAuthority (tc_callID c))))"
      by (simp add: run_pc.simps)
    moreover obtain e where "run_pc an False c (T\<lparr>tl_inFlight := f\<rparr>) (Claimed s) = (leave (T\<lparr>tl_inFlight := f\<rparr>) False c, Inl (e f))"
      for f using run_claimed_known [of "T\<lparr>tl_inFlight := _\<rparr>" c d an s] assms(1) by simp metis
    moreover have "run_pc an False c T (Trusted s) =
        (if gm_has (tl_inFlight T) (tc_callID c) then (T, Inl (AlreadyDispatching (tc_callID c)))
         else run_pc an False c (T\<lparr>tl_inFlight := gs_add (tc_callID c) (tl_inFlight T)\<rparr>) (Claimed s))"
      using assms(2) by (simp add: run_pc.simps [of an False c T "Trusted s"] claim_call_def
          run_pc.simps [of an False c _ "Returned _"])
    ultimately show ?thesis using found start by (simp add: leave_def)
  qed (use start in \<open>simp add: run_pc.simps\<close>)
qed

text \<open>A refused payment: the confirmer says no, and a second attempt with a willing one changes nothing.\<close>

definition declined :: answers where
  "declined = \<lparr>an_confirm = Inr False, an_dispatch = Inr paid\<rparr>"

lemma declined_evaluated:
  "let (T, res) = Dispatch declined calls_tools pay_call in
     res = Inl (ErrNotConfirmed ''pay'') \<and> tl_results T = []
     \<and> map (\<lambda>(i, c). (i, co_state c)) (lg_commitments (tl_ledger T)) = [(''action_c1'', StateCancelled)]"
  using calls_authoritative [unfolded calls_defs]
  by (simp add: Dispatch_def run_pc.simps region_defs calls_defs declined_def LookupTool_def action_commitment_def
      commitmentID_def action_kind_def ledger_ops Cancel_def calls_texts example_texts commitment_texts NewLedger_def
      confirm_def unasked_def audited_def Let_def happened_def)

definition declined_tools :: tools where
  "declined_tools = fst (Dispatch declined calls_tools pay_call)"

lemma declined_facts:
  "tl_results declined_tools = []" "Lookup (tl_ledger declined_tools) (commitmentID pay_call) \<noteq> None"
  using declined_evaluated
  by (auto simp: declined_tools_def Lookup_def commitmentID_def pay_call_def Let_def split: prod.splits)

theorem a_decided_call_is_not_retried_witness:
  "tl_trace (fst (Dispatch agreed declined_tools pay_call)) = tl_trace declined_tools"
proof -
  obtain d where "Lookup (tl_ledger declined_tools) (commitmentID pay_call) = Some d" using declined_facts(2) by blast
  from a_decided_call_is_not_retried [OF this, of agreed] show ?thesis by (simp add: declined_facts(1))
qed

subsection \<open>Identifiers of different invocations\<close>

text \<open>
  A call of another invocation under the same provider identifier, for another tool, is committed in the
  log and has authority; it is answered with the first call's result and never runs.
\<close>

lemma find_gets_the_payment: "Dispatch an paid_tools find_call = (paid_tools, Inr (Some paid))"
  using calls_authoritative(2) [of paid_tools] paid_facts(3-5)
  by (simp add: Dispatch_def run_pc.simps find_tool_def LookupTool_def claim_call_def calls_registry_def find_call_def
      find_tool_spec_def example_tool_def)

theorem another_invocations_call_is_swallowed:
  "reachable (tl_store paid_tools) \<and> authoritative paid_tools find_call
   \<and> Dispatch an paid_tools find_call = (paid_tools, Inr (Some paid)) \<and> tr_name paid \<noteq> tc_name find_call"
  using find_gets_the_payment calls_authoritative(2) [of paid_tools] paid_facts(5) calls_store_reachable
  by (simp add: paid_def find_call_def)

lemma batch_evaluated: "DispatchAll calls_tools [(agreed, pay_call), (agreed, find_call)] = (paid_tools, [paid, paid])"
  by (simp add: paid_facts(1) find_gets_the_payment batch_entry_def)

theorem a_batch_is_answered_in_order_witness:
  "map tr_callID (snd (DispatchAll calls_tools [(agreed, pay_call), (agreed, find_call)])) = [''c1'', ''c1'']
   \<and> paid_tools = dispatched_all [(agreed, pay_call), (agreed, find_call)] calls_tools"
  unfolding batch_evaluated
  using a_batch_is_answered_in_order [OF calls_tools_start rtranclp.rtrancl_refl batch_evaluated, THEN conjunct1]
    a_batch_is_answered_in_order [OF calls_tools_start rtranclp.rtrancl_refl batch_evaluated, THEN conjunct2, THEN conjunct1]
  by (simp add: pay_call_def find_call_def)

end
