(* ===== verification/Duplex.thy ===== *)
theory Duplex
  imports Prelude "HOL-Library.Word"
begin

section \<open>Who is speaking: the duplex state\<close>

text \<open>
  \<^verbatim>\<open>session/duplex.go\<close>: the single owner of the two facts an interaction policy depends on (is the
  user speaking, is agent audio reaching the user), of the playout horizon, and of the timer that
  notices the horizon passing.

  Times and durations are 64-bit words, so the sum of a horizon and a duration wraps as in Go; a
  \<^verbatim>\<open>time.Duration\<close> is the same word read as signed. The scheduler is an argument: an operation that
  calls \<^verbatim>\<open>NowNS\<close> takes the value it read. A timer is the pair of the time at which it was armed
  and its delay. A stopped timer's callback may still be in flight, so \<^verbatim>\<open>playoutElapsed\<close> is a step
  that may happen at any moment, not only while a timer is stored.

  Every operation has a section under the lock, which yields the state and at most one transition,
  and a call of \<^verbatim>\<open>publish\<close> after the lock was released. The two are separate steps of the machine
  at the end, because other goroutines run between them.
\<close>

subsection \<open>State\<close>

type_synonym u64 = "64 word"

datatype duplex_phase = PhaseListening | PhaseUserSpeaking | PhaseAgentSpeaking | PhaseOverlap

record duplex_snapshot =
  ds_phase :: duplex_phase
  ds_userSpeaking :: bool
  ds_agentSpeaking :: bool
  ds_userSpeechStartedNS :: u64
  ds_userSpeechEndedNS :: u64
  ds_agentAudioStartedNS :: u64
  ds_playoutHorizonNS :: u64
  ds_agentUtteranceID :: string
  ds_generation :: u64

definition Overlapping :: "duplex_snapshot \<Rightarrow> bool" where
  "Overlapping s = (ds_phase s = PhaseOverlap)"

definition Silent :: "duplex_snapshot \<Rightarrow> bool" where
  "Silent s = (ds_phase s = PhaseListening)"

datatype transition_kind =
    EdgeUserSpeechStarted | EdgeUserSpeechStopped | EdgeAgentAudioStarted | EdgeAgentAudioStopped

record transition =
  tn_kind :: transition_kind
  tn_atNS :: u64
  tn_before :: duplex_snapshot
  tn_after :: duplex_snapshot

definition Reason :: "transition \<Rightarrow> string" where
  "Reason t = (case tn_kind t of
      EdgeUserSpeechStopped \<Rightarrow> ''user turn ended''
    | EdgeAgentAudioStopped \<Rightarrow> ''agent playback complete''
    | EdgeUserSpeechStarted \<Rightarrow> ''user speech started''
    | EdgeAgentAudioStarted \<Rightarrow> ''agent playback started'')"

record timer =
  tm_at :: u64
  tm_delay :: u64

record 'o duplex =
  dx_state :: duplex_snapshot
  dx_timer :: "timer option"
  dx_closed :: bool
  dx_nextHandle :: u64
  dx_observers :: "(u64, 'o) gomap"

datatype duplex_error = DurationNotPositive | DuplexClosed

definition silence :: duplex_snapshot where
  "silence = \<lparr>ds_phase = PhaseListening, ds_userSpeaking = False, ds_agentSpeaking = False,
     ds_userSpeechStartedNS = 0, ds_userSpeechEndedNS = 0, ds_agentAudioStartedNS = 0,
     ds_playoutHorizonNS = 0, ds_agentUtteranceID = [], ds_generation = 0\<rparr>"

definition NewDuplex :: "'o duplex" where
  "NewDuplex = \<lparr>dx_state = silence, dx_timer = None, dx_closed = False, dx_nextHandle = 0, dx_observers = []\<rparr>"

definition derivePhase :: "duplex_snapshot \<Rightarrow> duplex_phase" where
  "derivePhase s =
     (if ds_userSpeaking s \<and> ds_agentSpeaking s then PhaseOverlap
      else if ds_userSpeaking s then PhaseUserSpeaking
      else if ds_agentSpeaking s then PhaseAgentSpeaking
      else PhaseListening)"

subsection \<open>Operations\<close>

text \<open>\<^verbatim>\<open>Observe\<close> returns the handle its removal function captures.\<close>

definition Observe :: "'o \<Rightarrow> 'o duplex \<Rightarrow> 'o duplex \<times> u64" where
  "Observe ob d = (let h = dx_nextHandle d + 1 in
     (d\<lparr>dx_nextHandle := h, dx_observers := AList.update h ob (dx_observers d)\<rparr>, h))"

definition unobserve :: "u64 \<Rightarrow> 'o duplex \<Rightarrow> 'o duplex" where
  "unobserve h d = d\<lparr>dx_observers := AList.delete h (dx_observers d)\<rparr>"

definition edge :: "transition_kind \<Rightarrow> u64 \<Rightarrow> (duplex_snapshot \<Rightarrow> duplex_snapshot option) \<Rightarrow>
    'o duplex \<Rightarrow> 'o duplex \<times> transition option" where
  "edge kind atNS apply_to d =
     (if dx_closed d then (d, None)
      else case apply_to (dx_state d) of
        None \<Rightarrow> (d, None)
      | Some changed \<Rightarrow>
          let after = changed\<lparr>ds_phase := derivePhase changed,
                              ds_generation := ds_generation (dx_state d) + 1\<rparr>;
              d' = d\<lparr>dx_state := after,
                     dx_timer := if kind = EdgeAgentAudioStopped then None else dx_timer d\<rparr>
          in (d', Some \<lparr>tn_kind = kind, tn_atNS = atNS, tn_before = dx_state d, tn_after = after\<rparr>))"

definition UserSpeechStarted :: "u64 \<Rightarrow> 'o duplex \<Rightarrow> 'o duplex \<times> transition option" where
  "UserSpeechStarted atNS = edge EdgeUserSpeechStarted atNS (\<lambda>s.
     if ds_userSpeaking s then None
     else Some (s\<lparr>ds_userSpeaking := True, ds_userSpeechStartedNS := atNS\<rparr>))"

definition UserSpeechStopped :: "u64 \<Rightarrow> 'o duplex \<Rightarrow> 'o duplex \<times> transition option" where
  "UserSpeechStopped atNS = edge EdgeUserSpeechStopped atNS (\<lambda>s.
     if \<not> ds_userSpeaking s then None
     else Some (s\<lparr>ds_userSpeaking := False, ds_userSpeechEndedNS := atNS\<rparr>))"

definition silenced :: "duplex_snapshot \<Rightarrow> duplex_snapshot" where
  "silenced s = s\<lparr>ds_agentSpeaking := False, ds_playoutHorizonNS := 0, ds_agentUtteranceID := []\<rparr>"

definition AgentAudioStopped :: "u64 \<Rightarrow> 'o duplex \<Rightarrow> 'o duplex \<times> transition option" where
  "AgentAudioStopped atNS = edge EdgeAgentAudioStopped atNS (\<lambda>s.
     if \<not> ds_agentSpeaking s then None else Some (silenced s))"

definition rearmLocked :: "u64 \<Rightarrow> 'o duplex \<Rightarrow> 'o duplex" where
  "rearmLocked now d =
     (let s = dx_state d in
      if \<not> ds_agentSpeaking s then d\<lparr>dx_timer := None\<rparr>
      else let remaining = if ds_playoutHorizonNS s > now then ds_playoutHorizonNS s - now else 0 in
        d\<lparr>dx_timer := Some \<lparr>tm_at = now, tm_delay = remaining\<rparr>\<rparr>)"

definition extend_horizon :: "u64 \<Rightarrow> u64 \<Rightarrow> u64 \<Rightarrow> u64" where
  "extend_horizon horizon now duration = (if horizon < now then now else horizon) + duration"

definition AgentAudioHandedOff :: "u64 \<Rightarrow> string \<Rightarrow> u64 \<Rightarrow> 'o duplex \<Rightarrow>
    (duplex_error, 'o duplex \<times> transition option) result" where
  "AgentAudioHandedOff now utteranceID duration d =
     (if duration \<le>s 0 then Inl DurationNotPositive
      else if dx_closed d then Inl DuplexClosed
      else
        let before = dx_state d;
            s1 = before\<lparr>ds_playoutHorizonNS := extend_horizon (ds_playoutHorizonNS before) now duration\<rparr>;
            s2 = (if utteranceID \<noteq> [] then s1\<lparr>ds_agentUtteranceID := utteranceID\<rparr> else s1)
        in if ds_agentSpeaking s2 then Inr (rearmLocked now (d\<lparr>dx_state := s2\<rparr>), None)
           else
             let s3 = s2\<lparr>ds_agentSpeaking := True, ds_agentAudioStartedNS := now\<rparr>;
                 s4 = s3\<lparr>ds_phase := derivePhase s3, ds_generation := ds_generation s3 + 1\<rparr>
             in Inr (rearmLocked now (d\<lparr>dx_state := s4\<rparr>),
                     Some \<lparr>tn_kind = EdgeAgentAudioStarted, tn_atNS = now, tn_before = before, tn_after = s4\<rparr>))"

definition Close :: "'o duplex \<Rightarrow> 'o duplex" where
  "Close d = d\<lparr>dx_closed := True, dx_timer := None\<rparr>"

definition playoutElapsed :: "u64 \<Rightarrow> 'o duplex \<Rightarrow> 'o duplex \<times> transition option" where
  "playoutElapsed now d0 =
     (let d = d0\<lparr>dx_timer := None\<rparr>; before = dx_state d in
      if dx_closed d \<or> \<not> ds_agentSpeaking before then (d, None)
      else if ds_playoutHorizonNS before > now then (rearmLocked now d, None)
      else
        let after1 = silenced before;
            after = after1\<lparr>ds_phase := derivePhase after1, ds_generation := ds_generation before + 1\<rparr>
        in (d\<lparr>dx_state := after\<rparr>,
            Some \<lparr>tn_kind = EdgeAgentAudioStopped, tn_atNS = now, tn_before = before, tn_after = after\<rparr>))"

text \<open>\<^verbatim>\<open>publish\<close> calls every registered observer once with the transition.\<close>

definition publish :: "'o duplex \<Rightarrow> transition \<Rightarrow> ('o \<times> transition) list" where
  "publish d t = map (\<lambda>(h, ob). (ob, t)) (dx_observers d)"

subsection \<open>The machine of locked sections and deliveries\<close>

datatype 'o duplex_op =
    OpUserSpeechStarted u64 | OpUserSpeechStopped u64 | OpAgentAudioStopped u64
  | OpAgentAudioHandedOff u64 string u64 | OpPlayoutElapsed u64 | OpClose
  | OpObserve 'o | OpUnobserve u64

fun exec :: "'o duplex_op \<Rightarrow> 'o duplex \<Rightarrow> 'o duplex \<times> transition option" where
  "exec (OpUserSpeechStarted n) d = UserSpeechStarted n d"
| "exec (OpUserSpeechStopped n) d = UserSpeechStopped n d"
| "exec (OpAgentAudioStopped n) d = AgentAudioStopped n d"
| "exec (OpAgentAudioHandedOff n u dur) d =
     (case AgentAudioHandedOff n u dur d of Inl e \<Rightarrow> (d, None) | Inr r \<Rightarrow> r)"
| "exec (OpPlayoutElapsed n) d = playoutElapsed n d"
| "exec OpClose d = (Close d, None)"
| "exec (OpObserve ob) d = (fst (Observe ob d), None)"
| "exec (OpUnobserve h) d = (unobserve h d, None)"

text \<open>
  A configuration adds to the duplex the transitions in the order of their locked sections, those
  whose \<^verbatim>\<open>publish\<close> has not run yet, and those already published, with the calls the observers got.
\<close>

record 'o config =
  cf_duplex :: "'o duplex"
  cf_committed :: "transition list"
  cf_inflight :: "transition list"
  cf_published :: "transition list"
  cf_calls :: "('o \<times> transition) list"

definition initial_config :: "'o config" where
  "initial_config =
     \<lparr>cf_duplex = NewDuplex, cf_committed = [], cf_inflight = [], cf_published = [], cf_calls = []\<rparr>"

inductive duplex_step :: "'o config \<Rightarrow> 'o config \<Rightarrow> bool" where
  locked: "exec op (cf_duplex c) = (d, r) \<Longrightarrow>
     duplex_step c (c\<lparr>cf_duplex := d, cf_committed := cf_committed c @ (case r of None \<Rightarrow> [] | Some t \<Rightarrow> [t]),
                      cf_inflight := cf_inflight c @ (case r of None \<Rightarrow> [] | Some t \<Rightarrow> [t])\<rparr>)"
| delivered: "cf_inflight c = early @ t # late \<Longrightarrow>
     duplex_step c (c\<lparr>cf_inflight := early @ late, cf_published := cf_published c @ [t],
                      cf_calls := cf_calls c @ publish (cf_duplex c) t\<rparr>)"

inductive_cases duplex_stepE: "duplex_step c c'"


subsection \<open>What every locked section keeps\<close>

lemmas duplex_op_defs = UserSpeechStarted_def UserSpeechStopped_def AgentAudioStopped_def edge_def silenced_def
  rearmLocked_def AgentAudioHandedOff_def Close_def playoutElapsed_def Observe_def unobserve_def Let_def

text \<open>The stored timer is armed for the end of the audio handed to the client.\<close>

fun timer_covers :: "timer option \<Rightarrow> u64 \<Rightarrow> bool" where
  "timer_covers None horizon = False"
| "timer_covers (Some t) horizon =
     (if horizon > tm_at t then tm_at t + tm_delay t = horizon else tm_delay t = 0)"

definition duplex_ok :: "'o duplex \<Rightarrow> bool" where
  "duplex_ok d =
     (let s = dx_state d in
      ds_phase s = derivePhase s \<and>
      (ds_agentSpeaking s \<or> ds_playoutHorizonNS s = 0 \<and> ds_agentUtteranceID s = [] \<and> dx_timer d = None) \<and>
      (if dx_closed d then dx_timer d = None
       else ds_agentSpeaking s \<longrightarrow> timer_covers (dx_timer d) (ds_playoutHorizonNS s)))"

lemma derivePhase_cong:
  "ds_userSpeaking s = ds_userSpeaking t \<Longrightarrow> ds_agentSpeaking s = ds_agentSpeaking t \<Longrightarrow>
   derivePhase s = derivePhase t"
  by (simp add: derivePhase_def)

lemma exec_fst_ok: "duplex_ok d \<Longrightarrow> duplex_ok (fst (exec op d))"
  by (cases op; cases "ds_agentSpeaking (dx_state d)"; cases "dx_closed d")
    (simp_all add: duplex_op_defs duplex_ok_def derivePhase_def)

lemma exec_keeps_ok: "exec op d = (d', r) \<Longrightarrow> duplex_ok d \<Longrightarrow> duplex_ok d'"
  using exec_fst_ok [of d op] by simp

text \<open>
  What one locked section may publish: an edge of the stated kind, between the state before and
  the state after, whose generation is one higher.
\<close>

fun edge_facts :: "transition_kind \<Rightarrow> duplex_snapshot \<Rightarrow> duplex_snapshot \<Rightarrow> bool" where
  "edge_facts EdgeUserSpeechStarted b a =
     (\<not> ds_userSpeaking b \<and> ds_userSpeaking a \<and> ds_agentSpeaking a = ds_agentSpeaking b)"
| "edge_facts EdgeUserSpeechStopped b a =
     (ds_userSpeaking b \<and> \<not> ds_userSpeaking a \<and> ds_agentSpeaking a = ds_agentSpeaking b)"
| "edge_facts EdgeAgentAudioStarted b a =
     (\<not> ds_agentSpeaking b \<and> ds_agentSpeaking a \<and> ds_userSpeaking a = ds_userSpeaking b)"
| "edge_facts EdgeAgentAudioStopped b a =
     (ds_agentSpeaking b \<and> \<not> ds_agentSpeaking a \<and> ds_userSpeaking a = ds_userSpeaking b)"

definition edge_ok :: "transition \<Rightarrow> bool" where
  "edge_ok t = (let b = tn_before t; a = tn_after t in
     edge_facts (tn_kind t) b a \<and> ds_generation a = ds_generation b + 1
     \<and> ds_phase b = derivePhase b \<and> ds_phase a = derivePhase a \<and> ds_phase a \<noteq> ds_phase b)"

text \<open>The two facts and the generation agree. Audio handed off in between may extend the horizon.\<close>

definition same_facts :: "duplex_snapshot \<Rightarrow> duplex_snapshot \<Rightarrow> bool" where
  "same_facts s t = (ds_phase s = ds_phase t \<and> ds_userSpeaking s = ds_userSpeaking t
     \<and> ds_agentSpeaking s = ds_agentSpeaking t \<and> ds_generation s = ds_generation t
     \<and> ds_userSpeechStartedNS s = ds_userSpeechStartedNS t \<and> ds_userSpeechEndedNS s = ds_userSpeechEndedNS t
     \<and> ds_agentAudioStartedNS s = ds_agentAudioStartedNS t)"

lemma same_facts_refl [simp]: "same_facts s s"
  by (simp add: same_facts_def)

lemma same_facts_trans: "same_facts s t \<Longrightarrow> same_facts t u \<Longrightarrow> same_facts s u"
  by (simp add: same_facts_def)

lemma exec_outcome:
  "case snd (exec op d) of
     None \<Rightarrow> same_facts (dx_state d) (dx_state (fst (exec op d)))
   | Some t \<Rightarrow> tn_before t = dx_state d \<and> tn_after t = dx_state (fst (exec op d))
       \<and> (ds_phase (dx_state d) = derivePhase (dx_state d) \<longrightarrow> edge_ok t)"
  by (cases op; cases "ds_agentSpeaking (dx_state d)"; cases "ds_userSpeaking (dx_state d)"; cases "dx_closed d")
    (simp_all add: duplex_op_defs same_facts_def edge_ok_def derivePhase_def)

lemma exec_silent: "exec op d = (d', None) \<Longrightarrow> same_facts (dx_state d) (dx_state d')"
  using exec_outcome [of d op] by simp

lemma exec_edge:
  assumes "exec op d = (d', Some t)" and "duplex_ok d"
  shows "edge_ok t \<and> tn_before t = dx_state d \<and> tn_after t = dx_state d'"
  using exec_outcome [of d op] assms by (simp add: duplex_ok_def Let_def)

lemma exec_closed:
  "dx_closed d \<Longrightarrow> snd (exec op d) = None \<and> dx_closed (fst (exec op d)) \<and> dx_state (fst (exec op d)) = dx_state d"
  by (cases op) (simp_all add: duplex_op_defs)

subsection \<open>Runs\<close>

fun chain :: "duplex_snapshot \<Rightarrow> transition list \<Rightarrow> duplex_snapshot \<Rightarrow> bool" where
  "chain s [] s' = same_facts s s'"
| "chain s (t # ts) s' = (same_facts s (tn_before t) \<and> edge_ok t \<and> chain (tn_after t) ts s')"

lemma chain_same: "chain s ts u \<Longrightarrow> same_facts u v \<Longrightarrow> chain s ts v"
  by (induction ts arbitrary: s) (auto intro: same_facts_trans)

lemma chain_snoc:
  "chain s ts u \<Longrightarrow> edge_ok t \<Longrightarrow> tn_before t = u \<Longrightarrow> chain s (ts @ [t]) (tn_after t)"
  by (induction ts arbitrary: s) auto

lemma chain_generation: "chain s ts u \<Longrightarrow> ds_generation u = ds_generation s + of_nat (length ts)"
  by (induction ts arbitrary: s) (auto simp: same_facts_def edge_ok_def Let_def)

lemma chain_all_edges: "chain s ts u \<Longrightarrow> list_all edge_ok ts"
  by (induction ts arbitrary: s) auto

definition config_ok :: "'o config \<Rightarrow> bool" where
  "config_ok c = (duplex_ok (cf_duplex c)
     \<and> chain silence (cf_committed c) (dx_state (cf_duplex c))
     \<and> mset (cf_committed c) = mset (cf_inflight c) + mset (cf_published c))"

abbreviation duplex_run :: "'o config \<Rightarrow> bool" where
  "duplex_run c \<equiv> duplex_step\<^sup>*\<^sup>* initial_config c"

lemma initial_config_ok: "config_ok initial_config"
  by (simp add: config_ok_def initial_config_def NewDuplex_def silence_def duplex_ok_def derivePhase_def)

lemma step_keeps_config:
  assumes "duplex_step c c'" and "config_ok c"
  shows "config_ok c'"
  using assms(1)
proof cases
  case (locked op d r)
  have ok: "duplex_ok (cf_duplex c)" and ch: "chain silence (cf_committed c) (dx_state (cf_duplex c))"
    using assms(2) by (auto simp: config_ok_def)
  have d: "duplex_ok d" by (rule exec_keeps_ok [OF locked(2) ok])
  show ?thesis
  proof (cases r)
    case None
    with locked have "same_facts (dx_state (cf_duplex c)) (dx_state d)" by (auto intro: exec_silent)
    with locked None d assms(2) show ?thesis by (auto simp: config_ok_def intro: chain_same)
  next
    case (Some t)
    have t: "edge_ok t \<and> tn_before t = dx_state (cf_duplex c) \<and> tn_after t = dx_state d"
      by (rule exec_edge [OF locked(2) [unfolded Some] ok])
    then have "chain silence (cf_committed c @ [t]) (dx_state d)" using chain_snoc [OF ch] by metis
    with locked Some d assms(2) show ?thesis by (simp add: config_ok_def)
  qed
next
  case (delivered early t late)
  with assms(2) show ?thesis by (simp add: config_ok_def)
qed

interpretation duplex_runs: stable duplex_step config_ok
  by unfold_locales (rule step_keeps_config)

lemma run_config_ok: "duplex_run c \<Longrightarrow> config_ok c"
  using duplex_runs.run_keeps initial_config_ok by blast

subsection \<open>Scripted runs\<close>

text \<open>An interleaving written out: locked sections, and deliveries by their position among those in flight.\<close>

datatype 'o act = Perform "'o duplex_op" | Deliver nat

definition perform1 :: "'o act \<Rightarrow> 'o config \<Rightarrow> 'o config" where
  "perform1 a c = (case a of
      Perform op \<Rightarrow> (case exec op (cf_duplex c) of (d, r) \<Rightarrow>
        c\<lparr>cf_duplex := d, cf_committed := cf_committed c @ (case r of None \<Rightarrow> [] | Some t \<Rightarrow> [t]),
          cf_inflight := cf_inflight c @ (case r of None \<Rightarrow> [] | Some t \<Rightarrow> [t])\<rparr>)
    | Deliver i \<Rightarrow>
        (if i < length (cf_inflight c)
         then c\<lparr>cf_inflight := take i (cf_inflight c) @ drop (Suc i) (cf_inflight c),
                cf_published := cf_published c @ [cf_inflight c ! i],
                cf_calls := cf_calls c @ publish (cf_duplex c) (cf_inflight c ! i)\<rparr>
         else c))"

lemma perform1_step: "duplex_step\<^sup>*\<^sup>* c (perform1 a c)"
proof (cases a)
  case (Perform op)
  obtain d r where e: "exec op (cf_duplex c) = (d, r)" by force
  with locked [OF e] Perform show ?thesis by (simp add: perform1_def r_into_rtranclp)
next
  case (Deliver i)
  show ?thesis
  proof (cases "i < length (cf_inflight c)")
    case True
    have "duplex_step c (perform1 a c)"
      using delivered [OF id_take_nth_drop [OF True]] True Deliver by (simp add: perform1_def)
    then show ?thesis by (rule r_into_rtranclp)
  qed (simp add: Deliver perform1_def)
qed

definition perform :: "'o act list \<Rightarrow> 'o config" where
  "perform acts = fold perform1 acts initial_config"

lemma fold_perform1_steps: "duplex_step\<^sup>*\<^sup>* c (fold perform1 acts c)"
  by (induction acts arbitrary: c) (auto intro: rtranclp_trans perform1_step)

lemma perform_run: "duplex_run (perform acts)"
  by (simp add: perform_def fold_perform1_steps)

subsection \<open>Properties\<close>

text \<open>
  C7. In every reachable configuration the phase is the one derived from the two facts, the agent
  is silent exactly when no horizon, utterance or timer is left over, and while agent audio is
  reaching the user of an open session a timer is armed for the end of that audio, whatever
  stale timer callbacks ran before. Without the last part an agent that finishes while the user
  is silent would stay in the agent-speaking phase forever.
\<close>

theorem duplex_state_invariant:
  assumes "duplex_run c"
  shows "ds_phase (dx_state (cf_duplex c)) = derivePhase (dx_state (cf_duplex c))
    \<and> (ds_agentSpeaking (dx_state (cf_duplex c)) \<or> ds_playoutHorizonNS (dx_state (cf_duplex c)) = 0
        \<and> ds_agentUtteranceID (dx_state (cf_duplex c)) = [] \<and> dx_timer (cf_duplex c) = None)
    \<and> (if dx_closed (cf_duplex c) then dx_timer (cf_duplex c) = None
       else ds_agentSpeaking (dx_state (cf_duplex c)) \<longrightarrow>
         timer_covers (dx_timer (cf_duplex c)) (ds_playoutHorizonNS (dx_state (cf_duplex c))))"
  using run_config_ok [OF assms] by (simp add: config_ok_def duplex_ok_def Let_def)

text \<open>
  The transitions, in the order of their locked sections, form a chain from the initial state
  to the current one: each is an edge of its kind that changes exactly the fact it names and the
  phase, starts where the one before it ended, and raises the generation by one, so the generation
  counts the transitions. Each transition is published at most once and none is lost: those
  committed are those published and those in flight.
\<close>

theorem transitions_form_a_chain:
  assumes "duplex_run c"
  shows "chain silence (cf_committed c) (dx_state (cf_duplex c))
    \<and> ds_generation (dx_state (cf_duplex c)) = of_nat (length (cf_committed c))
    \<and> mset (cf_committed c) = mset (cf_inflight c) + mset (cf_published c)"
  using run_config_ok [OF assms] chain_generation [of silence "cf_committed c" "dx_state (cf_duplex c)"]
  by (simp add: config_ok_def silence_def)

lemma armed_timer_ends_playback:
  assumes "duplex_run c" and "\<not> dx_closed (cf_duplex c)" and "ds_agentSpeaking (dx_state (cf_duplex c))"
  shows "\<exists>tm. dx_timer (cf_duplex c) = Some tm
    \<and> (\<forall>now. tm_at tm + tm_delay tm \<le> now \<longrightarrow>
         (\<exists>d t. playoutElapsed now (cf_duplex c) = (d, Some t) \<and> tn_kind t = EdgeAgentAudioStopped
           \<and> tn_after t = dx_state d \<and> \<not> ds_agentSpeaking (dx_state d) \<and> dx_timer d = None
           \<and> ds_userSpeaking (dx_state d) = ds_userSpeaking (dx_state (cf_duplex c))
           \<and> (Silent (dx_state d) \<longleftrightarrow> \<not> ds_userSpeaking (dx_state (cf_duplex c)))))"
proof -
  obtain tm where tm: "dx_timer (cf_duplex c) = Some tm"
    "if ds_playoutHorizonNS (dx_state (cf_duplex c)) > tm_at tm
     then tm_at tm + tm_delay tm = ds_playoutHorizonNS (dx_state (cf_duplex c)) else tm_delay tm = 0"
    using run_config_ok [OF assms(1)] assms(2,3)
    by (cases "dx_timer (cf_duplex c)") (simp_all add: config_ok_def duplex_ok_def Let_def)
  have le: "ds_playoutHorizonNS (dx_state (cf_duplex c)) \<le> now" if "tm_at tm + tm_delay tm \<le> now" for now
    using tm(2) that by (auto split: if_splits)
  have "\<exists>d t. playoutElapsed now (cf_duplex c) = (d, Some t) \<and> tn_kind t = EdgeAgentAudioStopped
           \<and> tn_after t = dx_state d \<and> \<not> ds_agentSpeaking (dx_state d) \<and> dx_timer d = None
           \<and> ds_userSpeaking (dx_state d) = ds_userSpeaking (dx_state (cf_duplex c))
           \<and> (Silent (dx_state d) \<longleftrightarrow> \<not> ds_userSpeaking (dx_state (cf_duplex c)))"
    if "tm_at tm + tm_delay tm \<le> now" for now
    using assms(2,3) leD [OF le [OF that]]
    by (simp add: playoutElapsed_def silenced_def derivePhase_def Silent_def Let_def)
  with tm(1) show ?thesis by (intro exI [of _ tm]) simp
qed

text \<open>
  C33. Playback ends. While an open session is speaking, a timer is stored, and when its callback
  runs at or after its deadline the agent stops speaking, the horizon and the timer are cleared
  and the transition that waiting work listens for is produced; a callback that runs before the
  horizon, because more audio arrived, keeps the state and arms a timer for the rest.
\<close>

theorem playout_timer_ends_playback:
  assumes "duplex_run c" and "\<not> dx_closed (cf_duplex c)" and "ds_agentSpeaking (dx_state (cf_duplex c))"
  shows "\<exists>tm. dx_timer (cf_duplex c) = Some tm
    \<and> (\<forall>now. tm_at tm + tm_delay tm \<le> now \<longrightarrow>
         (\<exists>d t. playoutElapsed now (cf_duplex c) = (d, Some t) \<and> tn_kind t = EdgeAgentAudioStopped
           \<and> tn_after t = dx_state d \<and> \<not> ds_agentSpeaking (dx_state d) \<and> dx_timer d = None
           \<and> (Silent (dx_state d) \<longleftrightarrow> \<not> ds_userSpeaking (dx_state (cf_duplex c)))))
    \<and> (\<forall>now. now < ds_playoutHorizonNS (dx_state (cf_duplex c)) \<longrightarrow>
         playoutElapsed now (cf_duplex c) = (cf_duplex c\<lparr>dx_timer :=
           Some \<lparr>tm_at = now, tm_delay = ds_playoutHorizonNS (dx_state (cf_duplex c)) - now\<rparr>\<rparr>, None))"
proof -
  have "playoutElapsed now (cf_duplex c) = (cf_duplex c\<lparr>dx_timer :=
      Some \<lparr>tm_at = now, tm_delay = ds_playoutHorizonNS (dx_state (cf_duplex c)) - now\<rparr>\<rparr>, None)"
    if "now < ds_playoutHorizonNS (dx_state (cf_duplex c))" for now
    using that assms(2,3) by (simp add: playoutElapsed_def rearmLocked_def Let_def)
  with armed_timer_ends_playback [OF assms] show ?thesis by blast
qed

fun hand_off_all :: "(u64 \<times> string \<times> u64) list \<Rightarrow> 'o duplex \<Rightarrow> 'o duplex" where
  "hand_off_all [] d = d"
| "hand_off_all ((now, u, dur) # hs) d = hand_off_all hs (fst (exec (OpAgentAudioHandedOff now u dur) d))"

fun gapless :: "u64 \<Rightarrow> (u64 \<times> string \<times> u64) list \<Rightarrow> bool" where
  "gapless horizon [] = True"
| "gapless horizon ((now, u, dur) # hs) = (now \<le> horizon \<and> 0 <s dur \<and> gapless (horizon + dur) hs)"

lemma hand_off_speaking:
  "gapless (ds_playoutHorizonNS (dx_state d)) hs \<Longrightarrow> \<not> dx_closed d \<Longrightarrow> ds_agentSpeaking (dx_state d) \<Longrightarrow>
   ds_agentSpeaking (dx_state (hand_off_all hs d)) \<and>
   ds_playoutHorizonNS (dx_state (hand_off_all hs d)) =
     ds_playoutHorizonNS (dx_state d) + (\<Sum>(now, u, dur) \<leftarrow> hs. dur)"
proof (induction hs arbitrary: d)
  case (Cons h hs)
  obtain now u dur where h: "h = (now, u, dur)" by (cases h)
  let ?d = "fst (exec (OpAgentAudioHandedOff now u dur) d)"
  have d: "\<not> dur \<le>s 0" "\<not> ds_playoutHorizonNS (dx_state d) < now"
    using Cons.prems(1) by (auto simp: h word_sle_eq word_sless_alt)
  have e: "ds_playoutHorizonNS (dx_state ?d) = ds_playoutHorizonNS (dx_state d) + dur"
    "\<not> dx_closed ?d" "ds_agentSpeaking (dx_state ?d)"
    using d Cons.prems(2,3) by (simp_all add: AgentAudioHandedOff_def rearmLocked_def extend_horizon_def Let_def)
  show ?case using Cons.IH [of ?d] Cons.prems(1) e by (simp add: h add.assoc)
qed simp

text \<open>
  The playout horizon is the end of the audio. When a silent agent's audio is handed off in
  pieces, each before the pieces so far have played, the horizon is the time of the first handoff
  plus the sum of the durations (in 64-bit arithmetic, as in the code) and the agent is speaking.
\<close>

theorem horizon_is_end_of_audio:
  assumes "duplex_run c" and "\<not> dx_closed (cf_duplex c)" and "\<not> ds_agentSpeaking (dx_state (cf_duplex c))"
    and "0 <s dur" and "gapless (now + dur) hs"
  shows "ds_agentSpeaking (dx_state (hand_off_all ((now, u, dur) # hs) (cf_duplex c)))
    \<and> ds_playoutHorizonNS (dx_state (hand_off_all ((now, u, dur) # hs) (cf_duplex c)))
        = now + dur + (\<Sum>(now, u, dur) \<leftarrow> hs. dur)"
proof -
  let ?d = "fst (exec (OpAgentAudioHandedOff now u dur) (cf_duplex c))"
  have z: "ds_playoutHorizonNS (dx_state (cf_duplex c)) = 0"
    using run_config_ok [OF assms(1)] assms(3) by (simp add: config_ok_def duplex_ok_def Let_def)
  have d: "\<not> dur \<le>s 0" using assms(4) by (auto simp: word_sle_eq word_sless_alt)
  have "ds_playoutHorizonNS (dx_state ?d) = now + dur" "\<not> dx_closed ?d" "ds_agentSpeaking (dx_state ?d)"
    using d z assms(2,3)
    by (simp_all add: AgentAudioHandedOff_def rearmLocked_def extend_horizon_def Let_def word_gt_0)
  then show ?thesis using hand_off_speaking [of ?d hs] assms(5) by simp
qed

text \<open>
  A closed session is silent: no operation of a closed duplex changes its state, reopens it,
  arms a timer or produces a transition, stale timer callbacks included.
\<close>

theorem closed_duplex_is_inert:
  "snd (exec op (Close d)) = None \<and> dx_state (fst (exec op (Close d))) = dx_state d
   \<and> dx_closed (fst (exec op (Close d))) \<and> dx_timer (fst (exec op (Close d))) = None"
  using exec_closed [of "Close d" op] by (cases op) (simp_all add: duplex_op_defs)

definition overtaking :: "string config" where
  "overtaking = perform [Perform (OpObserve ''gate''), Perform (OpUserSpeechStarted 5), Perform (OpUserSpeechStopped 9),
     Deliver 1, Deliver 0]"

lemma overtaking_eval:
  "map (ds_generation \<circ> tn_after) (cf_committed overtaking) = [1, 2]"
  "map (\<lambda>(ob, t). (ob, ds_generation (tn_after t))) (cf_calls overtaking) = [(''gate'', 2), (''gate'', 1)]"
  by code_simp+

text \<open>
  Delivery order. The transitions are published after the lock was released, so two goroutines
  can deliver theirs in the other order: an observer may see the second generation before the
  first, although the state went through them in order.
\<close>

theorem deliveries_may_overtake:
  "\<exists>c :: string config. duplex_run c
     \<and> map (ds_generation \<circ> tn_after) (cf_committed c) = [1, 2]
     \<and> map (\<lambda>(ob, t). (ob, ds_generation (tn_after t))) (cf_calls c) = [(''gate'', 2), (''gate'', 1)]"
proof -
  have "duplex_run overtaking" by (simp add: overtaking_def perform_run)
  with overtaking_eval show ?thesis by (intro exI [of _ overtaking]) simp
qed

subsection \<open>A conversation\<close>

text \<open>Audio of two pieces is handed off, a stale callback runs, and the user speaks over the agent.\<close>

definition speaking_config :: "string config" where
  "speaking_config = perform [Perform (OpObserve ''gate''), Perform (OpAgentAudioHandedOff 100 ''u1'' 50),
     Perform (OpAgentAudioHandedOff 120 [] 30), Perform (OpPlayoutElapsed 150), Deliver 0,
     Perform (OpUserSpeechStarted 160)]"

lemma speaking_config_run: "duplex_run speaking_config"
  by (simp add: speaking_config_def perform_run)

lemma speaking_config_eval:
  "ds_agentSpeaking (dx_state (cf_duplex speaking_config)) = True"
  "ds_phase (dx_state (cf_duplex speaking_config)) = PhaseOverlap"
  "ds_playoutHorizonNS (dx_state (cf_duplex speaking_config)) = 180"
  "dx_closed (cf_duplex speaking_config) = False"
  "map tn_kind (cf_committed speaking_config) = [EdgeAgentAudioStarted, EdgeUserSpeechStarted]"
  "map tn_kind (cf_published speaking_config) = [EdgeAgentAudioStarted]"
  by code_simp+

theorem duplex_state_invariant_witness:
  "\<exists>tm. dx_timer (cf_duplex speaking_config) = Some tm \<and> timer_covers (Some tm) 180"
  using duplex_state_invariant [OF speaking_config_run] speaking_config_eval
  by (cases "dx_timer (cf_duplex speaking_config)") simp_all

theorem transitions_form_a_chain_witness:
  "ds_generation (dx_state (cf_duplex speaking_config)) = 2 \<and> size (mset (cf_inflight speaking_config)) = 1"
proof -
  have l: "length (cf_committed speaking_config) = 2" "length (cf_published speaking_config) = 1"
    using speaking_config_eval(5,6) by (metis length_map list.size(3,4) One_nat_def numeral_2_eq_2 add.right_neutral add_Suc_right)+
  from transitions_form_a_chain [OF speaking_config_run]
  have g: "ds_generation (dx_state (cf_duplex speaking_config)) = of_nat (length (cf_committed speaking_config))"
    and m: "mset (cf_committed speaking_config) = mset (cf_inflight speaking_config) + mset (cf_published speaking_config)"
    by blast+
  from arg_cong [OF m, of size] l g show ?thesis by simp
qed

theorem playout_timer_ends_playback_witness:
  "\<exists>d t. playoutElapsed 180 (cf_duplex speaking_config) = (d, Some t) \<and> \<not> ds_agentSpeaking (dx_state d)
     \<and> tn_kind t = EdgeAgentAudioStopped \<and> \<not> Silent (dx_state d)"
proof -
  have u: "ds_userSpeaking (dx_state (cf_duplex speaking_config)) = True" by code_simp
  have t: "dx_timer (cf_duplex speaking_config) = Some \<lparr>tm_at = 150, tm_delay = 30\<rparr>" by code_simp
  from playout_timer_ends_playback [OF speaking_config_run] speaking_config_eval(1,4) obtain tm where
    tm: "dx_timer (cf_duplex speaking_config) = Some tm"
    "tm_at tm + tm_delay tm \<le> 180 \<longrightarrow> (\<exists>d t. playoutElapsed 180 (cf_duplex speaking_config) = (d, Some t) \<and> tn_kind t = EdgeAgentAudioStopped
           \<and> tn_after t = dx_state d \<and> \<not> ds_agentSpeaking (dx_state d) \<and> dx_timer d = None
           \<and> (Silent (dx_state d) \<longleftrightarrow> \<not> ds_userSpeaking (dx_state (cf_duplex speaking_config))))"
    by blast
  from tm(1) t have "tm = \<lparr>tm_at = 150, tm_delay = 30\<rparr>" by simp
  then have "tm_at tm + tm_delay tm \<le> 180" by simp
  with tm(2) u show ?thesis by blast
qed

theorem horizon_is_end_of_audio_witness:
  "ds_playoutHorizonNS (dx_state (hand_off_all [(100, ''u1'', 50), (120, [], 30)] (cf_duplex (initial_config :: string config)))) = 180"
proof -
  have i: "\<not> dx_closed (cf_duplex (initial_config :: string config))"
    "\<not> ds_agentSpeaking (dx_state (cf_duplex (initial_config :: string config)))"
    by (simp_all add: initial_config_def NewDuplex_def silence_def)
  have g: "0 <s (50 :: u64)" "gapless (100 + 50) [(120, [], 30)]" by code_simp+
  from horizon_is_end_of_audio [OF rtranclp.rtrancl_refl i g, of "''u1''"] show ?thesis by simp
qed

end
