(* ===== verification/Durations.thy ===== *)
theory Durations
  imports Duplex "HOL-Library.Signed_Division"
begin

section \<open>Signed durations\<close>

text \<open>
  Go's \<^verbatim>\<open>time.Duration\<close> is a signed 64-bit number of nanoseconds, which the code converts to and from
  \<^verbatim>\<open>uint64\<close>. The model keeps the word and reads it as signed where the code compares durations. This
  theory relates the two readings, and holds the idiom of a configured duration with a default.
\<close>

definition default_duration :: "u64 \<Rightarrow> u64 \<Rightarrow> u64" where
  "default_duration d v = (if v \<le>s 0 then d else v)"

text \<open>\<^verbatim>\<open>Milliseconds()\<close> of a duration truncates.\<close>

definition Milliseconds :: "u64 \<Rightarrow> u64" where
  "Milliseconds d = of_int (sint d sdiv 1000000)"

lemma uint_word64_range: "0 \<le> uint (d :: u64)" "uint (d :: u64) < 2 ^ 64"
  using uint_lt2p [of d] by simp_all

lemma sint_word64: "sint (d :: u64) = (if uint d < 2 ^ 63 then uint d else uint d - 2 ^ 64)"
proof -
  have "sint d = (uint d + 2 ^ 63) mod 2 ^ 64 - 2 ^ 63"
    by (simp add: sint_uint signed_take_bit_eq_take_bit_shift take_bit_eq_mod)
  moreover have "(uint d + 2 ^ 63) mod 2 ^ 64 = (if uint d < 2 ^ 63 then uint d + 2 ^ 63 else uint d - 2 ^ 63)"
    using uint_word64_range [of d] mod_pos_pos_trivial [of "uint d + 2 ^ 63" "2 ^ 64"]
      mod_pos_pos_trivial [of "uint d - 2 ^ 63" "2 ^ 64"] mod_add_self2 [of "uint d - 2 ^ 63" "2 ^ 64"]
    by (auto simp: algebra_simps)
  ultimately show ?thesis by simp
qed

lemma unat_below_sign: "unat (d :: u64) < 2 ^ 63 \<longleftrightarrow> uint d < 2 ^ 63"
  unfolding unat_eq_nat_uint nat_less_iff [OF uint_word64_range(1)] by simp

lemma positive_duration: "0 <s (d :: u64) \<longleftrightarrow> 0 < unat d \<and> unat d < 2 ^ 63"
proof -
  have "0 < unat d \<longleftrightarrow> 0 < uint d" unfolding unat_eq_nat_uint by (simp only: zero_less_nat_eq)
  then show ?thesis
    using uint_word64_range [of d] unfolding unat_below_sign word_sless_alt sint_word64 [of d] by simp
qed

lemma duration_order:
  assumes "unat (a :: u64) < 2 ^ 63" and "unat (b :: u64) < 2 ^ 63"
  shows "a <s b \<longleftrightarrow> a < b" "a \<le>s b \<longleftrightarrow> a \<le> b"
  using assms unfolding unat_below_sign word_sless_alt word_sle_eq sint_word64 word_less_def word_le_def
  by simp_all

lemma default_duration_positive: "0 <s d \<Longrightarrow> 0 <s default_duration d v"
  by (simp add: default_duration_def word_sless_alt word_sle_eq)

lemma unat_word64_less [simp]: "unat (d :: u64) < 2 ^ 64"
  using unsigned_less [of d] by simp

lemma unat_add_word64: "unat (a :: u64) + unat b < 2 ^ 64 \<Longrightarrow> unat (a + b) = unat a + unat b"
  by (simp add: unat_word_ariths)

end
