(* ===== verification/Media.thy ===== *)
theory Media
  imports Trajectory Durations "HOL-Library.Sublist"
begin

section \<open>Retained attachments\<close>

text \<open>
  \<^verbatim>\<open>session/media.go\<close>: the store that keeps attachment bytes outside the trajectory, under bounds on
  their number, their size and their age. The state is the record of the store's fields; each
  operation is atomic, as the store's lock makes it, and takes the readings of the clock it makes as
  arguments, in the order it makes them. Go's \<^verbatim>\<open>int\<close> counts bytes in memory and is an integer here; instants
  and durations are 64-bit words, so the expiry comparison wraps as it does in the code.
  The eviction loop has no measure of its own, since it relies on the store's invariant to make
  progress; it is a partial function, and the lemmas prove that it returns.
\<close>

subsection \<open>State\<close>

type_synonym payload = string

record media_data =
  md_ref :: media_ref
  md_bytes :: payload

record media_config =
  mc_maxItems :: int
  mc_maxBytes :: int
  mc_window :: u64

record media_entry =
  mn_media :: media_data
  mn_retainedNS :: u64

record media_store =
  mo_config :: media_config
  mo_order :: "string list"
  mo_entries :: "(string, media_entry) gomap"
  mo_bytes :: int
  mo_sequence :: u64
  mo_retained :: u64
  mo_evicted :: u64
  mo_misses :: u64

datatype media_error =
  MediaNegativeBounds | MediaEmpty | MediaNoMIMEType | MediaTooLarge int int | MediaDuplicateHandle string
| MediaExpired string

definition NewMediaStore :: "media_config \<Rightarrow> media_error + media_store" where
  "NewMediaStore cfg =
     (if mc_maxItems cfg < 0 \<or> mc_maxBytes cfg < 0 \<or> mc_window cfg <s 0 then Inl MediaNegativeBounds
      else Inr \<lparr>mo_config = cfg\<lparr>mc_maxItems := (if mc_maxItems cfg = 0 then 32 else mc_maxItems cfg),
                              mc_maxBytes := (if mc_maxBytes cfg = 0 then 64 * 2 ^ 20 else mc_maxBytes cfg)\<rparr>,
                mo_order = [], mo_entries = [], mo_bytes = 0, mo_sequence = 0,
                mo_retained = 0, mo_evicted = 0, mo_misses = 0\<rparr>)"

subsection \<open>Eviction\<close>

definition size_of :: "media_entry \<Rightarrow> int" where
  "size_of e = int (length (md_bytes (mn_media e)))"

definition removeLocked :: "string \<Rightarrow> media_store \<Rightarrow> media_store" where
  "removeLocked handle st =
     (case map_of (mo_entries st) handle of
        None \<Rightarrow> st
      | Some e \<Rightarrow> st\<lparr>mo_entries := AList.delete handle (mo_entries st), mo_bytes := mo_bytes st - size_of e,
                     mo_order := remove1 handle (mo_order st), mo_evicted := mo_evicted st + 1\<rparr>)"

text \<open>The expiry loop drops the head of the order at each turn.\<close>

function expire_loop :: "u64 \<Rightarrow> u64 \<Rightarrow> media_store \<Rightarrow> media_store" where
  "expire_loop now window st =
     (case mo_order st of
        [] \<Rightarrow> st
      | h # rest \<Rightarrow>
          (case map_of (mo_entries st) h of
             None \<Rightarrow> expire_loop now window (st\<lparr>mo_order := rest\<rparr>)
           | Some e \<Rightarrow> if now < mn_retainedNS e + window then st else expire_loop now window (removeLocked h st)))"
  by pat_completeness auto
termination
  by (relation "measure (\<lambda>(now, window, st). length (mo_order st))") (auto simp: removeLocked_def)

declare expire_loop.simps [simp del]

definition expireLocked :: "u64 \<Rightarrow> media_store \<Rightarrow> media_store" where
  "expireLocked now st =
     (if mc_window (mo_config st) \<le>s 0 then st else expire_loop now (mc_window (mo_config st)) st)"

definition over_bound :: "media_store \<Rightarrow> bool" where
  "over_bound st \<longleftrightarrow> int (length (mo_order st)) > mc_maxItems (mo_config st) \<or>
     (mc_maxBytes (mo_config st) > 0 \<and> mo_bytes st > mc_maxBytes (mo_config st))"

partial_function (option) evict_loop :: "media_store \<Rightarrow> media_store option" where
  "evict_loop st =
     (if \<not> over_bound st then Some st
      else case mo_order st of [] \<Rightarrow> Some st | h # rest \<Rightarrow> evict_loop (removeLocked h st))"

declare evict_loop.simps [code]

definition evictLocked :: "u64 \<Rightarrow> media_store \<Rightarrow> media_store option" where
  "evictLocked now st = evict_loop (expireLocked now st)"

subsection \<open>Operations\<close>

text \<open>\<^verbatim>\<open>strconv.FormatUint\<close> in base ten.\<close>

fun FormatUint :: "nat \<Rightarrow> string" where
  "FormatUint n = (if n < 10 then [char_of (48 + n)] else FormatUint (n div 10) @ [char_of (48 + n mod 10)])"

declare FormatUint.simps [simp del]

text \<open>\<^verbatim>\<open>Retain\<close> completes the reference first: a missing handle is drawn from the sequence, a missing capture time is now.\<close>

definition complete_ref :: "u64 \<Rightarrow> payload \<Rightarrow> media_ref \<Rightarrow> media_store \<Rightarrow> media_ref \<times> media_store" where
  "complete_ref captured payload reference st =
     (let st1 = (if me_handle reference = [] then st\<lparr>mo_sequence := mo_sequence st + 1\<rparr> else st);
          ref1 = (if me_handle reference = [] then reference\<lparr>me_handle := ''media_'' @ FormatUint (unat (mo_sequence st1))\<rparr> else reference);
          ref2 = ref1\<lparr>me_bytes := int (length payload)\<rparr>
      in (if me_capturedNS ref2 = 0 then ref2\<lparr>me_capturedNS := unat captured\<rparr> else ref2, st1))"

definition file_media :: "media_ref \<Rightarrow> payload \<Rightarrow> u64 \<Rightarrow> media_store \<Rightarrow> media_store" where
  "file_media reference payload retained st =
     st\<lparr>mo_entries := AList.update (me_handle reference)
          \<lparr>mn_media = \<lparr>md_ref = reference, md_bytes = payload\<rparr>, mn_retainedNS = retained\<rparr> (mo_entries st),
        mo_order := mo_order st @ [me_handle reference], mo_bytes := mo_bytes st + int (length payload),
        mo_retained := mo_retained st + 1\<rparr>"

definition Retain ::
  "u64 \<Rightarrow> u64 \<Rightarrow> u64 \<Rightarrow> media_ref \<Rightarrow> payload \<Rightarrow> media_store \<Rightarrow> ((media_error + media_ref) \<times> media_store) option" where
  "Retain captured retained now reference payload st =
     (if payload = [] then Some (Inl MediaEmpty, st)
      else if me_mimeType reference = [] then Some (Inl MediaNoMIMEType, st)
      else if mc_maxBytes (mo_config st) > 0 \<and> int (length payload) > mc_maxBytes (mo_config st)
      then Some (Inl (MediaTooLarge (int (length payload)) (mc_maxBytes (mo_config st))), st)
      else
        let (ref1, st1) = complete_ref captured payload reference st
        in if map_of (mo_entries st1) (me_handle ref1) \<noteq> None then Some (Inl (MediaDuplicateHandle (me_handle ref1)), st1)
           else map_option (Pair (Inr ref1)) (evictLocked now (file_media ref1 payload retained st1)))"

definition Resolve :: "u64 \<Rightarrow> string \<Rightarrow> media_store \<Rightarrow> (media_error + media_data) \<times> media_store" where
  "Resolve now handle st =
     (let st1 = expireLocked now st in
      case map_of (mo_entries st1) handle of
        None \<Rightarrow> (Inl (MediaExpired handle), st1\<lparr>mo_misses := mo_misses st1 + 1\<rparr>)
      | Some e \<Rightarrow> (Inr (mn_media e), st1))"

definition ReleaseMedia :: "string \<Rightarrow> media_store \<Rightarrow> media_store" where
  "ReleaseMedia handle st = removeLocked handle st"

record media_metrics =
  mm_retained :: u64
  mm_evicted :: u64
  mm_misses :: u64
  mm_liveItems :: int
  mm_liveBytes :: int
  mm_maxItems :: int
  mm_maxBytes :: int
  mm_windowMillis :: int

definition MediaMetrics :: "media_store \<Rightarrow> media_metrics" where
  "MediaMetrics st = \<lparr>mm_retained = mo_retained st, mm_evicted = mo_evicted st, mm_misses = mo_misses st,
     mm_liveItems = int (length (mo_order st)), mm_liveBytes = mo_bytes st,
     mm_maxItems = mc_maxItems (mo_config st), mm_maxBytes = mc_maxBytes (mo_config st),
     mm_windowMillis = sint (mc_window (mo_config st)) div 1000000\<rparr>"

subsection \<open>The store's invariant\<close>

text \<open>
  The order lists the retained handles, each once; the byte count is the sum of the sizes; every entry
  is non-empty, is filed under its own handle and records its size; and what was retained is what was evicted
  plus what is live.
\<close>

definition media_ok :: "media_store \<Rightarrow> bool" where
  "media_ok st \<longleftrightarrow> distinct (mo_order st) \<and> distinct (map fst (mo_entries st)) \<and>
     set (mo_order st) = fst ` set (mo_entries st) \<and>
     mo_bytes st = (\<Sum>(h, e) \<leftarrow> mo_entries st. size_of e) \<and>
     (\<forall>(h, e) \<in> set (mo_entries st). size_of e > 0 \<and> me_handle (md_ref (mn_media e)) = h \<and>
        me_bytes (md_ref (mn_media e)) = size_of e) \<and>
     mo_retained st = mo_evicted st + of_nat (length (mo_order st)) \<and>
     mc_maxItems (mo_config st) > 0 \<and> mc_maxBytes (mo_config st) > 0 \<and> 0 \<le>s mc_window (mo_config st)"

definition within_bounds :: "media_store \<Rightarrow> bool" where
  "within_bounds st \<longleftrightarrow> int (length (mo_order st)) \<le> mc_maxItems (mo_config st) \<and> mo_bytes st \<le> mc_maxBytes (mo_config st)"

text \<open>One store is an earlier one with its oldest entries gone.\<close>

definition aged :: "media_store \<Rightarrow> media_store \<Rightarrow> bool" where
  "aged st st' \<longleftrightarrow> media_ok st' \<and> mo_config st' = mo_config st \<and> suffix (mo_order st') (mo_order st) \<and>
     (\<forall>h \<in> set (mo_order st'). map_of (mo_entries st') h = map_of (mo_entries st) h)"

lemma media_ok_lookup:
  assumes "media_ok st"
  shows "map_of (mo_entries st) h \<noteq> None \<longleftrightarrow> h \<in> set (mo_order st)"
  using assms by (simp add: media_ok_def map_of_eq_None_iff)

lemma aged_refl [simp]: "aged st st \<longleftrightarrow> media_ok st"
  by (auto simp: aged_def)

lemma aged_ok: "aged st st' \<Longrightarrow> media_ok st'"
  by (simp add: aged_def)

lemma aged_trans: "aged st st' \<Longrightarrow> aged st' st'' \<Longrightarrow> aged st st''"
  by (auto simp: aged_def dest: set_mono_suffix intro: suffix_order.trans)

lemma sum_list_delete:
  fixes f :: "'a \<Rightarrow> int"
  assumes "distinct (map fst xs)" and "map_of xs k = Some e"
  shows "(\<Sum>(h, v) \<leftarrow> AList.delete k xs. f v) = (\<Sum>(h, v) \<leftarrow> xs. f v) - f e"
  using assms
proof (induction xs)
  case (Cons p xs)
  show ?case
  proof (cases "fst p = k")
    case True
    then have "k \<notin> fst ` set xs" using Cons.prems by auto
    then have "AList.delete k (p # xs) = xs" using True by (simp add: AList.delete_eq filter_id_conv) force
    then show ?thesis using True Cons.prems by (simp add: case_prod_beta)
  qed (use Cons in \<open>auto simp: AList.delete_eq case_prod_beta\<close>)
qed simp

lemma removeLocked_ok:
  assumes ok: "media_ok st" and h: "map_of (mo_entries st) h = Some e"
  shows "media_ok (removeLocked h st)"
proof -
  from ok have d: "distinct (mo_order st)" "distinct (map fst (mo_entries st))"
    and k: "set (mo_order st) = fst ` set (mo_entries st)" by (auto simp: media_ok_def)
  have "h \<in> set (mo_order st)" using media_ok_lookup [OF ok, of h] h by simp
  then have l: "length (mo_order st) = Suc (length (remove1 h (mo_order st)))"
    using Suc_pred [OF length_pos_if_in_set [of h "mo_order st"]] by (simp add: length_remove1)
  have "set (remove1 h (mo_order st)) = fst ` set (AList.delete h (mo_entries st))"
    using d(1) k by (auto simp: AList.delete_eq set_remove1_eq)
  moreover have "distinct (map fst (AList.delete h (mo_entries st)))" using d(2) by (rule distinct_delete)
  moreover have "(\<Sum>(h, v) \<leftarrow> AList.delete h (mo_entries st). size_of v) = mo_bytes st - size_of e"
    using ok by (subst sum_list_delete [OF d(2) h]) (simp add: media_ok_def)
  moreover have "set (AList.delete h (mo_entries st)) \<subseteq> set (mo_entries st)" by (auto simp: AList.delete_eq)
  moreover have "mo_retained st = mo_evicted st + 1 + of_nat (length (remove1 h (mo_order st)))"
    using ok l by (simp add: media_ok_def)
  ultimately show ?thesis using ok h by (auto simp: media_ok_def removeLocked_def distinct_remove1)
qed

lemma removeLocked_oldest:
  assumes ok: "media_ok st" and order: "mo_order st = h # rest"
  shows "aged st (removeLocked h st)" and "mo_order (removeLocked h st) = rest"
proof -
  obtain e where e: "map_of (mo_entries st) h = Some e" using media_ok_lookup [OF ok, of h] order by auto
  have "h \<notin> set rest" using ok order by (simp add: media_ok_def)
  with order e show "mo_order (removeLocked h st) = rest" "aged st (removeLocked h st)"
    using removeLocked_ok [OF ok e] by (auto simp: aged_def removeLocked_def suffix_ConsI delete_conv')
qed

lemma expire_loop_aged: "media_ok st \<Longrightarrow> aged st (expire_loop now window st)"
proof (induction now window st rule: expire_loop.induct)
  case (1 now window st)
  show ?case
  proof (cases "mo_order st")
    case (Cons h rest)
    then obtain e where e: "map_of (mo_entries st) h = Some e" using media_ok_lookup [OF 1(3), of h] by auto
    have r: "aged st (removeLocked h st)" by (rule removeLocked_oldest [OF 1(3) Cons])
    have step: "\<not> now < mn_retainedNS e + window \<Longrightarrow> aged st (expire_loop now window (removeLocked h st))"
      using 1(2) [OF Cons e] aged_ok [OF r] aged_trans [OF r] by blast
    then show ?thesis
      using 1(3) by (subst expire_loop.simps) (auto simp: Cons e)
  qed (simp add: expire_loop.simps 1)
qed

lemma expireLocked_aged: "media_ok st \<Longrightarrow> aged st (expireLocked now st)"
  by (simp add: expireLocked_def expire_loop_aged)

lemma single_entry:
  assumes "distinct (map fst xs)" "fst ` set xs = {h}" "map_of xs h = Some e"
  shows "xs = [(h, e)]"
proof (cases xs)
  case (Cons p ys)
  with assms(1,2) have "ys = []" by (cases ys) auto
  with Cons assms(2,3) show ?thesis by (cases p) auto
qed (use assms in simp)

lemma order_empty_bytes: "media_ok st \<Longrightarrow> mo_order st = [] \<Longrightarrow> mo_bytes st = 0"
  by (simp add: media_ok_def)

text \<open>The eviction loop returns, within bounds, and never drops the newest entry if that alone fits.\<close>

lemma evict_loop_returns:
  assumes "media_ok st"
  shows "\<exists>st'. evict_loop st = Some st' \<and> aged st st' \<and> within_bounds st' \<and>
     (mo_order st \<noteq> [] \<longrightarrow> size_of (the (map_of (mo_entries st) (last (mo_order st)))) \<le> mc_maxBytes (mo_config st) \<longrightarrow>
        mo_order st' \<noteq> [])"
  using assms
proof (induction "length (mo_order st)" arbitrary: st)
  case 0
  then show ?case
    using order_empty_bytes [of st] by (subst evict_loop.simps) (auto simp: over_bound_def within_bounds_def media_ok_def)
next
  case (Suc n)
  then obtain h rest where order: "mo_order st = h # rest" by (cases "mo_order st") auto
  show ?case
  proof (cases "over_bound st")
    case False
    then show ?thesis using Suc.prems order
      by (subst evict_loop.simps) (auto simp: over_bound_def within_bounds_def media_ok_def)
  next
    case True
    note r = removeLocked_oldest [OF Suc.prems order]
    obtain e where e: "map_of (mo_entries st) h = Some e"
      using media_ok_lookup [OF Suc.prems, of h] order by auto
    have alone: "size_of e > mc_maxBytes (mo_config st)" if "rest = []"
    proof -
      have "mo_entries st = [(h, e)]"
        using Suc.prems order that e by (intro single_entry) (auto simp: media_ok_def)
      then show ?thesis using True Suc.prems order that by (auto simp: over_bound_def media_ok_def)
    qed
    from Suc.hyps(1) [of "removeLocked h st"] Suc.hyps(2) order r aged_ok [OF r(1)]
    obtain st' where st': "evict_loop (removeLocked h st) = Some st'" "aged (removeLocked h st) st'" "within_bounds st'"
      and newest: "rest \<noteq> [] \<longrightarrow> size_of (the (map_of (mo_entries (removeLocked h st)) (last rest)))
          \<le> mc_maxBytes (mo_config (removeLocked h st)) \<longrightarrow> mo_order st' \<noteq> []"
      by auto
    have "evict_loop st = Some st'" using st'(1) True order by (subst evict_loop.simps) simp
    moreover have "aged st st'" using aged_trans [OF r(1) st'(2)] .
    moreover have "rest \<noteq> [] \<Longrightarrow> map_of (mo_entries (removeLocked h st)) (last rest) = map_of (mo_entries st) (last rest)"
      using r by (simp add: aged_def)
    ultimately show ?thesis using st'(3) newest alone r(1) order e by (auto simp: aged_def [of st "removeLocked h st"])
  qed
qed

lemma update_fresh: "k \<notin> fst ` set xs \<Longrightarrow> AList.update k v xs = xs @ [(k, v)]"
  by (induction xs) auto

lemma file_media_ok:
  assumes ok: "media_ok st" and h: "map_of (mo_entries st) (me_handle ref) = None"
    and m: "me_bytes ref = int (length payload)" "payload \<noteq> []"
  shows "media_ok (file_media ref payload t st)"
proof -
  have "me_handle ref \<notin> fst ` set (mo_entries st)" using h by (simp add: map_of_eq_None_iff)
  with ok m show ?thesis by (auto simp: media_ok_def file_media_def update_fresh size_of_def)
qed

lemma complete_ref_simps [simp]:
  "mo_entries (snd (complete_ref t payload ref st)) = mo_entries st" "mo_order (snd (complete_ref t payload ref st)) = mo_order st"
  "mo_config (snd (complete_ref t payload ref st)) = mo_config st" "mo_bytes (snd (complete_ref t payload ref st)) = mo_bytes st"
  "media_ok (snd (complete_ref t payload ref st)) = media_ok st"
  "me_bytes (fst (complete_ref t payload ref st)) = int (length payload)"
  by (simp_all add: complete_ref_def Let_def media_ok_def)

lemma evictLocked_returns:
  assumes "media_ok st"
  obtains st' where "evictLocked now st = Some st'" "aged (expireLocked now st) st'" "within_bounds st'"
    and "mo_order (expireLocked now st) \<noteq> [] \<Longrightarrow>
      size_of (the (map_of (mo_entries (expireLocked now st)) (last (mo_order (expireLocked now st))))) \<le> mc_maxBytes (mo_config st) \<Longrightarrow>
      mo_order st' \<noteq> []"
proof -
  have a: "aged st (expireLocked now st)" by (rule expireLocked_aged [OF assms])
  have c: "mo_config (expireLocked now st) = mo_config st" using a by (simp add: aged_def)
  from evict_loop_returns [OF aged_ok [OF a]] show thesis
    unfolding c evictLocked_def [symmetric] by (auto intro: that)
qed

text \<open>
  \<^verbatim>\<open>Retain\<close> always returns. It either refuses, and has at most drawn a number from the sequence, or files the
  completed reference as the newest entry and evicts.
\<close>

lemma Retain_cases:
  assumes ok: "media_ok st"
  obtains (refused) err st' where "Retain captured retained now ref payload st = Some (Inl err, st')"
      "st' = st \<or> st' = snd (complete_ref captured payload ref st)"
  | (filed) ref1 mid st' where "Retain captured retained now ref payload st = Some (Inr ref1, st')"
      "ref1 = fst (complete_ref captured payload ref st)" "mid = file_media ref1 payload retained (snd (complete_ref captured payload ref st))"
      "media_ok mid" "evictLocked now mid = Some st'" "aged (expireLocked now mid) st'" "within_bounds st'"
      "payload \<noteq> []" "int (length payload) \<le> mc_maxBytes (mo_config st)" "map_of (mo_entries st) (me_handle ref1) = None"
proof (cases "payload = [] \<or> me_mimeType ref = [] \<or> int (length payload) > mc_maxBytes (mo_config st) \<or>
    map_of (mo_entries st) (me_handle (fst (complete_ref captured payload ref st))) \<noteq> None")
  case True
  have "mc_maxBytes (mo_config st) > 0" using ok by (simp add: media_ok_def)
  with True have "\<exists>err st'. Retain captured retained now ref payload st = Some (Inl err, st') \<and>
      (st' = st \<or> st' = snd (complete_ref captured payload ref st))"
    unfolding Retain_def Let_def case_prod_beta by auto
  then show thesis using refused by blast
next
  case False
  define mid where "mid = file_media (fst (complete_ref captured payload ref st)) payload retained (snd (complete_ref captured payload ref st))"
  have mid: "media_ok mid" unfolding mid_def using False ok by (intro file_media_ok) auto
  obtain st' where st': "evictLocked now mid = Some st'" "aged (expireLocked now mid) st'" "within_bounds st'"
    using evictLocked_returns [OF mid] .
  have "Retain captured retained now ref payload st = Some (Inr (fst (complete_ref captured payload ref st)), st')"
    using False st'(1) ok by (auto simp: Retain_def Let_def case_prod_beta mid_def media_ok_def)
  then show thesis using filed mid st' False mid_def by auto
qed

subsection \<open>Operation sequences\<close>

datatype media_op =
  RetainOp u64 u64 u64 media_ref payload | ResolveOp u64 string | ReleaseOp string

definition media_step :: "media_op \<Rightarrow> media_store \<Rightarrow> media_store option" where
  "media_step op st = (case op of
     RetainOp t1 t2 t3 ref payload \<Rightarrow> map_option snd (Retain t1 t2 t3 ref payload st)
   | ResolveOp t h \<Rightarrow> Some (snd (Resolve t h st))
   | ReleaseOp h \<Rightarrow> Some (ReleaseMedia h st))"

fun media_run :: "media_op list \<Rightarrow> media_store \<Rightarrow> media_store option" where
  "media_run [] st = Some st"
| "media_run (op # ops) st = Option.bind (media_step op st) (media_run ops)"

lemma bytes_sum:
  assumes "media_ok st"
  shows "mo_bytes st = (\<Sum>h \<in> set (mo_order st). size_of (the (map_of (mo_entries st) h)))"
proof -
  have d: "distinct (map fst (mo_entries st))" and k: "set (mo_order st) = fst ` set (mo_entries st)"
    and b: "mo_bytes st = (\<Sum>p \<leftarrow> mo_entries st. size_of (snd p))"
    using assms by (simp_all add: media_ok_def case_prod_unfold)
  have "mo_bytes st = (\<Sum>p \<in> set (mo_entries st). size_of (snd p))"
    using d unfolding b by (intro sum_list_distinct_conv_sum_set) (simp add: distinct_map)
  also have "\<dots> = (\<Sum>p \<in> set (mo_entries st). size_of (the (map_of (mo_entries st) (fst p))))"
    using d by (intro sum.cong) (auto simp: map_of_eq_Some_iff)
  also have "\<dots> = (\<Sum>h \<in> fst ` set (mo_entries st). size_of (the (map_of (mo_entries st) h)))"
    using d by (subst sum.reindex) (auto simp: distinct_map)
  finally show ?thesis by (simp add: k)
qed

lemma aged_within:
  assumes a: "aged st st'" and ok: "media_ok st" and w: "within_bounds st"
  shows "within_bounds st'"
proof -
  have sub: "set (mo_order st') \<subseteq> set (mo_order st)" "length (mo_order st') \<le> length (mo_order st)"
    using a by (auto simp: aged_def dest: set_mono_suffix suffix_length_le)
  have "mo_bytes st' = (\<Sum>h \<in> set (mo_order st'). size_of (the (map_of (mo_entries st) h)))"
    using a by (subst bytes_sum) (auto simp: aged_def intro: sum.cong)
  also have "\<dots> \<le> mo_bytes st"
    unfolding bytes_sum [OF ok] using sub by (intro sum_mono2) (auto simp: size_of_def)
  finally show ?thesis using w sub a by (simp add: within_bounds_def aged_def)
qed

lemma Resolve_aged:
  assumes "media_ok st"
  shows "media_ok (snd (Resolve t h st))" "mo_config (snd (Resolve t h st)) = mo_config st"
    "within_bounds st \<Longrightarrow> within_bounds (snd (Resolve t h st))"
  using expireLocked_aged [OF assms, of t] aged_within [OF expireLocked_aged [OF assms, of t] assms]
  by (auto simp: Resolve_def Let_def aged_def media_ok_def within_bounds_def split: option.splits)

lemma removeLocked_within:
  assumes ok: "media_ok st" and w: "within_bounds st"
  shows "media_ok (removeLocked h st) \<and> within_bounds (removeLocked h st)"
proof (cases "map_of (mo_entries st) h")
  case (Some e)
  have "size_of e \<ge> 0" by (simp add: size_of_def)
  then show ?thesis
    using removeLocked_ok [OF ok Some] w Some length_remove1 [of h "mo_order st"]
    by (auto simp: within_bounds_def removeLocked_def split: if_splits)
qed (use assms in \<open>simp_all add: removeLocked_def\<close>)

lemma removeLocked_config [simp]: "mo_config (removeLocked h st) = mo_config st"
  by (simp add: removeLocked_def split: option.splits)

lemma media_step_ok:
  assumes "media_ok st" "within_bounds st"
  obtains st' where "media_step op st = Some st'" "media_ok st'" "within_bounds st'" "mo_config st' = mo_config st"
proof (cases op)
  case (RetainOp t1 t2 t3 ref payload)
  from assms(1) show thesis
  proof (cases rule: Retain_cases [where captured = t1 and retained = t2 and now = t3 and ref = ref and payload = payload])
    case (refused err st')
    then show thesis using assms RetainOp by (intro that [of st']) (auto simp: media_step_def within_bounds_def)
  next
    case (filed ref1 mid st')
    have "mo_config mid = mo_config st" using filed(3) by (simp add: file_media_def)
    then have "mo_config st' = mo_config st"
      using filed(6) expireLocked_aged [OF filed(4), of t3] by (simp add: aged_def)
    moreover have "media_step op st = Some st'" using filed(1) RetainOp by (simp add: media_step_def)
    ultimately show thesis using that [of st'] filed(7) aged_ok [OF filed(6)] by simp
  qed
next
  case (ResolveOp t h)
  then show thesis using Resolve_aged [OF assms(1), of t h] assms(2)
    by (intro that [of "snd (Resolve t h st)"]) (simp_all add: media_step_def)
next
  case (ReleaseOp h)
  then show thesis using removeLocked_within [OF assms]
    by (intro that [of "removeLocked h st"]) (simp_all add: media_step_def ReleaseMedia_def)
qed

lemma media_run_ok:
  assumes "media_ok st" "within_bounds st"
  shows "\<exists>st'. media_run ops st = Some st' \<and> media_ok st' \<and> within_bounds st' \<and> mo_config st' = mo_config st"
  using assms
proof (induction ops arbitrary: st)
  case (Cons op ops)
  obtain st1 where st1: "media_step op st = Some st1" "media_ok st1" "within_bounds st1" "mo_config st1 = mo_config st"
    using media_step_ok [OF Cons.prems] .
  from Cons.IH [OF st1(2,3)] st1 show ?case by auto
qed simp

lemma NewMediaStore_ok: "NewMediaStore cfg = Inr st \<Longrightarrow> media_ok st \<and> within_bounds st"
  by (auto simp: NewMediaStore_def media_ok_def within_bounds_def word_sle_eq word_sless_alt split: if_splits)

text \<open>
  C27. A media store returns from every operation and stays consistent and within its bounds, whatever is asked of
  it: after any sequence of retain, resolve and release calls on a new store, at any instants, the
  eviction loops have all ended, every retained handle is listed once and resolves to an entry filed under it,
  the byte count is the sum of the sizes, neither bound is exceeded, and the number retained equals the
  number evicted plus the number live.
\<close>

theorem media_store_stays_within_bounds:
  assumes "NewMediaStore cfg = Inr st"
  shows "\<exists>st'. media_run ops st = Some st' \<and> media_ok st' \<and> within_bounds st' \<and> mo_config st' = mo_config st"
  using media_run_ok NewMediaStore_ok [OF assms] by blast

definition media_example_config :: media_config where
  "media_example_config = \<lparr>mc_maxItems = 0, mc_maxBytes = 10, mc_window = 100\<rparr>"

definition media_example_store :: media_store where
  "media_example_store = \<lparr>mo_config = \<lparr>mc_maxItems = 32, mc_maxBytes = 10, mc_window = 100\<rparr>, mo_order = [], mo_entries = [],
     mo_bytes = 0, mo_sequence = 0, mo_retained = 0, mo_evicted = 0, mo_misses = 0\<rparr>"

definition media_example_ref :: media_ref where
  "media_example_ref = \<lparr>me_handle = [], me_mimeType = ''image/png'', me_source = ''camera'', me_width = 2, me_height = 2,
     me_bytes = 0, me_capturedNS = 0\<rparr>"

definition media_example_ops :: "media_op list" where
  "media_example_ops = [RetainOp 1 2 3 media_example_ref ''abcd'', RetainOp 5 5 5 media_example_ref ''efgh'',
     RetainOp 7 7 7 (media_example_ref\<lparr>me_handle := ''media_2''\<rparr>) ''x'']"

lemma media_example_new: "NewMediaStore media_example_config = Inr media_example_store"
  by code_simp

theorem media_store_stays_within_bounds_witness:
  "\<exists>st'. media_run (media_example_ops @ [RetainOp 8 8 8 media_example_ref ''ijklm'', ResolveOp 200 ''media_2'']) media_example_store = Some st'
     \<and> media_ok st' \<and> within_bounds st' \<and> mo_config st' = mo_config media_example_store"
  by (rule media_store_stays_within_bounds [OF media_example_new])

text \<open>An entry that is young enough survives expiry, wherever it stands in the order.\<close>

lemma expire_loop_keeps:
  assumes "media_ok st" "h \<in> set (mo_order st)" "map_of (mo_entries st) h = Some e" "now < mn_retainedNS e + window"
  shows "h \<in> set (mo_order (expire_loop now window st))"
  using assms
proof (induction now window st rule: expire_loop.induct)
  case (1 now window st)
  then obtain g rest where order: "mo_order st = g # rest" by (cases "mo_order st") auto
  obtain f where f: "map_of (mo_entries st) g = Some f" using media_ok_lookup [OF 1(3), of g] order by auto
  note r = removeLocked_oldest [OF 1(3) order]
  show ?case
  proof (cases "now < mn_retainedNS f + window")
    case True
    then show ?thesis using 1(4) by (subst expire_loop.simps) (simp add: order f)
  next
    case False
    with 1(5,6) f have "h \<noteq> g" by auto
    with 1(4) order r have "h \<in> set (mo_order (removeLocked g st))" "map_of (mo_entries (removeLocked g st)) h = map_of (mo_entries st) h"
      by (auto simp: aged_def)
    with 1(2) [OF order f False aged_ok [OF r(1)]] 1(5,6) have "h \<in> set (mo_order (expire_loop now window (removeLocked g st)))" by simp
    then show ?thesis using False by (subst expire_loop.simps) (simp add: order f)
  qed
qed

lemma expireLocked_keeps:
  assumes "media_ok st" "map_of (mo_entries st) h = Some e"
    and "mc_window (mo_config st) \<le>s 0 \<or> now < mn_retainedNS e + mc_window (mo_config st)"
  shows "h \<in> set (mo_order (expireLocked now st))" "map_of (mo_entries (expireLocked now st)) h = Some e"
proof -
  have "h \<in> set (mo_order st)" using media_ok_lookup [OF assms(1), of h] assms(2) by simp
  with assms show *: "h \<in> set (mo_order (expireLocked now st))"
    by (auto simp: expireLocked_def intro: expire_loop_keeps)
  show "map_of (mo_entries (expireLocked now st)) h = Some e"
    using expireLocked_aged [OF assms(1), of now] * assms(2) by (simp add: aged_def)
qed

lemma suffix_last: "suffix ys xs \<Longrightarrow> ys \<noteq> [] \<Longrightarrow> last ys = last xs"
  by (auto simp: suffix_def)

lemma newest_survives:
  assumes ok: "media_ok mid" and order: "mo_order mid = xs @ [h]" and e: "map_of (mo_entries mid) h = Some e"
    and fits: "size_of e \<le> mc_maxBytes (mo_config mid)"
    and young: "mc_window (mo_config mid) \<le>s 0 \<or> now < mn_retainedNS e + mc_window (mo_config mid)"
    and st': "evictLocked now mid = Some st'"
  shows "map_of (mo_entries st') h = Some e" and "mo_config st' = mo_config mid"
proof -
  let ?x = "expireLocked now mid"
  note keep = expireLocked_keeps [OF ok e young]
  have a: "aged mid ?x" by (rule expireLocked_aged [OF ok])
  have "last (mo_order ?x) = h" using suffix_last [of "mo_order ?x" "mo_order mid"] a keep(1) order by (force simp: aged_def)
  with evictLocked_returns [OF ok, of now] st' keep fits
  have ag: "aged ?x st'" and ne: "mo_order st' \<noteq> []" by (metis option.inject option.sel empty_iff list.set(1))+
  have "last (mo_order st') = h"
    using suffix_last [of "mo_order st'" "mo_order ?x"] ag ne \<open>last (mo_order ?x) = h\<close> by (simp add: aged_def)
  with ne have "h \<in> set (mo_order st')" by auto
  with ag keep(2) a show "map_of (mo_entries st') h = Some e" "mo_config st' = mo_config mid" by (auto simp: aged_def)
qed

text \<open>
  What is retained later takes its place behind an attachment, so the bounds reach it only after everything older
  is gone: with the attachments behind it still within both bounds, no eviction drops it.
\<close>

definition weight :: "media_store \<Rightarrow> string list \<Rightarrow> int" where
  "weight st hs = (\<Sum>h \<leftarrow> hs. size_of (the (map_of (mo_entries st) h)))"

definition retained_with :: "string \<Rightarrow> media_entry \<Rightarrow> int \<Rightarrow> int \<Rightarrow> media_store \<Rightarrow> bool" where
  "retained_with h e n b st \<longleftrightarrow> media_ok st \<and> map_of (mo_entries st) h = Some e
     \<and> (\<exists>xs ys. mo_order st = xs @ h # ys \<and> 1 + int (length ys) \<le> n \<and> weight st (h # ys) \<le> b)"

lemma retained_withI:
  "media_ok st \<Longrightarrow> map_of (mo_entries st) h = Some e \<Longrightarrow> mo_order st = xs @ h # ys \<Longrightarrow> 1 + int (length ys) \<le> n
     \<Longrightarrow> weight st (h # ys) \<le> b \<Longrightarrow> retained_with h e n b st"
  unfolding retained_with_def by blast

lemma weight_bytes:
  assumes "media_ok st"
  shows "mo_bytes st = weight st (mo_order st)"
proof -
  have "distinct (mo_order st)" using assms by (simp add: media_ok_def)
  then show ?thesis unfolding bytes_sum [OF assms] weight_def by (rule sum_list_distinct_conv_sum_set [symmetric])
qed

lemma weight_cong: "(\<And>h. h \<in> set hs \<Longrightarrow> map_of (mo_entries st') h = map_of (mo_entries st) h) \<Longrightarrow> weight st' hs = weight st hs"
  by (simp add: weight_def cong: map_cong)

lemma suffix_from:
  assumes "suffix zs (xs @ h # ys)" "h \<in> set zs" "h \<notin> set ys"
  obtains xs' where "zs = xs' @ h # ys"
  using assms set_mono_suffix [of zs ys] by (auto simp: suffix_append suffix_Cons)

lemma retained_with_aged:
  assumes "retained_with h e n b st" "aged st st'" "h \<in> set (mo_order st')"
  shows "retained_with h e n b st'"
proof -
  from assms(1) obtain xs ys where o: "mo_order st = xs @ h # ys" "1 + int (length ys) \<le> n" "weight st (h # ys) \<le> b"
    and e: "map_of (mo_entries st) h = Some e" and ok: "media_ok st" by (auto simp: retained_with_def)
  have "suffix (mo_order st') (xs @ h # ys)" "h \<notin> set ys" using assms(2) o(1) ok by (auto simp: aged_def media_ok_def)
  with assms(3) obtain xs' where o': "mo_order st' = xs' @ h # ys" by (elim suffix_from)
  have "weight st' (h # ys) = weight st (h # ys)" by (rule weight_cong) (use assms(2) o' in \<open>auto simp: aged_def\<close>)
  moreover have "media_ok st'" "map_of (mo_entries st') h = Some e" using assms(2,3) e by (simp_all add: aged_def)
  ultimately show ?thesis using o(2,3) by (intro retained_withI [OF _ _ o']) simp_all
qed

lemma evict_loop_keeps:
  assumes "retained_with h e n b st" "n \<le> mc_maxItems (mo_config st)" "b \<le> mc_maxBytes (mo_config st)" "evict_loop st = Some st'"
  shows "h \<in> set (mo_order st')"
  using assms
proof (induction "length (mo_order st)" arbitrary: st)
  case (Suc m)
  from Suc.prems(1) obtain xs ys where o: "mo_order st = xs @ h # ys" "1 + int (length ys) \<le> n" "weight st (h # ys) \<le> b"
    and ok: "media_ok st" by (auto simp: retained_with_def)
  show ?case
  proof (cases "over_bound st")
    case False
    then show ?thesis using Suc.prems(4) o(1) by (subst (asm) evict_loop.simps) auto
  next
    case True
    obtain g rest where order: "mo_order st = g # rest" using o(1) by (cases xs) auto
    have "xs \<noteq> []"
    proof
      assume "xs = []"
      then have "int (length (mo_order st)) \<le> mc_maxItems (mo_config st)" "mo_bytes st \<le> mc_maxBytes (mo_config st)"
        using o Suc.prems(2,3) weight_bytes [OF ok] by simp_all
      with True show False by (simp add: over_bound_def)
    qed
    then have "h \<in> set rest" using o(1) order by (cases xs) auto
    note r = removeLocked_oldest [OF ok order]
    have "evict_loop (removeLocked g st) = Some st'" using Suc.prems(4) True order by (subst (asm) evict_loop.simps) simp
    moreover have "retained_with h e n b (removeLocked g st)"
      by (rule retained_with_aged [OF Suc.prems(1) r(1)]) (simp add: r(2) \<open>h \<in> set rest\<close>)
    ultimately show ?thesis using Suc.hyps(1) [of "removeLocked g st"] Suc.hyps(2) Suc.prems(2,3) r(2) order by simp
  qed
qed (auto simp: retained_with_def)

lemma retained_with_evictLocked:
  assumes "retained_with h e n b st" "n \<le> mc_maxItems (mo_config st)" "b \<le> mc_maxBytes (mo_config st)"
    and "mc_window (mo_config st) \<le>s 0 \<or> now < mn_retainedNS e + mc_window (mo_config st)" and "evictLocked now st = Some st'"
    and "aged (expireLocked now st) st'"
  shows "retained_with h e n b st'"
proof -
  have ok: "media_ok st" "map_of (mo_entries st) h = Some e" using assms(1) by (simp_all add: retained_with_def)
  have x: "retained_with h e n b (expireLocked now st)"
    by (rule retained_with_aged [OF assms(1) expireLocked_aged [OF ok(1)] expireLocked_keeps(1) [OF ok assms(4)]])
  have "mo_config (expireLocked now st) = mo_config st" using expireLocked_aged [OF ok(1)] by (simp add: aged_def)
  with evict_loop_keeps [OF x] assms(2,3,5) have "h \<in> set (mo_order st')" by (simp add: evictLocked_def)
  with retained_with_aged [OF x assms(6)] show ?thesis .
qed

fun op_bytes :: "media_op \<Rightarrow> int" where
  "op_bytes (RetainOp t1 t2 t3 ref payload) = int (length payload)"
| "op_bytes (ResolveOp t h) = 0"
| "op_bytes (ReleaseOp h) = 0"

fun op_items :: "media_op \<Rightarrow> int" where
  "op_items (RetainOp t1 t2 t3 ref payload) = 1"
| "op_items (ResolveOp t h) = 0"
| "op_items (ReleaseOp h) = 0"

fun op_times :: "media_op \<Rightarrow> u64 list" where
  "op_times (RetainOp t1 t2 t3 ref payload) = [t1, t2, t3]"
| "op_times (ResolveOp t h) = [t]"
| "op_times (ReleaseOp h) = []"

lemma retained_with_weaken: "retained_with h e n b st \<Longrightarrow> n \<le> n' \<Longrightarrow> b \<le> b' \<Longrightarrow> retained_with h e n' b' st"
  unfolding retained_with_def by fastforce

lemma retained_with_remove:
  assumes "retained_with h e n b st" "g \<noteq> h"
  shows "retained_with h e n b (removeLocked g st)"
proof (cases "map_of (mo_entries st) g")
  case (Some f)
  from assms(1) obtain xs ys where o: "mo_order st = xs @ h # ys" "1 + int (length ys) \<le> n" "weight st (h # ys) \<le> b"
    and e: "map_of (mo_entries st) h = Some e" and ok: "media_ok st" by (auto simp: retained_with_def)
  have same: "map_of (mo_entries (removeLocked g st)) k = map_of (mo_entries st) k" if "k \<noteq> g" for k
    using that Some by (simp add: removeLocked_def delete_conv')
  have d: "distinct (xs @ h # ys)" using ok o(1) by (simp add: media_ok_def)
  let ?ys = "remove1 g ys"
  have w: "weight (removeLocked g st) (h # ?ys) = weight st (h # ?ys)"
    by (rule weight_cong) (use d assms(2) same in auto)
  also have "\<dots> \<le> weight st (h # ys)"
  proof (cases "g \<in> set ys")
    case True
    then show ?thesis
      using sum_list_map_remove1 [of g ys "\<lambda>h. size_of (the (map_of (mo_entries st) h))"] by (simp add: weight_def size_of_def)
  qed (simp add: remove1_idem)
  finally have w': "weight (removeLocked g st) (h # ?ys) \<le> b" using o(3) by simp
  have l: "length ?ys \<le> length ys" by (simp add: length_remove1)
  have "mo_order (removeLocked g st) = (if g \<in> set xs then remove1 g xs else xs) @ h # ?ys"
    using Some o(1) assms(2) d by (auto simp: removeLocked_def remove1_append remove1_idem disjoint_iff)
  moreover have "map_of (mo_entries (removeLocked g st)) h = Some e" using same [of h] assms(2) e by simp
  ultimately show ?thesis using removeLocked_ok [OF ok Some] w' l o(2) by (intro retained_withI) auto
qed (use assms(1) in \<open>simp add: removeLocked_def\<close>)

lemma retained_with_step:
  assumes r: "retained_with h e n b st" and n: "n + op_items op \<le> mc_maxItems (mo_config st)" and b: "b + op_bytes op \<le> mc_maxBytes (mo_config st)"
    and w: "mc_window (mo_config st) = 0 \<or> (\<forall>t \<in> set (op_times op). t < mn_retainedNS e + mc_window (mo_config st))"
    and rel: "op \<noteq> ReleaseOp h" and s: "media_step op st = Some st'"
  shows "retained_with h e (n + op_items op) (b + op_bytes op) st'"
proof (cases op)
  case (RetainOp t1 t2 t3 ref payload)
  have ok: "media_ok st" using r by (simp add: retained_with_def)
  then show ?thesis
  proof (cases rule: Retain_cases [where captured = t1 and retained = t2 and now = t3 and ref = ref and payload = payload])
    case (refused err st'')
    have "retained_with h e n b (snd (complete_ref t1 payload ref st)) = retained_with h e n b st" by (simp add: retained_with_def weight_def)
    then have "retained_with h e n b st'" using refused s RetainOp r by (auto simp: media_step_def)
    then show ?thesis by (rule retained_with_weaken) (simp_all add: RetainOp)
  next
    case (filed ref1 mid st'')
    then have st'': "st'' = st'" using s RetainOp by (simp add: media_step_def)
    have mid: "mo_order mid = mo_order st @ [me_handle ref1]" "mo_config mid = mo_config st"
      "map_of (mo_entries mid) k = (if k = me_handle ref1 then Some \<lparr>mn_media = \<lparr>md_ref = ref1, md_bytes = payload\<rparr>, mn_retainedNS = t2\<rparr> else map_of (mo_entries st) k)" for k
      using filed(3) by (simp_all add: file_media_def update_conv')
    from r obtain xs ys where o: "mo_order st = xs @ h # ys" "1 + int (length ys) \<le> n" "weight st (h # ys) \<le> b"
      and e: "map_of (mo_entries st) h = Some e" by (auto simp: retained_with_def)
    have fresh: "me_handle ref1 \<notin> set (mo_order st)" using media_ok_lookup [OF ok, of "me_handle ref1"] filed(10) by simp
    have "weight mid (h # ys) = weight st (h # ys)" by (rule weight_cong) (use fresh o(1) mid(3) in auto)
    moreover have "size_of \<lparr>mn_media = \<lparr>md_ref = ref1, md_bytes = payload\<rparr>, mn_retainedNS = t2\<rparr> = int (length payload)" by (simp add: size_of_def)
    ultimately have "weight mid (h # ys @ [me_handle ref1]) \<le> b + int (length payload)"
      using o(3) mid(3) [of "me_handle ref1"] by (simp add: weight_def)
    moreover have "mo_order mid = xs @ h # ys @ [me_handle ref1]" using mid(1) o(1) by simp
    moreover have "map_of (mo_entries mid) h = Some e" using mid(3) [of h] e fresh o(1) by auto
    ultimately have "retained_with h e (n + 1) (b + int (length payload)) mid"
      using filed(4) o(2) unfolding retained_with_def by fastforce
    then have "retained_with h e (n + 1) (b + int (length payload)) st'"
      by (rule retained_with_evictLocked [where now = t3]) (use n b w mid(2) filed(5,6) st'' RetainOp in auto)
    then show ?thesis by (simp add: RetainOp)
  qed
next
  case (ResolveOp t g)
  have ok: "media_ok st" "map_of (mo_entries st) h = Some e" using r by (simp_all add: retained_with_def)
  have y: "mc_window (mo_config st) \<le>s 0 \<or> t < mn_retainedNS e + mc_window (mo_config st)" using w ResolveOp by auto
  have misses: "retained_with h e n b (s\<lparr>mo_misses := m\<rparr>) = retained_with h e n b s" for s m
    by (simp add: retained_with_def weight_def media_ok_def)
  have "retained_with h e n b (expireLocked t st)"
    by (rule retained_with_aged [OF r expireLocked_aged [OF ok(1)] expireLocked_keeps(1) [OF ok y]])
  then have "retained_with h e n b st'"
    using s ResolveOp misses [where s = "expireLocked t st"] by (auto simp: media_step_def Resolve_def Let_def split: option.splits)
  then show ?thesis by (simp add: ResolveOp)
next
  case (ReleaseOp g)
  then show ?thesis using retained_with_remove [OF r, of g] rel s by (simp add: media_step_def ReleaseMedia_def)
qed

lemma op_costs: "0 \<le> op_items op" "0 \<le> op_bytes op"
  by (cases op; simp)+

lemma ops_costs: "0 \<le> sum_list (map op_items ops)" "0 \<le> sum_list (map op_bytes ops)"
  by (induction ops) (simp_all add: op_costs)

lemma retained_with_run:
  assumes "retained_with h e n b st" "within_bounds st"
    and "n + sum_list (map op_items ops) \<le> mc_maxItems (mo_config st)" "b + sum_list (map op_bytes ops) \<le> mc_maxBytes (mo_config st)"
    and "mc_window (mo_config st) = 0 \<or> (\<forall>op \<in> set ops. \<forall>t \<in> set (op_times op). t < mn_retainedNS e + mc_window (mo_config st))"
    and "ReleaseOp h \<notin> set ops" and "media_run ops st = Some st'"
  shows "media_ok st' \<and> map_of (mo_entries st') h = Some e"
  using assms
proof (induction ops arbitrary: st n b)
  case (Cons op ops)
  have "media_ok st" using Cons.prems(1) by (simp add: retained_with_def)
  then obtain st1 where st1: "media_step op st = Some st1" "within_bounds st1" "mo_config st1 = mo_config st"
    using media_step_ok [OF _ Cons.prems(2)] by metis
  have "retained_with h e (n + op_items op) (b + op_bytes op) st1"
    by (rule retained_with_step [OF Cons.prems(1) _ _ _ _ st1(1)]) (use Cons.prems(3-6) ops_costs [of ops] in auto)
  then show ?case
    by (rule Cons.IH) (use Cons.prems(3-7) st1 in \<open>auto simp: add.assoc\<close>)
qed (simp add: retained_with_def)

text \<open>
  C38. What was retained resolves until a bound or its age takes it. If \<^verbatim>\<open>Retain\<close> accepts a payload, then whatever is asked
  of the store afterwards, as long as this attachment is not released, its age stays below the window at every reading of the clock, and the attachments
  offered since do not together with it exceed the bound on their number or the bound on their bytes,
  \<^verbatim>\<open>Resolve\<close> of the returned handle gives back exactly the returned reference and the bytes. So the bounds
  evict the oldest attachments first and no more than they must, never the one just stored, however full the store was.
\<close>

theorem retained_media_resolves:
  assumes "NewMediaStore cfg = Inr st0" and "media_run ops st0 = Some st"
    and "Retain captured retained now reference payload st = Some (Inr ref, st')"
    and "media_run since st' = Some st''" and "ReleaseOp (me_handle ref) \<notin> set since"
    and "1 + sum_list (map op_items since) \<le> mc_maxItems (mo_config st')"
    and "int (length payload) + sum_list (map op_bytes since) \<le> mc_maxBytes (mo_config st')"
    and "mc_window cfg = 0 \<or> (\<forall>t \<in> {now, later} \<union> (\<Union>op \<in> set since. set (op_times op)). t < retained + mc_window cfg)"
  shows "fst (Resolve later (me_handle ref) st'') = Inr \<lparr>md_ref = ref, md_bytes = payload\<rparr>"
proof -
  have "mc_window (mo_config st0) = mc_window cfg" using assms(1) by (auto simp: NewMediaStore_def split: if_splits)
  with media_run_ok [of st0 ops] NewMediaStore_ok [OF assms(1)] assms(2)
  have ok: "media_ok st" and win: "mc_window (mo_config st) = mc_window cfg" by auto
  let ?e = "\<lparr>mn_media = \<lparr>md_ref = ref, md_bytes = payload\<rparr>, mn_retainedNS = retained\<rparr>"
  have young: "mc_window (mo_config st) = 0 \<or> t < retained + mc_window (mo_config st)" if "t \<in> {now, later}" for t
    using assms(8) that unfolding win by blast
  from ok show ?thesis
  proof (cases rule: Retain_cases [where captured = captured and retained = retained and now = now and ref = reference and payload = payload])
    case (filed ref1 mid s)
    then have same: "ref1 = ref" "s = st'" using assms(3) by auto
    have mid: "mo_order mid = mo_order st @ [me_handle ref]" "map_of (mo_entries mid) (me_handle ref) = Some ?e"
      "mo_config mid = mo_config st" using filed(3) same by (simp_all add: file_media_def)
    have fits: "size_of ?e \<le> mc_maxBytes (mo_config mid)" unfolding mid(3) using filed(9) by (simp add: size_of_def)
    have y: "mc_window (mo_config mid) \<le>s 0 \<or> now < mn_retainedNS ?e + mc_window (mo_config mid)"
      unfolding mid(3) using young [of now] by auto
    have items: "1 \<le> mc_maxItems (mo_config mid)" using filed(4) by (simp add: media_ok_def)
    have "retained_with (me_handle ref) ?e 1 (int (length payload)) mid"
      using filed(4) mid(1,2) by (auto simp: retained_with_def weight_def size_of_def)
    then have r: "retained_with (me_handle ref) ?e 1 (int (length payload)) st'"
      by (rule retained_with_evictLocked [OF _ items _ y filed(5,6) [unfolded same]]) (use fits in \<open>simp add: size_of_def\<close>)
    have cfg': "mo_config st' = mo_config st"
      using newest_survives(2) [OF filed(4) mid(1,2) fits y filed(5) [unfolded same]] mid(3) by simp
    have "media_ok st'' \<and> map_of (mo_entries st'') (me_handle ref) = Some ?e"
      by (rule retained_with_run [OF r filed(7) [unfolded same] assms(6,7) _ assms(5,4)]) (use assms(8) win cfg' in auto)
    moreover have "mo_config st'' = mo_config st"
      using media_run_ok [of st' since] aged_ok [OF filed(6)] filed(7) assms(4) same cfg' by auto
    ultimately have "map_of (mo_entries (expireLocked later st'')) (me_handle ref) = Some ?e"
      using expireLocked_keeps(2) [of st'' "me_handle ref" ?e later] young [of later] by auto
    then show ?thesis by (simp add: Resolve_def)
  qed (use assms(3) in auto)
qed

definition media_example_more :: "media_op list" where
  "media_example_more = [RetainOp 9 9 9 media_example_ref ''nopqr'', ResolveOp 50 ''media_2'', ReleaseOp ''media_2'']"

theorem retained_media_resolves_witness:
  "\<exists>st ref st' st''. media_run media_example_ops media_example_store = Some st \<and>
     Retain 8 8 8 media_example_ref ''ijklm'' st = Some (Inr ref, st') \<and> me_handle ref = ''media_3'' \<and> mo_order st' = [''media_2'', ''media_3''] \<and>
     media_run media_example_more st' = Some st'' \<and>
     fst (Resolve 107 ''media_3'' st'') = Inr \<lparr>md_ref = ref, md_bytes = ''ijklm''\<rparr>"
proof -
  obtain st where st: "media_run media_example_ops media_example_store = Some st" "media_ok st" "within_bounds st"
    using media_run_ok NewMediaStore_ok [OF media_example_new] by blast
  have "map_option (\<lambda>(r, s). (map_sum id me_handle r, mo_order s, mo_config s)) (Retain 8 8 8 media_example_ref ''ijklm'' (the (media_run media_example_ops media_example_store)))
      = Some (Inr ''media_3'', [''media_2'', ''media_3''], \<lparr>mc_maxItems = 32, mc_maxBytes = 10, mc_window = 100\<rparr>)" by code_simp
  then obtain r st' where rs: "Retain 8 8 8 media_example_ref ''ijklm'' st = Some (r, st')" "map_sum id me_handle r = Inr ''media_3''"
    "mo_order st' = [''media_2'', ''media_3'']" "mo_config st' = \<lparr>mc_maxItems = 32, mc_maxBytes = 10, mc_window = 100\<rparr>" using st by auto
  then obtain ref where r: "Retain 8 8 8 media_example_ref ''ijklm'' st = Some (Inr ref, st')" "me_handle ref = ''media_3''" by (cases r) auto
  have "media_run [RetainOp 8 8 8 media_example_ref ''ijklm''] st = Some st'" by (simp add: media_step_def r(1))
  with media_run_ok [OF st(2,3), of "[RetainOp 8 8 8 media_example_ref ''ijklm'']"] have "media_ok st'" "within_bounds st'" by auto
  then obtain st'' where st'': "media_run media_example_more st' = Some st''" using media_run_ok by blast
  have "fst (Resolve 107 (me_handle ref) st'') = Inr \<lparr>md_ref = ref, md_bytes = ''ijklm''\<rparr>"
    by (rule retained_media_resolves [OF media_example_new st(1) r(1) st''])
      (simp_all add: media_example_config_def media_example_more_def rs(4) r(2))
  with st st'' r rs(3) show ?thesis by auto
qed

subsection \<open>Age\<close>

text \<open>
  Expiry looks at the head of the order only. It is enough because entries are filed in the order of their
  times, as long as the readings of the clock do not go backwards.
\<close>

definition ages :: "media_store \<Rightarrow> u64 list" where
  "ages st = map (\<lambda>h. mn_retainedNS (the (map_of (mo_entries st) h))) (mo_order st)"

definition in_age_order :: "u64 list \<Rightarrow> media_store \<Rightarrow> bool" where
  "in_age_order past st \<longleftrightarrow> sorted (ages st) \<and> set (ages st) \<subseteq> set past"

lemma ages_aged: "aged st st' \<Longrightarrow> suffix (ages st') (ages st)"
  unfolding aged_def ages_def using map_mono_suffix
  by (metis (no_types, lifting) map_cong)

lemma in_age_order_aged: "aged st st' \<Longrightarrow> in_age_order past st \<Longrightarrow> in_age_order past st'"
proof -
  assume "aged st st'" "in_age_order past st"
  moreover obtain zs where "ages st = zs @ ages st'" using ages_aged [OF \<open>aged st st'\<close>] by (auto simp: suffix_def)
  ultimately show ?thesis by (simp add: in_age_order_def sorted_append)
qed

lemma in_age_order_cong:
  "mo_entries st' = mo_entries st \<Longrightarrow> mo_order st' = mo_order st \<Longrightarrow> in_age_order past st' = in_age_order past st"
  by (simp add: in_age_order_def ages_def)

lemma in_age_order_remove:
  assumes "media_ok st" "in_age_order past st"
  shows "in_age_order past (removeLocked h st)"
proof (cases "map_of (mo_entries st) h")
  case (Some e)
  let ?f = "\<lambda>h. mn_retainedNS (the (map_of (mo_entries st) h))"
  have "distinct (mo_order st)" using assms(1) by (simp add: media_ok_def)
  then have "ages (removeLocked h st) = map ?f (remove1 h (mo_order st))"
    using Some by (auto simp: ages_def removeLocked_def delete_conv' set_remove1_eq)
  then show ?thesis
    using assms(2) set_remove1_subset [of h "mo_order st"]
    by (auto simp: in_age_order_def ages_def sorted_map_remove1)
qed (use assms in \<open>simp add: removeLocked_def\<close>)

lemma in_age_order_file:
  assumes "in_age_order past st" "\<forall>t \<in> set past. t \<le> retained" "map_of (mo_entries st) (me_handle ref) = None"
    and ok: "media_ok st"
  shows "in_age_order (past @ [retained]) (file_media ref payload retained st)"
proof -
  have "me_handle ref \<notin> set (mo_order st)" using media_ok_lookup [OF ok, of "me_handle ref"] assms(3) by simp
  then have "ages (file_media ref payload retained st) = ages st @ [retained]"
    by (auto simp: ages_def file_media_def)
  then show ?thesis using assms(1,2) by (auto simp: in_age_order_def sorted_append)
qed

lemma in_age_order_step:
  assumes ok: "media_ok st" and ord: "in_age_order past st" and clock: "sorted (past @ op_times op)"
    and step: "media_step op st = Some st'"
  shows "in_age_order (past @ op_times op) st'"
proof (cases op)
  case (RetainOp t1 t2 t3 ref payload)
  from ok show ?thesis
  proof (cases rule: Retain_cases [where captured = t1 and retained = t2 and now = t3 and ref = ref and payload = payload])
    case (refused err st'')
    then have "in_age_order past st'" using step RetainOp ord in_age_order_cong [of st'' st] by (auto simp: media_step_def)
    then show ?thesis by (auto simp: in_age_order_def)
  next
    case (filed ref1 mid st'')
    then have st'': "st'' = st'" using step RetainOp by (simp add: media_step_def)
    have "in_age_order past (snd (complete_ref t1 payload ref st))" using ord in_age_order_cong [of "snd (complete_ref t1 payload ref st)" st] by simp
    moreover have "\<forall>t \<in> set past. t \<le> t2" using clock RetainOp by (simp add: sorted_append)
    ultimately have "in_age_order (past @ [t2]) mid"
      unfolding filed(3) using filed(10) ok by (intro in_age_order_file) simp_all
    then have "in_age_order (past @ [t2]) st'"
      using in_age_order_aged [OF aged_trans [OF expireLocked_aged [OF filed(4)] filed(6)]] st'' by simp
    then show ?thesis using RetainOp by (auto simp: in_age_order_def)
  qed
next
  case (ResolveOp t h)
  have "in_age_order past (expireLocked t st)" by (rule in_age_order_aged [OF expireLocked_aged [OF ok] ord])
  then have "in_age_order past st'"
    using step ResolveOp in_age_order_cong [of st' "expireLocked t st"]
    by (auto simp: media_step_def Resolve_def Let_def split: option.splits)
  then show ?thesis by (auto simp: in_age_order_def)
next
  case (ReleaseOp h)
  then show ?thesis using step in_age_order_remove [OF ok ord] by (auto simp: media_step_def ReleaseMedia_def)
qed

lemma in_age_order_run:
  "media_ok st \<Longrightarrow> within_bounds st \<Longrightarrow> in_age_order past st \<Longrightarrow> sorted (past @ concat (map op_times ops)) \<Longrightarrow> media_run ops st = Some st' \<Longrightarrow>
   in_age_order (past @ concat (map op_times ops)) st'"
proof (induction ops arbitrary: st past)
  case (Cons op ops)
  obtain st1 where st1: "media_step op st = Some st1" "media_ok st1" "within_bounds st1"
    using media_step_ok [OF Cons.prems(1,2)] by metis
  have "sorted (past @ op_times op)" using Cons.prems(4) by (simp add: sorted_append)
  from Cons.IH [OF st1(2,3) in_age_order_step [OF Cons.prems(1,3) this st1(1)]] Cons.prems(4,5) st1(1)
  show ?case by simp
qed simp

lemma expire_loop_head:
  assumes "media_ok st" "mo_order (expire_loop now window st) = h # rest"
  shows "now < hd (ages (expire_loop now window st)) + window"
  using assms
proof (induction now window st rule: expire_loop.induct)
  case (1 now window st)
  show ?case
  proof (cases "mo_order st")
    case Nil
    with 1(4) show ?thesis by (subst (asm) expire_loop.simps) simp
  next
    case (Cons g more)
    obtain f where f: "map_of (mo_entries st) g = Some f" using media_ok_lookup [OF 1(3), of g] Cons by auto
    show ?thesis
    proof (cases "now < mn_retainedNS f + window")
      case True
      then have "expire_loop now window st = st" by (subst expire_loop.simps) (simp add: Cons f)
      then show ?thesis using True by (simp add: ages_def Cons f)
    next
      case False
      then have "expire_loop now window st = expire_loop now window (removeLocked g st)"
        by (subst expire_loop.simps) (simp add: Cons f)
      then show ?thesis using 1(2) [OF Cons f False aged_ok [OF removeLocked_oldest(1) [OF 1(3) Cons]]] 1(4) by simp
    qed
  qed
qed

text \<open>
  Media past its window never resolves: on a clock that does not go backwards, whatever has been retained,
  resolved and released before, a handle that resolves names an entry younger than the window.
\<close>

theorem expired_media_never_resolves:
  assumes "NewMediaStore cfg = Inr st0" and "media_run ops st0 = Some st"
    and "sorted (concat (map op_times (ops @ [ResolveOp now h])))"
    and "mc_window cfg \<noteq> 0" and "unat now + unat (mc_window cfg) < 2 ^ 64"
    and "fst (Resolve now h st) = Inr m"
  shows "\<exists>e. map_of (mo_entries st) h = Some e \<and> mn_media e = m \<and> unat now < unat (mn_retainedNS e) + unat (mc_window cfg)"
proof -
  let ?times = "concat (map op_times ops)"
  have w0: "mc_window (mo_config st0) = mc_window cfg" "in_age_order [] st0"
    using assms(1) by (auto simp: NewMediaStore_def in_age_order_def ages_def split: if_splits)
  with media_run_ok [of st0 ops] NewMediaStore_ok [OF assms(1)] assms(2)
  have ok: "media_ok st" and win: "mc_window (mo_config st) = mc_window cfg" by auto
  have ord: "in_age_order ?times st"
    using in_age_order_run [of st0 "[]" ops st] NewMediaStore_ok [OF assms(1)] w0(2) assms(2,3) by (simp add: sorted_append)
  have "0 \<le>s mc_window cfg" using ok win by (simp add: media_ok_def)
  then have pos: "\<not> mc_window cfg \<le>s 0" using assms(4) uint_word64_range(2) [of "mc_window cfg"]
    by (auto simp: word_sle_eq sint_word64 [of "mc_window cfg"] uint_0_iff split: if_splits)
  let ?x = "expire_loop now (mc_window cfg) st"
  have a: "aged st ?x" by (rule expire_loop_aged [OF ok])
  have ordx: "in_age_order ?times ?x" by (rule in_age_order_aged [OF a ord])
  obtain e where e: "map_of (mo_entries ?x) h = Some e" "mn_media e = m"
    using assms(6) pos win by (auto simp: Resolve_def expireLocked_def Let_def split: option.splits)
  then have h: "h \<in> set (mo_order ?x)" using media_ok_lookup [OF aged_ok [OF a], of h] by simp
  then obtain g rest where g: "mo_order ?x = g # rest" by (cases "mo_order ?x") auto
  have head: "now < hd (ages ?x) + mc_window cfg" by (rule expire_loop_head [OF ok g])
  have mem: "mn_retainedNS e \<in> set (ages ?x)" "hd (ages ?x) \<in> set (ages ?x)" using h e(1) g by (force simp: ages_def)+
  then have le: "hd (ages ?x) \<le> mn_retainedNS e" "hd (ages ?x) \<le> now"
    using ordx g assms(3) by (auto simp: in_age_order_def ages_def sorted_append)
  then have "unat now < unat (hd (ages ?x)) + unat (mc_window cfg)"
    using head assms(5) by (simp add: word_less_nat_alt word_le_nat_alt unat_add_word64)
  then have "unat now < unat (mn_retainedNS e) + unat (mc_window cfg)" using le(1) by (simp add: word_le_nat_alt)
  with e h a show ?thesis by (auto simp: aged_def)
qed

theorem expired_media_never_resolves_witness:
  "\<exists>st m e. media_run media_example_ops media_example_store = Some st \<and> fst (Resolve 104 ''media_2'' st) = Inr m \<and>
     map_of (mo_entries st) ''media_2'' = Some e \<and> mn_media e = m \<and> unat (104 :: u64) < unat (mn_retainedNS e) + 100"
proof -
  obtain st where st: "media_run media_example_ops media_example_store = Some st"
    using media_run_ok NewMediaStore_ok [OF media_example_new] by blast
  have "map_sum id md_bytes (fst (Resolve 104 ''media_2'' (the (media_run media_example_ops media_example_store)))) = Inr ''efgh''" by code_simp
  then obtain m where m: "fst (Resolve 104 ''media_2'' st) = Inr m" using st by (auto simp: map_sum_def split: sum.splits)
  have w: "mc_window media_example_config = 100" by (simp add: media_example_config_def)
  have "sorted (concat (map op_times (media_example_ops @ [ResolveOp 104 ''media_2''])))" by code_simp
  from expired_media_never_resolves [OF media_example_new st this _ _ m] st m show ?thesis by (simp add: w)
qed

end
