(* ===== verification/Companding.thy ===== *)
theory Companding
  imports Prelude
begin

section \<open>Telephone audio\<close>

text \<open>
  \<^verbatim>\<open>src/pcm/g711.go\<close>, the two companding laws of G.711. A byte is an integer below 256 and a 16-bit
  sample an integer from -32768 to 32767; the conversions that narrow an \<^verbatim>\<open>int32\<close> are written out as
  \<open>to_byte\<close> and \<open>to_int16\<close>, and no intermediate value leaves the \<^verbatim>\<open>int32\<close> range.
  The facts about a stream are proved once, in the locale \<open>companding\<close>, for any pair of sample functions
  that agree; the agreement of the code's two pairs is evaluated on all 256 bytes.
\<close>

unbundle bit_operations_syntax

definition to_byte :: "int \<Rightarrow> int" where
  "to_byte v = v mod 256"

definition to_int16 :: "int \<Rightarrow> int" where
  "to_int16 v = (v + 32768) mod 65536 - 32768"

definition to_uint16 :: "int \<Rightarrow> int" where
  "to_uint16 v = v mod 65536"

abbreviation is_byte :: "int \<Rightarrow> bool" where
  "is_byte b \<equiv> 0 \<le> b \<and> b < 256"

abbreviation is_int16 :: "int \<Rightarrow> bool" where
  "is_int16 s \<equiv> - 32768 \<le> s \<and> s < 32768"

subsection \<open>Samples\<close>

definition muLawBias :: int where "muLawBias = 0x84"
definition muLawClip :: int where "muLawClip = 32635"
definition aLawClip :: int where "aLawClip = 32635"

definition segmentEnd :: "int list" where
  "segmentEnd = [0xFF, 0x1FF, 0x3FF, 0x7FF, 0xFFF, 0x1FFF, 0x3FFF, 0x7FFF]"

fun segment_loop :: "int \<Rightarrow> int list \<Rightarrow> nat \<Rightarrow> nat" where
  "segment_loop v [] i = 8"
| "segment_loop v (e # es) i = (if v \<le> e then i else segment_loop v es (Suc i))"

definition segment :: "int \<Rightarrow> nat" where
  "segment v = segment_loop v segmentEnd 0"

definition EncodeMuLawSample :: "int \<Rightarrow> int" where
  "EncodeMuLawSample s =
     (let sign = (if s < 0 then 0x80 else 0);
          v1 = (if s < 0 then - s else s);
          v2 = (if muLawClip < v1 then muLawClip else v1);
          v = v2 + muLawBias;
          exponent = segment v
      in if 8 \<le> exponent then to_byte (0x7F XOR sign)
         else let mantissa = drop_bit (exponent + 3) v AND 0x0F
              in to_byte (NOT (sign OR push_bit 4 (int exponent) OR mantissa)))"

definition DecodeMuLawSample :: "int \<Rightarrow> int" where
  "DecodeMuLawSample b =
     (let v = to_byte (NOT b);
          exponent = nat (drop_bit 4 v AND 0x07);
          mantissa = v AND 0x0F;
          s = push_bit exponent (push_bit 3 mantissa + muLawBias) - muLawBias
      in if v AND 0x80 \<noteq> 0 then to_int16 (- s) else to_int16 s)"

definition EncodeALawSample :: "int \<Rightarrow> int" where
  "EncodeALawSample s =
     (let sign = (if 0 \<le> s then 0x80 else 0);
          v1 = (if 0 \<le> s then s else if - s - 1 < 0 then 0 else - s - 1);
          v = (if aLawClip < v1 then aLawClip else v1);
          encoded = (if 256 \<le> v
                     then push_bit 4 (int (segment v)) OR (drop_bit (segment v + 3) v AND 0x0F)
                     else drop_bit 4 v)
      in to_byte ((encoded OR sign) XOR 0x55))"

definition DecodeALawSample :: "int \<Rightarrow> int" where
  "DecodeALawSample b =
     (let v = b XOR 0x55;
          exponent = nat (drop_bit 4 (v AND 0x70));
          mantissa = v AND 0x0F;
          s = (if exponent = 0 then push_bit 4 mantissa + 8
               else push_bit (exponent - 1) (push_bit 4 mantissa + 0x108))
      in if v AND 0x80 = 0 then to_int16 (- s) else to_int16 s)"

subsection \<open>Streams\<close>

text \<open>Little-endian samples; a trailing odd byte is no sample.\<close>

definition sample_of :: "int \<Rightarrow> int \<Rightarrow> int" where
  "sample_of lo hi = to_int16 (lo OR to_uint16 (push_bit 8 hi))"

definition bytes_of :: "int \<Rightarrow> int list" where
  "bytes_of s = [to_byte (to_uint16 s), to_byte (drop_bit 8 (to_uint16 s))]"

fun samples_of :: "int list \<Rightarrow> int list" where
  "samples_of (lo # hi # r) = sample_of lo hi # samples_of r"
| "samples_of _ = []"

definition EncodeMuLaw :: "int list \<Rightarrow> int list" where
  "EncodeMuLaw pcm16le = map EncodeMuLawSample (samples_of pcm16le)"

definition DecodeMuLaw :: "int list \<Rightarrow> int list" where
  "DecodeMuLaw encoded = concat (map (\<lambda>v. bytes_of (DecodeMuLawSample v)) encoded)"

definition EncodeALaw :: "int list \<Rightarrow> int list" where
  "EncodeALaw pcm16le = map EncodeALawSample (samples_of pcm16le)"

definition DecodeALaw :: "int list \<Rightarrow> int list" where
  "DecodeALaw encoded = concat (map (\<lambda>v. bytes_of (DecodeALawSample v)) encoded)"

subsection \<open>Bytes and samples\<close>

lemma to_int16_id [simp]: "is_int16 s \<Longrightarrow> to_int16 s = s"
  by (simp add: to_int16_def)

lemma to_int16_range [simp]: "- 32768 \<le> to_int16 v" "to_int16 v < 32768"
  by (simp_all add: to_int16_def)

lemma to_byte_range [simp]: "0 \<le> to_byte v" "to_byte v < 256"
  by (simp_all add: to_byte_def)

lemma low_or_high: "is_byte lo \<Longrightarrow> lo OR push_bit 8 hi = lo + hi * 256" for lo hi :: int
  using concat_bit_eq [of 8 lo hi] by (simp add: concat_bit_def take_bit_eq_mod push_bit_eq_mult)

lemma sample_of_bytes:
  assumes "is_int16 s" "bytes_of s = [lo, hi]"
  shows "sample_of lo hi = s"
proof -
  define u where "u = s mod 65536"
  have lo: "lo = u mod 256" and hi: "hi = u div 256"
    using assms by (auto simp: bytes_of_def to_byte_def to_uint16_def u_def drop_bit_eq_div)
  have u: "0 \<le> u" "u < 65536" by (simp_all add: u_def)
  have "to_uint16 (push_bit 8 hi) = push_bit 8 hi"
    using u by (simp add: hi to_uint16_def push_bit_eq_mult)
  then have "lo OR to_uint16 (push_bit 8 hi) = u"
    using low_or_high [of lo hi] by (simp add: lo hi)
  then show ?thesis
    using assms(1) by (auto simp: sample_of_def to_int16_def u_def mod_add_left_eq)
qed

lemma length_bytes_of [simp]: "length (bytes_of s) = 2"
  by (simp add: bytes_of_def)

lemma samples_of_bytes:
  "list_all is_int16 xs \<Longrightarrow> samples_of (concat (map bytes_of xs)) = xs"
proof (induction xs)
  case (Cons x xs)
  then show ?case using sample_of_bytes [of x] by (simp add: bytes_of_def)
qed simp

subsection \<open>A companding law\<close>

locale companding =
  fixes enc dec canon :: "int \<Rightarrow> int"
  assumes dec_range: "is_byte b \<Longrightarrow> is_int16 (dec b)"
    and enc_dec: "is_byte b \<Longrightarrow> enc (dec b) = canon b"
    and dec_canon: "is_byte b \<Longrightarrow> dec (canon b) = dec b"
begin

lemma decoded_samples:
  "list_all is_byte bs \<Longrightarrow> samples_of (concat (map (\<lambda>v. bytes_of (dec v)) bs)) = map dec bs"
  using samples_of_bytes [of "map dec bs"] dec_range by (simp add: list_all_iff comp_def)

lemma reencoded:
  assumes "list_all is_byte bs"
  shows "map enc (samples_of (concat (map (\<lambda>v. bytes_of (dec v)) bs))) = map canon bs"
  using assms enc_dec by (simp add: decoded_samples list_all_iff)

lemma no_further_loss:
  assumes "list_all is_byte bs"
  shows "concat (map (\<lambda>v. bytes_of (dec v)) (map canon bs)) = concat (map (\<lambda>v. bytes_of (dec v)) bs)"
proof -
  have "map (\<lambda>v. bytes_of (dec v)) (map canon bs) = map (\<lambda>v. bytes_of (dec v)) bs"
    using assms dec_canon by (simp add: list_all_iff)
  then show ?thesis by (rule arg_cong)
qed

end

text \<open>Both laws are evaluated on every byte. \<^verbatim>\<open>0x7F\<close> is the second zero of the \<open>\<mu>\<close>-law.\<close>

definition mulaw_canon :: "int \<Rightarrow> int" where
  "mulaw_canon b = (if b = 0x7F then 0xFF else b)"

definition mulaw_agrees :: "int \<Rightarrow> bool" where
  "mulaw_agrees b = (let s = DecodeMuLawSample b
     in is_int16 s \<and> EncodeMuLawSample s = mulaw_canon b \<and> DecodeMuLawSample (mulaw_canon b) = s)"

definition alaw_agrees :: "int \<Rightarrow> bool" where
  "alaw_agrees b = (let s = DecodeALawSample b in is_int16 s \<and> EncodeALawSample s = b)"

lemma mulaw_all: "list_all mulaw_agrees [0..255]"
  by code_simp

lemma alaw_all: "list_all alaw_agrees [0..255]"
  by code_simp

lemma every_byte: "list_all P [0..255] \<Longrightarrow> is_byte b \<Longrightarrow> P b"
  by (simp add: list_all_iff)

interpretation mulaw: companding EncodeMuLawSample DecodeMuLawSample mulaw_canon
  using every_byte [OF mulaw_all] by unfold_locales (simp_all add: mulaw_agrees_def Let_def)

interpretation alaw: companding EncodeALawSample DecodeALawSample id
  using every_byte [OF alaw_all] by unfold_locales (simp_all add: alaw_agrees_def Let_def)

text \<open>
  C40. Telephone audio that is decoded to PCM and encoded again is what it was: A-law bytes come back
  unchanged, \<open>\<mu>\<close>-law bytes too, except that negative zero comes back as zero; and the PCM decoded from
  the result is the PCM first decoded, so a second pass through the codec loses nothing.
\<close>

theorem telephone_audio_round_trips:
  assumes "list_all is_byte encoded"
  shows "EncodeALaw (DecodeALaw encoded) = encoded
    \<and> EncodeMuLaw (DecodeMuLaw encoded) = map (\<lambda>b. if b = 0x7F then 0xFF else b) encoded
    \<and> DecodeMuLaw (EncodeMuLaw (DecodeMuLaw encoded)) = DecodeMuLaw encoded"
  using alaw.reencoded [OF assms] mulaw.reencoded [OF assms] mulaw.no_further_loss [OF assms]
  by (simp add: EncodeALaw_def DecodeALaw_def EncodeMuLaw_def DecodeMuLaw_def mulaw_canon_def [abs_def])

theorem telephone_audio_round_trips_witness:
  "EncodeALaw (DecodeALaw [0x00, 0x7F, 0xD5, 0xFF]) = [0x00, 0x7F, 0xD5, 0xFF]
    \<and> EncodeMuLaw (DecodeMuLaw [0x00, 0x7F, 0xD5, 0xFF]) = [0x00, 0xFF, 0xD5, 0xFF]
    \<and> DecodeMuLaw [0x00, 0x7F] = [0x84, 0x82, 0x00, 0x00]"
proof -
  have "DecodeMuLaw [0x00, 0x7F] = [0x84, 0x82, 0x00, 0x00]" by code_simp
  then show ?thesis
    using telephone_audio_round_trips [of "[0x00, 0x7F, 0xD5, 0xFF]"] by simp
qed

end
