(* ===== verification/Resampler.thy ===== *)
theory Resampler
  imports Companding
begin

section \<open>Resampling a stream\<close>

text \<open>
  \<^verbatim>\<open>src/pcm/resampler.go\<close>: linear interpolation of mono PCM that arrives in fragments. The counters are
  \<^verbatim>\<open>uint64\<close>; every sum and product is guarded in the code against overflow and is written without
  wrap-around here, except the increment of the output counter, which has no guard. The 64-bit products
  of a sample and a rate fit. The loop that emits samples relies on its own progress to end, so it is a
  partial function; that it returns is part of what is proved.
\<close>

definition MaxUint64 :: nat where
  "MaxUint64 = 2 ^ 64 - 1"

record Resampler =
  rs_inputRate :: nat
  rs_outputRate :: nat
  rs_buffer :: "int list"
  rs_bufferStart :: nat
  rs_totalInput :: nat
  rs_nextOutput :: nat
  rs_finalized :: bool

datatype resampler_error =
  RatesNotPositive | AlreadyFinalized | OddInput | InputOverflows | OutputOverflows | PositionOverflows
| LostSample nat

definition NewResampler :: "nat \<Rightarrow> nat \<Rightarrow> (resampler_error, Resampler) result" where
  "NewResampler inputRate outputRate =
     (if inputRate = 0 \<or> outputRate = 0 then Inl RatesNotPositive
      else Inr \<lparr>rs_inputRate = inputRate, rs_outputRate = outputRate, rs_buffer = [], rs_bufferStart = 0,
                rs_totalInput = 0, rs_nextOutput = 0, rs_finalized = False\<rparr>)"

definition sample :: "Resampler \<Rightarrow> nat \<Rightarrow> (resampler_error, int) result" where
  "sample r i =
     (if i < rs_bufferStart r \<or> length (rs_buffer r) \<le> i - rs_bufferStart r then Inl (LostSample i)
      else Inr (rs_buffer r ! (i - rs_bufferStart r)))"

text \<open>Go's division truncates towards zero.\<close>

definition quotient :: "int \<Rightarrow> int \<Rightarrow> int" where
  "quotient a b = sgn a * sgn b * (\<bar>a\<bar> div \<bar>b\<bar>)"

definition interpolate :: "nat \<Rightarrow> int \<Rightarrow> int \<Rightarrow> nat \<Rightarrow> int" where
  "interpolate outputRate leftSample rightSample fraction =
     to_int16 (quotient (leftSample * (int outputRate - int fraction) + rightSample * int fraction) (int outputRate))"

text \<open>One pass of the loop: the loop ends, fails, or emits a sample.\<close>

datatype produced = Break | Fail resampler_error | Emit int

definition produce_step :: "Resampler \<Rightarrow> bool \<Rightarrow> nat \<Rightarrow> produced" where
  "produce_step r final targetCount =
     (if final \<and> targetCount \<le> rs_nextOutput r then Break
      else if MaxUint64 div rs_inputRate r < rs_nextOutput r then Fail PositionOverflows
      else let position = rs_nextOutput r * rs_inputRate r;
               left = position div rs_outputRate r;
               fraction = position mod rs_outputRate r
      in if rs_totalInput r \<le> left then Break
      else if fraction \<noteq> 0 \<and> rs_totalInput r \<le> left + 1 \<and> \<not> final then Break
      else let right = (if fraction \<noteq> 0 \<and> left + 1 < rs_totalInput r then left + 1 else left)
      in case sample r left of Inl e \<Rightarrow> Fail e
       | Inr leftSample \<Rightarrow> (case sample r right of Inl e \<Rightarrow> Fail e
       | Inr rightSample \<Rightarrow> Emit (interpolate (rs_outputRate r) leftSample rightSample fraction)))"

partial_function (option) produce_loop ::
  "Resampler \<Rightarrow> bool \<Rightarrow> nat \<Rightarrow> int list \<Rightarrow> (Resampler \<times> (resampler_error, int list) result) option" where
  "produce_loop r final targetCount out =
     (case produce_step r final targetCount of
        Break \<Rightarrow> Some (r, Inr out)
      | Fail e \<Rightarrow> Some (r, Inl e)
      | Emit v \<Rightarrow> produce_loop (r\<lparr>rs_nextOutput := (rs_nextOutput r + 1) mod 2 ^ 64\<rparr>) final targetCount
                    (out @ bytes_of v))"

definition discardConsumedPrefix :: "Resampler \<Rightarrow> Resampler" where
  "discardConsumedPrefix r =
     (if rs_buffer r = [] \<or> MaxUint64 div rs_inputRate r < rs_nextOutput r then r
      else let nextLeft = rs_nextOutput r * rs_inputRate r div rs_outputRate r
      in if nextLeft \<le> rs_bufferStart r then r
      else let n = min (nextLeft - rs_bufferStart r) (length (rs_buffer r))
      in r\<lparr>rs_buffer := drop n (rs_buffer r), rs_bufferStart := rs_bufferStart r + n\<rparr>)"

definition produce :: "Resampler \<Rightarrow> bool \<Rightarrow> (Resampler \<times> (resampler_error, int list) result) option" where
  "produce r final =
     (if rs_totalInput r = 0 then Some (r, Inr [])
      else if final \<and> (MaxUint64 - rs_inputRate r div 2) div rs_outputRate r < rs_totalInput r
      then Some (r, Inl OutputOverflows)
      else let targetCount = (if final then (rs_totalInput r * rs_outputRate r + rs_inputRate r div 2) div rs_inputRate r
                              else 0)
      in case produce_loop r final targetCount [] of
           None \<Rightarrow> None
         | Some (r', Inl e) \<Rightarrow> Some (r', Inl e)
         | Some (r', Inr out) \<Rightarrow>
             Some (if final then r'\<lparr>rs_buffer := [], rs_bufferStart := rs_totalInput r'\<rparr>
                   else discardConsumedPrefix r', Inr out))"

definition Push :: "Resampler \<Rightarrow> int list \<Rightarrow> (Resampler \<times> (resampler_error, int list) result) option" where
  "Push r input =
     (if rs_finalized r then Some (r, Inl AlreadyFinalized)
      else if odd (length input) then Some (r, Inl OddInput)
      else if input = [] then Some (r, Inr [])
      else let count = length input div 2
      in if MaxUint64 - rs_totalInput r < count then Some (r, Inl InputOverflows)
      else produce (r\<lparr>rs_buffer := rs_buffer r @ samples_of input, rs_totalInput := rs_totalInput r + count\<rparr>) False)"

definition Finalize :: "Resampler \<Rightarrow> (Resampler \<times> (resampler_error, int list) result) option" where
  "Finalize r =
     (if rs_finalized r then Some (r, Inl AlreadyFinalized)
      else produce (r\<lparr>rs_finalized := True\<rparr>) True)"

text \<open>A client's use of a resampler: fragments, then the end; the first failure stops it.\<close>

fun push_all :: "Resampler \<Rightarrow> int list list \<Rightarrow> (Resampler \<times> (resampler_error, int list) result) option" where
  "push_all r [] = Some (r, Inr [])"
| "push_all r (f # fs) =
     (case Push r f of
        None \<Rightarrow> None
      | Some (r', Inl e) \<Rightarrow> Some (r', Inl e)
      | Some (r', Inr out) \<Rightarrow>
          (case push_all r' fs of
             Some (r'', Inr out') \<Rightarrow> Some (r'', Inr (out @ out'))
           | other \<Rightarrow> other))"

definition convert :: "Resampler \<Rightarrow> int list list \<Rightarrow> (Resampler \<times> (resampler_error, int list) result) option" where
  "convert r fs =
     (case push_all r fs of
        Some (r', Inr out) \<Rightarrow>
          (case Finalize r' of
             Some (r'', Inr out') \<Rightarrow> Some (r'', Inr (out @ out'))
           | other \<Rightarrow> other)
      | other \<Rightarrow> other)"

subsection \<open>What the stream should be\<close>

text \<open>
  Output sample \<open>k\<close> stands at position \<open>k * inputRate / outputRate\<close> of the whole input, where it interpolates
  its neighbours, holding the last sample at the end. After \<open>n\<close> input samples the first
  \<open>available i p n\<close> of them need no further input, and the whole conversion has at least \<open>target i p n\<close>,
  the input's duration rounded.
\<close>

definition available :: "nat \<Rightarrow> nat \<Rightarrow> nat \<Rightarrow> nat" where
  "available i p n = (if n = 0 then 0 else (n - 1) * p div i + 1)"

definition target :: "nat \<Rightarrow> nat \<Rightarrow> nat \<Rightarrow> nat" where
  "target i p n = (n * p + i div 2) div i"

definition interpolated :: "nat \<Rightarrow> nat \<Rightarrow> int list \<Rightarrow> nat \<Rightarrow> int" where
  "interpolated i p xs k =
     (let left = k * i div p; fraction = k * i mod p
      in interpolate p (xs ! left) (xs ! (if fraction \<noteq> 0 \<and> left + 1 < length xs then left + 1 else left)) fraction)"

definition emitted :: "nat \<Rightarrow> nat \<Rightarrow> int list \<Rightarrow> nat \<Rightarrow> nat \<Rightarrow> int list" where
  "emitted i p xs a b = concat (map (\<lambda>k. bytes_of (interpolated i p xs k)) [a..<b])"

definition resampled :: "nat \<Rightarrow> nat \<Rightarrow> int list \<Rightarrow> int list" where
  "resampled i p xs = emitted i p xs 0 (max (available i p (length xs)) (target i p (length xs)))"

lemma emitted_split: "a \<le> b \<Longrightarrow> b \<le> c \<Longrightarrow> emitted i p xs a c = emitted i p xs a b @ emitted i p xs b c"
  using upt_add_eq_append [of a b "c - b"] by (simp add: emitted_def)

lemma emitted_none [simp]: "b \<le> a \<Longrightarrow> emitted i p xs a b = []"
  by (simp add: emitted_def)

lemma emitted_Cons: "a < b \<Longrightarrow> emitted i p xs a b = bytes_of (interpolated i p xs a) @ emitted i p xs (Suc a) b"
  by (simp add: emitted_def upt_conv_Cons)

lemma available_iff:
  assumes "0 < i" "0 < p" "0 < n"
  shows "k < available i p n \<longleftrightarrow> k * i \<le> (n - 1) * p"
  using assms by (simp add: available_def less_Suc_eq_le less_eq_div_iff_mult_less_eq)

lemma settled_iff:
  assumes "0 < i" "0 < p" "0 < n"
  shows "k < available i p n \<longleftrightarrow> k * i div p < n \<and> (k * i mod p = 0 \<or> k * i div p + 1 < n)"
proof -
  define l f m where "l = k * i div p" and "f = k * i mod p" and "m = n - 1"
  have p: "k * i = l * p + f" "f < p" using assms(2) by (simp_all add: l_def f_def)
  have n: "n = Suc m" using assms(3) by (simp add: m_def)
  have "l * p + f \<le> m * p \<longleftrightarrow> l < m \<or> l = m \<and> f = 0"
  proof (cases l m rule: linorder_cases)
    case less
    then have "Suc l * p \<le> m * p" by (intro mult_le_mono1) simp
    with p(2) less show ?thesis by simp
  next
    case greater
    then have "Suc m * p \<le> l * p" by (intro mult_le_mono1) simp
    with assms(2) greater show ?thesis by simp
  qed simp
  moreover have "k < available i p n \<longleftrightarrow> l * p + f \<le> m * p"
    unfolding available_iff [OF assms] p(1) m_def by (rule refl)
  ultimately show ?thesis unfolding l_def [symmetric] f_def [symmetric] n by auto
qed

lemma target_bound:
  assumes "0 < i" "0 < p" "k < target i p n"
  shows "k * i div p < n"
proof -
  have "Suc k * i \<le> target i p n * i" using assms(3) by (intro mult_le_mono1) simp
  also have "\<dots> \<le> n * p + i div 2" by (simp add: target_def)
  finally have "k * i < n * p" using assms(1) by simp
  then show ?thesis using assms(2) by (simp add: div_less_iff_less_mult)
qed

lemma target_fits: "0 < i \<Longrightarrow> target i p n * i \<le> n * p + i"
  using div_times_less_eq_dividend [of "n * p + i div 2" i] div_le_dividend [of i 2] unfolding target_def by linarith

lemma available_fits: "0 < i \<Longrightarrow> available i p n * i \<le> n * p + i"
proof (cases n)
  case (Suc m)
  then show ?thesis using div_times_less_eq_dividend [of "m * p" i] by (simp add: available_def trans_le_add2)
qed (simp add: available_def)

lemma available_mono: "n \<le> m \<Longrightarrow> available i p n \<le> available i p m"
  by (auto simp: available_def intro!: div_le_mono mult_le_mono)

lemma interpolated_settled:
  assumes "0 < i" "0 < p" "k < available i p (length xs)"
  shows "interpolated i p (xs @ ys) k = interpolated i p xs k"
proof -
  have "0 < length xs" using assms(3) by (auto simp: available_def)
  with settled_iff assms show ?thesis
    by (auto simp: interpolated_def Let_def nth_append)
qed

lemma emitted_settled:
  assumes "0 < i" "0 < p" "b \<le> available i p (length xs)"
  shows "emitted i p (xs @ ys) a b = emitted i p xs a b"
proof -
  have "map (\<lambda>k. bytes_of (interpolated i p (xs @ ys) k)) [a..<b] = map (\<lambda>k. bytes_of (interpolated i p xs k)) [a..<b]"
    using interpolated_settled [OF assms(1,2)] assms(3) by simp
  then show ?thesis unfolding emitted_def by (rule arg_cong)
qed

subsection \<open>The loop\<close>

text \<open>The resampler holds the part of the input that output samples from \<open>nextOutput\<close> on can still need.\<close>

definition holds :: "nat \<Rightarrow> nat \<Rightarrow> int list \<Rightarrow> Resampler \<Rightarrow> bool" where
  "holds i p xs r \<longleftrightarrow> 0 < i \<and> 0 < p \<and> rs_inputRate r = i \<and> rs_outputRate r = p \<and> rs_totalInput r = length xs
     \<and> rs_buffer r = drop (rs_bufferStart r) xs \<and> rs_bufferStart r \<le> length xs
     \<and> rs_bufferStart r \<le> rs_nextOutput r * i div p"

lemma sample_held: "holds i p xs r \<Longrightarrow> rs_bufferStart r \<le> j \<Longrightarrow> j < length xs \<Longrightarrow> sample r j = Inr (xs ! j)"
  by (auto simp: holds_def sample_def)

definition goal :: "nat \<Rightarrow> nat \<Rightarrow> nat \<Rightarrow> bool \<Rightarrow> nat" where
  "goal i p n final = (if final then target i p n else available i p n)"

lemma step_held:
  assumes h: "holds i p xs r" and k: "rs_nextOutput r * i \<le> MaxUint64" and n: "xs \<noteq> []"
    and t: "final \<Longrightarrow> t = target i p (length xs)"
  shows "produce_step r final t =
    (if goal i p (length xs) final \<le> rs_nextOutput r then Break else Emit (interpolated i p xs (rs_nextOutput r)))"
proof -
  define k where "k = rs_nextOutput r"
  have r: "0 < i" "0 < p" "rs_inputRate r = i" "rs_outputRate r = p" "rs_totalInput r = length xs"
    "rs_bufferStart r \<le> k * i div p"
    using h by (auto simp: holds_def k_def)
  have g: "\<not> MaxUint64 div i < k" using assms(2) r(1) by (simp add: k_def not_less less_eq_div_iff_mult_less_eq)
  have l: "sample r (k * i div p) = Inr (xs ! (k * i div p))" if "k * i div p < length xs"
    using sample_held [OF h r(6) that] .
  have m: "sample r (k * i div p + 1) = Inr (xs ! (k * i div p + 1))" if "k * i div p + 1 < length xs"
    using sample_held [OF h _ that] r(6) by simp
  have e: "produce_step r final t = Emit (interpolated i p xs k)"
    if "\<not> (final \<and> t \<le> k)" "k * i div p < length xs" "k * i mod p = 0 \<or> k * i div p + 1 < length xs \<or> final"
    using that g l m r(3-5) by (auto simp: produce_step_def interpolated_def Let_def k_def)
  show ?thesis
  proof (cases final)
    case True
    then show ?thesis using e target_bound [OF r(1,2), of k "length xs"] t
      by (auto simp: goal_def k_def produce_step_def)
  next
    case False
    have s: "k < available i p (length xs) \<longleftrightarrow> k * i div p < length xs \<and> (k * i mod p = 0 \<or> k * i div p + 1 < length xs)"
      using settled_iff [OF r(1,2)] n by simp
    show ?thesis
    proof (cases "k < available i p (length xs)")
      case True
      then show ?thesis using e s False by (auto simp: goal_def k_def)
    next
      case no: False
      then have "produce_step r final t = Break"
        using s False g r(3-5) by (auto simp: produce_step_def Let_def k_def)
      with no False show ?thesis by (simp add: goal_def k_def)
    qed
  qed
qed

lemma loop_held:
  assumes "holds i p xs r" "max (rs_nextOutput r) m * i \<le> MaxUint64" "xs \<noteq> []"
    "final \<Longrightarrow> t = target i p (length xs)" and m: "m = goal i p (length xs) final"
  shows "produce_loop r final t out =
    Some (r\<lparr>rs_nextOutput := max (rs_nextOutput r) m\<rparr>, Inr (out @ emitted i p xs (rs_nextOutput r) m))"
  using assms(1,2)
proof (induction "m - rs_nextOutput r" arbitrary: r out)
  case 0
  then have "produce_step r final t = Break" using step_held [of i p xs r final t] assms(3,4) m by simp
  with 0(1) show ?case by (simp add: produce_loop.simps)
next
  case (Suc d)
  let ?k = "rs_nextOutput r" let ?r = "r\<lparr>rs_nextOutput := Suc ?k\<rparr>"
  have k: "?k < m" using Suc(2) by simp
  have "?k * i \<le> m * i" using k by simp
  also have fits: "m * i \<le> MaxUint64" using Suc(4) k by (simp add: max_def)
  finally have "produce_step r final t = Emit (interpolated i p xs ?k)"
    using step_held [of i p xs r final t] Suc(3) assms(3,4) k m by simp
  moreover have "(?k + 1) mod 2 ^ 64 = Suc ?k"
  proof -
    have "0 < i" using Suc(3) by (simp add: holds_def)
    with mult_le_mono2 [of 1 i m] have "m \<le> m * i" by linarith
    with fits k have "Suc ?k \<le> MaxUint64" by linarith
    then show ?thesis by (simp add: MaxUint64_def)
  qed
  moreover have "holds i p xs ?r"
    using Suc(3) div_le_mono [of "?k * i" "Suc ?k * i" p] by (auto simp: holds_def)
  ultimately show ?case
    using Suc(1) [of ?r "out @ bytes_of (interpolated i p xs ?k)"] Suc(2,4) k
    by (subst produce_loop.simps) (simp add: emitted_Cons max_def)
qed

subsection \<open>Fragments\<close>

definition synced :: "nat \<Rightarrow> nat \<Rightarrow> int list \<Rightarrow> Resampler \<Rightarrow> bool" where
  "synced i p xs r \<longleftrightarrow> holds i p xs r \<and> rs_nextOutput r = available i p (length xs) \<and> \<not> rs_finalized r"

lemma synced_start: "NewResampler i p = Inr r \<Longrightarrow> synced i p [] r"
  by (auto simp: NewResampler_def synced_def holds_def available_def split: if_splits)

lemma discard_synced: "synced i p xs r \<Longrightarrow> synced i p xs (discardConsumedPrefix r)"
  by (auto simp: discardConsumedPrefix_def synced_def holds_def Let_def add.commute)

lemma length_samples_of: "even (length f) \<Longrightarrow> length (samples_of f) = length f div 2"
  by (induction f rule: samples_of.induct) auto

lemma samples_of_append: "even (length f) \<Longrightarrow> samples_of (f @ g) = samples_of f @ samples_of g"
  by (induction f rule: samples_of.induct) auto

lemma bounded_room:
  assumes "n * p + i \<le> MaxUint64" "0 < p"
  shows "n \<le> MaxUint64"
proof -
  have "n \<le> n * p" using assms(2) mult_le_mono2 [of 1 p n] by linarith
  with assms(1) show ?thesis by linarith
qed

lemma push_synced:
  assumes s: "synced i p xs r" and f: "even (length f)"
    and b: "length (xs @ samples_of f) * p + i \<le> MaxUint64"
  shows "\<exists>r'. Push r f = Some (r', Inr (emitted i p (xs @ samples_of f)
      (available i p (length xs)) (available i p (length (xs @ samples_of f))))) \<and> synced i p (xs @ samples_of f) r'"
proof (cases "f = []")
  case True
  with s show ?thesis by (simp add: Push_def synced_def)
next
  case False
  define ys where "ys = xs @ samples_of f"
  define r1 where "r1 = r\<lparr>rs_buffer := rs_buffer r @ samples_of f, rs_totalInput := rs_totalInput r + length f div 2\<rparr>"
  have i: "0 < i" "0 < p" using s by (auto simp: synced_def holds_def)
  have n: "length ys = length xs + length f div 2" using f by (simp add: ys_def length_samples_of)
  have room: "\<not> MaxUint64 - rs_totalInput r < length f div 2"
    using bounded_room [OF b i(2)] s n by (simp add: synced_def holds_def ys_def)
  have h: "holds i p ys r1"
    using s f by (auto simp: synced_def holds_def r1_def ys_def length_samples_of)
  have ne: "ys \<noteq> []" using False f n by (cases f rule: samples_of.cases) auto
  have k: "rs_nextOutput r1 = available i p (length xs)" using s by (simp add: synced_def r1_def)
  have le: "rs_nextOutput r1 \<le> available i p (length ys)"
    using available_mono [of "length xs" "length ys" i p] n unfolding k by linarith
  have "available i p (length ys) * i \<le> MaxUint64"
    using available_fits [OF i(1), of p "length ys"] b by (simp add: ys_def)
  then have fits: "max (rs_nextOutput r1) (available i p (length ys)) * i \<le> MaxUint64" using le by (simp only: max_absorb2)
  have "available i p (length ys) = goal i p (length ys) False" by (simp add: goal_def)
  from loop_held [OF h fits ne _ this, of 0 "[]"]
  have l: "produce_loop r1 False 0 [] = Some (r1\<lparr>rs_nextOutput := available i p (length ys)\<rparr>,
      Inr (emitted i p ys (available i p (length xs)) (available i p (length ys))))"
    using le by (simp only: max_absorb2 k append_Nil)
  have "holds i p ys (r1\<lparr>rs_nextOutput := available i p (length ys)\<rparr>)"
    using h div_le_mono [OF mult_le_mono1 [OF le], of i p] by (auto simp: holds_def)
  then have "synced i p ys (discardConsumedPrefix (r1\<lparr>rs_nextOutput := available i p (length ys)\<rparr>))"
    using s by (intro discard_synced) (simp add: synced_def r1_def)
  moreover have "Push r f = Some (discardConsumedPrefix (r1\<lparr>rs_nextOutput := available i p (length ys)\<rparr>),
      Inr (emitted i p ys (available i p (length xs)) (available i p (length ys))))"
  proof -
    have "Push r f = produce r1 False"
      using False f room s by (simp add: Push_def synced_def r1_def)
    moreover have "rs_totalInput r1 \<noteq> 0" using h ne by (simp add: holds_def)
    ultimately show ?thesis using l by (simp add: produce_def)
  qed
  ultimately show ?thesis by (simp add: ys_def)
qed

lemma push_all_synced:
  assumes "synced i p xs r" "\<forall>f\<in>set fs. even (length f)"
    "length (xs @ samples_of (concat fs)) * p + i \<le> MaxUint64"
  shows "\<exists>r'. push_all r fs = Some (r', Inr (emitted i p (xs @ samples_of (concat fs))
      (available i p (length xs)) (available i p (length (xs @ samples_of (concat fs))))))
    \<and> synced i p (xs @ samples_of (concat fs)) r'"
  using assms
proof (induction fs arbitrary: xs r)
  case Nil
  then show ?case by simp
next
  case (Cons f fs)
  let ?ys = "xs @ samples_of f" and ?zs = "samples_of (concat fs)"
  have i: "0 < i" "0 < p" using Cons(2) by (auto simp: synced_def holds_def)
  have c: "samples_of (concat (f # fs)) = samples_of f @ ?zs"
    using Cons(3) by (simp add: samples_of_append)
  have "length ?ys * p \<le> length (xs @ samples_of (concat (f # fs))) * p" unfolding c by (intro mult_le_mono1) simp
  with Cons(4) have b: "length ?ys * p + i \<le> MaxUint64" by linarith
  obtain r1 where r1: "Push r f = Some (r1, Inr (emitted i p ?ys (available i p (length xs)) (available i p (length ?ys))))"
    "synced i p ?ys r1"
    using push_synced [OF Cons(2) _ b] Cons(3) by auto
  obtain r2 where r2: "push_all r1 fs = Some (r2, Inr (emitted i p (?ys @ ?zs) (available i p (length ?ys)) (available i p (length (?ys @ ?zs)))))"
    "synced i p (?ys @ ?zs) r2"
    using Cons(1) [OF r1(2)] Cons(3,4) unfolding c by auto
  have "emitted i p (?ys @ ?zs) (available i p (length xs)) (available i p (length (?ys @ ?zs)))
      = emitted i p ?ys (available i p (length xs)) (available i p (length ?ys))
        @ emitted i p (?ys @ ?zs) (available i p (length ?ys)) (available i p (length (?ys @ ?zs)))"
    using emitted_split [OF available_mono available_mono, of "length xs" "length ?ys" "length (?ys @ ?zs)" i p]
      emitted_settled [OF i, of "available i p (length ?ys)" ?ys ?zs] by simp
  with r1(1) r2 show ?case unfolding c by auto
qed

lemma finalize_synced:
  assumes s: "synced i p xs r" and b: "length xs * p + i \<le> MaxUint64"
  shows "\<exists>r'. Finalize r = Some (r', Inr (emitted i p xs (available i p (length xs)) (target i p (length xs)))) \<and> rs_finalized r'"
proof (cases "xs = []")
  case True
  with s show ?thesis by (simp add: Finalize_def produce_def synced_def holds_def target_def)
next
  case False
  define r1 where "r1 = r\<lparr>rs_finalized := True\<rparr>"
  have h: "holds i p xs r1" and n: "rs_nextOutput r1 = available i p (length xs)"
    using s by (auto simp: synced_def holds_def r1_def)
  have i: "0 < i" "0 < p" using h by (auto simp: holds_def)
  have "length xs * p \<le> MaxUint64 - i div 2" using b by linarith
  then have g: "\<not> (MaxUint64 - i div 2) div p < length xs"
    using i(2) by (simp add: not_less less_eq_div_iff_mult_less_eq)
  have "max (available i p (length xs)) (target i p (length xs)) * i \<le> MaxUint64"
    using available_fits [OF i(1), of p "length xs"] target_fits [OF i(1), of p "length xs"] b by (simp add: max_def)
  then have fits: "max (rs_nextOutput r1) (target i p (length xs)) * i \<le> MaxUint64" unfolding n .
  have "target i p (length xs) = goal i p (length xs) True" by (simp add: goal_def)
  from loop_held [OF h fits False refl this, of "[]"]
  have "produce_loop r1 True (target i p (length xs)) [] = Some (r1\<lparr>rs_nextOutput :=
      max (available i p (length xs)) (target i p (length xs))\<rparr>, Inr (emitted i p xs (available i p (length xs)) (target i p (length xs))))"
    by (simp only: n append_Nil)
  moreover have "Finalize r = produce r1 True" using s by (simp add: Finalize_def synced_def r1_def)
  moreover have "rs_totalInput r1 = length xs" "rs_inputRate r1 = i" "rs_outputRate r1 = p" using h by (auto simp: holds_def)
  moreover have "rs_finalized r1" by (simp add: r1_def)
  ultimately show ?thesis using False g by (simp add: produce_def target_def)
qed

text \<open>
  C39. The conversion of a stream does not depend on how it was cut into fragments. Whatever the
  positive rates and the sequence of sample-aligned fragments, as long as the output positions fit 64
  bits: every push and the final call return, without an error (no source sample is ever lost), and
  the bytes they return, one after the other, are the linear interpolation of the whole input, in its
  rounded duration or, where interpolation up to the last sample gives more, in that many samples.
\<close>

theorem conversion_ignores_framing:
  assumes "NewResampler i p = Inr r" and "\<forall>f\<in>set fragments. even (length f)"
    and "length (concat fragments) div 2 * p + i < 2 ^ 64"
  shows "\<exists>r'. convert r fragments = Some (r', Inr (resampled i p (samples_of (concat fragments)))) \<and> rs_finalized r'"
proof -
  let ?xs = "samples_of (concat fragments)"
  have e: "even (length (concat fragments))" using assms(2) by (induction fragments) auto
  have b: "length ?xs * p + i \<le> MaxUint64"
    using assms(3) length_samples_of [OF e] by (simp add: MaxUint64_def)
  obtain r1 where r1: "push_all r fragments = Some (r1, Inr (emitted i p ?xs 0 (available i p (length ?xs))))" "synced i p ?xs r1"
    using push_all_synced [OF synced_start [OF assms(1)] assms(2)] b by (auto simp: available_def)
  obtain r2 where r2: "Finalize r1 = Some (r2, Inr (emitted i p ?xs (available i p (length ?xs)) (target i p (length ?xs))))"
    "rs_finalized r2"
    using finalize_synced [OF r1(2) b] by blast
  have "resampled i p ?xs = emitted i p ?xs 0 (available i p (length ?xs))
      @ emitted i p ?xs (available i p (length ?xs)) (target i p (length ?xs))"
    by (cases "target i p (length ?xs) \<le> available i p (length ?xs)")
       (simp_all add: resampled_def max_def emitted_split [symmetric])
  with r1(1) r2 show ?thesis by (simp add: convert_def)
qed

lemmas resampler_eval = convert_def Push_def Finalize_def produce_def produce_loop.simps produce_step_def NewResampler_def
  sample_def discardConsumedPrefix_def MaxUint64_def interpolate_def quotient_def bytes_of_def sample_of_def to_byte_def
  to_int16_def to_uint16_def

theorem conversion_ignores_framing_witness:
  "\<exists>r r'. NewResampler 8000 16000 = Inr r
    \<and> convert r [[0, 0], [], [100, 0, 156, 255]] = Some (r', Inr [0, 0, 50, 0, 100, 0, 0, 0, 156, 255, 156, 255])"
proof -
  obtain r where r: "NewResampler 8000 16000 = Inr r" by (simp add: NewResampler_def)
  have s: "interpolated 8000 16000 [0, 100, - 100] 0 = 0" "interpolated 8000 16000 [0, 100, - 100] 1 = 50"
    "interpolated 8000 16000 [0, 100, - 100] 2 = 100" "interpolated 8000 16000 [0, 100, - 100] 3 = 0"
    "interpolated 8000 16000 [0, 100, - 100] 4 = - 100" "interpolated 8000 16000 [0, 100, - 100] 5 = - 100"
    by (simp_all add: interpolated_def Let_def interpolate_def quotient_def to_int16_def)
  have "resampled 8000 16000 (samples_of [0, 0, 100, 0, 156, 255]) = [0, 0, 50, 0, 100, 0, 0, 0, 156, 255, 156, 255]"
  proof -
    have "resampled 8000 16000 (samples_of [0, 0, 100, 0, 156, 255]) = emitted 8000 16000 [0, 100, - 100] 0 6"
      by (simp add: resampled_def available_def target_def sample_of_def to_int16_def to_uint16_def)
    also have "\<dots> = concat (map (\<lambda>k. bytes_of (interpolated 8000 16000 [0, 100, - 100] k)) [0, 1, 2, 3, 4, 5])"
    proof -
      have "[0..<6] = [0, 1, 2, 3, 4, 5 :: nat]" by code_simp
      then show ?thesis by (simp only: emitted_def)
    qed
    also have "\<dots> = concat (map bytes_of [0, 50, 100, 0, - 100, - 100])"
      by (simp only: list.map s)
    also have "\<dots> = [0, 0, 50, 0, 100, 0, 0, 0, 156, 255, 156, 255]"
      by code_simp
    finally show ?thesis .
  qed
  with conversion_ignores_framing [OF r, of "[[0, 0], [], [100, 0, 156, 255]]"] r show ?thesis by auto
qed

text \<open>
  Finalising does not fix the length of the output when the rate goes down: one sample at 48 kHz is
  less than half a sample at 8 kHz, a rounded length of none, and has been emitted by then.
\<close>

lemma downsampling_exceeds_the_rounded_length:
  "target 48000 8000 1 = 0
    \<and> (\<exists>r r'. NewResampler 48000 8000 = Inr r \<and> Push r [1, 0] = Some (r', Inr [1, 0])
         \<and> map_option snd (Finalize r') = Some (Inr []))"
  by (simp add: resampler_eval target_def)

end
