(* ===== verification/Floor.thy ===== *)
theory Floor
  imports Durations Go_Strings
begin

section \<open>Who has the turn: floor and barge-in policies\<close>

text \<open>
  \<^verbatim>\<open>interaction/floor.go\<close>: when the user's turn has ended, who holds the floor, and whether speech over
  the agent cancels it. Times and durations are 64-bit words as in \<^verbatim>\<open>Duplex\<close>, a duration read as
  signed. A floor is the record of its methods. The turn projection is a model the floor consults: a
  parameter, an arbitrary function of the context. The conversational situation and the acoustic
  classifier's evidence, which only such a model reads, are the type parameter of the context.
  The names of policies, which format their options, are not modelled.
\<close>

subsection \<open>What a policy sees\<close>

record revision =
  rv_id :: u64
  rv_stableText :: string
  rv_unstableText :: string
  rv_final :: bool
  rv_observedNS :: u64
  rv_silenceNS :: u64

definition Text :: "revision \<Rightarrow> string" where
  "Text r = rv_stableText r @ rv_unstableText r"

definition Empty :: "revision \<Rightarrow> bool" where
  "Empty r = blank (Text r)"

record 's decision_context =
  cx_nowNS :: u64
  cx_duplex :: duplex_snapshot
  cx_revision :: revision
  cx_phase :: string
  cx_situation :: 's

record projection =
  pj_ending :: bool
  pj_continuing :: bool
  pj_reason :: string

definition VADOnlyProjection :: "'s decision_context \<Rightarrow> projection" where
  "VADOnlyProjection c = \<lparr>pj_ending = False, pj_continuing = False, pj_reason = ''no turn projection policy configured''\<rparr>"

record endpoint_decision =
  ep_ended :: bool
  ep_projected :: bool
  ep_reason :: string
  ep_reconsiderAfter :: u64
  ep_act :: string

definition no_decision :: endpoint_decision where
  "no_decision = \<lparr>ep_ended = False, ep_projected = False, ep_reason = [], ep_reconsiderAfter = 0, ep_act = []\<rparr>"

datatype holder = HolderNobody | HolderUser | HolderAgent

subsection \<open>The engine's floor\<close>

record 's floor_options =
  fo_silence :: u64
  fo_minimumSpeech :: u64
  fo_projection :: "('s decision_context \<Rightarrow> projection) option"
  fo_projectionHold :: u64

definition NewEngineFloor :: "'s floor_options \<Rightarrow> 's floor_options" where
  "NewEngineFloor opt = opt\<lparr>fo_silence := default_duration 500000000 (fo_silence opt),
     fo_minimumSpeech := default_duration 800000000 (fo_minimumSpeech opt),
     fo_projectionHold := default_duration 1000000000 (fo_projectionHold opt)\<rparr>"

text \<open>The minimum-speech guard: the time to reconsider after, if the utterance is too young to end.\<close>

definition too_young :: "'s floor_options \<Rightarrow> 's decision_context \<Rightarrow> u64 option" where
  "too_young opt c =
     (let started = ds_userSpeechStartedNS (cx_duplex c) in
      if started \<noteq> 0 \<and> cx_nowNS c \<ge> started \<and> cx_nowNS c - started < fo_minimumSpeech opt
      then let remaining = fo_minimumSpeech opt - (cx_nowNS c - started)
           in Some (if remaining <s fo_silence opt then fo_silence opt else remaining)
      else None)"

text \<open>The silence rule, with what the projection said about continuing.\<close>

definition silence_rule :: "'s floor_options \<Rightarrow> bool \<Rightarrow> string \<Rightarrow> 's decision_context \<Rightarrow> endpoint_decision" where
  "silence_rule opt held heldReason c =
     (let quiet = rv_silenceNS (cx_revision c); bound = fo_silence opt + fo_projectionHold opt in
      if ds_userSpeaking (cx_duplex c) then no_decision
      else if quiet < fo_silence opt then no_decision
      else if held \<and> quiet < bound
      then no_decision\<lparr>ep_projected := True, ep_reason := heldReason, ep_reconsiderAfter := bound - quiet\<rparr>
      else no_decision\<lparr>ep_ended := True, ep_reason := ''silence exceeded the endpoint threshold''\<rparr>)"

definition Endpoint :: "'s floor_options \<Rightarrow> 's decision_context \<Rightarrow> endpoint_decision" where
  "Endpoint opt c =
     (if rv_final (cx_revision c)
      then no_decision\<lparr>ep_ended := True, ep_reason := ''perception reported a final revision''\<rparr>
      else case too_young opt c of
        Some wait \<Rightarrow> no_decision\<lparr>ep_reason := ''minimum speech duration has not elapsed'', ep_reconsiderAfter := wait\<rparr>
      | None \<Rightarrow>
          if Empty (cx_revision c)
          then (if \<not> ds_userSpeaking (cx_duplex c) \<and> rv_silenceNS (cx_revision c) \<ge> fo_silence opt
                then no_decision\<lparr>ep_ended := True, ep_reason := ''no transcript arrived before the silence threshold''\<rparr>
                else no_decision)
          else case fo_projection opt of
            None \<Rightarrow> silence_rule opt False [] c
          | Some project \<Rightarrow>
              let p = project c in
              if pj_ending p then no_decision\<lparr>ep_ended := True, ep_projected := True, ep_reason := pj_reason p\<rparr>
              else silence_rule opt (pj_continuing p) (pj_reason p) c)"

definition EngineHolder :: "duplex_snapshot \<Rightarrow> holder" where
  "EngineHolder s = (if ds_userSpeaking s then HolderUser else if ds_agentSpeaking s then HolderAgent else HolderNobody)"

subsection \<open>A model's floor\<close>

definition ModelEndpoint :: "'s decision_context \<Rightarrow> endpoint_decision" where
  "ModelEndpoint c =
     (if rv_final (cx_revision c)
      then no_decision\<lparr>ep_ended := True, ep_reason := ''model reported the end of the turn''\<rparr> else no_decision)"

definition ModelHolder :: "duplex_snapshot \<Rightarrow> holder" where
  "ModelHolder s =
     (if ds_agentSpeaking s \<and> \<not> ds_userSpeaking s then HolderAgent
      else if ds_userSpeaking s \<and> \<not> ds_agentSpeaking s then HolderUser
      else if ds_userSpeaking s \<and> ds_agentSpeaking s then HolderAgent
      else HolderNobody)"

subsection \<open>Barge-in\<close>

datatype overlap_evidence =
  OverlapUnclassified | OverlapDirected | OverlapBackchannel | OverlapSide | OverlapAmbiguous | OverlapOther string

record 's barge_in_input =
  bi_context :: "'s decision_context"
  bi_overlapNS :: u64
  bi_evidence :: overlap_evidence

type_synonym barge_in_decision = "bool \<times> string"

definition immediateBargeIn :: "'s barge_in_input \<Rightarrow> barge_in_decision" where
  "immediateBargeIn i =
     (if \<not> Overlapping (cx_duplex (bi_context i)) then (False, [])
      else if bi_evidence i = OverlapBackchannel \<or> bi_evidence i = OverlapSide then (False, ''overlap is not directed at the agent'')
      else (True, ''user speech over agent output''))"

definition sustainedBargeIn :: "u64 \<Rightarrow> 's barge_in_input \<Rightarrow> barge_in_decision" where
  "sustainedBargeIn hold i =
     (if \<not> Overlapping (cx_duplex (bi_context i)) then (False, [])
      else if bi_evidence i = OverlapBackchannel \<or> bi_evidence i = OverlapSide then (False, ''overlap is not directed at the agent'')
      else if bi_evidence i = OverlapDirected then (True, ''classified as directed speech'')
      else if bi_overlapNS i < hold then (False, ''overlap has not been sustained'')
      else (True, ''sustained user speech over agent output''))"

definition NewSustainedBargeIn :: "u64 \<Rightarrow> u64" where
  "NewSustainedBargeIn hold = default_duration 300000000 hold"

definition neverBargeIn :: "'s barge_in_input \<Rightarrow> barge_in_decision" where
  "neverBargeIn i = (False, ''barge-in disabled'')"

subsection \<open>Properties\<close>

lemma NewEngineFloor_positive:
  "0 <s fo_silence (NewEngineFloor opt)" "0 <s fo_minimumSpeech (NewEngineFloor opt)" "0 <s fo_projectionHold (NewEngineFloor opt)"
proof -
  have "0 <s (500000000 :: u64)" "0 <s (800000000 :: u64)" "0 <s (1000000000 :: u64)" by code_simp+
  then show "0 <s fo_silence (NewEngineFloor opt)" "0 <s fo_minimumSpeech (NewEngineFloor opt)"
    "0 <s fo_projectionHold (NewEngineFloor opt)"
    by (simp_all add: NewEngineFloor_def default_duration_positive)
qed

lemma NewEngineFloor_small:
  "unat (fo_minimumSpeech (NewEngineFloor opt)) < 2 ^ 63" "unat (fo_silence (NewEngineFloor opt)) < 2 ^ 63"
  "unat (fo_projectionHold (NewEngineFloor opt)) < 2 ^ 63"
  using NewEngineFloor_positive [of opt] unfolding positive_duration by simp_all

lemma NewEngineFloor_bound:
  "unat (fo_silence (NewEngineFloor opt) + fo_projectionHold (NewEngineFloor opt)) =
   unat (fo_silence (NewEngineFloor opt)) + unat (fo_projectionHold (NewEngineFloor opt))"
  using NewEngineFloor_small [of opt] by (intro unat_add_word64) simp

text \<open>
  A pause that goes on: \<^verbatim>\<open>d\<close> later nothing has been said, no word has arrived, and the acoustic gate
  has seen \<^verbatim>\<open>d\<close> more silence. The runtime asks the floor again when the wake-up it asked for is due.
\<close>

definition quiet_for :: "u64 \<Rightarrow> 's decision_context \<Rightarrow> 's decision_context" where
  "quiet_for d c = c\<lparr>cx_nowNS := cx_nowNS c + d,
     cx_revision := (cx_revision c)\<lparr>rv_silenceNS := rv_silenceNS (cx_revision c) + d\<rparr>\<rparr>"

definition wake_up :: "'s floor_options \<Rightarrow> 's decision_context \<Rightarrow> 's decision_context" where
  "wake_up fl c = quiet_for (ep_reconsiderAfter (Endpoint fl c)) c"

lemma quiet_for_sel [simp]:
  "cx_nowNS (quiet_for d c) = cx_nowNS c + d" "cx_duplex (quiet_for d c) = cx_duplex c"
  "rv_silenceNS (cx_revision (quiet_for d c)) = rv_silenceNS (cx_revision c) + d"
  by (simp_all add: quiet_for_def)

lemmas endpoint_rules = Endpoint_def silence_rule_def no_decision_def Let_def

text \<open>Whatever the projection says, it cannot hold the floor past its bound.\<close>

lemma past_the_bound_ends:
  assumes "too_young fl c = None" and "\<not> ds_userSpeaking (cx_duplex c)"
    and "fo_silence fl \<le> rv_silenceNS (cx_revision c)"
    and "fo_silence fl + fo_projectionHold fl \<le> rv_silenceNS (cx_revision c)"
  shows "ep_ended (Endpoint fl c)"
  using assms by (auto simp: endpoint_rules split: option.splits)

lemma not_ended_cases:
  assumes "\<not> ds_userSpeaking (cx_duplex c)" and "fo_silence fl \<le> rv_silenceNS (cx_revision c)"
    and "\<not> ep_ended (Endpoint fl c)"
  obtains (young) "too_young fl c = Some (ep_reconsiderAfter (Endpoint fl c))"
  | (held) "too_young fl c = None" "rv_silenceNS (cx_revision c) < fo_silence fl + fo_projectionHold fl"
      "ep_reconsiderAfter (Endpoint fl c) = fo_silence fl + fo_projectionHold fl - rv_silenceNS (cx_revision c)"
proof (cases "too_young fl c")
  case (Some wait)
  with assms(3) have "ep_reconsiderAfter (Endpoint fl c) = wait" by (auto simp: endpoint_rules split: if_splits)
  with Some show thesis by (intro young) simp
next
  case None
  from None assms have "rv_silenceNS (cx_revision c) < fo_silence fl + fo_projectionHold fl \<and>
      ep_reconsiderAfter (Endpoint fl c) = fo_silence fl + fo_projectionHold fl - rv_silenceNS (cx_revision c)"
    by (auto simp: endpoint_rules split: option.splits if_splits)
  with None show thesis by (intro held) auto
qed

lemma too_young_iff:
  "too_young fl c \<noteq> None \<longleftrightarrow> ds_userSpeechStartedNS (cx_duplex c) \<noteq> 0 \<and>
     unat (ds_userSpeechStartedNS (cx_duplex c)) \<le> unat (cx_nowNS c) \<and>
     unat (cx_nowNS c) < unat (ds_userSpeechStartedNS (cx_duplex c)) + unat (fo_minimumSpeech fl)"
  by (auto simp: too_young_def Let_def word_le_nat_alt word_less_nat_alt unat_sub split: if_splits)

lemma too_young_wait:
  assumes "too_young (NewEngineFloor opt) c = Some wait"
  shows "unat (fo_minimumSpeech (NewEngineFloor opt)) \<le>
           unat (cx_nowNS c) - unat (ds_userSpeechStartedNS (cx_duplex c)) + unat wait"
    and "unat wait \<le> max (unat (fo_minimumSpeech (NewEngineFloor opt))) (unat (fo_silence (NewEngineFloor opt)))"
    and "unat (fo_silence (NewEngineFloor opt)) \<le> unat wait"
proof -
  let ?m = "fo_minimumSpeech (NewEngineFloor opt)" and ?s = "fo_silence (NewEngineFloor opt)"
  let ?e = "cx_nowNS c - ds_userSpeechStartedNS (cx_duplex c)"
  from assms have e: "?e < ?m" "ds_userSpeechStartedNS (cx_duplex c) \<le> cx_nowNS c"
    and w: "wait = (if ?m - ?e <s ?s then ?s else ?m - ?e)"
    by (auto simp: too_young_def Let_def split: if_splits)
  from e have r: "unat (?m - ?e) = unat ?m - unat ?e" "unat ?e = unat (cx_nowNS c) - unat (ds_userSpeechStartedNS (cx_duplex c))"
    by (auto simp: word_le_nat_alt word_less_nat_alt unat_sub)
  have small: "unat (?m - ?e) < 2 ^ 63" "unat ?s < 2 ^ 63" using r NewEngineFloor_small [of opt] by auto
  have wu: "unat wait = max (unat (?m - ?e)) (unat ?s)"
    unfolding w duration_order(1) [OF small] by (auto simp: word_less_nat_alt max_def)
  show "unat ?m \<le> unat (cx_nowNS c) - unat (ds_userSpeechStartedNS (cx_duplex c)) + unat wait"
    "unat wait \<le> max (unat ?m) (unat ?s)" "unat ?s \<le> unat wait"
    unfolding wu using r by auto
qed

lemma young_only_once:
  assumes "too_young (NewEngineFloor opt) c = Some wait" and "unat (cx_nowNS c) + unat wait < 2 ^ 64"
  shows "too_young (NewEngineFloor opt) (quiet_for wait c) = None"
proof -
  have "too_young (NewEngineFloor opt) c \<noteq> None" using assms(1) by simp
  then have "unat (ds_userSpeechStartedNS (cx_duplex c)) \<le> unat (cx_nowNS c)" unfolding too_young_iff by simp
  with too_young_wait(1) [OF assms(1)] assms(2)
  have "\<not> too_young (NewEngineFloor opt) (quiet_for wait c) \<noteq> None"
    unfolding too_young_iff by (auto simp: unat_add_word64)
  then show ?thesis by simp
qed

lemma old_stays_old:
  assumes "too_young fl c = None" and "unat (ds_userSpeechStartedNS (cx_duplex c)) \<le> unat (cx_nowNS c)"
    and "unat (cx_nowNS c) + unat d < 2 ^ 64"
  shows "too_young fl (quiet_for d c) = None"
  using assms too_young_iff [of fl c] too_young_iff [of fl "quiet_for d c"]
  by (auto simp: unat_add_word64)

lemma held_at_most_hold:
  assumes "fo_silence fl \<le> q" "q < fo_silence fl + fo_projectionHold fl"
    and "unat (fo_silence fl + fo_projectionHold fl) = unat (fo_silence fl) + unat (fo_projectionHold fl)"
  shows "unat (fo_silence fl + fo_projectionHold fl - q) \<le> unat (fo_projectionHold fl)"
  using assms by (simp add: word_le_nat_alt word_less_nat_alt unat_sub)

text \<open>A pause the floor first finds too young, and one the projection first holds: both end by the second wake-up.\<close>

lemma young_pause_ends:
  fixes opt c
  defines "fl \<equiv> NewEngineFloor opt" and "c1 \<equiv> wake_up (NewEngineFloor opt) c"
  assumes quiet: "\<not> ds_userSpeaking (cx_duplex c)"
    and now: "unat (cx_nowNS c) + (unat (fo_minimumSpeech fl) + unat (fo_silence fl) + unat (fo_projectionHold fl)) < 2 ^ 64"
    and sil: "unat (rv_silenceNS (cx_revision c)) + (unat (fo_minimumSpeech fl) + unat (fo_silence fl) + unat (fo_projectionHold fl)) < 2 ^ 64"
    and young: "too_young fl c = Some (ep_reconsiderAfter (Endpoint fl c))"
  shows "ep_ended (Endpoint fl c1) \<or> ep_ended (Endpoint fl (wake_up fl c1))"
proof (cases "ep_ended (Endpoint fl c1)")
  case False
  define r where "r = ep_reconsiderAfter (Endpoint fl c)"
  have c1: "c1 = quiet_for r c" by (simp add: c1_def wake_up_def r_def fl_def)
  have r: "unat r \<le> max (unat (fo_minimumSpeech fl)) (unat (fo_silence fl))"
    using too_young_wait(2) young unfolding fl_def r_def by blast
  have s: "unat (fo_silence fl) \<le> unat r" using too_young_wait(3) young unfolding fl_def r_def by blast
  have old: "too_young fl c1 = None"
    using young_only_once [of opt c r] young now r unfolding c1 r_def fl_def by (simp add: max_def split: if_splits)
  have "too_young fl c \<noteq> None" using young by simp
  then have started: "unat (ds_userSpeechStartedNS (cx_duplex c1)) \<le> unat (cx_nowNS c1)"
    using now r unfolding too_young_iff c1 by (auto simp: unat_add_word64)
  have q: "fo_silence fl \<le> rv_silenceNS (cx_revision c1)" "\<not> ds_userSpeaking (cx_duplex c1)"
    using quiet sil r s unfolding c1 by (auto simp: word_le_nat_alt unat_add_word64 max_def split: if_splits)
  show ?thesis
    using q(2) q(1) False
  proof (cases rule: not_ended_cases)
    case held
    let ?b = "fo_silence fl + fo_projectionHold fl"
    have h: "unat (?b - rv_silenceNS (cx_revision c1)) \<le> unat (fo_projectionHold fl)"
      using held_at_most_hold [OF q(1) held(2)] NewEngineFloor_bound [of opt] by (simp add: fl_def)
    have n: "unat (cx_nowNS c1) + unat (?b - rv_silenceNS (cx_revision c1)) < 2 ^ 64"
      using now r h unfolding c1 by (simp add: unat_add_word64 max_def split: if_splits)
    have "too_young fl (wake_up fl c1) = None"
      unfolding wake_up_def held(3) by (rule old_stays_old [OF old started n])
    moreover have "rv_silenceNS (cx_revision (wake_up fl c1)) = ?b" by (simp add: wake_up_def held(3))
    moreover have "fo_silence fl \<le> ?b" using q(1) held(2) by simp
    ultimately have "ep_ended (Endpoint fl (wake_up fl c1))"
      using q(2) by (intro past_the_bound_ends) (auto simp: wake_up_def)
    then show ?thesis ..
  qed (simp add: old)
qed simp

lemma held_pause_ends:
  fixes opt c
  defines "fl \<equiv> NewEngineFloor opt" and "c1 \<equiv> wake_up (NewEngineFloor opt) c"
  assumes quiet: "\<not> ds_userSpeaking (cx_duplex c)" "fo_silence fl \<le> rv_silenceNS (cx_revision c)"
    and now: "unat (cx_nowNS c) + (unat (fo_minimumSpeech fl) + unat (fo_silence fl) + unat (fo_projectionHold fl)) < 2 ^ 64"
    and sil: "unat (rv_silenceNS (cx_revision c)) + (unat (fo_minimumSpeech fl) + unat (fo_silence fl) + unat (fo_projectionHold fl)) < 2 ^ 64"
    and held: "rv_silenceNS (cx_revision c) < fo_silence fl + fo_projectionHold fl"
      "ep_reconsiderAfter (Endpoint fl c) = fo_silence fl + fo_projectionHold fl - rv_silenceNS (cx_revision c)"
  shows "ep_ended (Endpoint fl c1) \<or> ep_ended (Endpoint fl (wake_up fl c1))"
proof (cases "ep_ended (Endpoint fl c1)")
  case False
  let ?b = "fo_silence fl + fo_projectionHold fl"
  have c1: "c1 = quiet_for (?b - rv_silenceNS (cx_revision c)) c" using held(2) by (simp add: c1_def wake_up_def fl_def)
  have b: "unat ?b = unat (fo_silence fl) + unat (fo_projectionHold fl)" unfolding fl_def by (rule NewEngineFloor_bound)
  have h: "unat (?b - rv_silenceNS (cx_revision c)) \<le> unat (fo_projectionHold fl)"
    by (rule held_at_most_hold [OF quiet(2) held(1) b])
  have q: "rv_silenceNS (cx_revision c1) = ?b" "\<not> ds_userSpeaking (cx_duplex c1)" "fo_silence fl \<le> rv_silenceNS (cx_revision c1)"
    using quiet b by (auto simp: c1 word_le_nat_alt)
  show ?thesis
    using q(2) q(3) False
  proof (cases rule: not_ended_cases)
    case young
    define r where "r = ep_reconsiderAfter (Endpoint fl c1)"
    have r: "unat r \<le> max (unat (fo_minimumSpeech fl)) (unat (fo_silence fl))"
      using too_young_wait(2) young unfolding fl_def r_def by blast
    have n: "unat (cx_nowNS c1) + unat r < 2 ^ 64"
      using now r h unfolding c1 by (simp add: unat_add_word64 max_def split: if_splits)
    have old: "too_young fl (wake_up fl c1) = None"
      unfolding wake_up_def r_def [symmetric] unfolding fl_def
      by (rule young_only_once) (use young n in \<open>simp_all add: fl_def r_def\<close>)
    have s: "unat (fo_silence fl) \<le> unat (rv_silenceNS (cx_revision c))" using quiet(2) by (simp add: word_le_nat_alt)
    have "?b \<le> rv_silenceNS (cx_revision (wake_up fl c1))"
      using sil r s b q(1) unfolding wake_up_def r_def [symmetric]
      by (simp add: word_le_nat_alt unat_add_word64 max_def split: if_splits)
    moreover have "fo_silence fl \<le> ?b" using q(1,3) by simp
    ultimately have "ep_ended (Endpoint fl (wake_up fl c1))"
      using q(2) old by (intro past_the_bound_ends) (auto simp: wake_up_def)
    then show ?thesis ..
  qed (simp add: q(1))
qed simp

lemma too_young_reconsiders:
  assumes "too_young fl c = Some wait" and "\<not> ep_ended (Endpoint fl c)"
  shows "too_young fl c = Some (ep_reconsiderAfter (Endpoint fl c))"
  using assms by (auto simp: endpoint_rules split: if_splits)

lemma short_pause_decision:
  assumes "\<not> ds_userSpeaking (cx_duplex c)" "\<not> rv_final (cx_revision c)" "too_young fl c = None"
    and "\<not> fo_silence fl \<le> rv_silenceNS (cx_revision c)"
  shows "ep_reconsiderAfter (Endpoint fl c) = 0" "ep_ended (Endpoint fl c) \<longleftrightarrow>
      \<not> Empty (cx_revision c) \<and> (\<exists>project. fo_projection fl = Some project \<and> pj_ending (project c))"
  using assms by (auto simp: endpoint_rules split: option.splits)

text \<open>
  C26. When a pause ends. The user is silent, and the clock and the silence counter are far from wrapping
  around. If perception reported a final revision, or the utterance is too young to end, or the silence threshold is
  reached, then the wake-ups the engine's floor asks for are enough: the floor ends the turn at once, or when it is
  asked again after the delay it named, or after the next one, whatever words were heard and whatever the
  turn projection answers each time. In every other pause, one shorter than the threshold after an utterance old enough, the
  floor asks for no wake-up, and it ends the turn exactly if words were heard and the projection sees the end coming;
  such a pause ends only if somebody asks again once the threshold is reached. This holds for every configuration of the floor.
\<close>

theorem a_pause_ends_unless_too_short:
  fixes opt :: "'s floor_options" and c :: "'s decision_context"
  defines "fl \<equiv> NewEngineFloor opt"
  assumes "\<not> ds_userSpeaking (cx_duplex c)"
    and "unat (cx_nowNS c) + (unat (fo_minimumSpeech fl) + unat (fo_silence fl) + unat (fo_projectionHold fl)) < 2 ^ 64"
    and "unat (rv_silenceNS (cx_revision c)) + (unat (fo_minimumSpeech fl) + unat (fo_silence fl) + unat (fo_projectionHold fl)) < 2 ^ 64"
  shows "if rv_final (cx_revision c) \<or> too_young fl c \<noteq> None \<or> fo_silence fl \<le> rv_silenceNS (cx_revision c)
    then ep_ended (Endpoint fl c) \<or> ep_ended (Endpoint fl (wake_up fl c)) \<or> ep_ended (Endpoint fl (wake_up fl (wake_up fl c)))
    else ep_reconsiderAfter (Endpoint fl c) = 0 \<and> (ep_ended (Endpoint fl c) \<longleftrightarrow>
      \<not> Empty (cx_revision c) \<and> (\<exists>project. fo_projection fl = Some project \<and> pj_ending (project c)))"
proof -
  consider (ended) "ep_ended (Endpoint fl c)" | (final) "rv_final (cx_revision c)" | (young) wait where "too_young fl c = Some wait" "\<not> ep_ended (Endpoint fl c)"
    | (silent) "fo_silence fl \<le> rv_silenceNS (cx_revision c)" "too_young fl c = None" "\<not> ep_ended (Endpoint fl c)"
    | (short) "\<not> rv_final (cx_revision c)" "too_young fl c = None" "\<not> fo_silence fl \<le> rv_silenceNS (cx_revision c)"
    by fastforce
  then show ?thesis
  proof cases
    case ended
    with short_pause_decision [OF assms(2)] show ?thesis by auto
  next
    case final
    then show ?thesis by (simp add: endpoint_rules)
  next
    case young
    from young_pause_ends [OF assms(2-4) [unfolded fl_def] too_young_reconsiders [OF young, unfolded fl_def]] young(1)
    show ?thesis by (simp add: fl_def)
  next
    case silent
    with assms(2) obtain
      "rv_silenceNS (cx_revision c) < fo_silence fl + fo_projectionHold fl"
      "ep_reconsiderAfter (Endpoint fl c) = fo_silence fl + fo_projectionHold fl - rv_silenceNS (cx_revision c)"
      by (auto elim: not_ended_cases)
    from held_pause_ends [OF assms(2) silent(1) [unfolded fl_def] assms(3,4) [unfolded fl_def] this [unfolded fl_def]] silent(1)
    show ?thesis by (simp add: fl_def)
  next
    case short
    with short_pause_decision [OF assms(2) short] show ?thesis by simp
  qed
qed

definition floor_example_options :: "unit floor_options" where
  "floor_example_options = \<lparr>fo_silence = 0, fo_minimumSpeech = 0,
     fo_projection = Some (\<lambda>c. \<lparr>pj_ending = False, pj_continuing = True, pj_reason = ''mid-sentence''\<rparr>), fo_projectionHold = 0\<rparr>"

definition floor_example_pause :: "unit decision_context" where
  "floor_example_pause = \<lparr>cx_nowNS = 800000000,
     cx_duplex = \<lparr>ds_phase = PhaseListening, ds_userSpeaking = False, ds_agentSpeaking = False, ds_userSpeechStartedNS = 200000000,
       ds_userSpeechEndedNS = 300000000, ds_agentAudioStartedNS = 0, ds_playoutHorizonNS = 0, ds_agentUtteranceID = [], ds_generation = 2\<rparr>,
     cx_revision = \<lparr>rv_id = 1, rv_stableText = ''book a'', rv_unstableText = '' table'', rv_final = False, rv_observedNS = 700000000,
       rv_silenceNS = 500000000\<rparr>, cx_phase = [], cx_situation = ()\<rparr>"

definition floor_example_short :: "unit decision_context" where
  "floor_example_short = floor_example_pause\<lparr>cx_nowNS := 1400000000, cx_revision := (cx_revision floor_example_pause)\<lparr>rv_silenceNS := 120000000\<rparr>\<rparr>"

theorem a_pause_ends_unless_too_short_witness:
  "let fl = NewEngineFloor floor_example_options; c = floor_example_pause in
     \<not> ep_ended (Endpoint fl c) \<and> \<not> ep_ended (Endpoint fl (wake_up fl c)) \<and> ep_ended (Endpoint fl (wake_up fl (wake_up fl c)))
     \<and> \<not> ep_ended (Endpoint fl floor_example_short) \<and> ep_reconsiderAfter (Endpoint fl floor_example_short) = 0"
proof -
  let ?fl = "NewEngineFloor floor_example_options" and ?c = floor_example_pause and ?s = floor_example_short
  have fl: "fo_silence ?fl = 500000000" "fo_minimumSpeech ?fl = 800000000" "fo_projectionHold ?fl = 1000000000"
    by code_simp+
  have c: "\<not> ds_userSpeaking (cx_duplex ?c)" "cx_nowNS ?c = 800000000" "rv_silenceNS (cx_revision ?c) = 500000000"
    "\<not> ds_userSpeaking (cx_duplex ?s)" "cx_nowNS ?s = 1400000000" "rv_silenceNS (cx_revision ?s) = 120000000"
    "\<not> rv_final (cx_revision ?s)" "too_young ?fl ?s = None"
    by code_simp+
  have "if rv_final (cx_revision ?c) \<or> too_young ?fl ?c \<noteq> None \<or> fo_silence ?fl \<le> rv_silenceNS (cx_revision ?c)
    then ep_ended (Endpoint ?fl ?c) \<or> ep_ended (Endpoint ?fl (wake_up ?fl ?c)) \<or> ep_ended (Endpoint ?fl (wake_up ?fl (wake_up ?fl ?c)))
    else ep_reconsiderAfter (Endpoint ?fl ?c) = 0 \<and> (ep_ended (Endpoint ?fl ?c) \<longleftrightarrow>
      \<not> Empty (cx_revision ?c) \<and> (\<exists>project. fo_projection ?fl = Some project \<and> pj_ending (project ?c)))"
    by (rule a_pause_ends_unless_too_short) (simp_all add: fl c)
  then have "ep_ended (Endpoint ?fl ?c) \<or> ep_ended (Endpoint ?fl (wake_up ?fl ?c)) \<or> ep_ended (Endpoint ?fl (wake_up ?fl (wake_up ?fl ?c)))"
    by (simp add: fl c)
  moreover have "\<not> ep_ended (Endpoint ?fl ?c)" "\<not> ep_ended (Endpoint ?fl (wake_up ?fl ?c))" "\<not> ep_ended (Endpoint ?fl ?s)" by code_simp+
  moreover have "if rv_final (cx_revision ?s) \<or> too_young ?fl ?s \<noteq> None \<or> fo_silence ?fl \<le> rv_silenceNS (cx_revision ?s)
    then ep_ended (Endpoint ?fl ?s) \<or> ep_ended (Endpoint ?fl (wake_up ?fl ?s)) \<or> ep_ended (Endpoint ?fl (wake_up ?fl (wake_up ?fl ?s)))
    else ep_reconsiderAfter (Endpoint ?fl ?s) = 0 \<and> (ep_ended (Endpoint ?fl ?s) \<longleftrightarrow>
      \<not> Empty (cx_revision ?s) \<and> (\<exists>project. fo_projection ?fl = Some project \<and> pj_ending (project ?s)))"
    by (rule a_pause_ends_unless_too_short) (simp_all add: fl c)
  then have "ep_reconsiderAfter (Endpoint ?fl ?s) = 0" by (simp add: fl c)
  ultimately show ?thesis by (simp add: Let_def)
qed

text \<open>
  Barge-in. The sustained policy is the immediate one with a delay: it cancels only where the immediate
  policy would, it does so at once when the speech is known to be directed, and otherwise exactly when
  the overlap has lasted. No policy lets a backchannel or side speech cancel the agent.
\<close>

lemma sustained_refines_immediate:
  "fst (sustainedBargeIn hold i) \<longleftrightarrow> fst (immediateBargeIn i) \<and> (bi_evidence i = OverlapDirected \<or> hold \<le> bi_overlapNS i)"
  by (auto simp: sustainedBargeIn_def immediateBargeIn_def)

lemma undirected_speech_never_cancels:
  assumes "bi_evidence i \<in> {OverlapBackchannel, OverlapSide}"
  shows "\<not> fst (immediateBargeIn i)" "\<not> fst (sustainedBargeIn hold i)" "\<not> fst (neverBargeIn i)"
  using assms by (auto simp: immediateBargeIn_def sustainedBargeIn_def neverBargeIn_def)

lemma sustained_overlap_cancels:
  assumes "Overlapping (cx_duplex (bi_context i))" "bi_evidence i \<notin> {OverlapBackchannel, OverlapSide}"
    and "unat (NewSustainedBargeIn hold) \<le> unat (bi_overlapNS i)"
  shows "fst (sustainedBargeIn (NewSustainedBargeIn hold) i)"
  using assms by (simp add: sustainedBargeIn_def word_less_nat_alt)

text \<open>The two floors disagree only about overlap: the engine gives it to the user, a model's floor keeps it.\<close>

lemma holders_agree_without_overlap:
  "\<not> (ds_userSpeaking s \<and> ds_agentSpeaking s) \<Longrightarrow> EngineHolder s = ModelHolder s"
  "ds_userSpeaking s \<Longrightarrow> ds_agentSpeaking s \<Longrightarrow> EngineHolder s = HolderUser \<and> ModelHolder s = HolderAgent"
  by (auto simp: EngineHolder_def ModelHolder_def)

end
