(* ===== verification/Spoken.thy ===== *)
theory Spoken
  imports Trajectory_Projections
begin

section \<open>Which words were heard\<close>

text \<open>
  \<^verbatim>\<open>spoken/spoken.go\<close> and \<^verbatim>\<open>spoken/estimate.go\<close>: the layout of an utterance's words over its audio, the
  split of the utterance at a playback position, and the distribution of that split over the texts
  the utterance was joined from. Milliseconds are natural numbers below \<open>2 ^ 64\<close>, and the operations
  that can leave that range wrap. The Unicode tables behind \<^verbatim>\<open>unicode.IsLetter\<close> and \<^verbatim>\<open>IsDigit\<close> are the
  parameter \<open>sound\<close> of the weight of a word, a predicate on runes.
\<close>

subsection \<open>\<^verbatim>\<open>strings.Fields\<close> and \<^verbatim>\<open>strings.Join\<close>\<close>

text \<open>
  No byte that begins a white-space rune continues another rune, so splitting may scan bytes. The
  first argument is the field read so far.
\<close>

definition space_at :: "string \<Rightarrow> nat" where
  "space_at s = space_prefix (map byte (take 3 s))"

definition flush :: "string \<Rightarrow> string list" where
  "flush w = (if w = [] then [] else [w])"

lemma space_at_le: "space_at s \<le> length s"
  using space_prefix_le [of "map byte (take 3 s)"] by (simp add: space_at_def)

function fields_from :: "string \<Rightarrow> string \<Rightarrow> string list" where
  "fields_from w [] = flush w"
| "fields_from w (c # s) =
     (if space_at (c # s) = 0 then fields_from (w @ [c]) s
      else flush w @ fields_from [] (drop (space_at (c # s)) (c # s)))"
  by pat_completeness auto
termination
  by (relation "measure (\<lambda>(w, s). length s)") (auto simp: Suc_le_eq)

definition Fields :: "string \<Rightarrow> string list" where
  "Fields s = fields_from [] s"

fun Join :: "string list \<Rightarrow> string" where
  "Join [] = []"
| "Join [w] = w"
| "Join (w # ws) = w @ CHR '' '' # Join ws"

text \<open>A field: not empty, and white space nowhere begins in it.\<close>

definition solid :: "string \<Rightarrow> bool" where
  "solid w = (w \<noteq> [] \<and> (\<forall>i<length w. space_at (drop i w) = 0))"

lemma space_prefix_append: "space_prefix xs \<noteq> 0 \<Longrightarrow> space_prefix (xs @ ys) = space_prefix xs"
  by (cases xs; cases "tl xs"; cases "tl (tl xs)"; simp add: space_prefix_def split: if_split_asm; blast)

lemma space_at_append: "space_at s \<noteq> 0 \<Longrightarrow> space_at (s @ t) \<noteq> 0"
proof -
  assume "space_at s \<noteq> 0"
  then have "space_prefix (map byte (take 3 s) @ map byte (take (3 - length s) t)) \<noteq> 0"
    using space_prefix_append by (simp add: space_at_def)
  then show ?thesis by (simp add: space_at_def)
qed

text \<open>White space does not begin in one string and end in another that starts with no continuation byte.\<close>

lemma space_prefix_take: "space_prefix (take 3 bs) = space_prefix bs"
  by (cases bs; cases "tl bs"; cases "tl (tl bs)") (simp_all add: space_prefix_def)

lemma space_prefix_boundary:
  assumes "xs \<noteq> []" and "space_prefix xs = 0" and "c < 128 \<or> 191 < c"
  shows "space_prefix (xs @ c # ys) = 0"
proof -
  consider a where "xs = [a]" | a b where "xs = [a, b]" | a b d zs where "xs = a # b # d # zs"
    using assms(1) by (metis neq_Nil_conv)
  then show ?thesis
  proof cases
    case 1
    with assms(2) have a: "\<not> (9 \<le> a \<and> a \<le> 13 \<or> a = 32)" by (simp add: space_prefix_def split: if_split_asm)
    have "c \<noteq> 133" "c \<noteq> 160" "c \<noteq> 154" "c \<noteq> 128" "c \<noteq> 129" using assms(3) by auto
    with 1 a show ?thesis by (simp add: space_prefix_def split: list.split)
  next
    case 2
    with assms(2) have a: "\<not> (9 \<le> a \<and> a \<le> 13 \<or> a = 32)" "\<not> (a = 194 \<and> (b = 133 \<or> b = 160))"
      by (simp_all add: space_prefix_def split: if_split_asm)
    have "c \<noteq> 128" "\<not> (128 \<le> c \<and> c \<le> 138)" "c \<noteq> 168" "c \<noteq> 169" "c \<noteq> 175" "c \<noteq> 159" using assms(3) by auto
    with 2 a show ?thesis by (simp add: space_prefix_def)
  next
    case 3
    then have "take 3 (xs @ c # ys) = take 3 xs" by simp
    with assms(2) show ?thesis by (metis space_prefix_take)
  qed
qed

lemma space_at_bytes: "space_at s = space_prefix (map byte s)"
  using space_prefix_take [of "map byte s"] by (simp add: space_at_def take_map)

lemma space_at_boundary:
  assumes "s \<noteq> []" and "space_at s = 0" and "t = [] \<or> byte (hd t) < 128 \<or> 191 < byte (hd t)"
  shows "space_at (s @ t) = 0"
  using assms space_prefix_boundary [of "map byte s"] by (cases t) (simp_all add: space_at_bytes)

lemma space_at_before_blank: "s \<noteq> [] \<Longrightarrow> space_at s = 0 \<Longrightarrow> space_at (s @ CHR '' '' # t) = 0"
  by (rule space_at_boundary) simp_all

lemma fields_from_solid_prefix:
  assumes "\<forall>i<length u. space_at (drop i (u @ t)) = 0"
  shows "fields_from w (u @ t) = fields_from (w @ u) t"
  using assms
proof (induction u arbitrary: w)
  case (Cons c u)
  have "space_at (c # u @ t) = 0" using Cons.prems by force
  moreover have "\<forall>i<length u. space_at (drop i (u @ t)) = 0" using Cons.prems by fastforce
  ultimately show ?case using Cons.IH [of "w @ [c]"] by simp
qed simp

lemma fields_from_word: "solid u \<Longrightarrow> fields_from [] u = [u]"
  using fields_from_solid_prefix [of u "[]" "[]"] by (simp add: solid_def flush_def)

lemma space_at_blank [simp]: "space_at (CHR '' '' # t) = 1"
  by (simp add: space_at_def space_prefix_def)

lemma fields_from_word_blank: "solid u \<Longrightarrow> fields_from [] (u @ CHR '' '' # t) = u # fields_from [] t"
proof -
  assume u: "solid u"
  have "space_at (drop i (u @ CHR '' '' # t)) = 0" if "i < length u" for i
    using space_at_before_blank [of "drop i u" t] u that by (simp add: solid_def)
  then have "fields_from [] (u @ CHR '' '' # t) = fields_from u (CHR '' '' # t)"
    using fields_from_solid_prefix [of u "CHR '' '' # t" "[]"] by simp
  then show ?thesis using u by (simp add: flush_def solid_def)
qed

lemma Fields_Join: "\<forall>w\<in>set ws. solid w \<Longrightarrow> Fields (Join ws) = ws"
  by (induction ws rule: Join.induct) (simp_all add: Fields_def flush_def fields_from_word fields_from_word_blank)

lemma fields_from_solid:
  assumes "\<forall>i<length w. space_at (drop i (w @ s)) = 0" and "u \<in> set (fields_from w s)"
  shows "solid u"
  using assms
proof (induction w s rule: fields_from.induct)
  case (1 w)
  then show ?case by (auto simp: flush_def solid_def split: if_splits)
next
  case (2 w c s)
  show ?case
  proof (cases "space_at (c # s) = 0")
    case True
    have "\<forall>i<length (w @ [c]). space_at (drop i ((w @ [c]) @ s)) = 0"
      using 2(3) True by (auto simp: less_Suc_eq)
    with 2(1) [OF True] 2(4) True show ?thesis by simp
  next
    case False
    have "solid w" if "w \<noteq> []"
      unfolding solid_def
    proof (intro conjI allI impI that)
      fix i assume i: "i < length w"
      show "space_at (drop i w) = 0"
      proof (rule ccontr)
        assume "space_at (drop i w) \<noteq> 0"
        then have "space_at (drop i w @ c # s) \<noteq> 0" by (rule space_at_append)
        with 2(3) i show False by simp
      qed
    qed
    with 2(2) [OF False] 2(4) False show ?thesis by (auto simp: flush_def split: if_splits)
  qed
qed

lemma Fields_solid: "w \<in> set (Fields s) \<Longrightarrow> solid w"
  using fields_from_solid [of "[]" s w] by (simp add: Fields_def)

lemma trim_left_rev_Nil_iff: "trim_left_rev r = [] \<Longrightarrow> r = [] \<or> space_at (rev r) \<noteq> 0"
proof (induction r rule: trim_left_rev.induct)
  case (1 r)
  let ?n = "space_suffix (map byte (take 3 r))"
  show ?case
  proof (cases "?n = 0")
    case True
    with 1(2) show ?thesis by (subst (asm) trim_left_rev.simps) (simp add: Let_def)
  next
    case False
    have le: "?n \<le> length r" using space_suffix_le [of "map byte (take 3 r)"] by simp
    have n3: "?n \<le> 3" by (auto simp: space_suffix_def)
    have chunk: "space_prefix (rev (map byte (take ?n r))) = ?n"
      using False by (cases r) (auto simp: space_suffix_def take_map split: if_splits)
    then have c: "space_at (rev (take ?n r)) \<noteq> 0"
      using False n3 le by (simp add: space_at_def rev_map [symmetric])
    have split: "rev r = rev (drop ?n r) @ rev (take ?n r)" by (simp flip: rev_append)
    have "trim_left_rev (drop ?n r) = []"
      using 1(2) False by (subst (asm) trim_left_rev.simps) (simp add: Let_def)
    from 1(1) [OF refl False this] have "drop ?n r = [] \<or> space_at (rev (drop ?n r)) \<noteq> 0" .
    then show ?thesis
      using c split space_at_append [of "rev (drop ?n r)"] by (metis append_Nil rev.simps(1))
  qed
qed

lemma solid_not_blank: "solid w \<Longrightarrow> \<not> blank (w @ s)" if "s = [] \<or> (\<exists>t. s = CHR '' '' # t)"
proof
  assume w: "solid w" and b: "blank (w @ s)"
  have z: "space_at (w @ s) = 0"
    using w that space_at_before_blank [of w] by (fastforce simp: solid_def)
  then have "trim_left (w @ s) = w @ s" by (subst trim_left.simps) (simp add: space_at_def Let_def)
  with b have "trim_left_rev (rev (w @ s)) = []" by (simp add: blank_def TrimSpace_def)
  from trim_left_rev_Nil_iff [OF this] z w show False by (simp add: solid_def)
qed

lemma Join_not_blank: "ws \<noteq> [] \<Longrightarrow> \<forall>w\<in>set ws. solid w \<Longrightarrow> \<not> blank (Join ws)"
  using solid_not_blank [of "[]"] solid_not_blank [of "CHR '' '' # Join (tl ws)" "hd ws"]
  by (induction ws rule: Join.induct) simp_all

lemma space_start: "space_prefix bs \<noteq> 0 \<Longrightarrow> hd bs < 128 \<or> 191 < hd bs"
  by (cases bs; cases "tl bs"; cases "tl (tl bs)") (auto simp: space_prefix_def split: if_split_asm)

lemma space_prefix_le3: "space_prefix bs \<le> 3"
  by (auto simp: space_prefix_def split: list.split)

lemma fields_from_trailing:
  assumes "ch \<noteq> []" and "space_prefix (map byte ch) = length ch"
  shows "fields_from w (s @ ch) = fields_from w s"
proof -
  have l: "length ch \<le> 3" using space_prefix_le3 [of "map byte ch"] assms(2) by simp
  have at: "space_at ch = length ch" using assms(2) l by (simp add: space_at_def)
  have h: "byte (hd ch) < 128 \<or> 191 < byte (hd ch)"
    using space_start [of "map byte ch"] assms by (simp add: hd_map)
  show ?thesis
  proof (induction w s rule: fields_from.induct)
    case (1 w)
    obtain c u where "ch = c # u" using assms(1) by (cases ch) auto
    with at show ?case by (simp add: flush_def)
  next
    case (2 w c s)
    show ?case
    proof (cases "space_at (c # s) = 0")
      case True
      then have "space_at (c # s @ ch) = 0" using space_at_boundary [of "c # s" ch] h by simp
      with 2(1) True show ?thesis by simp
    next
      case False
      have e: "space_at (c # s @ ch) = space_at (c # s)"
        using space_prefix_append [of "map byte (take 3 (c # s))" "map byte (take (3 - length (c # s)) ch)"] False
        unfolding space_at_def append_Cons [symmetric] take_append map_append by metis
      have "drop (space_at (c # s)) ((c # s) @ ch) = drop (space_at (c # s)) (c # s) @ ch"
        using space_at_le [of "c # s"] by (simp only: drop_append) simp
      with 2(2) [OF False] False e show ?thesis by simp
    qed
  qed
qed

lemma fields_trim_right: "fields_from w (rev (trim_left_rev r)) = fields_from w (rev r)"
proof (induction r rule: trim_left_rev.induct)
  case (1 r)
  let ?n = "space_suffix (map byte (take 3 r))"
  show ?case
  proof (cases "?n = 0")
    case True
    then show ?thesis by (subst trim_left_rev.simps) (simp add: Let_def)
  next
    case False
    have le: "?n \<le> length r" using space_suffix_le [of "map byte (take 3 r)"] by simp
    have chunk: "space_prefix (rev (map byte (take ?n r))) = ?n"
      using False by (cases r) (auto simp: space_suffix_def take_map split: if_splits)
    have "fields_from w (rev (drop ?n r) @ rev (take ?n r)) = fields_from w (rev (drop ?n r))"
      using False le chunk by (intro fields_from_trailing) (auto simp: rev_map)
    moreover have "rev (drop ?n r) @ rev (take ?n r) = rev r" by (simp flip: rev_append)
    ultimately have "fields_from w (rev (drop ?n r)) = fields_from w (rev r)" by simp
    moreover have "trim_left_rev r = trim_left_rev (drop ?n r)"
      using False by (subst trim_left_rev.simps) (simp add: Let_def)
    ultimately show ?thesis using 1 [OF refl False] by simp
  qed
qed

lemma fields_trim_left: "fields_from [] (trim_left s) = fields_from [] s"
proof (induction s rule: trim_left.induct)
  case (1 s)
  show ?case
  proof (cases "space_at s = 0")
    case True
    then show ?thesis by (subst trim_left.simps) (simp add: space_at_def Let_def)
  next
    case False
    then obtain c u where s: "s = c # u" by (cases s) (auto simp: space_at_def space_prefix_def)
    have "trim_left s = trim_left (drop (space_at s) s)"
      using False by (subst trim_left.simps) (simp add: space_at_def Let_def)
    with 1 False show ?thesis by (simp add: space_at_def s flush_def)
  qed
qed

lemma Fields_TrimSpace: "Fields (TrimSpace s) = Fields s"
  by (simp add: Fields_def TrimSpace_def fields_trim_right fields_trim_left)

subsection \<open>The layout of an utterance\<close>

record word_time =
  wd_text :: string
  wd_startMS :: nat
  wd_endMS :: nat

record timeline =
  tl_text :: string
  tl_words :: "word_time list"
  tl_audioMS :: nat
  tl_measured :: bool

definition wrap64 :: "nat \<Rightarrow> nat" where
  "wrap64 n = n mod 2 ^ 64"

text \<open>The runes a \<^verbatim>\<open>range\<close> over the string visits.\<close>

function runes :: "nat list \<Rightarrow> nat list" where
  "runes bs = (if bs = [] then [] else fst (decode_rune bs) # runes (drop (snd (decode_rune bs)) bs))"
  by pat_completeness auto
termination
proof (relation "measure length", simp)
  fix bs :: "nat list"
  assume "bs \<noteq> []"
  with decode_rune_width [OF this] show "(drop (snd (decode_rune bs)) bs, bs) \<in> measure length" by simp
qed

declare runes.simps [simp del]

definition rune_weight :: "(nat \<Rightarrow> bool) \<Rightarrow> nat \<Rightarrow> nat" where
  "rune_weight sound c =
     (if sound c then 2 else if c \<in> {44, 59, 58} then 3 else if c \<in> {46, 63, 33} then 4 else 0)"

definition weigh :: "(nat \<Rightarrow> bool) \<Rightarrow> string \<Rightarrow> nat" where
  "weigh sound w = fold (\<lambda>c n. n + rune_weight sound c) (runes (map byte w)) 2"

definition Words :: "string \<Rightarrow> string list" where
  "Words text = Fields text"

definition PriorMSPerWeight :: nat where
  "PriorMSPerWeight = 33"

definition total_weight :: "(nat \<Rightarrow> bool) \<Rightarrow> string list \<Rightarrow> nat" where
  "total_weight sound ws = fold (\<lambda>w n. n + weigh sound w) ws 0"

definition PriorDuration :: "(nat \<Rightarrow> bool) \<Rightarrow> string list \<Rightarrow> nat" where
  "PriorDuration sound ws = wrap64 (total_weight sound ws * PriorMSPerWeight)"

text \<open>The loop of \<^verbatim>\<open>spread\<close>; the second argument is \<^verbatim>\<open>covered\<close>.\<close>

fun spread_loop :: "(nat \<Rightarrow> bool) \<Rightarrow> nat \<Rightarrow> nat \<Rightarrow> nat \<Rightarrow> nat \<Rightarrow> string list \<Rightarrow> word_time list" where
  "spread_loop sound covered start width weight [] = []"
| "spread_loop sound covered start width weight (w # ws) =
     \<lparr>wd_text = w, wd_startMS = wrap64 (start + wrap64 (covered * width) div weight),
      wd_endMS = wrap64 (start + wrap64 ((covered + weigh sound w) * width) div weight)\<rparr>
     # spread_loop sound (covered + weigh sound w) start width weight ws"

definition spread :: "(nat \<Rightarrow> bool) \<Rightarrow> string list \<Rightarrow> nat \<Rightarrow> nat \<Rightarrow> word_time list" where
  "spread sound ws start stop0 =
     (let stop = (if stop0 < start then start else stop0); weight = total_weight sound ws in
      if weight = 0 then map (\<lambda>w. \<lparr>wd_text = w, wd_startMS = start, wd_endMS = stop\<rparr>) ws
      else spread_loop sound 0 start (stop - start) weight ws)"

definition layout :: "(nat \<Rightarrow> bool) \<Rightarrow> string \<Rightarrow> string list \<Rightarrow> nat \<Rightarrow> timeline" where
  "layout sound text ws span =
     \<lparr>tl_text = TrimSpace text, tl_words = (if ws = [] then [] else spread sound ws 0 span), tl_audioMS = 0, tl_measured = False\<rparr>"

definition ExpectedSpan :: "(nat \<Rightarrow> bool) \<Rightarrow> string \<Rightarrow> nat \<Rightarrow> nat" where
  "ExpectedSpan sound text audioMS =
     (let ws = Words text; prior = PriorDuration sound ws in
      if ws = [] then max audioMS prior
      else let headroom = wrap64 (audioMS + prior div length ws) in if headroom > prior then headroom else prior)"

definition Estimate :: "(nat \<Rightarrow> bool) \<Rightarrow> string \<Rightarrow> nat \<Rightarrow> timeline" where
  "Estimate sound text audioMS = (layout sound text (Words text) (ExpectedSpan sound text audioMS))\<lparr>tl_audioMS := audioMS\<rparr>"

definition CompleteTimeline :: "(nat \<Rightarrow> bool) \<Rightarrow> nat \<Rightarrow> timeline \<Rightarrow> timeline" where
  "CompleteTimeline sound audioMS tline =
     (if audioMS = 0 \<or> tl_words tline = [] then tline
      else if \<not> tl_measured tline
      then (layout sound (tl_text tline) (Words (tl_text tline)) audioMS)\<lparr>tl_audioMS := audioMS\<rparr>
      else
        (let c = tline\<lparr>tl_audioMS := audioMS\<rparr>; ws = tl_words tline in
         if wd_endMS (last ws) = audioMS then c
         else
           (let inside = takeWhile (\<lambda>w. wd_endMS w \<le> audioMS) ws; tail = dropWhile (\<lambda>w. wd_endMS w \<le> audioMS) ws in
            if tail = [] then c\<lparr>tl_words := butlast ws @ [(last ws)\<lparr>wd_endMS := audioMS\<rparr>]\<rparr>
            else
              (let from0 = (if inside = [] then 0 else wd_endMS (last inside)) in
               c\<lparr>tl_words := inside @ spread sound (map wd_text tail) (min from0 audioMS) audioMS\<rparr>))))"

subsection \<open>The split at a playback position\<close>

definition Started :: "mark \<Rightarrow> bool" where
  "Started m = (\<not> blank (mk_spoken m) \<or> \<not> blank (mk_cut m))"

fun at_loop :: "nat \<Rightarrow> word_time list \<Rightarrow> string list \<times> string \<times> string list \<Rightarrow> string list \<times> string \<times> string list" where
  "at_loop played [] acc = acc"
| "at_loop played (w # ws) (spoken, cutw, pending) =
     at_loop played ws
       (if wd_endMS w \<le> played then (spoken @ [wd_text w], cutw, pending)
        else if wd_startMS w < played \<and> cutw = [] then (spoken, wd_text w, pending @ [wd_text w])
        else (spoken, cutw, pending @ [wd_text w]))"

definition At :: "timeline \<Rightarrow> nat \<Rightarrow> mark" where
  "At tline played =
     (if tl_words tline = []
      then \<lparr>mk_spoken = [], mk_cut = [], mk_pending = TrimSpace (tl_text tline), mk_measured = tl_measured tline, mk_playedMS = played\<rparr>
      else case at_loop played (tl_words tline) ([], [], []) of (spoken, cutw, pending) \<Rightarrow>
        \<lparr>mk_spoken = Join spoken, mk_cut = cutw, mk_pending = Join pending, mk_measured = tl_measured tline, mk_playedMS = played\<rparr>)"

fun distribute_loop :: "mark \<Rightarrow> nat \<Rightarrow> bool \<Rightarrow> string list \<Rightarrow> mark list" where
  "distribute_loop m heard cutw [] = []"
| "distribute_loop m heard cutw (piece # pieces) =
     (let ws = Fields piece;
          part = \<lparr>mk_spoken = [], mk_cut = [], mk_pending = [], mk_measured = mk_measured m, mk_playedMS = mk_playedMS m\<rparr> in
      if heard \<ge> length ws then part\<lparr>mk_spoken := Join ws\<rparr> # distribute_loop m (heard - length ws) cutw pieces
      else
        (let remaining = drop heard ws in
         part\<lparr>mk_spoken := Join (take heard ws), mk_cut := (if cutw then hd remaining else []), mk_pending := Join remaining\<rparr>
         # distribute_loop m 0 False pieces))"

definition Distribute :: "mark \<Rightarrow> string list \<Rightarrow> mark list" where
  "Distribute m pieces = distribute_loop m (length (Fields (mk_spoken m))) (\<not> blank (mk_cut m)) pieces"

subsection \<open>Layouts\<close>

lemma weigh_ge: "2 \<le> weigh sound w"
proof -
  have "n \<le> fold (\<lambda>c n. n + rune_weight sound c) cs n" for cs n
    by (induction cs arbitrary: n) (auto intro: le_trans [OF le_add1])
  then show ?thesis by (simp add: weigh_def)
qed

lemma total_weight_sum: "total_weight sound ws = (\<Sum>w\<leftarrow>ws. weigh sound w)"
proof -
  have "fold (\<lambda>w n. n + weigh sound w) ws n = n + (\<Sum>w\<leftarrow>ws. weigh sound w)" for n
    by (induction ws arbitrary: n) auto
  then show ?thesis by (simp add: total_weight_def)
qed

lemma total_weight_ge: "2 * length ws \<le> total_weight sound ws"
proof (induction ws)
  case (Cons w ws)
  then show ?case using weigh_ge [of sound w] by (simp add: total_weight_sum)
qed (simp add: total_weight_def)

text \<open>Words laid end to end, in order, each no shorter than nothing.\<close>

fun contiguous :: "nat \<Rightarrow> word_time list \<Rightarrow> nat \<Rightarrow> bool" where
  "contiguous a [] b = (a = b)"
| "contiguous a (w # ws) b = (wd_startMS w = a \<and> a \<le> wd_endMS w \<and> contiguous (wd_endMS w) ws b)"

lemma wrap64_id [simp]: "n < 2 ^ 64 \<Longrightarrow> wrap64 n = n"
  by (simp add: wrap64_def)

lemma spread_loop_texts [simp]: "map wd_text (spread_loop sound covered start width weight ws) = ws"
  by (induction ws arbitrary: covered) simp_all

lemma spread_loop_contiguous:
  assumes "0 < weight" and "covered + total_weight sound ws = weight"
    and "weight * width < 2 ^ 64" and "start + width < 2 ^ 64"
  shows "contiguous (start + covered * width div weight) (spread_loop sound covered start width weight ws) (start + width)"
  using assms(2)
proof (induction ws arbitrary: covered)
  case Nil
  then show ?case using assms(1) by (simp add: total_weight_def)
next
  case (Cons w ws)
  let ?c = "covered + weigh sound w"
  have c: "?c + total_weight sound ws = weight" using Cons.prems by (simp add: total_weight_sum)
  have at: "wrap64 (start + wrap64 (k * width) div weight) = start + k * width div weight" if "k \<le> weight" for k
  proof -
    have m: "k * width \<le> weight * width" using that by simp
    then have "k * width div weight \<le> width" using assms(1) by (metis div_le_mono nonzero_mult_div_cancel_left not_gr_zero)
    moreover have "wrap64 (k * width) = k * width" using m assms(3) by (intro wrap64_id) linarith
    ultimately show ?thesis using assms(4) by simp
  qed
  have "covered * width div weight \<le> ?c * width div weight" by (intro div_le_mono mult_le_mono1) simp
  with Cons.IH [OF c] c show ?case by (simp add: at)
qed

lemma spread_texts [simp]: "map wd_text (spread sound ws start stop) = ws"
  by (simp add: spread_def Let_def comp_def)

lemma spread_contiguous:
  assumes "ws \<noteq> []" and "start \<le> stop" and "stop < 2 ^ 64" and "total_weight sound ws * (stop - start) < 2 ^ 64"
  shows "contiguous start (spread sound ws start stop) stop"
proof -
  have w: "0 < total_weight sound ws" using total_weight_ge [of ws sound] assms(1) by (cases ws) auto
  have "contiguous (start + 0 * (stop - start) div total_weight sound ws)
      (spread_loop sound 0 start (stop - start) (total_weight sound ws) ws) (start + (stop - start))"
    using w assms by (intro spread_loop_contiguous) simp_all
  with w assms(2) show ?thesis by (simp add: spread_def)
qed

lemma contiguous_end: "contiguous a ws b \<Longrightarrow> ws \<noteq> [] \<Longrightarrow> wd_endMS (last ws) = b"
  by (induction a ws b rule: contiguous.induct) (auto split: if_splits)

lemma contiguous_ends: "contiguous a ws b \<Longrightarrow> a \<le> b \<and> (\<forall>w\<in>set ws. a \<le> wd_endMS w \<and> wd_endMS w \<le> b)"
  by (induction a ws b rule: contiguous.induct) force+

lemma contiguous_sorted: "contiguous a ws b \<Longrightarrow> sorted (map wd_endMS ws)"
  by (induction a ws b rule: contiguous.induct) (auto dest: contiguous_ends)

subsection \<open>Splits\<close>

lemma at_loop_rest:
  "contiguous a ws b \<Longrightarrow> played < a \<Longrightarrow> at_loop played ws (sp, c, pd) = (sp, c, pd @ map wd_text ws)"
  by (induction ws arbitrary: a pd) auto

text \<open>Where the words are contiguous, the heard words are a prefix and only the word after it can be cut.\<close>

lemma at_loop_split:
  "contiguous a ws b \<Longrightarrow> \<exists>k \<le> length ws.
     at_loop played ws (sp, [], []) = (sp @ map wd_text (take k ws),
       if k < length ws \<and> wd_startMS (ws ! k) < played then wd_text (ws ! k) else [], map wd_text (drop k ws))
     \<and> (\<forall>w\<in>set (take k ws). wd_endMS w \<le> played) \<and> (\<forall>w\<in>set (drop k ws). played < wd_endMS w)"
proof (induction ws arbitrary: a sp)
  case (Cons w ws)
  then have t: "contiguous (wd_endMS w) ws b" by simp
  show ?case
  proof (cases "wd_endMS w \<le> played")
    case True
    from Cons.IH [OF t, of "sp @ [wd_text w]"] obtain k where k: "k \<le> length ws"
      "at_loop played ws (sp @ [wd_text w], [], []) = ((sp @ [wd_text w]) @ map wd_text (take k ws),
         if k < length ws \<and> wd_startMS (ws ! k) < played then wd_text (ws ! k) else [], map wd_text (drop k ws))"
      "\<forall>w\<in>set (take k ws). wd_endMS w \<le> played" "\<forall>w\<in>set (drop k ws). played < wd_endMS w" by blast
    with True show ?thesis by (intro exI [of _ "Suc k"]) simp
  next
    case False
    with contiguous_ends [OF t] have "\<forall>v\<in>set ws. played < wd_endMS v" by force
    with False at_loop_rest [OF t, of played] show ?thesis by (intro exI [of _ 0]) simp
  qed
qed simp

text \<open>A timeline whose words are fields laid end to end.\<close>

definition laid_out :: "timeline \<Rightarrow> bool" where
  "laid_out tline = (tl_words tline \<noteq> [] \<and> (\<exists>b. contiguous 0 (tl_words tline) b)
     \<and> (\<forall>w\<in>set (tl_words tline). solid (wd_text w)))"

lemma At_split:
  assumes "laid_out tline"
  shows "\<exists>k \<le> length (tl_words tline).
     Fields (mk_spoken (At tline played)) = map wd_text (take k (tl_words tline))
   \<and> Fields (mk_pending (At tline played)) = map wd_text (drop k (tl_words tline))
   \<and> mk_pending (At tline played) = Join (map wd_text (drop k (tl_words tline)))
   \<and> mk_cut (At tline played) = (if k < length (tl_words tline) \<and> wd_startMS (tl_words tline ! k) < played
        then wd_text (tl_words tline ! k) else [])
   \<and> (\<forall>w\<in>set (take k (tl_words tline)). wd_endMS w \<le> played) \<and> (\<forall>w\<in>set (drop k (tl_words tline)). played < wd_endMS w)"
proof -
  let ?ws = "tl_words tline"
  obtain b where "contiguous 0 ?ws b" using assms by (auto simp: laid_out_def)
  from at_loop_split [OF this, of played "[]"] obtain k where k: "k \<le> length ?ws"
    "at_loop played ?ws ([], [], []) = (map wd_text (take k ?ws),
       if k < length ?ws \<and> wd_startMS (?ws ! k) < played then wd_text (?ws ! k) else [], map wd_text (drop k ?ws))"
    "\<forall>w\<in>set (take k ?ws). wd_endMS w \<le> played" "\<forall>w\<in>set (drop k ?ws). played < wd_endMS w" by auto
  have "solid (wd_text v)" if "v \<in> set (take k ?ws) \<or> v \<in> set (drop k ?ws)" for v
    using assms that by (auto simp: laid_out_def dest: in_set_takeD in_set_dropD)
  then have "Fields (Join (map wd_text (take k ?ws))) = map wd_text (take k ?ws)"
    "Fields (Join (map wd_text (drop k ?ws))) = map wd_text (drop k ?ws)"
    by (simp_all add: Fields_Join)
  moreover have "?ws \<noteq> []" using assms by (simp add: laid_out_def)
  ultimately show ?thesis using k by (intro exI [of _ k]) (simp add: At_def)
qed

subsection \<open>Properties\<close>

lemma laid_out_spread:
  assumes "Words text \<noteq> []" and "stop < 2 ^ 64" and "total_weight sound (Words text) * stop < 2 ^ 64"
  shows "laid_out ((layout sound text (Words text) stop)\<lparr>tl_audioMS := n\<rparr>)"
    "wd_endMS (last (spread sound (Words text) 0 stop)) = stop"
proof -
  have c: "contiguous 0 (spread sound (Words text) 0 stop) stop" using assms by (intro spread_contiguous) simp_all
  have ne: "spread sound (Words text) 0 stop \<noteq> []" using assms(1) spread_texts [of sound "Words text" 0 stop] by (metis list.map_disc_iff)
  have "solid (wd_text w)" if "w \<in> set (spread sound (Words text) 0 stop)" for w
  proof -
    have "wd_text w \<in> set (map wd_text (spread sound (Words text) 0 stop))" using that by (simp only: set_map imageI)
    then show ?thesis unfolding spread_texts Words_def by (rule Fields_solid)
  qed
  with c ne assms(1) show "laid_out ((layout sound text (Words text) stop)\<lparr>tl_audioMS := n\<rparr>)"
    by (auto simp: laid_out_def layout_def)
  show "wd_endMS (last (spread sound (Words text) 0 stop)) = stop" by (rule contiguous_end [OF c ne])
qed

lemma ExpectedSpan_bounds:
  assumes "Words text \<noteq> []" and "audioMS + total_weight sound (Words text) * 33 < 2 ^ 64"
  shows "audioMS < ExpectedSpan sound text audioMS" "ExpectedSpan sound text audioMS \<le> audioMS + total_weight sound (Words text) * 33"
proof -
  let ?ws = "Words text"
  let ?p = "total_weight sound ?ws * 33"
  have p: "PriorDuration sound ?ws = ?p" using assms(2) by (simp add: PriorDuration_def PriorMSPerWeight_def)
  have l: "0 < length ?ws" "2 * length ?ws \<le> total_weight sound ?ws" using assms(1) total_weight_ge by auto
  then have "length ?ws \<le> ?p" by linarith
  then have d: "0 < ?p div length ?ws" using l(1) by (simp add: div_greater_zero_iff)
  have "?p div length ?ws \<le> ?p" by (rule div_le_dividend)
  then have h: "wrap64 (audioMS + ?p div length ?ws) = audioMS + ?p div length ?ws" using assms(2) by (intro wrap64_id) linarith
  with \<open>?p div length ?ws \<le> ?p\<close> d show "audioMS < ExpectedSpan sound text audioMS" "ExpectedSpan sound text audioMS \<le> audioMS + ?p"
    using assms(1) unfolding ExpectedSpan_def Let_def p h by auto
qed

text \<open>
  An estimated layout neither ends early nor stays open. While synthesis is running, no playback
  position within the audio that exists counts the last word as heard, so the utterance is
  incomplete; once the real duration is known and has been played, the whole utterance was heard,
  word for word. The arithmetic is 64-bit: the property holds for every utterance whose weight
  times its expected length stays in range.
\<close>

theorem estimates_end_with_the_audio:
  assumes "Words text \<noteq> []"
    and "total_weight sound (Words text) * (audioMS + total_weight sound (Words text) * 33) < 2 ^ 64"
  shows "(\<forall>played\<le>audioMS. \<not> mark_complete (At (Estimate sound text audioMS) played))
    \<and> (0 < audioMS \<longrightarrow> (\<forall>played\<ge>audioMS.
         mark_complete (At (CompleteTimeline sound audioMS (Estimate sound text audioMS)) played)
         \<and> Fields (mk_spoken (At (CompleteTimeline sound audioMS (Estimate sound text audioMS)) played)) = Fields text))"
proof -
  let ?w = "total_weight sound (Words text)" and ?s = "ExpectedSpan sound text audioMS"
  have "2 \<le> ?w" using total_weight_ge [of "Words text" sound] assms(1) by (cases "Words text") auto
  then have "audioMS + ?w * 33 \<le> ?w * (audioMS + ?w * 33)" by (cases ?w) auto
  then have r: "audioMS + ?w * 33 < 2 ^ 64" using assms(2) by linarith
  note span = ExpectedSpan_bounds [OF assms(1) r]
  have ws: "?w * ?s \<le> ?w * (audioMS + ?w * 33)" "?w * audioMS \<le> ?w * (audioMS + ?w * 33)" using span(2) by (intro mult_le_mono2; simp)+
  have sb: "?s < 2 ^ 64" "?w * ?s < 2 ^ 64" "audioMS < 2 ^ 64" "?w * audioMS < 2 ^ 64" using span(2) r ws assms(2) by linarith+
  have "\<not> mark_complete (At (Estimate sound text audioMS) played)" if "played \<le> audioMS" for played
  proof -
    let ?t = "Estimate sound text audioMS"
    note lay = laid_out_spread [OF assms(1) sb(1,2)]
    have t: "laid_out ?t" "tl_words ?t = spread sound (Words text) 0 ?s" using lay(1) [of audioMS] assms(1) by (simp_all add: Estimate_def layout_def)
    obtain k where k: "k \<le> length (tl_words ?t)" "mk_pending (At ?t played) = Join (map wd_text (drop k (tl_words ?t)))"
      "\<forall>w\<in>set (take k (tl_words ?t)). wd_endMS w \<le> played" using At_split [OF t(1), of played] by blast
    have ne: "tl_words ?t \<noteq> []" using t(1) by (simp add: laid_out_def)
    have "k \<noteq> length (tl_words ?t)"
    proof
      assume "k = length (tl_words ?t)"
      then have "wd_endMS (last (tl_words ?t)) \<le> played" using k(3) ne by simp
      with lay(2) t(2) span(1) that show False by simp
    qed
    then have "map wd_text (drop k (tl_words ?t)) \<noteq> []" using k(1) by simp
    moreover have "\<forall>w\<in>set (map wd_text (drop k (tl_words ?t))). solid w" using t(1) by (auto simp: laid_out_def dest: in_set_dropD)
    ultimately show ?thesis using Join_not_blank k(2) by (simp add: mark_complete_def)
  qed
  moreover have "mark_complete (At (CompleteTimeline sound audioMS (Estimate sound text audioMS)) played)
      \<and> Fields (mk_spoken (At (CompleteTimeline sound audioMS (Estimate sound text audioMS)) played)) = Fields text"
    if "0 < audioMS" "audioMS \<le> played" for played
  proof -
    let ?t = "CompleteTimeline sound audioMS (Estimate sound text audioMS)"
    have f: "Words (TrimSpace text) = Words text" by (simp add: Words_def Fields_TrimSpace)
    have ne: "tl_words (Estimate sound text audioMS) \<noteq> []"
      using laid_out_spread(1) [OF assms(1) sb(1,2), of audioMS] by (simp add: Estimate_def laid_out_def)
    have e: "?t = (layout sound (TrimSpace text) (Words (TrimSpace text)) audioMS)\<lparr>tl_audioMS := audioMS\<rparr>"
      using that(1) ne by (simp add: CompleteTimeline_def Estimate_def layout_def)
    have l: "laid_out ?t" unfolding e using assms(1) sb(3,4) by (intro laid_out_spread(1)) (simp_all add: f)
    have w: "tl_words ?t = spread sound (Words text) 0 audioMS" using assms(1) by (simp add: e layout_def f)
    have "contiguous 0 (tl_words ?t) audioMS" unfolding w using assms(1) sb(3,4) by (intro spread_contiguous) simp_all
    then have all: "\<forall>v\<in>set (tl_words ?t). wd_endMS v \<le> audioMS" using contiguous_ends by blast
    obtain k where k: "k \<le> length (tl_words ?t)" "mk_pending (At ?t played) = Join (map wd_text (drop k (tl_words ?t)))"
      "Fields (mk_spoken (At ?t played)) = map wd_text (take k (tl_words ?t))"
      "\<forall>w\<in>set (drop k (tl_words ?t)). played < wd_endMS w" using At_split [OF l, of played] by blast
    have "v \<notin> set (drop k (tl_words ?t))" for v
    proof
      assume v: "v \<in> set (drop k (tl_words ?t))"
      have "wd_endMS v \<le> audioMS" using all in_set_dropD [OF v] by blast
      moreover have "played < wd_endMS v" using k(4) v by blast
      ultimately show False using that(2) by simp
    qed
    then have "drop k (tl_words ?t) = []" by (metis list.set_intros(1) neq_Nil_conv)
    with k(1) have "k = length (tl_words ?t)" by simp
    with k(2,3) w show ?thesis by (simp add: mark_complete_def Words_def)
  qed
  ultimately show ?thesis by blast
qed

text \<open>One pass over the pieces, for the words that were heard and whether a word was cut.\<close>

lemma distribute_loop_spec:
  assumes "heard \<le> length (concat (map Fields pieces))"
    and "cutw \<longrightarrow> heard < length (concat (map Fields pieces))"
  shows "list_all2 (\<lambda>part piece. Fields (mk_spoken part) @ Fields (mk_pending part) = Fields piece) (distribute_loop m heard cutw pieces) pieces
    \<and> concat (map (\<lambda>part. Fields (mk_spoken part)) (distribute_loop m heard cutw pieces)) = take heard (concat (map Fields pieces))
    \<and> filter (\<lambda>c. c \<noteq> []) (map mk_cut (distribute_loop m heard cutw pieces))
        = (if cutw then [concat (map Fields pieces) ! heard] else [])"
  using assms
proof (induction pieces arbitrary: heard cutw)
  case (Cons piece pieces)
  let ?ws = "Fields piece"
  have sol: "\<forall>w\<in>set (take n ?ws). solid w" "\<forall>w\<in>set (drop n ?ws). solid w" for n
    using Fields_solid by (auto dest: in_set_takeD in_set_dropD)
  have fj: "Fields (Join (take n ?ws)) = take n ?ws" "Fields (Join (drop n ?ws)) = drop n ?ws" "Fields (Join ?ws) = ?ws" for n
    using Fields_Join [OF sol(1)] Fields_Join [OF sol(2)] Fields_Join [of ?ws] Fields_solid by auto
  have nil: "Fields [] = []" by (simp add: Fields_def flush_def)
  show ?case
  proof (cases "length ?ws \<le> heard")
    case True
    have "list_all2 (\<lambda>part piece. Fields (mk_spoken part) @ Fields (mk_pending part) = Fields piece) (distribute_loop m (heard - length ?ws) cutw pieces) pieces
      \<and> concat (map (\<lambda>part. Fields (mk_spoken part)) (distribute_loop m (heard - length ?ws) cutw pieces)) = take (heard - length ?ws) (concat (map Fields pieces))
      \<and> filter (\<lambda>c. c \<noteq> []) (map mk_cut (distribute_loop m (heard - length ?ws) cutw pieces))
        = (if cutw then [concat (map Fields pieces) ! (heard - length ?ws)] else [])"
      using Cons.prems True by (intro Cons.IH) auto
    with True show ?thesis by (simp add: Let_def fj nil nth_append)
  next
    case False
    have "list_all2 (\<lambda>part piece. Fields (mk_spoken part) @ Fields (mk_pending part) = Fields piece) (distribute_loop m 0 False pieces) pieces
      \<and> concat (map (\<lambda>part. Fields (mk_spoken part)) (distribute_loop m 0 False pieces)) = take 0 (concat (map Fields pieces))
      \<and> filter (\<lambda>c. c \<noteq> []) (map mk_cut (distribute_loop m 0 False pieces)) = (if False then [concat (map Fields pieces) ! 0] else [])"
      by (rule Cons.IH) auto
    moreover have "hd (drop heard ?ws) = ?ws ! heard" "?ws ! heard \<noteq> []"
      using False Fields_solid [of "?ws ! heard" piece] by (auto simp: hd_drop_conv_nth solid_def)
    ultimately show ?thesis using False by (simp add: Let_def fj nil nth_append)
  qed
qed simp

text \<open>
  The boundary found for an utterance is the boundary recorded for its parts. Let an utterance
  be laid out in the words of the texts it was joined from, and split at any playback position.
  Distributing the split gives one mark per text: each text's heard and pending words are its own
  words, in order; the heard words of all texts together are exactly the heard words of the
  utterance, which are a prefix of it; and the cut word, if there is one, is recorded once, as the
  first word not heard.
\<close>

theorem distributed_marks_agree_with_the_utterance:
  assumes "laid_out tline" and "map wd_text (tl_words tline) = concat (map Fields pieces)"
  shows "let m = At tline played; parts = Distribute m pieces in
      list_all2 (\<lambda>part piece. Fields (mk_spoken part) @ Fields (mk_pending part) = Fields piece) parts pieces
    \<and> concat (map (\<lambda>part. Fields (mk_spoken part)) parts) = Fields (mk_spoken m)
    \<and> Fields (mk_spoken m) @ Fields (mk_pending m) = concat (map Fields pieces)
    \<and> filter (\<lambda>c. c \<noteq> []) (map mk_cut parts) = (if mk_cut m = [] then [] else [hd (Fields (mk_pending m))])
    \<and> (mk_cut m \<noteq> [] \<longrightarrow> mk_cut m = hd (Fields (mk_pending m)))"
proof -
  let ?m = "At tline played" and ?W = "concat (map Fields pieces)"
  obtain k where k: "k \<le> length (tl_words tline)" "Fields (mk_spoken ?m) = map wd_text (take k (tl_words tline))"
    "Fields (mk_pending ?m) = map wd_text (drop k (tl_words tline))"
    "mk_cut ?m = (if k < length (tl_words tline) \<and> wd_startMS (tl_words tline ! k) < played then wd_text (tl_words tline ! k) else [])"
    using At_split [OF assms(1), of played] by blast
  have l: "length ?W = length (tl_words tline)" by (metis assms(2) length_map)
  have s: "Fields (mk_spoken ?m) = take k ?W" "Fields (mk_pending ?m) = drop k ?W" using k(2,3) assms(2) by (simp_all flip: take_map drop_map)
  have n: "length (Fields (mk_spoken ?m)) = k" using k(1,2) by simp
  have c: "(\<not> blank (mk_cut ?m)) = (mk_cut ?m \<noteq> [])" "mk_cut ?m \<noteq> [] \<longrightarrow> k < length ?W \<and> mk_cut ?m = ?W ! k"
  proof -
    have "\<not> blank (wd_text (tl_words tline ! k))" if "k < length (tl_words tline)"
      using assms(1) that solid_not_blank [of "[]"] by (simp add: laid_out_def)
    then show "(\<not> blank (mk_cut ?m)) = (mk_cut ?m \<noteq> [])" unfolding k(4) by (auto dest: not_blank_nonempty)
    have "?W ! k = wd_text (tl_words tline ! k)" if "k < length (tl_words tline)" using that by (simp flip: assms(2))
    then show "mk_cut ?m \<noteq> [] \<longrightarrow> k < length ?W \<and> mk_cut ?m = ?W ! k" using k(4) l by (auto split: if_splits)
  qed
  have d: "Distribute ?m pieces = distribute_loop ?m k (mk_cut ?m \<noteq> []) pieces" by (simp add: Distribute_def n c(1))
  note spec = distribute_loop_spec [of k pieces "mk_cut ?m \<noteq> []" ?m]
  have h: "k < length ?W \<Longrightarrow> hd (drop k ?W) = ?W ! k" by (simp add: hd_drop_conv_nth)
  from spec k(1) l c(2) have sp:
    "list_all2 (\<lambda>part piece. Fields (mk_spoken part) @ Fields (mk_pending part) = Fields piece) (Distribute ?m pieces) pieces"
    "concat (map (\<lambda>part. Fields (mk_spoken part)) (Distribute ?m pieces)) = take k ?W"
    "filter (\<lambda>c. c \<noteq> []) (map mk_cut (Distribute ?m pieces)) = (if mk_cut ?m \<noteq> [] then [?W ! k] else [])"
    unfolding d by (auto elim: list_all2_mono)
  show ?thesis unfolding Let_def using sp s c(2) h by auto
qed

subsection \<open>Two sentences, cut in the second\<close>

definition example_sound :: "nat \<Rightarrow> bool" where
  "example_sound c = (65 \<le> c \<and> c \<le> 90 \<or> 97 \<le> c \<and> c \<le> 122 \<or> 48 \<le> c \<and> c \<le> 57)"

lemma example_utterance_words:
  "Words ''Hi there. All set'' = [''Hi'', ''there.'', ''All'', ''set'']"
  "weigh example_sound ''Hi'' = 6" "weigh example_sound ''there.'' = 16" "weigh example_sound ''All'' = 8" "weigh example_sound ''set'' = 8"
  "Fields ''Hi there.'' = [''Hi'', ''there.'']" "Fields ''All set'' = [''All'', ''set'']"
  by code_simp+

lemma example_weight: "total_weight example_sound (Words ''Hi there. All set'') = 38"
  unfolding example_utterance_words(1) total_weight_sum by (simp add: example_utterance_words(2-5))

lemma example_span: "ExpectedSpan example_sound ''Hi there. All set'' 1000 = 1313"
  by (simp add: ExpectedSpan_def PriorDuration_def PriorMSPerWeight_def example_weight wrap64_def)
    (simp add: example_utterance_words(1))

lemma example_words:
  "tl_words (Estimate example_sound ''Hi there. All set'' 1000) =
     [\<lparr>wd_text = ''Hi'', wd_startMS = 0, wd_endMS = 207\<rparr>, \<lparr>wd_text = ''there.'', wd_startMS = 207, wd_endMS = 760\<rparr>,
      \<lparr>wd_text = ''All'', wd_startMS = 760, wd_endMS = 1036\<rparr>, \<lparr>wd_text = ''set'', wd_startMS = 1036, wd_endMS = 1313\<rparr>]"
proof -
  have "spread example_sound (Words ''Hi there. All set'') 0 1313 = spread_loop example_sound 0 0 1313 38 [''Hi'', ''there.'', ''All'', ''set'']"
    by (simp add: spread_def example_weight) (simp add: example_utterance_words(1))
  then show ?thesis
    by (simp add: Estimate_def layout_def example_span example_utterance_words(1-5) wrap64_def)
qed

theorem estimates_end_with_the_audio_witness:
  "\<not> mark_complete (At (Estimate example_sound ''Hi there. All set'' 1000) 1000)
   \<and> mark_complete (At (CompleteTimeline example_sound 1000 (Estimate example_sound ''Hi there. All set'' 1000)) 1000)"
proof -
  have h: "Words ''Hi there. All set'' \<noteq> []"
    "total_weight example_sound (Words ''Hi there. All set'') * (1000 + total_weight example_sound (Words ''Hi there. All set'') * 33) < 2 ^ 64"
    unfolding example_weight by (simp_all add: example_utterance_words(1))
  from estimates_end_with_the_audio [OF h] show ?thesis by (meson order_refl zero_less_numeral)
qed

lemma example_laid_out: "laid_out (Estimate example_sound ''Hi there. All set'' 1000)"
proof -
  have h: "Words ''Hi there. All set'' \<noteq> []" "(1313 :: nat) < 2 ^ 64"
    "total_weight example_sound (Words ''Hi there. All set'') * 1313 < 2 ^ 64"
    unfolding example_weight by (simp_all add: example_utterance_words(1))
  from laid_out_spread(1) [OF h, of 1000] show ?thesis by (simp add: Estimate_def example_span)
qed

theorem distributed_marks_agree_with_the_utterance_witness:
  "mk_cut (At (Estimate example_sound ''Hi there. All set'' 1000) 900) = ''All''
   \<and> (let m = At (Estimate example_sound ''Hi there. All set'' 1000) 900; parts = Distribute m [''Hi there.'', ''All set''] in
      concat (map (\<lambda>part. Fields (mk_spoken part)) parts) = Fields (mk_spoken m)
      \<and> filter (\<lambda>c. c \<noteq> []) (map mk_cut parts) = [hd (Fields (mk_pending m))])"
proof -
  have w: "map wd_text (tl_words (Estimate example_sound ''Hi there. All set'' 1000)) = concat (map Fields [''Hi there.'', ''All set''])"
    by (simp add: example_words example_utterance_words(6,7))
  have c: "mk_cut (At (Estimate example_sound ''Hi there. All set'' 1000) 900) = ''All''"
    by (simp add: At_def example_words)
  from distributed_marks_agree_with_the_utterance [OF example_laid_out w, of 900] c
  show ?thesis unfolding Let_def by (simp only: list.distinct if_False)
qed

end
