(* ===== verification/Commit_Policy.thy ===== *)
theory Commit_Policy
  imports Floor Spoken
begin

section \<open>Saying it before certainty: commitment and repair policies\<close>

text \<open>
  \<^verbatim>\<open>interaction/commitment.go\<close>: how much of a candidate may be emitted now, and what is owed when something
  already emitted proves wrong. A policy is the function of its \<^verbatim>\<open>Decide\<close>. The embedded \<^verbatim>\<open>Context\<close> is not
  read by any of these policies and is left out of their inputs; so is the target phase of a repair.
  The names of policies are not modelled.
\<close>

record commitment_decision =
  cd_emit :: string
  cd_hold :: string
  cd_reason :: string

definition CommittedDecision :: "commitment_decision \<Rightarrow> bool" where
  "CommittedDecision d \<longleftrightarrow> cd_emit d \<noteq> []"

record commitment_input =
  ci_text :: string
  ci_complete :: bool
  ci_authority :: string

definition silent :: "string \<Rightarrow> bool" where
  "silent authority \<longleftrightarrow> authority = ''silent''"

definition completeCommitment :: "commitment_input \<Rightarrow> commitment_decision" where
  "completeCommitment i =
     (if silent (ci_authority i) then \<lparr>cd_emit = [], cd_hold = ci_text i, cd_reason = ''producer has no voice authority''\<rparr>
      else if \<not> ci_complete i then \<lparr>cd_emit = [], cd_hold = ci_text i, cd_reason = ''output has not reached a safe point''\<rparr>
      else \<lparr>cd_emit = ci_text i, cd_hold = [], cd_reason = ''complete at a safe point''\<rparr>)"

text \<open>The end marks: full stop, exclamation mark, question mark, newline, and the three full-width ones.\<close>

definition sentence_end :: "nat \<Rightarrow> bool" where
  "sentence_end c \<longleftrightarrow> c \<in> {46, 33, 63, 10, 12290, 65281, 65311}"

function boundary_loop :: "nat \<Rightarrow> nat list \<Rightarrow> nat \<Rightarrow> nat" where
  "boundary_loop index bs boundary =
     (if bs = [] then boundary
      else let (c, w) = decode_rune bs
           in boundary_loop (index + w) (drop w bs) (if sentence_end c then index + length (encode_rune c) else boundary))"
  by pat_completeness auto
termination
proof (relation "measure (\<lambda>(index, bs, boundary). length bs)", simp)
  fix index boundary :: nat and bs :: "nat list" and x c w
  assume "bs \<noteq> []" "x = decode_rune bs" "(c, w) = x"
  with decode_rune_width [OF \<open>bs \<noteq> []\<close>]
  show "((index + w, drop w bs, if sentence_end c then index + length (encode_rune c) else boundary), (index, bs, boundary))
      \<in> measure (\<lambda>(index, bs, boundary). length bs)"
    by (cases "decode_rune bs") auto
qed

declare boundary_loop.simps [simp del]

lemma boundary_loop_code [code]:
  "boundary_loop index bs boundary =
     (if bs = [] then boundary
      else boundary_loop (index + snd (decode_rune bs)) (drop (snd (decode_rune bs)) bs)
        (if sentence_end (fst (decode_rune bs)) then index + length (encode_rune (fst (decode_rune bs))) else boundary))"
  by (subst boundary_loop.simps) (simp add: case_prod_beta)

definition lastSentenceBoundary :: "string \<Rightarrow> nat" where
  "lastSentenceBoundary text = boundary_loop 0 (map byte text) 0"

definition NewSentenceCommitment :: "int \<Rightarrow> int" where
  "NewSentenceCommitment minimumCharacters = (if minimumCharacters \<le> 0 then 12 else minimumCharacters)"

definition sentenceCommitment :: "int \<Rightarrow> commitment_input \<Rightarrow> commitment_decision" where
  "sentenceCommitment minimum i =
     (if silent (ci_authority i) then \<lparr>cd_emit = [], cd_hold = ci_text i, cd_reason = ''producer has no voice authority''\<rparr>
      else if ci_complete i then \<lparr>cd_emit = ci_text i, cd_hold = [], cd_reason = ''complete at a safe point''\<rparr>
      else let boundary = lastSentenceBoundary (ci_text i) in
           if int boundary < minimum then \<lparr>cd_emit = [], cd_hold = ci_text i, cd_reason = ''no sentence boundary yet''\<rparr>
           else \<lparr>cd_emit = take boundary (ci_text i), cd_hold = drop boundary (ci_text i), cd_reason = ''completed sentence''\<rparr>)"

subsection \<open>Repair\<close>

datatype repair_action = RepairSpeak | RepairSilent | RepairNone

record repair_input =
  ri_playedAudioMS :: u64
  ri_invalidatedByRevision :: u64

type_synonym repair_decision = "repair_action \<times> string"

definition NewAudibleRepairAfter :: "u64 \<Rightarrow> u64" where
  "NewAudibleRepairAfter threshold = (if threshold <s 0 then 0 else threshold)"

definition audibleRepair :: "u64 \<Rightarrow> repair_input \<Rightarrow> repair_decision" where
  "audibleRepair threshold i =
     (if ri_playedAudioMS i = 0 then (RepairNone, ''nothing was heard'')
      else if ri_playedAudioMS i < Milliseconds threshold then (RepairSilent, ''heard fragment is below the repair threshold'')
      else (RepairSpeak, ''invalidated content was already heard''))"

definition silentRepair :: "repair_input \<Rightarrow> repair_decision" where
  "silentRepair i =
     (if ri_playedAudioMS i = 0 then (RepairNone, ''nothing was heard'') else (RepairSilent, ''audible repair disabled''))"

subsection \<open>Properties\<close>

lemma sentence_end_decodes:
  assumes "bs \<noteq> []" and "decode_rune bs = (c, w)" and "sentence_end c"
  shows "take w bs = encode_rune c"
proof -
  obtain a r where bs: "bs = a # r" using assms(1) by (cases bs) auto
  have enc: "encode_rune 12290 = [227, 128, 130]" "encode_rune 65281 = [239, 188, 129]" "encode_rune 65311 = [239, 188, 159]"
    by (simp_all add: encode_rune_def)
  consider (one) "a < 128" "c = a" "w = 1"
    | (three) b d where "224 \<le> a" "a < 240" "cont_byte b" "cont_byte d" "take 3 bs = [a, b, d]" "w = 3"
        "c = (a - 224) * 4096 + (b - 128) * 64 + (d - 128)" "a = 224 \<longrightarrow> 160 \<le> b"
    | (two) b where "194 \<le> a" "c = (a - 192) * 64 + (b - 128)" "cont_byte b" "a < 224"
    | (four) b d e where "240 \<le> a" "c = (a - 240) * 262144 + (b - 128) * 4096 + (d - 128) * 64 + (e - 128)" "a = 240 \<longrightarrow> 144 \<le> b"
    | (bad) "c = 65533"
  proof -
    consider "a < 128" | "194 \<le> a" "a < 224" | "224 \<le> a" "a < 240" | "240 \<le> a" "a < 245" | "128 \<le> a" "a < 194 \<or> 245 \<le> a"
      by linarith
    then show thesis
    proof cases
      case 1
      with assms(2) show thesis by (intro one) (simp_all add: bs decode_rune_def)
    next
      case 2
      with assms(2) show thesis by (auto simp: bs decode_rune_def intro: two bad split: list.splits if_splits)
    next
      case 3
      with assms(2) have "c = 65533 \<or> (\<exists>b d q. r = b # d # q \<and> cont_byte b \<and> cont_byte d \<and> w = 3 \<and>
          c = (a - 224) * 4096 + (b - 128) * 64 + (d - 128) \<and> (a = 224 \<longrightarrow> 160 \<le> b))"
        by (auto simp: bs decode_rune_def split: list.splits if_splits)
      then show thesis using 3 by (elim disjE exE conjE) (simp add: bad, rule three, simp_all add: bs)
    next
      case 4
      with assms(2) have "c = 65533 \<or> (\<exists>b d e. c = (a - 240) * 262144 + (b - 128) * 4096 + (d - 128) * 64 + (e - 128) \<and> (a = 240 \<longrightarrow> 144 \<le> b))"
        by (auto simp: bs decode_rune_def split: list.splits if_splits)
      then show thesis using 4 bad four by blast
    next
      case 5
      with assms(2) show thesis by (intro bad) (auto simp: bs decode_rune_def)
    qed
  qed
  then show ?thesis
  proof cases
    case one
    then show ?thesis by (simp add: bs encode_rune_def)
  next
    case three
    define x y z where "x = a - 224" and "y = b - 128" and "z = d - 128"
    then have small: "y < 64" "z < 64" and c: "c = x * 4096 + y * 64 + z" and over: "x = 0 \<longrightarrow> 32 \<le> y"
      and abd: "a = 224 + x" "b = 128 + y" "d = 128 + z"
      using three by (auto simp: cont_byte_def)
    define q where "q = y + 64 * x"
    have "c = z + 64 * q" using c by (simp add: q_def)
    then have "c mod 64 = z" "c div 64 = q" using small(2) by simp_all
    then have "x = c div 4096" "y = c div 64 mod 64" "z = c mod 64"
      using small(1) div_mult2_eq [of c 64 64] by (simp_all add: q_def)
    moreover have "c \<in> {12290, 65281, 65311}" using assms(3) c over by (auto simp: sentence_end_def)
    ultimately have "a = 227 \<and> b = 128 \<and> d = 130 \<and> c = 12290 \<or> a = 239 \<and> b = 188 \<and> d = 129 \<and> c = 65281 \<or>
        a = 239 \<and> b = 188 \<and> d = 159 \<and> c = 65311"
      unfolding abd by auto
    then show ?thesis using three(5,6) enc by auto
  next
    case two
    then show ?thesis using assms(3) by (auto simp: sentence_end_def cont_byte_def)
  next
    case four
    then have "c \<ge> 65536" by (cases "a = 240") auto
    then show ?thesis using assms(3) by (auto simp: sentence_end_def)
  next
    case bad
    then show ?thesis using assms(3) by (simp add: sentence_end_def)
  qed
qed

lemma runes_drop_decode:
  "bs \<noteq> [] \<Longrightarrow> decode_rune bs = (c, w) \<Longrightarrow> runes bs = c # runes (drop w bs)"
  by (subst runes.simps) simp

text \<open>The loop finds the end of the last sentence mark, or returns what it started with.\<close>

lemma boundary_loop_finds:
  "(\<forall>c \<in> set (runes bs). \<not> sentence_end c) \<and> boundary_loop index bs boundary = boundary \<or>
   (\<exists>k c before. boundary_loop index bs boundary = index + k \<and> k \<le> length bs \<and> sentence_end c \<and>
      take k bs = before @ encode_rune c \<and> (\<forall>c \<in> set (runes (drop k bs)). \<not> sentence_end c))"
proof (induction index bs boundary rule: boundary_loop.induct)
  case (1 index bs boundary)
  show ?case
  proof (cases "bs = []")
    case True
    then show ?thesis by (simp add: boundary_loop.simps runes.simps)
  next
    case False
    obtain c w where d: "decode_rune bs = (c, w)" by fastforce
    let ?b = "if sentence_end c then index + length (encode_rune c) else boundary"
    have w: "1 \<le> w" "w \<le> length bs" using decode_rune_width [OF False] d by auto
    have step: "boundary_loop index bs boundary = boundary_loop (index + w) (drop w bs) ?b"
      using False d by (subst boundary_loop.simps) simp
    have r: "runes bs = c # runes (drop w bs)" by (rule runes_drop_decode [OF False d])
    from 1 [OF False refl d [symmetric]] show ?thesis
    proof (elim disjE exE conjE)
      assume no: "\<forall>c \<in> set (runes (drop w bs)). \<not> sentence_end c" "boundary_loop (index + w) (drop w bs) ?b = ?b"
      show ?thesis
      proof (cases "sentence_end c")
        case True
        have t: "take w bs = encode_rune c" by (rule sentence_end_decodes [OF False d True])
        then have "length (encode_rune c) = w" using w by (metis length_take min.absorb2)
        then show ?thesis using no True t step w by (intro disjI2 exI [of _ w] exI [of _ c] exI [of _ "[]"]) simp
      qed (use no step r in simp)
    next
      fix k e before
      assume k: "boundary_loop (index + w) (drop w bs) ?b = index + w + k" "k \<le> length (drop w bs)" "sentence_end e"
        "take k (drop w bs) = before @ encode_rune e" "\<forall>c \<in> set (runes (drop k (drop w bs))). \<not> sentence_end c"
      have "take (w + k) bs = (take w bs @ before) @ encode_rune e" using k(4) by (simp add: take_add)
      then show ?thesis using k step w
        by (intro disjI2 exI [of _ "w + k"] exI [of _ e] exI [of _ "take w bs @ before"]) (simp add: add.commute)
    qed
  qed
qed

text \<open>
  The sentence policy emits whole sentences and loses nothing: what is emitted followed by what is held is the
  candidate; a silent producer emits nothing; and of an incomplete candidate it either emits nothing or a text
  that ends with a sentence mark, at least the minimum long, with no sentence mark in what it holds back,
  wherever multi-byte characters fall.
\<close>

theorem sentence_commitment_emits_whole_sentences:
  fixes n i
  defines "d \<equiv> sentenceCommitment (NewSentenceCommitment n) i"
  shows "cd_emit d @ cd_hold d = ci_text i \<and> (silent (ci_authority i) \<longrightarrow> cd_emit d = []) \<and>
    (\<not> ci_complete i \<longrightarrow> cd_emit d = [] \<or>
      NewSentenceCommitment n \<le> int (length (cd_emit d)) \<and>
      (\<exists>c before. sentence_end c \<and> map byte (cd_emit d) = before @ encode_rune c) \<and>
      (\<forall>c \<in> set (runes (map byte (cd_hold d))). \<not> sentence_end c))"
proof (intro conjI)
  show "cd_emit d @ cd_hold d = ci_text i" "silent (ci_authority i) \<longrightarrow> cd_emit d = []"
    by (simp_all add: d_def sentenceCommitment_def Let_def)
  have pos: "0 < NewSentenceCommitment n" by (simp add: NewSentenceCommitment_def)
  from boundary_loop_finds [of "map byte (ci_text i)" 0 0] pos
  show "\<not> ci_complete i \<longrightarrow> cd_emit d = [] \<or>
      NewSentenceCommitment n \<le> int (length (cd_emit d)) \<and>
      (\<exists>c before. sentence_end c \<and> map byte (cd_emit d) = before @ encode_rune c) \<and>
      (\<forall>c \<in> set (runes (map byte (cd_hold d))). \<not> sentence_end c)"
    by (auto simp: d_def sentenceCommitment_def Let_def lastSentenceBoundary_def take_map drop_map)
qed

definition sentence_example :: commitment_input where
  "sentence_example = \<lparr>ci_text = ''OK'' @ map char_of [227, 128, 130 :: nat] @ ''So'', ci_complete = False, ci_authority = ''voice''\<rparr>"

theorem sentence_commitment_emits_whole_sentences_witness:
  "let d = sentenceCommitment (NewSentenceCommitment 3) sentence_example in
     length (cd_emit d) = 5 \<and> cd_hold d = ''So'' \<and> cd_emit d @ cd_hold d = ci_text sentence_example \<and>
     (\<exists>c before. sentence_end c \<and> map byte (cd_emit d) = before @ encode_rune c) \<and>
     list_all (\<lambda>c. \<not> sentence_end c) (runes (map byte (cd_hold d)))"
proof -
  let ?d = "sentenceCommitment (NewSentenceCommitment 3) sentence_example"
  have "lastSentenceBoundary (ci_text sentence_example) = 5"
    by (simp add: sentence_example_def lastSentenceBoundary_def boundary_loop_code decode_rune_def encode_rune_def
        sentence_end_def cont_byte_def)
  then have c: "length (cd_emit ?d) = 5" "cd_hold ?d = ''So''" "\<not> ci_complete sentence_example"
    by (simp_all add: sentenceCommitment_def sentence_example_def NewSentenceCommitment_def silent_def)
  then have "cd_emit ?d \<noteq> []" by auto
  with c sentence_commitment_emits_whole_sentences [where n = 3 and i = sentence_example] show ?thesis
    by (simp add: Let_def list_all_iff)
qed

text \<open>No policy emits for a producer without a voice.\<close>

lemma silent_content_is_held:
  "silent (ci_authority i) \<Longrightarrow> \<not> CommittedDecision (completeCommitment i) \<and> \<not> CommittedDecision (sentenceCommitment n i)"
  by (simp add: CommittedDecision_def completeCommitment_def sentenceCommitment_def)

lemma complete_content_is_emitted_whole:
  "\<not> silent (ci_authority i) \<Longrightarrow> ci_complete i \<Longrightarrow> cd_emit (completeCommitment i) = ci_text i \<and> cd_emit (sentenceCommitment n i) = ci_text i"
  by (simp add: completeCommitment_def sentenceCommitment_def)

text \<open>A repair is voiced for everything the user heard, from the threshold on; what nobody heard is not repaired.\<close>

lemma audible_repair_speaks:
  "fst (audibleRepair (NewAudibleRepairAfter 0) i) = RepairSpeak \<longleftrightarrow> ri_playedAudioMS i \<noteq> 0"
proof -
  have "Milliseconds (NewAudibleRepairAfter 0) = 0" by code_simp
  then show ?thesis by (simp add: audibleRepair_def)
qed

lemma unheard_needs_no_repair:
  "ri_playedAudioMS i = 0 \<Longrightarrow> fst (audibleRepair t i) = RepairNone \<and> fst (silentRepair i) = RepairNone"
  by (simp add: audibleRepair_def silentRepair_def)

end
