(* ===== verification/Speech.thy ===== *)
theory Speech
  imports Ledger Commit_Policy
begin

section \<open>Speaking: the speech planner\<close>

text \<open>
  \<^verbatim>\<open>action/speech.go\<close>: utterances are queued, streamed from the synthesiser in paced frames, and cancelled;
  the ledger of \<^verbatim>\<open>action/ledger.go\<close> records what crossed to the user.

  The sink, the playback reporter, the timing tracker and the synthesiser are interfaces. Every call
  the planner makes to one of them is appended to the trace \<open>sp_out\<close>, in order, and what they answer is an
  argument: a \<open>performance\<close> holds the chunks of the synthesiser and, for every frame, the answers of the
  reporter and the sink. The planner runs its emission in its own goroutine while other goroutines call
  \<^verbatim>\<open>Enqueue\<close>, \<^verbatim>\<open>Cancel\<close>, \<^verbatim>\<open>CancelMatching\<close> and \<^verbatim>\<open>Close\<close>. Each such call is one atomic step; the steps of other goroutines
  between two frames are functions of the state in the \<open>performance\<close>. \<^verbatim>\<open>select\<close> may pick the timer although the
  utterance was cancelled while waiting: whether it does is part of the performance too. The instants of
  pacing are not modelled: they decide when a frame is sent, not what.
  A cancellation cause is the text of the error.
\<close>

subsection \<open>Utterances, frames and effects\<close>

type_synonym pcm = string

record utterance =
  ut_id :: string
  ut_text :: string
  ut_phase :: phase
  ut_revision :: nat
  ut_itemIDs :: "string list"
  ut_continuer :: bool
  ut_spokeOver :: bool

record speech_frame =
  fr_pcm :: pcm
  fr_rate :: "32 word"
  fr_duration :: u64
  fr_final :: bool

record outcome =
  oc_completed :: bool
  oc_playedMS :: u64
  oc_reason :: string
  oc_mark :: mark

definition no_mark :: mark where
  "no_mark = \<lparr>mk_spoken = [], mk_cut = [], mk_pending = [], mk_measured = False, mk_playedMS = 0\<rparr>"

datatype speech_effect =
  SinkReserve utterance | SinkCancelReservation utterance
| SinkBegin utterance | SinkAudio utterance speech_frame | SinkEnd utterance outcome
| PlaybackHandedOff string u64 | PlaybackStopped u64
| TimingBegin string string | TimingAudio string pcm "32 word" | TimingPlayed string u64 | TimingSynthesised string
| TimingEnd string u64

datatype speech_error =
  SpeechProviderRequired | SpeechSinkRequired | SpeechLedgerRequired
| UtteranceIncomplete | ErrSilentProducer string | SpeechLedgerError ledger_error | SpeechClosed
| ReservationRefused string | ErrQueueFull

record speech =
  sp_ledger :: ledger
  sp_frameDuration :: u64
  sp_depth :: nat
  sp_reserving :: bool
  sp_reporting :: bool
  sp_queue :: "(utterance \<times> u64) list"
  sp_epoch :: u64
  sp_active :: "utterance option"
  sp_cause :: "string option"
  sp_closed :: bool
  sp_out :: "speech_effect list"

definition emit_effect :: "speech_effect \<Rightarrow> speech \<Rightarrow> speech" where
  "emit_effect x sp = sp\<lparr>sp_out := sp_out sp @ [x]\<rparr>"

record speech_config =
  sc_provider :: bool
  sc_sink :: bool
  sc_ledger :: "ledger option"
  sc_reserving :: bool
  sc_reporting :: bool
  sc_frameDuration :: u64
  sc_queueDepth :: int

definition NewSpeech :: "speech_config \<Rightarrow> speech_error + speech" where
  "NewSpeech cfg =
     (if \<not> sc_provider cfg then Inl SpeechProviderRequired
      else if \<not> sc_sink cfg then Inl SpeechSinkRequired
      else case sc_ledger cfg of
        None \<Rightarrow> Inl SpeechLedgerRequired
      | Some l \<Rightarrow> Inr \<lparr>sp_ledger = l, sp_frameDuration = default_duration 100000000 (sc_frameDuration cfg),
          sp_depth = nat (if sc_queueDepth cfg \<le> 0 then 16 else sc_queueDepth cfg),
          sp_reserving = sc_reserving cfg, sp_reporting = sc_reporting cfg,
          sp_queue = [], sp_epoch = 0, sp_active = None, sp_cause = None, sp_closed = False, sp_out = []\<rparr>)"

subsection \<open>Queueing\<close>

text \<open>\<^verbatim>\<open>_, _ = ledger.Cancel(...)\<close>: the result is ignored.\<close>

definition cancel_quietly :: "string \<Rightarrow> string \<Rightarrow> speech \<Rightarrow> speech" where
  "cancel_quietly i reason sp =
     (case Cancel (sp_ledger sp) i reason of Inl _ \<Rightarrow> sp | Inr (l, _) \<Rightarrow> sp\<lparr>sp_ledger := l\<rparr>)"

definition cancelReservation :: "utterance \<Rightarrow> speech \<Rightarrow> speech" where
  "cancelReservation u sp = (if sp_reserving sp then emit_effect (SinkCancelReservation u) sp else sp)"

definition speech_commitment :: "utterance \<Rightarrow> string \<Rightarrow> commitment" where
  "speech_commitment u authority =
     \<lparr>co_id = ut_id u, co_kind = KindSpeech, co_itemIDs = ut_itemIDs u, co_callID = [], co_revision = ut_revision u,
      co_phase = ut_phase u, co_authority = authority, co_confirm = [], co_state = StatePrepared,
      co_playedMS = 0, co_cancelReason = []\<rparr>"

text \<open>The argument \<^verbatim>\<open>refusal\<close> is the error of the sink's \<^verbatim>\<open>Reserve\<close>, if the sink reserves and refuses.\<close>

definition Enqueue :: "string option \<Rightarrow> utterance \<Rightarrow> string \<Rightarrow> speech \<Rightarrow> speech_error option \<times> speech" where
  "Enqueue refusal u0 authority sp =
     (let u = u0\<lparr>ut_text := TrimSpace (ut_text u0)\<rparr> in
      if ut_id u = [] \<or> ut_text u = [] then (Some UtteranceIncomplete, sp)
      else if authority = ''silent'' then (Some (ErrSilentProducer (ut_id u)), sp)
      else case Prepare (sp_ledger sp) (speech_commitment u authority) of
        Inl e \<Rightarrow> (Some (SpeechLedgerError e), sp)
      | Inr l1 \<Rightarrow>
          (let sp1 = sp\<lparr>sp_ledger := l1\<rparr> in
           case Queue l1 (ut_id u) of
             Inl e \<Rightarrow> (Some (SpeechLedgerError e), sp1)
           | Inr l2 \<Rightarrow>
               (let sp2 = sp1\<lparr>sp_ledger := l2\<rparr>;
                    sp3 = (if sp_reserving sp2 then emit_effect (SinkReserve u) sp2 else sp2) in
                if sp_closed sp2 then (Some SpeechClosed, cancel_quietly (ut_id u) ''speech planner closed'' sp2)
                else case (if sp_reserving sp2 then refusal else None) of
                  Some e \<Rightarrow> (Some (ReservationRefused e), cancel_quietly (ut_id u) ''speech sink refused queue reservation'' sp3)
                | None \<Rightarrow>
                    if length (sp_queue sp3) < sp_depth sp3
                    then (None, sp3\<lparr>sp_queue := sp_queue sp3 @ [(u, sp_epoch sp3)]\<rparr>)
                    else (Some ErrQueueFull, cancel_quietly (ut_id u) ''speech queue full'' (cancelReservation u sp3)))))"

subsection \<open>Cancelling\<close>

text \<open>\<^verbatim>\<open>stop\<close>: whether the content had crossed, and the commitment if this call is the one that cancelled it.\<close>

definition stop :: "string \<Rightarrow> string \<Rightarrow> speech \<Rightarrow> bool \<times> commitment option \<times> speech" where
  "stop i reason sp =
     (case Lookup (sp_ledger sp) i of
        None \<Rightarrow> (False, None, sp)
      | Some was \<Rightarrow>
          if Terminal (co_state was) then (StateCrossed (co_state was), None, sp)
          else case Cancel (sp_ledger sp) i reason of
            Inl e \<Rightarrow> (False, None, sp)
          | Inr (l, crossed) \<Rightarrow>
              if crossed then (True, None, sp\<lparr>sp_ledger := l\<rparr>)
              else (False, Lookup l i, sp\<lparr>sp_ledger := l\<rparr>))"

text \<open>\<^verbatim>\<open>cancel(fmt.Errorf(...))\<close> of the utterance in flight: the first cause stays.\<close>

definition cancel_emission :: "string \<Rightarrow> speech \<Rightarrow> speech" where
  "cancel_emission reason sp =
     (if sp_active sp \<noteq> None \<and> sp_cause sp = None then sp\<lparr>sp_cause := Some (''speech cancelled: '' @ reason)\<rparr> else sp)"

definition add_stopped :: "commitment option \<Rightarrow> commitment list \<Rightarrow> commitment list" where
  "add_stopped s cs = (case s of None \<Rightarrow> cs | Some c \<Rightarrow> cs @ [c])"

text \<open>The loop that empties the channel, stopping every utterance in it.\<close>

fun stop_queued :: "(utterance \<times> u64) list \<Rightarrow> string \<Rightarrow> commitment list \<Rightarrow> speech \<Rightarrow> commitment list \<times> speech" where
  "stop_queued [] reason cs sp = (cs, sp)"
| "stop_queued ((u, e) # q) reason cs sp =
     (let (crossed, stopped, sp') = stop (ut_id u) reason (cancelReservation u sp)
      in stop_queued q reason (add_stopped stopped cs) sp')"

definition CancelSpeech :: "string \<Rightarrow> speech \<Rightarrow> commitment list \<times> bool \<times> speech" where
  "CancelSpeech reason sp =
     (let sp1 = cancel_emission reason (sp\<lparr>sp_epoch := sp_epoch sp + 1\<rparr>);
          (heard, stopped, sp2) = (case sp_active sp1 of None \<Rightarrow> (False, None, sp1) | Some u \<Rightarrow> stop (ut_id u) reason sp1);
          (cancelled, sp3) = stop_queued (sp_queue sp2) reason (add_stopped stopped []) (sp2\<lparr>sp_queue := []\<rparr>)
      in (cancelled, heard, sp3))"

fun stop_matching ::
  "(utterance \<times> u64) list \<Rightarrow> (utterance \<Rightarrow> bool) \<Rightarrow> string \<Rightarrow> commitment list \<Rightarrow> (utterance \<times> u64) list \<Rightarrow> speech
     \<Rightarrow> commitment list \<times> (utterance \<times> u64) list \<times> speech" where
  "stop_matching [] match reason cs keep sp = (cs, keep, sp)"
| "stop_matching ((u, e) # q) match reason cs keep sp =
     (if \<not> match u then stop_matching q match reason cs (keep @ [(u, e)]) sp
      else let (crossed, stopped, sp') = stop (ut_id u) reason (cancelReservation u sp)
           in stop_matching q match reason (add_stopped stopped cs) keep sp')"

text \<open>The utterance in flight, if it matches: what was cancelled, what had been heard.\<close>

definition stop_active :: "string \<Rightarrow> (utterance \<Rightarrow> bool) \<Rightarrow> speech \<Rightarrow> commitment list \<times> commitment list \<times> speech" where
  "stop_active reason m sp =
     (case sp_active sp of
        None \<Rightarrow> ([], [], sp)
      | Some u \<Rightarrow>
          if m u then
            (let (crossed, stopped, sp') = stop (ut_id u) reason (cancel_emission reason sp) in
             case stopped of
               Some c \<Rightarrow> ([c], [], sp')
             | None \<Rightarrow> ([], if crossed then add_stopped (Lookup (sp_ledger sp') (ut_id u)) [] else [], sp'))
          else ([], [], sp))"

definition CancelMatching ::
  "string \<Rightarrow> (utterance \<Rightarrow> bool) option \<Rightarrow> speech \<Rightarrow> commitment list \<times> commitment list \<times> speech" where
  "CancelMatching reason match sp =
     (case match of
        None \<Rightarrow>
          (let (cancelled, crossed, sp') = CancelSpeech reason sp;
               heard = (if crossed then (case sp_active sp' of None \<Rightarrow> [] | Some u \<Rightarrow> add_stopped (Lookup (sp_ledger sp') (ut_id u)) []) else [])
           in (cancelled, heard, sp'))
      | Some m \<Rightarrow>
          (let (cancelled, heard, sp1) = stop_active reason m sp;
              (cancelled', keep, sp2) = stop_matching (sp_queue sp1) m reason cancelled [] (sp1\<lparr>sp_queue := []\<rparr>)
           in (cancelled', heard, sp2\<lparr>sp_queue := take (sp_depth sp2) keep\<rparr>)))"

definition ActiveSpokeOver :: "speech \<Rightarrow> bool" where
  "ActiveSpokeOver sp = (case sp_active sp of None \<Rightarrow> False | Some u \<Rightarrow> ut_spokeOver u)"

definition ActiveOrdinary :: "speech \<Rightarrow> bool" where
  "ActiveOrdinary sp = (case sp_active sp of None \<Rightarrow> False | Some u \<Rightarrow> \<not> ut_spokeOver u)"

definition CloseSpeech :: "string \<Rightarrow> speech \<Rightarrow> commitment list \<times> speech" where
  "CloseSpeech reason sp = (let (cancelled, _, sp') = CancelSpeech reason (sp\<lparr>sp_closed := True\<rparr>) in (cancelled, sp'))"

fun drain_queued :: "(utterance \<times> u64) list \<Rightarrow> string \<Rightarrow> speech \<Rightarrow> speech" where
  "drain_queued [] reason sp = sp"
| "drain_queued ((u, e) # q) reason sp = drain_queued q reason (cancel_quietly (ut_id u) reason (cancelReservation u sp))"

definition drain :: "string \<Rightarrow> speech \<Rightarrow> speech" where
  "drain reason sp = drain_queued (sp_queue sp) reason (sp\<lparr>sp_queue := []\<rparr>)"

subsection \<open>Streaming one utterance\<close>

text \<open>\<^verbatim>\<open>pcmDuration\<close>, in 64-bit arithmetic read as signed.\<close>

definition pcmDuration :: "nat \<Rightarrow> 32 word \<Rightarrow> u64" where
  "pcmDuration bytes rate =
     (if rate = 0 \<or> bytes = 0 then 0 else of_int (sint (of_nat (bytes div 2) * 1000000000 :: u64) sdiv uint rate))"

definition frame_bytes :: "32 word \<Rightarrow> u64 \<Rightarrow> int" where
  "frame_bytes rate frameDuration = sint (ucast rate * of_int (sint frameDuration sdiv 1000000) div 1000 * 2 :: u64)"

record chunk =
  ck_pcm :: pcm
  ck_rate :: "32 word"

text \<open>What happens around one frame: other goroutines before and during the wait, whether the wait notices a cancellation, the answers.\<close>

record frame_env =
  fe_before :: "speech \<Rightarrow> speech"
  fe_during :: "speech \<Rightarrow> speech"
  fe_notices :: bool
  fe_handedOff :: "string option"
  fe_audio :: "string option"

record performance =
  pf_begin :: "string option"
  pf_chunks :: "chunk list"
  pf_end :: "string option"
  pf_finished :: "speech \<Rightarrow> speech"
  pf_frame :: "nat \<Rightarrow> frame_env"
  pf_settling :: "speech \<Rightarrow> speech"
  pf_mark :: mark
  pf_stoppedNS :: u64

text \<open>The variables of \<^verbatim>\<open>stream\<close> the callbacks share, with the planner and the number of frames attempted.\<close>

record streaming =
  st_sp :: speech
  st_rate :: "32 word"
  st_frameBytes :: int
  st_buffer :: pcm
  st_playedMS :: u64
  st_attempts :: nat

text \<open>The text of the errors of \<^verbatim>\<open>ledger.Emit\<close>; it returns no others.\<close>

fun state_text :: "commitment_state \<Rightarrow> string" where
  "state_text StatePrepared = ''prepared''"
| "state_text StateQueued = ''queued''"
| "state_text StateEmitting = ''emitting''"
| "state_text StatePlayed = ''played''"
| "state_text StateCancelled = ''cancelled''"

fun emit_error_text :: "ledger_error \<Rightarrow> string" where
  "emit_error_text (ErrUnknownCommitment i) = ''unknown commitment: '' @ i"
| "emit_error_text (ErrAlreadyCrossed i st) = ''commitment has already crossed the boundary: '' @ i @ '' is '' @ state_text st"
| "emit_error_text (ErrInvalidTransition i st) = ''invalid commitment transition: '' @ state_text st @ '' -> emitting for '' @ i"
| "emit_error_text _ = []"

definition wait :: "frame_env \<Rightarrow> speech \<Rightarrow> string option \<times> speech" where
  "wait fe sp =
     (let sp1 = fe_before fe sp in
      case sp_cause sp1 of
        Some c \<Rightarrow> (Some c, sp1)
      | None \<Rightarrow> (let sp2 = fe_during fe sp1 in (if fe_notices fe then sp_cause sp2 else None, sp2)))"

definition emitFrame :: "performance \<Rightarrow> utterance \<Rightarrow> pcm \<Rightarrow> bool \<Rightarrow> streaming \<Rightarrow> string option \<times> streaming" where
  "emitFrame pf u payload final s =
     (if payload = [] then (None, s)
      else
        let fe = pf_frame pf (st_attempts s); d = pcmDuration (length payload) (st_rate s);
            (stopped, sp1) = wait fe (st_sp s);
            s1 = s\<lparr>st_sp := sp1, st_attempts := st_attempts s + 1\<rparr> in
        case stopped of
          Some c \<Rightarrow> (Some c, s1)
        | None \<Rightarrow>
            (case Emit (sp_ledger sp1) (ut_id u) of
               Inl e \<Rightarrow> (Some (emit_error_text e), s1)
             | Inr l \<Rightarrow>
                 (let sp2 = sp1\<lparr>sp_ledger := l\<rparr>;
                      sp3 = (if sp_reporting sp2 then emit_effect (PlaybackHandedOff (ut_id u) d) sp2 else sp2) in
                  case (if sp_reporting sp2 then fe_handedOff fe else None) of
                    Some e \<Rightarrow> (Some e, s1\<lparr>st_sp := sp3\<rparr>)
                  | None \<Rightarrow>
                      (let sp4 = emit_effect (SinkAudio u \<lparr>fr_pcm = payload, fr_rate = st_rate s, fr_duration = d, fr_final = final\<rparr>) sp3 in
                       case fe_audio fe of
                         Some e \<Rightarrow> (Some e, s1\<lparr>st_sp := sp4\<rparr>)
                       | None \<Rightarrow>
                           (let played = st_playedMS s + Milliseconds d
                            in (None, s1\<lparr>st_sp := emit_effect (TimingPlayed (ut_id u) played) sp4, st_playedMS := played\<rparr>))))))"

text \<open>The loop that cuts frames off the buffer. Each turn drops at least one byte.\<close>

function emit_frames :: "performance \<Rightarrow> utterance \<Rightarrow> streaming \<Rightarrow> string option \<times> streaming" where
  "emit_frames pf u s =
     (if st_frameBytes s \<le> 0 \<or> int (length (st_buffer s)) < st_frameBytes s then (None, s)
      else case emitFrame pf u (take (nat (st_frameBytes s)) (st_buffer s)) False s of
        (Some e, s1) \<Rightarrow> (Some e, s1)
      | (None, s1) \<Rightarrow> emit_frames pf u (s1\<lparr>st_buffer := drop (nat (st_frameBytes s)) (st_buffer s)\<rparr>))"
  by pat_completeness auto

termination
  by (relation "measure (\<lambda>(pf, u, s). length (st_buffer s))") auto

declare emit_frames.simps [simp del]

text \<open>The callback the synthesiser calls with each chunk.\<close>

definition accept_rate :: "chunk \<Rightarrow> streaming \<Rightarrow> string option \<times> streaming" where
  "accept_rate ck s =
     (if st_rate s = 0 then
        (if ck_rate ck = 0 then (Some ''speech provider reported no sample rate'', s)
         else let s1 = s\<lparr>st_rate := ck_rate ck, st_frameBytes := frame_bytes (ck_rate ck) (sp_frameDuration (st_sp s))\<rparr>
              in (if st_frameBytes s1 \<le> 0 then Some ''speech frame size is not positive'' else None, s1))
      else (None, s))"

definition on_chunk :: "performance \<Rightarrow> utterance \<Rightarrow> chunk \<Rightarrow> streaming \<Rightarrow> string option \<times> streaming" where
  "on_chunk pf u ck s =
     (case accept_rate ck s of
        (Some e, s1) \<Rightarrow> (Some e, s1)
      | (None, s1) \<Rightarrow>
          if ck_rate ck \<noteq> st_rate s1 then (Some ''speech provider changed sample rate within one utterance'', s1)
          else emit_frames pf u (s1\<lparr>st_sp := emit_effect (TimingAudio (ut_id u) (ck_pcm ck) (st_rate s1)) (st_sp s1),
                                    st_buffer := st_buffer s1 @ ck_pcm ck\<rparr>))"

text \<open>The synthesiser delivers its chunks in order and stops at the first error of the callback, which it returns.\<close>

fun run_chunks :: "performance \<Rightarrow> utterance \<Rightarrow> chunk list \<Rightarrow> streaming \<Rightarrow> string option \<times> streaming" where
  "run_chunks pf u [] s = (None, s)"
| "run_chunks pf u (ck # cks) s =
     (case on_chunk pf u ck s of
        (Some e, s1) \<Rightarrow> (Some e, s1)
      | (None, s1) \<Rightarrow> run_chunks pf u cks s1)"

definition or_else :: "'e option \<Rightarrow> 'e option \<Rightarrow> 'e option" where
  "or_else a b = (case a of None \<Rightarrow> b | Some e \<Rightarrow> Some e)"

definition stream :: "performance \<Rightarrow> utterance \<Rightarrow> speech \<Rightarrow> outcome \<times> speech" where
  "stream pf u sp =
     (let sp0 = emit_effect (SinkBegin u) sp in
      if pf_begin pf \<noteq> None then (\<lparr>oc_completed = False, oc_playedMS = 0, oc_reason = ''sink refused the utterance'', oc_mark = no_mark\<rparr>, sp0)
      else
        let (failed, s1) = run_chunks pf u (pf_chunks pf)
              \<lparr>st_sp = sp0, st_rate = 0, st_frameBytes = 0, st_buffer = [], st_playedMS = 0, st_attempts = 0\<rparr>;
            err1 = or_else failed (pf_end pf);
            s2 = (if err1 = None then s1\<lparr>st_sp := emit_effect (TimingSynthesised (ut_id u)) (st_sp s1)\<rparr> else s1);
            s3 = s2\<lparr>st_sp := pf_finished pf (st_sp s2)\<rparr>;
            err2 = or_else err1 (or_else (sp_cause (st_sp s3))
                     (if st_rate s3 = 0 then Some ''speech provider returned no audio'' else None));
            (err3, s4) = (if err2 = None \<and> st_buffer s3 \<noteq> [] then emitFrame pf u (st_buffer s3) True s3 else (err2, s3))
        in (case err3 of
              Some e \<Rightarrow> \<lparr>oc_completed = False, oc_playedMS = st_playedMS s4, oc_reason = e, oc_mark = no_mark\<rparr>
            | None \<Rightarrow> \<lparr>oc_completed = True, oc_playedMS = st_playedMS s4, oc_reason = [], oc_mark = no_mark\<rparr>, st_sp s4))"

text \<open>The end of \<^verbatim>\<open>emit\<close>: the ledger is settled, the sink and the reporter are told, the planner is free again.\<close>

definition complete_quietly :: "string \<Rightarrow> u64 \<Rightarrow> speech \<Rightarrow> speech" where
  "complete_quietly i played sp =
     (case Complete (sp_ledger sp) i (unat played) of Inl _ \<Rightarrow> sp | Inr l \<Rightarrow> sp\<lparr>sp_ledger := l\<rparr>)"

definition settle_utterance :: "u64 \<Rightarrow> mark \<Rightarrow> utterance \<Rightarrow> outcome \<Rightarrow> speech \<Rightarrow> speech" where
  "settle_utterance now mark u oc sp =
     (let sp1 = emit_effect (TimingEnd (ut_id u) (oc_playedMS oc)) sp;
          sp2 = (if oc_playedMS oc > 0 then complete_quietly (ut_id u) (oc_playedMS oc) sp1
                 else if \<not> oc_completed oc then cancel_quietly (ut_id u) (oc_reason oc) sp1
                 else complete_quietly (ut_id u) 0 sp1);
          sp3 = emit_effect (SinkEnd u (oc\<lparr>oc_mark := mark\<rparr>)) sp2;
          sp4 = (if \<not> oc_completed oc \<and> sp_reporting sp3 then emit_effect (PlaybackStopped now) sp3 else sp3)
      in sp4\<lparr>sp_active := None, sp_cause := None\<rparr>)"

definition emit_utterance :: "performance \<Rightarrow> utterance \<Rightarrow> speech \<Rightarrow> speech" where
  "emit_utterance pf u sp =
     (let sp1 = emit_effect (TimingBegin (ut_id u) (ut_text u)) (sp\<lparr>sp_active := Some u, sp_cause := None\<rparr>);
          (oc, sp2) = stream pf u sp1
      in settle_utterance (pf_stoppedNS pf) (pf_mark pf) u oc (pf_settling pf sp2))"

text \<open>One turn of \<^verbatim>\<open>Run\<close>, when the channel has something.\<close>

definition run_next :: "performance \<Rightarrow> speech \<Rightarrow> speech" where
  "run_next pf sp =
     (case sp_queue sp of
        [] \<Rightarrow> sp
      | (u, e) # q \<Rightarrow>
          (let sp1 = sp\<lparr>sp_queue := q\<rparr> in
           if e \<noteq> sp_epoch sp1
           then cancel_quietly (ut_id u) ''superseded before emission'' (cancelReservation u sp1)
           else emit_utterance pf u sp1))"

end
