(* ===== verification/Speech_Audio.thy ===== *)
theory Speech_Audio
  imports Speech
begin

section \<open>Speech and what is heard\<close>

text \<open>
  What the planner of \<^verbatim>\<open>Speech\<close> hands to the sink: the frames of a completed utterance are the synthesised audio, and
  the ledger knows of everything that was handed out. The second rests on the locale \<open>emission\<close>, the invariants that
  hold throughout the streaming of an utterance while other goroutines run.
\<close>

subsection \<open>What reaches the user\<close>

text \<open>The frames handed to the sink. Other goroutines hand out none: they are mute.\<close>

fun frame_of :: "speech_effect \<Rightarrow> speech_frame option" where
  "frame_of (SinkAudio u f) = Some f"
| "frame_of _ = None"

definition frames :: "speech \<Rightarrow> speech_frame list" where
  "frames sp = List.map_filter frame_of (sp_out sp)"

definition mute :: "(speech \<Rightarrow> speech) \<Rightarrow> bool" where
  "mute f \<longleftrightarrow> (\<forall>sp. frames (f sp) = frames sp)"

definition mute_performance :: "performance \<Rightarrow> bool" where
  "mute_performance pf \<longleftrightarrow> (\<forall>n. mute (fe_before (pf_frame pf n)) \<and> mute (fe_during (pf_frame pf n))) \<and> mute (pf_finished pf)"

lemma map_filter_snoc: "List.map_filter f (xs @ [x]) = List.map_filter f xs @ (case f x of None \<Rightarrow> [] | Some y \<Rightarrow> [y])"
  by (simp add: List.map_filter_def split: option.splits)

lemma frames_emit_effect [simp]:
  "frames (emit_effect x sp) = frames sp @ (case frame_of x of None \<Rightarrow> [] | Some f \<Rightarrow> [f])"
  by (simp add: frames_def emit_effect_def map_filter_snoc)

lemma frames_update [simp]:
  "frames (sp\<lparr>sp_ledger := l\<rparr>) = frames sp" "frames (sp\<lparr>sp_queue := q\<rparr>) = frames sp" "frames (sp\<lparr>sp_epoch := e\<rparr>) = frames sp"
  "frames (sp\<lparr>sp_active := a\<rparr>) = frames sp" "frames (sp\<lparr>sp_cause := c\<rparr>) = frames sp" "frames (sp\<lparr>sp_closed := b\<rparr>) = frames sp"
  by (simp_all add: frames_def)

lemma frames_cancel_quietly [simp]: "frames (cancel_quietly i r sp) = frames sp"
  by (simp add: cancel_quietly_def split: sum.split prod.split)

lemma frames_cancelReservation [simp]: "frames (cancelReservation u sp) = frames sp"
  by (simp add: cancelReservation_def)

lemma frames_stop [simp]: "frames (snd (snd (stop i r sp))) = frames sp"
  by (simp add: stop_def split: option.split sum.split prod.split)

lemma frames_cancel_emission [simp]: "frames (cancel_emission r sp) = frames sp"
  by (simp add: cancel_emission_def)

lemma stop_queued_Cons:
  "stop_queued (p # q) r cs sp =
     (let x = stop (ut_id (fst p)) r (cancelReservation (fst p) sp) in stop_queued q r (add_stopped (fst (snd x)) cs) (snd (snd x)))"
  by (cases p) (simp add: Let_def case_prod_beta)

lemma stop_matching_Cons:
  "stop_matching (p # q) m r cs keep sp =
     (if \<not> m (fst p) then stop_matching q m r cs (keep @ [p]) sp
      else let x = stop (ut_id (fst p)) r (cancelReservation (fst p) sp) in stop_matching q m r (add_stopped (fst (snd x)) cs) keep (snd (snd x)))"
  by (cases p) (simp add: Let_def case_prod_beta)

lemma frames_stop_queued [simp]: "frames (snd (stop_queued q r cs sp)) = frames sp"
  by (induction q arbitrary: cs sp) (simp_all add: Let_def stop_queued_Cons)

lemma frames_stop_matching [simp]: "frames (snd (snd (stop_matching q m r cs keep sp))) = frames sp"
  by (induction q arbitrary: cs keep sp) (simp_all add: Let_def stop_matching_Cons)

lemma mute_operations:
  "mute (\<lambda>sp. snd (Enqueue refusal u authority sp))" "mute (\<lambda>sp. snd (snd (CancelSpeech reason sp)))"
  "mute (\<lambda>sp. snd (snd (CancelMatching reason match sp)))" "mute (\<lambda>sp. snd (CloseSpeech reason sp))"
  by (auto simp: mute_def Enqueue_def CancelSpeech_def CancelMatching_def stop_active_def CloseSpeech_def Let_def case_prod_beta
      split: option.splits sum.splits if_splits)

lemma wait_mute:
  "mute (fe_before fe) \<Longrightarrow> mute (fe_during fe) \<Longrightarrow> frames (snd (wait fe sp)) = frames sp"
  by (simp add: wait_def mute_def Let_def split: option.split)

text \<open>One frame: on success exactly this payload was handed out.\<close>

lemma emitFrame_frames:
  assumes "mute_performance pf" and "emitFrame pf u payload final s = (None, s')"
  shows "frames (st_sp s') = frames (st_sp s) @ (if payload = [] then [] else
           [\<lparr>fr_pcm = payload, fr_rate = st_rate s, fr_duration = pcmDuration (length payload) (st_rate s), fr_final = final\<rparr>])"
    and "st_buffer s' = st_buffer s" "st_frameBytes s' = st_frameBytes s" "st_rate s' = st_rate s"
  using assms wait_mute [of "pf_frame pf (st_attempts s)" "st_sp s"]
  by (auto simp: emitFrame_def Let_def case_prod_beta mute_performance_def split: if_splits option.splits sum.splits)

text \<open>
  The stream's invariant: what was handed out since the start, followed by the buffer, is the audio
  received so far; every frame before the last has the full size and is not final.
\<close>

definition full_frame :: "int \<Rightarrow> speech_frame \<Rightarrow> bool" where
  "full_frame n f \<longleftrightarrow> int (length (fr_pcm f)) = n \<and> \<not> fr_final f"

definition streamed :: "speech_frame list \<Rightarrow> pcm \<Rightarrow> streaming \<Rightarrow> bool" where
  "streamed old received s \<longleftrightarrow>
     (\<exists>new. frames (st_sp s) = old @ new \<and> concat (map fr_pcm new) @ st_buffer s = received \<and>
        list_all (full_frame (st_frameBytes s)) new)"

lemma emit_frames_streamed:
  assumes "mute_performance pf" and "streamed old received s" and "emit_frames pf u s = (None, s')" and "0 < st_frameBytes s"
  shows "streamed old received s' \<and> st_rate s' = st_rate s \<and> st_frameBytes s' = st_frameBytes s \<and> int (length (st_buffer s')) < st_frameBytes s'"
  using assms
proof (induction pf u s rule: emit_frames.induct)
  case (1 pf u s)
  show ?case
  proof (cases "int (length (st_buffer s)) < st_frameBytes s")
    case True
    then show ?thesis using 1 by (subst (asm) (2) emit_frames.simps) simp
  next
    case False
    let ?n = "nat (st_frameBytes s)"
    from False 1(4,5) obtain s1 where s1: "emitFrame pf u (take ?n (st_buffer s)) False s = (None, s1)"
      and rest: "emit_frames pf u (s1\<lparr>st_buffer := drop ?n (st_buffer s)\<rparr>) = (None, s')"
      by (subst (asm) emit_frames.simps) (auto split: prod.splits option.splits)
    note f = emitFrame_frames [OF 1(2) s1]
    have ne: "take ?n (st_buffer s) \<noteq> []" "length (take ?n (st_buffer s)) = ?n" using False 1(5) by auto
    have "streamed old received (s1\<lparr>st_buffer := drop ?n (st_buffer s)\<rparr>)"
    proof -
      from 1(3) obtain new where new: "frames (st_sp s) = old @ new" "concat (map fr_pcm new) @ st_buffer s = received"
        "list_all (full_frame (st_frameBytes s)) new" by (auto simp: streamed_def)
      let ?f = "\<lparr>fr_pcm = take ?n (st_buffer s), fr_rate = st_rate s,
          fr_duration = pcmDuration (length (take ?n (st_buffer s))) (st_rate s), fr_final = False\<rparr>"
      have "concat (map fr_pcm (new @ [?f])) @ drop ?n (st_buffer s) = received" using new(2) by simp
      moreover have "full_frame (st_frameBytes s) ?f" using ne(2) 1(5) by (simp add: full_frame_def)
      ultimately show ?thesis using f new ne(1) unfolding streamed_def
        by (intro exI [of _ "new @ [?f]"]) simp
    qed
    with 1(1) [OF _ s1 [symmetric]] False rest 1(2,5) f show ?thesis by simp
  qed
qed

definition receiving :: "speech_frame list \<Rightarrow> pcm \<Rightarrow> streaming \<Rightarrow> bool" where
  "receiving old received s \<longleftrightarrow> streamed old received s \<and>
     (if st_rate s = 0 then received = [] \<and> frames (st_sp s) = old
      else 0 < st_frameBytes s \<and> int (length (st_buffer s)) < st_frameBytes s)"

lemma on_chunk_receiving:
  assumes mute: "mute_performance pf" and inv: "receiving old received s" and ok: "on_chunk pf u ck s = (None, s')"
  shows "receiving old (received @ ck_pcm ck) s'"
proof -
  from ok obtain s1 where s1: "accept_rate ck s = (None, s1)" "ck_rate ck = st_rate s1"
    and emit: "emit_frames pf u (s1\<lparr>st_sp := emit_effect (TimingAudio (ut_id u) (ck_pcm ck) (st_rate s1)) (st_sp s1),
       st_buffer := st_buffer s1 @ ck_pcm ck\<rparr>) = (None, s')" (is "emit_frames pf u ?s2 = _")
    by (auto simp: on_chunk_def split: prod.splits option.splits if_splits)
  have r: "st_rate s1 \<noteq> 0" "0 < st_frameBytes s1" "st_sp s1 = st_sp s" "st_buffer s1 = st_buffer s"
    "st_rate s \<noteq> 0 \<Longrightarrow> st_frameBytes s1 = st_frameBytes s"
    using s1(1) inv by (auto simp: accept_rate_def receiving_def Let_def split: if_splits)
  have "streamed old (received @ ck_pcm ck) ?s2"
  proof (cases "st_rate s = 0")
    case True
    then show ?thesis using inv r by (auto simp: receiving_def streamed_def)
  next
    case False
    then show ?thesis using inv r by (auto simp: receiving_def streamed_def)
  qed
  from emit_frames_streamed [OF mute this emit] r show ?thesis by (simp add: receiving_def)
qed

lemma run_chunks_receiving:
  assumes "mute_performance pf" and "receiving old received s" and "run_chunks pf u cks s = (None, s')"
  shows "receiving old (received @ concat (map ck_pcm cks)) s'"
  using assms(2,3)
proof (induction cks arbitrary: received s)
  case (Cons ck cks)
  then obtain s1 where "on_chunk pf u ck s = (None, s1)" "run_chunks pf u cks s1 = (None, s')"
    by (auto split: prod.splits option.splits)
  with Cons.IH [OF on_chunk_receiving [OF assms(1) Cons.prems(1)]] show ?case by simp
qed simp

lemma or_else_None [simp]: "or_else a b = None \<longleftrightarrow> a = None \<and> b = None"
  by (simp add: or_else_def split: option.split)

lemma stream_completes:
  assumes "stream pf u sp = (oc, sp')" and "oc_completed oc"
  obtains s1 s3 where "run_chunks pf u (pf_chunks pf)
      \<lparr>st_sp = emit_effect (SinkBegin u) sp, st_rate = 0, st_frameBytes = 0, st_buffer = [], st_playedMS = 0, st_attempts = 0\<rparr> = (None, s1)"
    "pf_end pf = None" "s3 = s1\<lparr>st_sp := pf_finished pf (emit_effect (TimingSynthesised (ut_id u)) (st_sp s1))\<rparr>"
    "sp_cause (st_sp s3) = None" "st_rate s1 \<noteq> 0"
    "if st_buffer s1 = [] then sp' = st_sp s3 else \<exists>s4. emitFrame pf u (st_buffer s1) True s3 = (None, s4) \<and> sp' = st_sp s4"
proof -
  obtain f s1 where run: "run_chunks pf u (pf_chunks pf)
      \<lparr>st_sp = emit_effect (SinkBegin u) sp, st_rate = 0, st_frameBytes = 0, st_buffer = [], st_playedMS = 0, st_attempts = 0\<rparr> = (f, s1)"
    by fastforce
  from assms show thesis
    unfolding stream_def Let_def run
    by (intro that) (auto simp: run or_else_def split: if_splits option.splits prod.splits)
qed

text \<open>
  C25. The user hears exactly what was synthesised: when an utterance completes, the frames handed to the sink are,
  joined together, the audio of the synthesiser's chunks, no byte lost, repeated or out of order, whatever other
  goroutines did meanwhile; all frames but the last have the same size, and none is empty.
\<close>

theorem speech_is_the_synthesised_audio:
  assumes "mute_performance pf" and "stream pf u sp = (oc, sp')" and "oc_completed oc"
  shows "\<exists>new n. frames sp' = frames sp @ new \<and> concat (map fr_pcm new) = concat (map ck_pcm (pf_chunks pf)) \<and>
     0 < n \<and> list_all (full_frame n) (butlast new) \<and> (\<forall>f \<in> set new. 0 < length (fr_pcm f) \<and> int (length (fr_pcm f)) \<le> n)"
proof -
  let ?s0 = "\<lparr>st_sp = emit_effect (SinkBegin u) sp, st_rate = 0, st_frameBytes = 0, st_buffer = [], st_playedMS = 0, st_attempts = 0\<rparr>"
  from stream_completes [OF assms(2,3)] obtain s1 s3
    where run: "run_chunks pf u (pf_chunks pf) ?s0 = (None, s1)"
      and s3: "s3 = s1\<lparr>st_sp := pf_finished pf (emit_effect (TimingSynthesised (ut_id u)) (st_sp s1))\<rparr>" and rate: "st_rate s1 \<noteq> 0"
      and last: "if st_buffer s1 = [] then sp' = st_sp s3 else \<exists>s4. emitFrame pf u (st_buffer s1) True s3 = (None, s4) \<and> sp' = st_sp s4"
    by metis
  have "receiving (frames sp) [] ?s0" by (simp add: receiving_def streamed_def)
  from run_chunks_receiving [OF assms(1) this run] rate
  obtain new where new: "frames (st_sp s1) = frames sp @ new" "concat (map fr_pcm new) @ st_buffer s1 = concat (map ck_pcm (pf_chunks pf))"
      "list_all (full_frame (st_frameBytes s1)) new"
    and n: "0 < st_frameBytes s1" "int (length (st_buffer s1)) < st_frameBytes s1"
    by (auto simp: receiving_def streamed_def)
  have f3: "frames (st_sp s3) = frames sp @ new" using s3 assms(1) new(1) by (simp add: mute_performance_def mute_def)
  have len: "\<forall>f \<in> set new. 0 < length (fr_pcm f) \<and> int (length (fr_pcm f)) \<le> st_frameBytes s1"
    using new(3) n(1) by (auto simp: list_all_iff full_frame_def)
  show ?thesis
  proof (cases "st_buffer s1 = []")
    case True
    then show ?thesis using last f3 new n(1) len
      by (intro exI [of _ new] exI [of _ "st_frameBytes s1"]) (auto simp: list_all_iff dest: in_set_butlastD)
  next
    case False
    then obtain s4 where s4: "emitFrame pf u (st_buffer s1) True s3 = (None, s4)" "sp' = st_sp s4" using last by auto
    define f where "f = \<lparr>fr_pcm = st_buffer s1, fr_rate = st_rate s3, fr_duration = pcmDuration (length (st_buffer s1)) (st_rate s3), fr_final = True\<rparr>"
    have "frames sp' = frames sp @ (new @ [f])" using emitFrame_frames(1) [OF assms(1) s4(1)] f3 False s4(2) by (simp add: f_def)
    then show ?thesis using new n len False
      by (intro exI [of _ "new @ [f]"] exI [of _ "st_frameBytes s1"]) (auto simp: f_def)
  qed
qed

subsection \<open>Speech and the ledger\<close>

text \<open>Every operation moves the ledger only by ledger steps.\<close>

definition relying :: "(speech \<Rightarrow> speech) \<Rightarrow> bool" where
  "relying f \<longleftrightarrow> (\<forall>sp. ledger_run (sp_ledger sp) (sp_ledger (f sp)))"

definition relying_performance :: "performance \<Rightarrow> bool" where
  "relying_performance pf \<longleftrightarrow>
     (\<forall>n. relying (fe_before (pf_frame pf n)) \<and> relying (fe_during (pf_frame pf n))) \<and> relying (pf_finished pf) \<and> relying (pf_settling pf)"

lemma ledger_emit_effect [simp]: "sp_ledger (emit_effect x sp) = sp_ledger sp"
  by (simp add: emit_effect_def)

lemma ledger_cancelReservation [simp]: "sp_ledger (cancelReservation u sp) = sp_ledger sp"
  by (simp add: cancelReservation_def)

lemma ledger_cancel_emission [simp]: "sp_ledger (cancel_emission r sp) = sp_ledger sp"
  by (simp add: cancel_emission_def)

lemma cancel_quietly_run: "ledger_run (sp_ledger sp) (sp_ledger (cancel_quietly i r sp))"
  by (auto simp: cancel_quietly_def split: sum.split intro: r_into_rtranclp ledger_step.cancel)

lemma complete_quietly_run: "ledger_run (sp_ledger sp) (sp_ledger (complete_quietly i ms sp))"
  by (auto simp: complete_quietly_def split: sum.split intro: r_into_rtranclp ledger_step.complete)

lemma stop_run: "ledger_run (sp_ledger sp) (sp_ledger (snd (snd (stop i r sp))))"
  by (auto simp: stop_def split: option.split sum.split intro: r_into_rtranclp ledger_step.cancel)

lemma stop_queued_run: "ledger_run (sp_ledger sp) (sp_ledger (snd (stop_queued q r cs sp)))"
proof (induction q arbitrary: cs sp)
  case (Cons p q)
  let ?x = "stop (ut_id (fst p)) r (cancelReservation (fst p) sp)"
  have "ledger_run (sp_ledger sp) (sp_ledger (snd (snd ?x)))" using stop_run [of "cancelReservation (fst p) sp"] by simp
  with Cons.IH [of "snd (snd ?x)"] show ?case by (auto simp: stop_queued_Cons Let_def intro: rtranclp_trans)
qed simp

lemma CancelSpeech_run: "ledger_run (sp_ledger sp) (sp_ledger (snd (snd (CancelSpeech r sp))))"
proof -
  define sp1 where "sp1 = cancel_emission r (sp\<lparr>sp_epoch := sp_epoch sp + 1\<rparr>)"
  define x where "x = (case sp_active sp1 of None \<Rightarrow> (False, None, sp1) | Some u \<Rightarrow> stop (ut_id u) r sp1)"
  have "ledger_run (sp_ledger sp) (sp_ledger (snd (snd x)))"
    using stop_run [of sp1] by (simp add: x_def sp1_def split: option.split)
  moreover have "ledger_run (sp_ledger (snd (snd x)))
      (sp_ledger (snd (stop_queued (sp_queue (snd (snd x))) r (add_stopped (fst (snd x)) []) ((snd (snd x))\<lparr>sp_queue := []\<rparr>))))"
    using stop_queued_run [of "(snd (snd x))\<lparr>sp_queue := []\<rparr>"] by simp
  ultimately show ?thesis
    by (auto simp: CancelSpeech_def Let_def case_prod_beta sp1_def [symmetric] x_def [symmetric] intro: rtranclp_trans)
qed

lemma relying_operations: "relying (\<lambda>sp. snd (snd (CancelSpeech reason sp)))" "relying (\<lambda>sp. snd (CloseSpeech reason sp))"
  using CancelSpeech_run [of "_\<lparr>sp_closed := True\<rparr>"]
  by (auto simp: relying_def CancelSpeech_run CloseSpeech_def Let_def case_prod_beta)

lemma Emit_emitting:
  assumes "Emit l i = Inr l'"
  shows "\<exists>c. Lookup l' i = Some c \<and> co_state c = StateEmitting"
  using assms by (auto simp: Emit_def transition_def Lookup_def set_commitment_def split: option.splits if_splits)

text \<open>
  An invariant of the planner that other goroutines keep, that effects other than audio keep, and that
  handing out audio of an utterance being emitted keeps, holds throughout the streaming of the utterance.
\<close>

locale emission =
  fixes P :: "speech \<Rightarrow> bool" and pf :: performance and u :: utterance
  assumes before: "P sp \<Longrightarrow> P (fe_before (pf_frame pf n) sp)"
    and during: "P sp \<Longrightarrow> P (fe_during (pf_frame pf n) sp)"
    and finished: "P sp \<Longrightarrow> P (pf_finished pf sp)"
    and silent_effect: "P sp \<Longrightarrow> frame_of x = None \<Longrightarrow> P (emit_effect x sp)"
    and emitting: "P sp \<Longrightarrow> Emit (sp_ledger sp) (ut_id u) = Inr l \<Longrightarrow> P (sp\<lparr>sp_ledger := l\<rparr>)"
    and audio: "P sp \<Longrightarrow> Lookup (sp_ledger sp) (ut_id u) = Some c \<Longrightarrow> co_state c = StateEmitting \<Longrightarrow> P (emit_effect (SinkAudio u f) sp)"
begin

lemma wait_keeps: "P sp \<Longrightarrow> P (snd (wait (pf_frame pf n) sp))"
  by (simp add: wait_def Let_def before during split: option.split)

lemma emitFrame_keeps:
  assumes "P (st_sp s)"
  shows "P (st_sp (snd (emitFrame pf u payload final s)))"
proof -
  obtain stopped sp1 where w: "wait (pf_frame pf (st_attempts s)) (st_sp s) = (stopped, sp1)" by fastforce
  have p1: "P sp1" using wait_keeps [OF assms, of "st_attempts s"] w by simp
  show ?thesis
  proof (cases "Emit (sp_ledger sp1) (ut_id u)")
    case (Inl e)
    then show ?thesis using assms p1 by (simp add: emitFrame_def Let_def w split: option.split)
  next
    case (Inr l)
    obtain c where c: "Lookup l (ut_id u) = Some c" "co_state c = StateEmitting" using Emit_emitting [OF Inr] by blast
    have p2: "P (sp1\<lparr>sp_ledger := l\<rparr>)" by (rule emitting [OF p1 Inr])
    then have p3: "P (emit_effect (PlaybackHandedOff i d) (sp1\<lparr>sp_ledger := l\<rparr>))" for i d by (simp add: silent_effect)
    have "P (emit_effect (SinkAudio u f) (sp1\<lparr>sp_ledger := l\<rparr>))"
      "P (emit_effect (SinkAudio u f) (emit_effect (PlaybackHandedOff i d) (sp1\<lparr>sp_ledger := l\<rparr>)))" for f i d
      by (rule audio [OF p2 _ c(2)], simp add: c(1)) (rule audio [OF p3 _ c(2)], simp add: c(1))
    then show ?thesis using assms p1 p2 p3 Inr
      by (simp add: emitFrame_def Let_def w silent_effect split: option.split)
  qed
qed

lemma emit_frames_keeps: "P (st_sp s) \<Longrightarrow> P (st_sp (snd (emit_frames pf u s)))"
proof (induction "length (st_buffer s)" arbitrary: s rule: less_induct)
  case less
  show ?case
  proof (cases "st_frameBytes s \<le> 0 \<or> int (length (st_buffer s)) < st_frameBytes s")
    case True
    then show ?thesis using less.prems by (subst emit_frames.simps) simp
  next
    case False
    obtain e s1 where f: "emitFrame pf u (take (nat (st_frameBytes s)) (st_buffer s)) False s = (e, s1)" by fastforce
    have p1: "P (st_sp s1)" using emitFrame_keeps [OF less.prems] f by (metis snd_conv)
    have "length (drop (nat (st_frameBytes s)) (st_buffer s)) < length (st_buffer s)" using False by auto
    from less.hyps [of "s1\<lparr>st_buffer := drop (nat (st_frameBytes s)) (st_buffer s)\<rparr>"] this p1 False f
    show ?thesis by (subst emit_frames.simps) (auto split: option.split)
  qed
qed

lemma on_chunk_keeps:
  assumes "P (st_sp s)"
  shows "P (st_sp (snd (on_chunk pf u ck s)))"
proof -
  have "st_sp (snd (accept_rate ck s)) = st_sp s" by (simp add: accept_rate_def Let_def)
  then show ?thesis using assms
    by (auto simp: on_chunk_def silent_effect intro!: emit_frames_keeps split: prod.split option.split)
qed

lemma run_chunks_keeps: "P (st_sp s) \<Longrightarrow> P (st_sp (snd (run_chunks pf u cks s)))"
proof (induction cks arbitrary: s)
  case (Cons ck cks)
  obtain e s1 where s1: "on_chunk pf u ck s = (e, s1)" by fastforce
  then have "P (st_sp s1)" using on_chunk_keeps [OF Cons.prems, of ck] by simp
  then show ?case using s1 Cons.IH by (auto split: option.split)
qed simp

lemma stream_keeps:
  assumes "P sp"
  shows "P (snd (stream pf u sp))"
proof -
  define s0 where "s0 = \<lparr>st_sp = emit_effect (SinkBegin u) sp, st_rate = 0, st_frameBytes = 0, st_buffer = [], st_playedMS = 0, st_attempts = 0\<rparr>"
  obtain e s1 where run: "run_chunks pf u (pf_chunks pf) s0 = (e, s1)" by fastforce
  have p0: "P (emit_effect (SinkBegin u) sp)" using assms by (simp add: silent_effect)
  have p1: "P (st_sp s1)" using run_chunks_keeps [of s0 "pf_chunks pf"] p0 run by (simp add: s0_def)
  show ?thesis
    unfolding stream_def Let_def s0_def [symmetric] run case_prod_beta
    using p0 p1 by (simp only: fst_conv snd_conv split: if_split) (auto simp: finished silent_effect intro!: emitFrame_keeps)
qed

end

text \<open>Two such invariants: whoever has been heard has crossed, and who has finished hands out nothing more.\<close>

definition heard_is_crossed :: "speech_frame list \<Rightarrow> string \<Rightarrow> speech \<Rightarrow> bool" where
  "heard_is_crossed old i sp \<longleftrightarrow> frames sp = old \<or> (\<exists>c. Lookup (sp_ledger sp) i = Some c \<and> StateCrossed (co_state c))"

definition finished_is_mute :: "speech_frame list \<Rightarrow> string \<Rightarrow> speech \<Rightarrow> bool" where
  "finished_is_mute old i sp \<longleftrightarrow> frames sp = old \<and> (\<exists>c. Lookup (sp_ledger sp) i = Some c \<and> Terminal (co_state c))"

abbreviation fair :: "performance \<Rightarrow> bool" where
  "fair pf \<equiv> mute_performance pf \<and> relying_performance pf"

lemma run_evolves: "ledger_run l l' \<Longrightarrow> Lookup l i = Some c \<Longrightarrow> \<exists>d. Lookup l' i = Some d \<and> evolves c d"
  by (rule committed.run_keeps) (auto simp: evolves_refl)

lemma run_keeps_crossed:
  assumes "ledger_run l l'" "\<exists>c. Lookup l i = Some c \<and> StateCrossed (co_state c)"
  shows "\<exists>c. Lookup l' i = Some c \<and> StateCrossed (co_state c)"
proof -
  from assms(2) obtain c where c: "Lookup l i = Some c" "StateCrossed (co_state c)" by blast
  from run_evolves [OF assms(1) c(1)] c(2) show ?thesis by (auto simp: evolves_def)
qed

lemma run_keeps_terminal:
  assumes "ledger_run l l'" "\<exists>c. Lookup l i = Some c \<and> Terminal (co_state c)"
  shows "\<exists>c. Lookup l' i = Some c \<and> Terminal (co_state c)"
proof -
  from assms(2) obtain c where c: "Lookup l i = Some c" "Terminal (co_state c)" by blast
  from run_evolves [OF assms(1) c(1)] c(2) show ?thesis by (auto simp: evolves_def)
qed

lemma heard_is_crossed_step:
  assumes "heard_is_crossed old i sp" "frames sp' = frames sp" "ledger_run (sp_ledger sp) (sp_ledger sp')"
  shows "heard_is_crossed old i sp'"
  using assms run_keeps_crossed [OF assms(3), of i] by (auto simp: heard_is_crossed_def)

lemma finished_is_mute_step:
  assumes "finished_is_mute old i sp" "frames sp' = frames sp" "ledger_run (sp_ledger sp) (sp_ledger sp')"
  shows "finished_is_mute old i sp'"
  using assms run_keeps_terminal [OF assms(3), of i] by (auto simp: finished_is_mute_def)

lemma Emit_run: "Emit l i = Inr l' \<Longrightarrow> ledger_run l l'"
  by (rule r_into_rtranclp) (rule ledger_step.emit)

lemma fair_steps:
  assumes "fair pf"
  shows "frames (fe_before (pf_frame pf n) sp) = frames sp" "ledger_run (sp_ledger sp) (sp_ledger (fe_before (pf_frame pf n) sp))"
    "frames (fe_during (pf_frame pf n) sp) = frames sp" "ledger_run (sp_ledger sp) (sp_ledger (fe_during (pf_frame pf n) sp))"
    "frames (pf_finished pf sp) = frames sp" "ledger_run (sp_ledger sp) (sp_ledger (pf_finished pf sp))"
  using assms by (auto simp: mute_performance_def relying_performance_def mute_def relying_def)

interpretation heard: emission "\<lambda>sp. fair pf \<longrightarrow> heard_is_crossed old (ut_id u) sp" pf u for pf u old
proof unfold_locales
  show "fair pf \<longrightarrow> heard_is_crossed old (ut_id u) (emit_effect (SinkAudio u f) sp)"
    if "Lookup (sp_ledger sp) (ut_id u) = Some c" "co_state c = StateEmitting" for sp c f
    using that by (auto simp: heard_is_crossed_def StateCrossed_def)
qed (auto intro: heard_is_crossed_step simp: fair_steps Emit_run)

interpretation finished: emission "\<lambda>sp. fair pf \<longrightarrow> finished_is_mute old (ut_id u) sp" pf u for pf u old
proof unfold_locales
  show "fair pf \<longrightarrow> finished_is_mute old (ut_id u) (emit_effect (SinkAudio u f) sp)"
    if "fair pf \<longrightarrow> finished_is_mute old (ut_id u) sp" "Lookup (sp_ledger sp) (ut_id u) = Some c" "co_state c = StateEmitting" for sp c f
    using that by (auto simp: finished_is_mute_def Terminal_def)
qed (auto intro: finished_is_mute_step simp: fair_steps Emit_run)

lemma settle_frames [simp]: "frames (settle_utterance now m u oc sp) = frames sp"
  by (simp add: settle_utterance_def complete_quietly_def Let_def split: sum.split)

lemma settle_utterance_run: "ledger_run (sp_ledger sp) (sp_ledger (settle_utterance now m u oc sp))"
  using cancel_quietly_run [of "emit_effect (TimingEnd (ut_id u) (oc_playedMS oc)) sp"]
    complete_quietly_run [of "emit_effect (TimingEnd (ut_id u) (oc_playedMS oc)) sp"]
  by (simp add: settle_utterance_def Let_def)

text \<open>
  C22. The ledger always knows what the user heard. If emitting an utterance hands any audio to the sink, its
  commitment is recorded as crossed in the end, however other goroutines interleave; and if the
  commitment had already finished, as after a cancellation, no audio is handed out at all.
\<close>

theorem no_audio_outside_the_ledger:
  assumes "mute_performance pf" and "relying_performance pf" and "mute (pf_settling pf)"
  shows "(frames (emit_utterance pf u sp) \<noteq> frames sp \<longrightarrow>
      (\<exists>c. Lookup (sp_ledger (emit_utterance pf u sp)) (ut_id u) = Some c \<and> StateCrossed (co_state c))) \<and>
    ((\<exists>c. Lookup (sp_ledger sp) (ut_id u) = Some c \<and> Terminal (co_state c)) \<longrightarrow> frames (emit_utterance pf u sp) = frames sp)"
proof (intro conjI)
  define sp1 where "sp1 = emit_effect (TimingBegin (ut_id u) (ut_text u)) (sp\<lparr>sp_active := Some u, sp_cause := None\<rparr>)"
  let ?sp2 = "snd (stream pf u sp1)" and ?sp3 = "pf_settling pf (snd (stream pf u sp1))"
  have e: "emit_utterance pf u sp = settle_utterance (pf_stoppedNS pf) (pf_mark pf) u (fst (stream pf u sp1)) ?sp3"
    by (simp add: emit_utterance_def sp1_def Let_def case_prod_beta)
  have f1: "frames sp1 = frames sp" "sp_ledger sp1 = sp_ledger sp" by (simp_all add: sp1_def emit_effect_def frames_def map_filter_snoc)
  have f: "frames (emit_utterance pf u sp) = frames ?sp2" using assms(3) by (simp add: e mute_def)
  have r: "ledger_run (sp_ledger ?sp2) (sp_ledger (emit_utterance pf u sp))"
    unfolding e using assms(2) settle_utterance_run [of ?sp3] by (auto simp: relying_performance_def relying_def intro: rtranclp_trans)
  have "heard_is_crossed (frames sp) (ut_id u) ?sp2"
    using heard.stream_keeps [of pf "frames sp" u sp1] assms f1 by (simp add: heard_is_crossed_def)
  with r f show "frames (emit_utterance pf u sp) \<noteq> frames sp \<longrightarrow>
      (\<exists>c. Lookup (sp_ledger (emit_utterance pf u sp)) (ut_id u) = Some c \<and> StateCrossed (co_state c))"
    using run_keeps_crossed [OF r, of "ut_id u"] by (auto simp: heard_is_crossed_def)
  show "(\<exists>c. Lookup (sp_ledger sp) (ut_id u) = Some c \<and> Terminal (co_state c)) \<longrightarrow> frames (emit_utterance pf u sp) = frames sp"
    using finished.stream_keeps [of pf "frames sp" u sp1] assms f1 f by (auto simp: finished_is_mute_def)
qed

end
