(* ===== verification/Speech_Properties.thy ===== *)
theory Speech_Properties
  imports Speech_Audio
begin

section \<open>Speech: cancelling, repair and voice\<close>

text \<open>
  Cancelling stops and reports exactly what can still be stopped; what an interruption does to the played time
  and so to repair; only content with a voice is ever queued or spoken. Examples of the planner at work end the theory.
\<close>

subsection \<open>Cancelling speech\<close>

text \<open>\<^verbatim>\<open>stop\<close> by cases of the commitment's state.\<close>

lemma Lookup_set [simp]: "Lookup (set_commitment l i d) j = (if j = i then Some d else Lookup l j)"
  by (simp add: Lookup_def set_commitment_def)

lemma stop_cases:
  obtains (unknown) "Lookup (sp_ledger sp) i = None" "stop i r sp = (False, None, sp)"
  | (finished) c where "Lookup (sp_ledger sp) i = Some c" "Terminal (co_state c)" "stop i r sp = (StateCrossed (co_state c), None, sp)"
  | (heard) c where "Lookup (sp_ledger sp) i = Some c" "co_state c = StateEmitting"
      "stop i r sp = (True, None, sp\<lparr>sp_ledger := set_commitment (sp_ledger sp) i (c\<lparr>co_cancelReason := r, co_state := StatePlayed\<rparr>)\<rparr>)"
  | (stopped) c where "Lookup (sp_ledger sp) i = Some c" "\<not> Terminal (co_state c)" "\<not> StateCrossed (co_state c)"
      "stop i r sp = (False, Some (c\<lparr>co_cancelReason := r, co_state := StateCancelled\<rparr>),
         sp\<lparr>sp_ledger := set_commitment (sp_ledger sp) i (c\<lparr>co_cancelReason := r, co_state := StateCancelled\<rparr>)\<rparr>)"
proof (cases "Lookup (sp_ledger sp) i")
  case None
  then show thesis by (intro unknown) (simp_all add: stop_def)
next
  case (Some c)
  then have m: "map_of (lg_commitments (sp_ledger sp)) i = Some c" by (simp add: Lookup_def)
  show thesis
    by (cases "co_state c") (use Some m in \<open>auto simp: stop_def Cancel_def Terminal_def StateCrossed_def
        intro: finished heard stopped\<close>)
qed

text \<open>
  The commitments among \<^verbatim>\<open>ids\<close> that a call moved to cancelled, from the ledgers before and after it; and what a
  call that stops all of \<^verbatim>\<open>ids\<close> does to the ledger.
\<close>

definition newly_cancelled :: "string set \<Rightarrow> ledger \<Rightarrow> ledger \<Rightarrow> commitment set" where
  "newly_cancelled ids l l' = {d. \<exists>i \<in> ids. \<exists>c. Lookup l i = Some c \<and> \<not> Terminal (co_state c) \<and> Lookup l' i = Some d \<and> co_state d = StateCancelled}"

definition stop_effect :: "bool \<Rightarrow> commitment option \<Rightarrow> commitment option \<Rightarrow> bool" where
  "stop_effect named x y \<longleftrightarrow>
     (case x of
        None \<Rightarrow> y = None
      | Some c \<Rightarrow> \<exists>d. y = Some d \<and> (if named \<and> \<not> Terminal (co_state c)
          then co_state d = (if StateCrossed (co_state c) then StatePlayed else StateCancelled) else d = c))"

definition all_stopped :: "string set \<Rightarrow> ledger \<Rightarrow> ledger \<Rightarrow> bool" where
  "all_stopped ids l l' \<longleftrightarrow> (\<forall>i. stop_effect (i \<in> ids) (Lookup l i) (Lookup l' i))"

lemma all_stopped_none [simp]: "all_stopped {} l l"
  by (simp add: all_stopped_def stop_effect_def split: option.split)

lemma stop_effect_trans: "stop_effect a x y \<Longrightarrow> stop_effect b y z \<Longrightarrow> stop_effect (a \<or> b) x z"
  by (auto simp: stop_effect_def Terminal_def StateCrossed_def split: option.splits if_splits)

lemma all_stopped_trans: "all_stopped A l l' \<Longrightarrow> all_stopped B l' l'' \<Longrightarrow> all_stopped (A \<union> B) l l''"
  unfolding all_stopped_def Un_iff by (blast intro: stop_effect_trans)

lemma stop_all_stopped: "all_stopped {i} (sp_ledger sp) (sp_ledger (snd (snd (stop i r sp))))"
proof (cases rule: stop_cases [of sp i r])
  case unknown
  then show ?thesis by (simp add: all_stopped_def stop_effect_def split: option.split)
next
  case (finished c)
  then show ?thesis by (auto simp: all_stopped_def stop_effect_def split: option.split)
next
  case (heard c)
  then show ?thesis by (simp add: all_stopped_def stop_effect_def Terminal_def StateCrossed_def split: option.split)
next
  case (stopped c)
  then show ?thesis by (simp add: all_stopped_def stop_effect_def split: option.split)
qed

lemma newly_cancelled_trans:
  assumes A: "all_stopped A l l'" and B: "all_stopped B l' l''"
  shows "newly_cancelled (A \<union> B) l l'' = newly_cancelled A l l' \<union> newly_cancelled B l' l''"
proof -
  have "(i \<in> A \<or> i \<in> B) \<and> (\<exists>c. Lookup l i = Some c \<and> \<not> Terminal (co_state c) \<and> Lookup l'' i = Some d \<and> co_state d = StateCancelled) \<longleftrightarrow>
      i \<in> A \<and> (\<exists>c. Lookup l i = Some c \<and> \<not> Terminal (co_state c) \<and> Lookup l' i = Some d \<and> co_state d = StateCancelled) \<or>
      i \<in> B \<and> (\<exists>c. Lookup l' i = Some c \<and> \<not> Terminal (co_state c) \<and> Lookup l'' i = Some d \<and> co_state d = StateCancelled)" for i d
    using A [unfolded all_stopped_def, rule_format, of i] B [unfolded all_stopped_def, rule_format, of i]
    by (auto simp: stop_effect_def Terminal_def StateCrossed_def split: option.splits if_splits)
  then show ?thesis unfolding newly_cancelled_def by blast
qed

lemma stop_reports: "newly_cancelled {i} (sp_ledger sp) (sp_ledger (snd (snd (stop i r sp)))) = set_option (fst (snd (stop i r sp)))"
proof (cases rule: stop_cases [of sp i r])
  case (stopped c)
  then show ?thesis by (auto simp: newly_cancelled_def)
qed (auto simp: newly_cancelled_def)

lemma set_add_stopped [simp]: "set (add_stopped s cs) = set cs \<union> set_option s"
  by (simp add: add_stopped_def split: option.split)

definition ids_of :: "(utterance \<times> u64) list \<Rightarrow> string set" where
  "ids_of q = (\<lambda>(u, e). ut_id u) ` set q"

lemma stop_queued_stops:
  "all_stopped (ids_of q) (sp_ledger sp) (sp_ledger (snd (stop_queued q r cs sp))) \<and>
   set (fst (stop_queued q r cs sp)) = set cs \<union> newly_cancelled (ids_of q) (sp_ledger sp) (sp_ledger (snd (stop_queued q r cs sp)))"
proof (induction q arbitrary: cs sp)
  case Nil
  then show ?case by (simp add: ids_of_def newly_cancelled_def)
next
  case (Cons p q)
  let ?x = "stop (ut_id (fst p)) r (cancelReservation (fst p) sp)" and ?i = "ut_id (fst p)"
  have ids: "ids_of (p # q) = {?i} \<union> ids_of q" by (simp add: ids_of_def case_prod_beta)
  have one: "all_stopped {?i} (sp_ledger sp) (sp_ledger (snd (snd ?x)))"
    using stop_all_stopped [of ?i "cancelReservation (fst p) sp"] by simp
  have rep: "newly_cancelled {?i} (sp_ledger sp) (sp_ledger (snd (snd ?x))) = set_option (fst (snd ?x))"
    using stop_reports [of ?i "cancelReservation (fst p) sp"] by simp
  note IH = Cons.IH [of "snd (snd ?x)" "add_stopped (fst (snd ?x)) cs"]
  have "all_stopped (ids_of (p # q)) (sp_ledger sp) (sp_ledger (snd (stop_queued (p # q) r cs sp)))"
    unfolding ids stop_queued_Cons Let_def by (rule all_stopped_trans [OF one]) (use IH in blast)
  moreover have "newly_cancelled (ids_of (p # q)) (sp_ledger sp) (sp_ledger (snd (stop_queued (p # q) r cs sp))) =
      set_option (fst (snd ?x)) \<union> newly_cancelled (ids_of q) (sp_ledger (snd (snd ?x))) (sp_ledger (snd (stop_queued (p # q) r cs sp)))"
    unfolding ids stop_queued_Cons Let_def rep [symmetric] by (rule newly_cancelled_trans [OF one]) (use IH in blast)
  ultimately show ?case using IH unfolding stop_queued_Cons Let_def by auto
qed

definition known_ids :: "speech \<Rightarrow> string set" where
  "known_ids sp = ut_id ` set_option (sp_active sp) \<union> ids_of (sp_queue sp)"

lemma stop_queue [simp]: "sp_queue (snd (snd (stop i r sp))) = sp_queue sp"
  by (simp add: stop_def split: option.split sum.split prod.split)

lemma queue_cancelReservation [simp]: "sp_queue (cancelReservation u sp) = sp_queue sp"
  by (simp add: cancelReservation_def emit_effect_def)

lemma stop_queued_queue [simp]: "sp_queue (snd (stop_queued q r cs sp)) = sp_queue sp"
  by (induction q arbitrary: cs sp) (simp_all add: stop_queued_Cons Let_def)

lemma cancel_emission_sel [simp]:
  "sp_active (cancel_emission r sp) = sp_active sp" "sp_queue (cancel_emission r sp) = sp_queue sp"
  by (simp_all add: cancel_emission_def)

lemma stop_crossed: "fst (stop i r sp) \<longleftrightarrow> (\<exists>c. Lookup (sp_ledger sp) i = Some c \<and> StateCrossed (co_state c))"
  by (cases rule: stop_cases [of sp i r]) (auto simp: StateCrossed_def)

text \<open>\<^verbatim>\<open>Cancel\<close> in its two parts: the utterance in flight, then the queue.\<close>

lemma CancelSpeech_parts:
  assumes "CancelSpeech reason sp = (cancelled, heard, sp')"
  obtains sp1 x where "sp_ledger sp1 = sp_ledger sp" "sp_active sp1 = sp_active sp" "sp_queue sp1 = sp_queue sp"
    "x = (case sp_active sp of None \<Rightarrow> (False, None, sp1) | Some u \<Rightarrow> stop (ut_id u) reason sp1)" "sp_queue (snd (snd x)) = sp_queue sp"
    "(cancelled, sp') = stop_queued (sp_queue sp) reason (add_stopped (fst (snd x)) []) ((snd (snd x))\<lparr>sp_queue := []\<rparr>)" "heard = fst x"
proof -
  define sp1 where "sp1 = cancel_emission reason (sp\<lparr>sp_epoch := sp_epoch sp + 1\<rparr>)"
  define x where "x = (case sp_active sp of None \<Rightarrow> (False, None, sp1) | Some u \<Rightarrow> stop (ut_id u) reason sp1)"
  have a: "sp_active sp1 = sp_active sp" "sp_queue sp1 = sp_queue sp" "sp_ledger sp1 = sp_ledger sp" by (simp_all add: sp1_def)
  have q: "sp_queue (snd (snd x)) = sp_queue sp" by (simp add: x_def a split: option.split)
  have "(cancelled, sp') = stop_queued (sp_queue sp) reason (add_stopped (fst (snd x)) []) ((snd (snd x))\<lparr>sp_queue := []\<rparr>)" "heard = fst x"
    using assms unfolding CancelSpeech_def Let_def case_prod_beta sp1_def [symmetric] a(1) x_def [symmetric] by (simp_all add: q prod_eq_iff)
  with a q x_def show thesis by (intro that) auto
qed

text \<open>
  C24. Cancelling stops everything that can still be stopped, and reports exactly that. After \<^verbatim>\<open>Cancel\<close> the queue is
  empty; of the utterance in flight and the queued ones, each commitment that had not finished has finished,
  as cancelled if none of it had been heard and as played otherwise; finished ones and all others are
  untouched; the returned commitments are exactly those this call cancelled; and \<^verbatim>\<open>heard\<close> says whether the
  utterance in flight had been heard.
\<close>

theorem cancel_stops_and_reports_exactly:
  assumes "CancelSpeech reason sp = (cancelled, heard, sp')"
  shows "sp_queue sp' = [] \<and> all_stopped (known_ids sp) (sp_ledger sp) (sp_ledger sp') \<and>
    set cancelled = newly_cancelled (known_ids sp) (sp_ledger sp) (sp_ledger sp') \<and>
    heard = (\<exists>u c. sp_active sp = Some u \<and> Lookup (sp_ledger sp) (ut_id u) = Some c \<and> StateCrossed (co_state c))"
proof -
  from assms obtain sp1 x where sp1: "sp_ledger sp1 = sp_ledger sp"
    and x_def: "x = (case sp_active sp of None \<Rightarrow> (False, None, sp1) | Some u \<Rightarrow> stop (ut_id u) reason sp1)"
    and c: "(cancelled, sp') = stop_queued (sp_queue sp) reason (add_stopped (fst (snd x)) []) ((snd (snd x))\<lparr>sp_queue := []\<rparr>)" "heard = fst x"
    by (rule CancelSpeech_parts)
  let ?sp2 = "snd (snd x)" and ?A = "ut_id ` set_option (sp_active sp)"
  have x: "all_stopped ?A (sp_ledger sp) (sp_ledger ?sp2)" "newly_cancelled ?A (sp_ledger sp) (sp_ledger ?sp2) = set_option (fst (snd x))"
    using stop_all_stopped [of _ sp1 reason] stop_reports [of _ sp1 reason]
    by (auto simp: x_def sp1 newly_cancelled_def split: option.split)
  have y: "all_stopped (ids_of (sp_queue sp)) (sp_ledger ?sp2) (sp_ledger sp')"
    "set cancelled = set_option (fst (snd x)) \<union> newly_cancelled (ids_of (sp_queue sp)) (sp_ledger ?sp2) (sp_ledger sp')"
    using stop_queued_stops [of "sp_queue sp" "?sp2\<lparr>sp_queue := []\<rparr>" reason "add_stopped (fst (snd x)) []"] by (simp_all flip: c(1))
  have "sp_queue sp' = []"
    using stop_queued_queue [of "sp_queue sp" reason "add_stopped (fst (snd x)) []" "?sp2\<lparr>sp_queue := []\<rparr>"] by (simp flip: c(1))
  moreover have "all_stopped (known_ids sp) (sp_ledger sp) (sp_ledger sp')"
    unfolding known_ids_def by (rule all_stopped_trans [OF x(1) y(1)])
  moreover have "set cancelled = newly_cancelled (known_ids sp) (sp_ledger sp) (sp_ledger sp')"
    unfolding known_ids_def newly_cancelled_trans [OF x(1) y(1)] by (simp add: x(2) y(2))
  moreover have "heard = (\<exists>u c. sp_active sp = Some u \<and> Lookup (sp_ledger sp) (ut_id u) = Some c \<and> StateCrossed (co_state c))"
    using stop_crossed [of _ reason sp1] by (simp add: c(2) x_def sp1 split: option.split)
  ultimately show ?thesis by blast
qed

subsection \<open>An interruption erases how much was heard\<close>

text \<open>
  \<^verbatim>\<open>Cancel\<close> moves a commitment being emitted to played; when the emission then ends, \<^verbatim>\<open>Complete\<close> refuses a finished
  commitment and its error is ignored, so the played time stays what it was, which is zero unless the client reported one.
\<close>

lemma Complete_finished: "Lookup l i = Some c \<Longrightarrow> Terminal (co_state c) \<Longrightarrow> \<exists>e. Complete l i ms = Inl e"
  by (simp add: Complete_def Lookup_def)

lemma settle_after_interruption:
  assumes "Lookup (sp_ledger sp) (ut_id u) = Some c" and "co_state c = StatePlayed"
  shows "Lookup (sp_ledger (settle_utterance now m u oc sp)) (ut_id u) = Some c"
proof -
  have "Terminal (co_state c)" using assms(2) by (simp add: Terminal_def)
  from Complete_finished [OF assms(1) this] assms show ?thesis
    by (auto simp: settle_utterance_def Let_def complete_quietly_def cancel_quietly_def Cancel_def Lookup_def Complete_def Terminal_def
        split: sum.splits option.splits)
qed

lemma interrupted_commitment:
  assumes "sp_active sp = Some u" and "Lookup (sp_ledger sp) (ut_id u) = Some c" and "co_state c = StateEmitting"
    and "CancelSpeech reason sp = (cancelled, heard, sp')"
  shows "\<exists>d. Lookup (sp_ledger sp') (ut_id u) = Some d \<and> co_state d = StatePlayed \<and> co_playedMS d = co_playedMS c"
proof -
  from assms(4) obtain sp1 x where sp1: "sp_ledger sp1 = sp_ledger sp"
    and x_def: "x = (case sp_active sp of None \<Rightarrow> (False, None, sp1) | Some u \<Rightarrow> stop (ut_id u) reason sp1)"
    and c: "(cancelled, sp') = stop_queued (sp_queue sp) reason (add_stopped (fst (snd x)) []) ((snd (snd x))\<lparr>sp_queue := []\<rparr>)"
    by (rule CancelSpeech_parts)
  have "\<exists>d. Lookup (sp_ledger (snd (snd x))) (ut_id u) = Some d \<and> co_state d = StatePlayed \<and> co_playedMS d = co_playedMS c"
    by (cases rule: stop_cases [of sp1 "ut_id u" reason]) (use assms sp1 in \<open>auto simp: x_def Terminal_def StateCrossed_def\<close>)
  then obtain d where d: "Lookup (sp_ledger (snd (snd x))) (ut_id u) = Some d" "co_state d = StatePlayed" "co_playedMS d = co_playedMS c" by blast
  have "all_stopped (ids_of (sp_queue sp)) (sp_ledger (snd (snd x))) (sp_ledger sp')"
    using stop_queued_stops [of "sp_queue sp" "(snd (snd x))\<lparr>sp_queue := []\<rparr>" reason "add_stopped (fst (snd x)) []"] by (simp flip: c)
  then have "stop_effect (ut_id u \<in> ids_of (sp_queue sp)) (Some d) (Lookup (sp_ledger sp') (ut_id u))"
    unfolding all_stopped_def by (metis d(1))
  then show ?thesis using d by (auto simp: stop_effect_def Terminal_def)
qed

text \<open>
  What the user heard of an interrupted utterance is not repaired. If speech that is being emitted is
  cancelled, then whatever the emission reports as played when it ends, the ledger's played time is
  still the one from before, so an utterance never completed counts as zero milliseconds heard; the
  obligation that later evidence raises carries zero, and the audible repair policy answers that
  nothing was heard.
\<close>

theorem interrupted_speech_is_not_repaired:
  assumes "sp_active sp = Some u" and "Lookup (sp_ledger sp) (ut_id u) = Some c" and "co_state c = StateEmitting"
    and "co_playedMS c = 0" and "CancelSpeech reason sp = (cancelled, heard, sp1)"
    and "Invalidate (sp_ledger (settle_utterance now m u oc sp1)) (ut_id u) v = Some (l, ob)"
  shows "heard \<and> ob_playedMS ob = 0 \<and>
    audibleRepair t \<lparr>ri_playedAudioMS = of_nat (ob_playedMS ob), ri_invalidatedByRevision = of_nat v\<rparr> = (RepairNone, ''nothing was heard'')"
proof -
  from interrupted_commitment [OF assms(1-3,5)] obtain d
    where d: "Lookup (sp_ledger sp1) (ut_id u) = Some d" "co_state d = StatePlayed" "co_playedMS d = co_playedMS c" by blast
  have "Lookup (sp_ledger (settle_utterance now m u oc sp1)) (ut_id u) = Some d" by (rule settle_after_interruption [OF d(1,2)])
  then have z: "ob_playedMS ob = 0"
    using assms(4,6) d(3) by (auto simp: Invalidate_def Lookup_def Let_def split: if_splits)
  from assms(5) obtain sp2 x where "sp_ledger sp2 = sp_ledger sp"
    "x = (case sp_active sp of None \<Rightarrow> (False, None, sp2) | Some u \<Rightarrow> stop (ut_id u) reason sp2)" "heard = fst x"
    by (rule CancelSpeech_parts)
  with assms(1-3) have "heard" by (simp add: stop_crossed StateCrossed_def)
  then show ?thesis using z by (simp add: audibleRepair_def)
qed

subsection \<open>Only voiced content is queued or spoken\<close>

definition voiced :: "ledger \<Rightarrow> string \<Rightarrow> bool" where
  "voiced l i \<longleftrightarrow> (\<exists>c. Lookup l i = Some c \<and> co_kind c = KindSpeech \<and> co_authority c \<noteq> ''silent'')"

definition audio_of :: "speech \<Rightarrow> string set" where
  "audio_of sp = {ut_id u | u f. SinkAudio u f \<in> set (sp_out sp)}"

definition voice_ok :: "speech \<Rightarrow> bool" where
  "voice_ok sp \<longleftrightarrow> length (sp_queue sp) \<le> sp_depth sp \<and> (\<forall>i \<in> ids_of (sp_queue sp) \<union> audio_of sp. voiced (sp_ledger sp) i)"

text \<open>A change that may end commitments and drop queued utterances, and speaks nothing.\<close>

definition calm :: "speech \<Rightarrow> speech \<Rightarrow> bool" where
  "calm sp sp' \<longleftrightarrow> ledger_run (sp_ledger sp) (sp_ledger sp') \<and> sp_depth sp' = sp_depth sp \<and> audio_of sp' = audio_of sp \<and>
     length (sp_queue sp') \<le> length (sp_queue sp) \<and> set (sp_queue sp') \<subseteq> set (sp_queue sp)"

lemma calm_refl [simp]: "calm sp sp"
  by (simp add: calm_def)

lemma calm_trans: "calm sp sp' \<Longrightarrow> calm sp' sp'' \<Longrightarrow> calm sp sp''"
  by (auto simp: calm_def intro: rtranclp_trans)

lemma voiced_run: "ledger_run l l' \<Longrightarrow> voiced l i \<Longrightarrow> voiced l' i"
  by (auto simp: voiced_def evolves_def dest!: run_evolves)

lemma voice_ok_calm:
  assumes "voice_ok sp" "calm sp sp'"
  shows "voice_ok sp'"
proof -
  have "ids_of (sp_queue sp') \<union> audio_of sp' \<subseteq> ids_of (sp_queue sp) \<union> audio_of sp"
    using assms(2) by (auto simp: calm_def ids_of_def)
  then show ?thesis using assms voiced_run [of "sp_ledger sp" "sp_ledger sp'"] by (auto simp: voice_ok_def calm_def)
qed

lemma audio_of_simps [simp]:
  "audio_of (sp\<lparr>sp_ledger := l\<rparr>) = audio_of sp" "audio_of (sp\<lparr>sp_queue := q\<rparr>) = audio_of sp" "audio_of (sp\<lparr>sp_epoch := e\<rparr>) = audio_of sp"
  "audio_of (sp\<lparr>sp_active := a\<rparr>) = audio_of sp" "audio_of (sp\<lparr>sp_cause := c\<rparr>) = audio_of sp" "audio_of (sp\<lparr>sp_closed := b\<rparr>) = audio_of sp"
  "frame_of x = None \<Longrightarrow> audio_of (emit_effect x sp) = audio_of sp"
  "audio_of (emit_effect (SinkAudio u f) sp) = insert (ut_id u) (audio_of sp)"
  by (auto simp: audio_of_def emit_effect_def)

lemma emit_effect_sel [simp]: "sp_queue (emit_effect x sp) = sp_queue sp" "sp_depth (emit_effect x sp) = sp_depth sp"
  by (simp_all add: emit_effect_def)

lemma calm_effect: "frame_of x = None \<Longrightarrow> calm sp (emit_effect x sp)"
  by (simp add: calm_def)

lemma calm_fields: "calm sp (sp\<lparr>sp_epoch := e\<rparr>)" "calm sp (sp\<lparr>sp_closed := b\<rparr>)" "calm sp (sp\<lparr>sp_active := a, sp_cause := c\<rparr>)"
  "calm sp (sp\<lparr>sp_queue := []\<rparr>)" "calm sp (cancel_emission r sp)" "calm sp (cancelReservation u sp)"
  by (simp_all add: calm_def cancel_emission_def cancelReservation_def)

lemma calm_ledger: "ledger_run (sp_ledger sp) l \<Longrightarrow> calm sp (sp\<lparr>sp_ledger := l\<rparr>)"
  by (simp add: calm_def)

lemma calm_quietly: "calm sp (cancel_quietly i r sp)" "calm sp (complete_quietly i ms sp)"
  using cancel_quietly_run [of sp i r] complete_quietly_run [of sp i ms]
  by (auto simp: cancel_quietly_def complete_quietly_def intro: calm_ledger split: sum.splits)

lemma calm_stop: "calm sp (snd (snd (stop i r sp)))"
  using stop_run [of sp i r] by (auto simp: stop_def intro: calm_ledger split: option.splits sum.splits if_splits)

lemma calm_stop_queued: "calm sp (snd (stop_queued q r cs sp))"
proof (induction q arbitrary: cs sp)
  case (Cons p q)
  show ?case unfolding stop_queued_Cons Let_def
    by (rule calm_trans [OF calm_trans [OF calm_fields(6) calm_stop] Cons.IH])
qed simp

lemma calm_CancelSpeech: "calm sp (snd (snd (CancelSpeech r sp)))"
proof -
  define sp1 where "sp1 = cancel_emission r (sp\<lparr>sp_epoch := sp_epoch sp + 1\<rparr>)"
  define x where "x = (case sp_active sp1 of None \<Rightarrow> (False, None, sp1) | Some u \<Rightarrow> stop (ut_id u) r sp1)"
  have "calm sp sp1" unfolding sp1_def by (rule calm_trans [OF calm_fields(1) calm_fields(5)])
  moreover have "calm sp1 (snd (snd x))" by (simp add: x_def calm_stop split: option.split)
  ultimately have "calm sp ((snd (snd x))\<lparr>sp_queue := []\<rparr>)" by (blast intro: calm_trans calm_fields(4))
  then show ?thesis
    unfolding CancelSpeech_def Let_def case_prod_beta sp1_def [symmetric] x_def [symmetric] snd_conv
    by (rule calm_trans [OF _ calm_stop_queued])
qed

text \<open>\<^verbatim>\<open>CancelMatching\<close> keeps the utterances that do not match, in their order.\<close>

lemma stop_matching_keeps:
  "calm sp (snd (snd (stop_matching q m r cs keep sp))) \<and>
   fst (snd (stop_matching q m r cs keep sp)) = keep @ filter (\<lambda>p. \<not> m (fst p)) q"
proof (induction q arbitrary: cs keep sp)
  case (Cons p q)
  show ?case
  proof (cases "m (fst p)")
    case True
    let ?x = "stop (ut_id (fst p)) r (cancelReservation (fst p) sp)"
    have "calm sp (snd (snd ?x))" by (rule calm_trans [OF calm_fields(6) calm_stop])
    with Cons.IH [of "snd (snd ?x)" "add_stopped (fst (snd ?x)) cs" keep] True show ?thesis
      by (auto simp: stop_matching_Cons Let_def intro: calm_trans)
  next
    case False
    then show ?thesis using Cons.IH by (simp add: stop_matching_Cons)
  qed
qed simp

lemma calm_CancelMatching: "calm sp (snd (snd (CancelMatching r match sp)))"
proof (cases match)
  case None
  then show ?thesis using calm_CancelSpeech [of sp r] by (simp add: CancelMatching_def Let_def case_prod_beta)
next
  case (Some m)
  obtain cs hs sp1 where first: "stop_active r m sp = (cs, hs, sp1)" by (rule prod_cases3)
  have "sp1 = sp \<or> (\<exists>u :: utterance. sp1 = snd (snd (stop (ut_id u) r (cancel_emission r sp))))"
  proof (cases "sp_active sp")
    case (Some u)
    obtain crossed stopped sp' where st: "stop (ut_id u) r (cancel_emission r sp) = (crossed, stopped, sp')" by (rule prod_cases3)
    with first Some have "sp1 = sp \<or> sp1 = sp'" by (cases stopped) (simp_all add: stop_active_def split: if_splits)
    moreover have "sp' = snd (snd (stop (ut_id u) r (cancel_emission r sp)))" using st by simp
    ultimately show ?thesis by blast
  qed (use first in \<open>simp add: stop_active_def\<close>)
  then have c1: "calm sp sp1" and q1: "sp_queue sp1 = sp_queue sp"
    using calm_trans [OF calm_fields(5) [of sp r] calm_stop] by auto
  let ?y = "stop_matching (sp_queue sp1) m r cs [] (sp1\<lparr>sp_queue := []\<rparr>)"
  have y: "calm (sp1\<lparr>sp_queue := []\<rparr>) (snd (snd ?y))" "fst (snd ?y) = filter (\<lambda>p. \<not> m (fst p)) (sp_queue sp)"
    using stop_matching_keeps [of "sp1\<lparr>sp_queue := []\<rparr>" "sp_queue sp1" m r cs "[]"] q1 by auto
  have "snd (snd (CancelMatching r match sp)) = (snd (snd ?y))\<lparr>sp_queue := take (sp_depth (snd (snd ?y))) (fst (snd ?y))\<rparr>"
    unfolding CancelMatching_def Some option.case first by (simp add: case_prod_beta Let_def)
  moreover have "calm sp ((snd (snd ?y))\<lparr>sp_queue := take n (filter (\<lambda>p. \<not> m (fst p)) (sp_queue sp))\<rparr>)" for n
  proof -
    have "length (take n (filter (\<lambda>p. \<not> m (fst p)) (sp_queue sp))) \<le> length (sp_queue sp)"
      unfolding length_take by (rule min.coboundedI1) (rule length_filter_le)
    moreover have "set (take n (filter (\<lambda>p. \<not> m (fst p)) (sp_queue sp))) \<subseteq> set (sp_queue sp)"
      using set_take_subset [of n "filter (\<lambda>p. \<not> m (fst p)) (sp_queue sp)"] by auto
    moreover have "ledger_run (sp_ledger sp) (sp_ledger (snd (snd ?y)))"
      using c1 y(1) rtranclp_trans [of ledger_step "sp_ledger sp" "sp_ledger sp1"] by (simp add: calm_def)
    ultimately show ?thesis using c1 y(1) by (simp add: calm_def)
  qed
  ultimately show ?thesis unfolding y(2) by simp
qed

lemma calm_drain: "calm sp (drain r sp)"
proof -
  have "calm sp (drain_queued q r sp)" for q sp
  proof (induction q arbitrary: sp)
    case (Cons p q)
    show ?case by (cases p) (simp, rule calm_trans [OF calm_trans [OF calm_fields(6) calm_quietly(1)] Cons.IH])
  qed simp
  then show ?thesis unfolding drain_def by (rule calm_trans [OF calm_fields(4)])
qed

lemma Prepare_voiced:
  assumes "Prepare l (speech_commitment u authority) = Inr l'" "authority \<noteq> ''silent''"
  shows "voiced l' (ut_id u)"
  using assms by (auto simp: Prepare_def speech_commitment_def voiced_def storeCommitment_def Lookup_def Let_def split: if_splits option.splits)

lemma Enqueue_voice_ok:
  assumes ok: "voice_ok sp"
  shows "voice_ok (snd (Enqueue refusal u0 authority sp))"
proof -
  define u where "u = u0\<lparr>ut_text := TrimSpace (ut_text u0)\<rparr>"
  show ?thesis
  proof (cases "ut_id u = [] \<or> ut_text u = [] \<or> authority = ''silent''")
    case True
    then show ?thesis using ok by (auto simp: Enqueue_def Let_def u_def)
  next
    case False
    show ?thesis
    proof (cases "Prepare (sp_ledger sp) (speech_commitment u authority)")
      case (Inl e)
      then show ?thesis using ok False by (simp add: Enqueue_def Let_def u_def)
    next
      case (Inr l1)
      have v1: "voiced l1 (ut_id u)" by (rule Prepare_voiced [OF Inr]) (use False in simp)
      have c1: "calm sp (sp\<lparr>sp_ledger := l1\<rparr>)" using Inr by (auto intro: calm_ledger ledger_step.prepare)
      show ?thesis
      proof (cases "Queue l1 (ut_id u)")
        case (Inl e)
        then show ?thesis using voice_ok_calm [OF ok c1] False Inr by (simp add: Enqueue_def Let_def u_def)
      next
        case q: (Inr l2)
        define sp2 where "sp2 = sp\<lparr>sp_ledger := l2\<rparr>"
        define sp3 where "sp3 = (if sp_reserving sp2 then emit_effect (SinkReserve u) sp2 else sp2)"
        have r: "ledger_run l1 l2" using q by (auto intro: ledger_step.queue)
        have "ledger_run (sp_ledger sp) l2" using c1 r by (auto simp: calm_def)
        then have c2: "calm sp sp2" unfolding sp2_def by (rule calm_ledger)
        have c3: "calm sp sp3" using calm_trans [OF c2 calm_effect] c2 by (simp add: sp3_def)
        have v3: "voiced (sp_ledger sp3) (ut_id u)" using voiced_run [OF r v1] by (simp add: sp3_def sp2_def)
        have ok3: "voice_ok sp3" by (rule voice_ok_calm [OF ok c3])
        have "snd (Enqueue refusal u0 authority sp) \<in>
            {cancel_quietly (ut_id u) ''speech planner closed'' sp2, cancel_quietly (ut_id u) ''speech sink refused queue reservation'' sp3,
             cancel_quietly (ut_id u) ''speech queue full'' (cancelReservation u sp3)} \<or>
          snd (Enqueue refusal u0 authority sp) = sp3\<lparr>sp_queue := sp_queue sp3 @ [(u, sp_epoch sp3)]\<rparr> \<and> length (sp_queue sp3) < sp_depth sp3"
          unfolding Enqueue_def Let_def u_def [symmetric] using False Inr q
          by (simp add: sp2_def sp3_def split: option.split)
        moreover have "calm sp (cancel_quietly (ut_id u) ''speech planner closed'' sp2)"
          "calm sp (cancel_quietly (ut_id u) ''speech sink refused queue reservation'' sp3)"
          "calm sp (cancel_quietly (ut_id u) ''speech queue full'' (cancelReservation u sp3))"
          by (rule calm_trans [OF c2 calm_quietly(1)], rule calm_trans [OF c3 calm_quietly(1)],
              rule calm_trans [OF calm_trans [OF c3 calm_fields(6)] calm_quietly(1)])
        moreover have "voice_ok (sp3\<lparr>sp_queue := sp_queue sp3 @ [(u, sp_epoch sp3)]\<rparr>)" if "length (sp_queue sp3) < sp_depth sp3"
          using ok3 v3 that by (auto simp: voice_ok_def ids_of_def)
        ultimately show ?thesis using voice_ok_calm [OF ok] by auto
      qed
    qed
  qed
qed

text \<open>Emission keeps it too, if the other goroutines do.\<close>

definition disciplined :: "(speech \<Rightarrow> speech) \<Rightarrow> bool" where
  "disciplined f \<longleftrightarrow> relying f \<and> (\<forall>sp. voice_ok sp \<longrightarrow> voice_ok (f sp))"

definition disciplined_performance :: "performance \<Rightarrow> bool" where
  "disciplined_performance pf \<longleftrightarrow>
     (\<forall>n. disciplined (fe_before (pf_frame pf n)) \<and> disciplined (fe_during (pf_frame pf n))) \<and> disciplined (pf_finished pf) \<and> disciplined (pf_settling pf)"

lemma disciplined_keeps:
  "disciplined f \<Longrightarrow> voice_ok sp \<Longrightarrow> voice_ok (f sp)"
  "disciplined f \<Longrightarrow> voiced (sp_ledger sp) i \<Longrightarrow> voiced (sp_ledger (f sp)) i"
  using voiced_run [of "sp_ledger sp" "sp_ledger (f sp)" i] by (auto simp: disciplined_def relying_def)

interpretation speaking: emission "\<lambda>sp. disciplined_performance pf \<longrightarrow> voice_ok sp \<and> voiced (sp_ledger sp) (ut_id u)" pf u for pf u
proof unfold_locales
  show "disciplined_performance pf \<longrightarrow> voice_ok (sp\<lparr>sp_ledger := l\<rparr>) \<and> voiced (sp_ledger (sp\<lparr>sp_ledger := l\<rparr>)) (ut_id u)"
    if "disciplined_performance pf \<longrightarrow> voice_ok sp \<and> voiced (sp_ledger sp) (ut_id u)" "Emit (sp_ledger sp) (ut_id u) = Inr l" for sp l
    using that voice_ok_calm [OF _ calm_ledger [OF Emit_run [OF that(2)]]] voiced_run [OF Emit_run [OF that(2)]] by auto
  show "disciplined_performance pf \<longrightarrow> voice_ok (emit_effect (SinkAudio u f) sp) \<and> voiced (sp_ledger (emit_effect (SinkAudio u f) sp)) (ut_id u)"
    if "disciplined_performance pf \<longrightarrow> voice_ok sp \<and> voiced (sp_ledger sp) (ut_id u)" for sp f
    using that by (auto simp: voice_ok_def)
qed (auto simp: disciplined_performance_def disciplined_keeps intro: voice_ok_calm calm_effect)

lemma settle_calm: "calm sp (settle_utterance now m u oc sp)"
proof -
  define sp1 where "sp1 = emit_effect (TimingEnd (ut_id u) (oc_playedMS oc)) sp"
  define sp2 where "sp2 = (if oc_playedMS oc > 0 then complete_quietly (ut_id u) (oc_playedMS oc) sp1
     else if \<not> oc_completed oc then cancel_quietly (ut_id u) (oc_reason oc) sp1 else complete_quietly (ut_id u) 0 sp1)"
  have "calm sp sp2" unfolding sp2_def sp1_def by (simp add: calm_trans [OF calm_effect calm_quietly(1)] calm_trans [OF calm_effect calm_quietly(2)])
  then have 3: "calm sp (emit_effect (SinkEnd u (oc\<lparr>oc_mark := m\<rparr>)) sp2)" by (rule calm_trans) (simp add: calm_effect)
  then have "calm sp (emit_effect (PlaybackStopped now) (emit_effect (SinkEnd u (oc\<lparr>oc_mark := m\<rparr>)) sp2))"
    by (rule calm_trans) (simp add: calm_effect)
  with 3 show ?thesis
    unfolding settle_utterance_def Let_def sp1_def [symmetric] sp2_def [symmetric] by (auto intro: calm_trans calm_fields(3))
qed

lemma run_next_voice_ok:
  assumes ok: "voice_ok sp" and pf: "disciplined_performance pf"
  shows "voice_ok (run_next pf sp)"
proof (cases "sp_queue sp")
  case Nil
  then show ?thesis using ok by (simp add: run_next_def)
next
  case (Cons p q)
  obtain u e where p: "p = (u, e)" by fastforce
  let ?sp1 = "sp\<lparr>sp_queue := q\<rparr>"
  have c1: "calm sp ?sp1" using Cons by (auto simp: calm_def)
  have v: "voiced (sp_ledger sp) (ut_id u)" using ok Cons p by (simp add: voice_ok_def ids_of_def)
  show ?thesis
  proof (cases "e = sp_epoch sp")
    case False
    have "calm sp (cancel_quietly (ut_id u) ''superseded before emission'' (cancelReservation u ?sp1))"
      by (rule calm_trans [OF calm_trans [OF c1 calm_fields(6)] calm_quietly(1)])
    then show ?thesis using voice_ok_calm [OF ok] False Cons p by (simp add: run_next_def)
  next
    case True
    define sp2 where "sp2 = emit_effect (TimingBegin (ut_id u) (ut_text u)) (?sp1\<lparr>sp_active := Some u, sp_cause := None\<rparr>)"
    have "calm sp sp2" unfolding sp2_def by (rule calm_trans [OF calm_trans [OF c1 calm_fields(3)] calm_effect]) simp
    then have "voice_ok sp2" by (rule voice_ok_calm [OF ok])
    moreover have "voiced (sp_ledger sp2) (ut_id u)" using v by (simp add: sp2_def)
    ultimately have "voice_ok (snd (stream pf u sp2))" using speaking.stream_keeps [where pf = pf and u = u and sp = sp2] pf by simp
    then have "voice_ok (pf_settling pf (snd (stream pf u sp2)))" using pf by (simp add: disciplined_performance_def disciplined_def)
    from voice_ok_calm [OF this settle_calm] show ?thesis
      using True Cons p by (simp add: run_next_def emit_utterance_def Let_def case_prod_beta sp2_def)
  qed
qed

inductive speech_step :: "speech \<Rightarrow> speech \<Rightarrow> bool" where
  enqueue: "speech_step sp (snd (Enqueue refusal u authority sp))"
| cancel: "speech_step sp (snd (snd (CancelSpeech reason sp)))"
| cancel_matching: "speech_step sp (snd (snd (CancelMatching reason match sp)))"
| close: "speech_step sp (snd (CloseSpeech reason sp))"
| drain: "speech_step sp (drain reason sp)"
| run: "disciplined_performance pf \<Longrightarrow> speech_step sp (run_next pf sp)"

interpretation voices: stable speech_step voice_ok
proof unfold_locales
  fix sp sp' assume "speech_step sp sp'" "voice_ok sp"
  then show "voice_ok sp'"
  proof cases
    case (close reason)
    have "calm sp sp'" using calm_trans [OF calm_fields(2) [of sp True] calm_CancelSpeech [of _ reason]]
      by (simp add: close CloseSpeech_def Let_def case_prod_beta)
    with \<open>voice_ok sp\<close> show ?thesis by (rule voice_ok_calm)
  qed (auto intro: Enqueue_voice_ok run_next_voice_ok voice_ok_calm calm_CancelSpeech calm_CancelMatching calm_drain)
qed

text \<open>
  C23. Only content with a voice is ever queued or spoken, and the queue stays bounded: in every state the planner can reach,
  whatever is enqueued, cancelled, closed and emitted and however other goroutines interleave with
  emission, every queued utterance and every utterance any of whose audio reached the sink is a speech commitment of the ledger
  whose producer is not silent, and no more utterances wait than the configured depth.
\<close>

theorem only_voiced_content_is_spoken:
  assumes "NewSpeech cfg = Inr sp0" and "speech_step\<^sup>*\<^sup>* sp0 sp"
  shows "length (sp_queue sp) \<le> sp_depth sp \<and> (\<forall>i \<in> ids_of (sp_queue sp) \<union> audio_of sp. voiced (sp_ledger sp) i)"
proof -
  have "voice_ok sp0" using assms(1) by (auto simp: NewSpeech_def voice_ok_def ids_of_def audio_of_def split: if_splits option.splits)
  from voices.run_keeps [OF assms(2) this] show ?thesis by (simp add: voice_ok_def)
qed

subsection \<open>Witnesses\<close>

definition speech_example_utterance :: "string \<Rightarrow> utterance" where
  "speech_example_utterance i = \<lparr>ut_id = i, ut_text = '' Hello '', ut_phase = PhaseFast, ut_revision = 1, ut_itemIDs = [''a1''],
     ut_continuer = False, ut_spokeOver = False\<rparr>"

definition speech_example_config :: speech_config where
  "speech_example_config = \<lparr>sc_provider = True, sc_sink = True, sc_ledger = Some NewLedger, sc_reserving = True, sc_reporting = True,
     sc_frameDuration = 0, sc_queueDepth = 0\<rparr>"

text \<open>Two utterances queued; the first one taken by the worker.\<close>

definition speech_example_queued :: speech where
  "speech_example_queued = snd (Enqueue None (speech_example_utterance ''u2'') ''voice''
     (snd (Enqueue None (speech_example_utterance ''u1'') ''voice'' (projr (NewSpeech speech_example_config)))))"

text \<open>At 20 samples a second a frame of 100 milliseconds has four bytes.\<close>

definition speech_example_performance :: "(speech \<Rightarrow> speech) \<Rightarrow> performance" where
  "speech_example_performance interruption = \<lparr>pf_begin = None, pf_chunks = [\<lparr>ck_pcm = ''abcdef'', ck_rate = 20\<rparr>, \<lparr>ck_pcm = ''ghi'', ck_rate = 20\<rparr>],
     pf_end = None, pf_finished = id,
     pf_frame = (\<lambda>n. \<lparr>fe_before = (if n = 1 then interruption else id), fe_during = id, fe_notices = True, fe_handedOff = None, fe_audio = None\<rparr>),
     pf_settling = id, pf_mark = no_mark, pf_stoppedNS = 7\<rparr>"

lemma speech_example_fair:
  assumes "mute f" "relying f"
  shows "mute_performance (speech_example_performance f)" "relying_performance (speech_example_performance f)"
    "mute (pf_settling (speech_example_performance f))"
  using assms by (simp_all add: mute_performance_def relying_performance_def speech_example_performance_def mute_def relying_def)

theorem speech_is_the_synthesised_audio_witness:
  "let r = stream (speech_example_performance id) (speech_example_utterance ''u1'') speech_example_queued in
     oc_completed (fst r) \<and> map fr_pcm (frames (snd r)) = [''abcd'', ''efgh'', ''i''] \<and>
     (\<exists>new n. frames (snd r) = frames speech_example_queued @ new \<and> concat (map fr_pcm new) = ''abcdefghi'' \<and> n > 0 \<and> list_all (full_frame n) (butlast new))"
proof -
  let ?r = "stream (speech_example_performance id) (speech_example_utterance ''u1'') speech_example_queued"
  have fin: "oc_completed (fst ?r)" "map fr_pcm (frames (snd ?r)) = [''abcd'', ''efgh'', ''i'']" by code_simp+
  have "mute_performance (speech_example_performance id)" by (rule speech_example_fair) (simp_all add: mute_def relying_def)
  from speech_is_the_synthesised_audio [OF this surjective_pairing fin(1)]
  obtain new n where "frames (snd ?r) = frames speech_example_queued @ new" "n > 0" "list_all (full_frame n) (butlast new)"
    "concat (map fr_pcm new) = concat (map ck_pcm (pf_chunks (speech_example_performance id)))" by blast
  moreover have "concat (map ck_pcm (pf_chunks (speech_example_performance id))) = ''abcdefghi''" by code_simp
  ultimately have "\<exists>new n. frames (snd ?r) = frames speech_example_queued @ new \<and> concat (map fr_pcm new) = ''abcdefghi'' \<and> n > 0 \<and>
      list_all (full_frame n) (butlast new)" by (metis (no_types))
  with fin show ?thesis by (simp only: Let_def)
qed

abbreviation speech_example_interruption :: "speech \<Rightarrow> speech" where
  "speech_example_interruption \<equiv> \<lambda>sp. snd (snd (CancelSpeech ''barge-in'' sp))"

theorem no_audio_outside_the_ledger_witness:
  "let sp' = emit_utterance (speech_example_performance speech_example_interruption) (speech_example_utterance ''u1'') speech_example_queued in
     map fr_pcm (frames sp') = [''abcd''] \<and> (\<exists>c. Lookup (sp_ledger sp') ''u1'' = Some c \<and> StateCrossed (co_state c))"
proof -
  let ?pf = "speech_example_performance speech_example_interruption"
  let ?sp' = "emit_utterance ?pf (speech_example_utterance ''u1'') speech_example_queued"
  have f: "map fr_pcm (frames ?sp') = [''abcd'']" "frames speech_example_queued = []" by code_simp+
  then have "frames ?sp' \<noteq> frames speech_example_queued" by auto
  moreover have "ut_id (speech_example_utterance ''u1'') = ''u1''" by (simp add: speech_example_utterance_def)
  ultimately have "\<exists>c. Lookup (sp_ledger ?sp') ''u1'' = Some c \<and> StateCrossed (co_state c)"
    using no_audio_outside_the_ledger [OF speech_example_fair [OF mute_operations(2) relying_operations(1)],
      of "''barge-in''" "speech_example_utterance ''u1''" speech_example_queued] by metis
  with f show ?thesis by (simp only: Let_def)
qed

text \<open>The first utterance in flight with one frame heard, the second still queued.\<close>

definition speech_example_speaking :: speech where
  "speech_example_speaking =
     (let sp = speech_example_queued in
      sp\<lparr>sp_ledger := projr (Emit (sp_ledger sp) ''u1''), sp_active := Some (speech_example_utterance ''u1''), sp_queue := tl (sp_queue sp)\<rparr>)"

theorem cancel_stops_and_reports_exactly_witness:
  "let (cancelled, heard, sp') = CancelSpeech ''barge-in'' speech_example_speaking in
     map co_id cancelled = [''u2''] \<and> heard \<and> sp_queue sp' = [] \<and>
     set cancelled = newly_cancelled (known_ids speech_example_speaking) (sp_ledger speech_example_speaking) (sp_ledger sp') \<and>
     all_stopped (known_ids speech_example_speaking) (sp_ledger speech_example_speaking) (sp_ledger sp')"
proof -
  obtain cs h sp' where c: "CancelSpeech ''barge-in'' speech_example_speaking = (cs, h, sp')" by (metis prod.exhaust)
  have "map co_id (fst (CancelSpeech ''barge-in'' speech_example_speaking)) = [''u2''] \<and> fst (snd (CancelSpeech ''barge-in'' speech_example_speaking))"
    by code_simp
  with c cancel_stops_and_reports_exactly [OF c] show ?thesis by simp
qed

theorem interrupted_speech_is_not_repaired_witness:
  "\<exists>cs heard sp1 l ob. CancelSpeech ''barge-in'' speech_example_speaking = (cs, heard, sp1) \<and>
     Invalidate (sp_ledger (settle_utterance 9 no_mark (speech_example_utterance ''u1'')
        \<lparr>oc_completed = False, oc_playedMS = 100, oc_reason = ''barge-in'', oc_mark = no_mark\<rparr> sp1)) ''u1'' 5 = Some (l, ob) \<and>
     heard \<and> ob_playedMS ob = 0 \<and>
     audibleRepair 0 \<lparr>ri_playedAudioMS = of_nat (ob_playedMS ob), ri_invalidatedByRevision = 5\<rparr> = (RepairNone, ''nothing was heard'')"
proof -
  let ?u = "speech_example_utterance ''u1''" and ?oc = "\<lparr>oc_completed = False, oc_playedMS = 100, oc_reason = ''barge-in'', oc_mark = no_mark\<rparr>"
  have a: "sp_active speech_example_speaking = Some ?u" "ut_id ?u = ''u1''" by code_simp+
  have "map_option (\<lambda>c. (co_state c, co_playedMS c)) (Lookup (sp_ledger speech_example_speaking) ''u1'') = Some (StateEmitting, 0)" by code_simp
  then obtain c where c: "Lookup (sp_ledger speech_example_speaking) (ut_id ?u) = Some c" "co_state c = StateEmitting" "co_playedMS c = 0"
    unfolding a(2) by auto
  obtain cs h sp1 where x: "CancelSpeech ''barge-in'' speech_example_speaking = (cs, h, sp1)" by (metis prod.exhaust)
  have "Invalidate (sp_ledger (settle_utterance 9 no_mark ?u ?oc (snd (snd (CancelSpeech ''barge-in'' speech_example_speaking))))) ''u1'' 5 \<noteq> None" by code_simp
  then obtain l ob where iv: "Invalidate (sp_ledger (settle_utterance 9 no_mark ?u ?oc sp1)) ''u1'' 5 = Some (l, ob)" using x by auto
  from interrupted_speech_is_not_repaired [OF a(1) c x, of 9 no_mark ?oc 5 l ob 0] iv x a(2) show ?thesis by auto
qed

theorem only_voiced_content_is_spoken_witness:
  "let sp = run_next (speech_example_performance id) speech_example_queued in
     map (ut_id \<circ> fst) (sp_queue sp) = [''u2''] \<and> length (sp_queue sp) \<le> sp_depth sp \<and> voiced (sp_ledger sp) ''u1'' \<and> voiced (sp_ledger sp) ''u2''"
proof -
  let ?sp = "run_next (speech_example_performance id) speech_example_queued"
  let ?new = "projr (NewSpeech speech_example_config)"
  have new: "NewSpeech speech_example_config = Inr ?new" by (simp add: NewSpeech_def speech_example_config_def)
  have "disciplined_performance (speech_example_performance id)"
    by (simp add: disciplined_performance_def disciplined_def relying_def speech_example_performance_def)
  then have "speech_step speech_example_queued ?sp" by (rule speech_step.run)
  moreover have "speech_step\<^sup>*\<^sup>* ?new speech_example_queued" unfolding speech_example_queued_def
    by (rule rtranclp_trans [OF r_into_rtranclp r_into_rtranclp]) (rule speech_step.enqueue)+
  ultimately have run: "speech_step\<^sup>*\<^sup>* ?new ?sp" by (rule rtranclp.rtrancl_into_rtrancl [rotated])
  have "list_ex (\<lambda>x. case x of SinkAudio u f \<Rightarrow> ut_id u = ''u1'' | _ \<Rightarrow> False) (sp_out ?sp)" by code_simp
  then obtain x where x: "x \<in> set (sp_out ?sp)" "case x of SinkAudio u f \<Rightarrow> ut_id u = ''u1'' | _ \<Rightarrow> False" unfolding list_ex_iff by blast
  from x(2) obtain u f where "x = SinkAudio u f" "ut_id u = ''u1''" by (auto split: speech_effect.split_asm)
  with x(1) have a: "''u1'' \<in> audio_of ?sp" unfolding audio_of_def by force
  have q: "map (ut_id \<circ> fst) (sp_queue ?sp) = [''u2'']" by code_simp
  then have "''u2'' \<in> ids_of (sp_queue ?sp)" by (auto simp: ids_of_def)
  with only_voiced_content_is_spoken [OF new run] a q show ?thesis by (simp only: Let_def) blast
qed

end
