(* ===== verification/Events.thy ===== *)
theory Events
  imports Trajectory_Projections
begin

section \<open>External events and their compilation into trajectory items\<close>

text \<open>
  \<^verbatim>\<open>eventloop/event.go\<close> and \<^verbatim>\<open>eventloop/batch.go\<close>: the event record, its validation, batches and how
  they merge, and the compilation of validated events into trajectory items. The clock and the
  identifier generator of the configuration are functions of the number of calls made so far, so a
  run is determined by them. \<^verbatim>\<open>cloneEvent\<close> copies a value and is the identity here.
\<close>

subsection \<open>Events\<close>

datatype priority = PriorityRoutine | PriorityInterrupt | PriorityParallel | PriorityOther string

datatype triage = TriageNone | TriageQueue | TriageCancel | TriageParallel

definition TriageOf :: "priority \<Rightarrow> triage" where
  "TriageOf p = (case p of
      PriorityInterrupt \<Rightarrow> TriageCancel | PriorityParallel \<Rightarrow> TriageParallel | _ \<Rightarrow> TriageQueue)"

text \<open>The empty kind.\<close>

definition KindSignal :: kind where
  "KindSignal = KindOther []"

record event =
  en_eventID :: string
  en_type :: string
  en_source :: string
  en_channel :: string
  en_correlationID :: string
  en_priority :: priority
  en_kind :: kind
  en_occurredNS :: nat
  en_revision :: nat
  en_supersedes :: nat
  en_invocation :: string
  en_producer :: producer
  en_content :: string
  en_observation :: "observation_meta option"
  en_toolResults :: "tool_result list"
  en_placeholder :: "tool_placeholder option"
  en_assistantState :: "assistant_state option"
  en_repair :: "repair_state option"

datatype event_fault =
    TypeSourceChannelRequired | UnsupportedPriority priority | CannotSupersede kind | SignalCarriesPayload
  | ObservationShape | SupersessionNotOlder | ToolResultShape | ResultCallRequired nat
  | ResultOutcomeRequired nat | PlaceholderShape | AssistantStateShape | RepairShape | KindNotExternal kind

fun results_fault :: "nat \<Rightarrow> tool_result list \<Rightarrow> event_fault option" where
  "results_fault i [] = None"
| "results_fault i (r # rs) =
     (if blank (tr_callID r) \<or> blank (tr_name r) then Some (ResultCallRequired i)
      else
        (let hasOutput = (tr_output r \<noteq> []); hasError = (\<not> blank (tr_error r)) in
         if hasOutput = hasError \<or> hasOutput \<and> \<not> json_valid (tr_output r)
         then Some (ResultOutcomeRequired i)
         else results_fault (i + 1) rs))"

definition validateEvent :: "event \<Rightarrow> event_fault option" where
  "validateEvent e =
     (if blank (en_type e) \<or> blank (en_source e) \<or> blank (en_channel e) then Some TypeSourceChannelRequired
      else if en_priority e \<notin> {PriorityRoutine, PriorityInterrupt, PriorityParallel}
      then Some (UnsupportedPriority (en_priority e))
      else if en_supersedes e \<noteq> 0 \<and> en_kind e \<noteq> KindObservation then Some (CannotSupersede (en_kind e))
      else if en_kind e = KindSignal then
        (if en_content e \<noteq> [] \<or> en_toolResults e \<noteq> [] \<or> en_assistantState e \<noteq> None
            \<or> en_repair e \<noteq> None \<or> en_placeholder e \<noteq> None \<or> en_observation e \<noteq> None
         then Some SignalCarriesPayload else None)
      else case en_kind e of
        KindObservation \<Rightarrow>
          if blank (en_content e) \<or> pr_phase (en_producer e) = PhaseNone \<or> en_toolResults e \<noteq> []
             \<or> en_assistantState e \<noteq> None \<or> en_repair e \<noteq> None \<or> en_placeholder e \<noteq> None
          then Some ObservationShape
          else if en_supersedes e \<ge> en_revision e \<and> en_supersedes e \<noteq> 0 then Some SupersessionNotOlder
          else None
      | KindToolResult \<Rightarrow>
          if en_invocation e = [] \<or> en_toolResults e = [] \<or> en_content e \<noteq> []
             \<or> en_assistantState e \<noteq> None \<or> en_repair e \<noteq> None \<or> en_placeholder e \<noteq> None
          then Some ToolResultShape else results_fault 0 (en_toolResults e)
      | KindToolPlaceholder \<Rightarrow>
          if en_placeholder e = None \<or> en_content e \<noteq> [] \<or> en_toolResults e \<noteq> []
             \<or> en_assistantState e \<noteq> None \<or> en_repair e \<noteq> None
          then Some PlaceholderShape else None
      | KindAssistantState \<Rightarrow>
          if en_assistantState e = None \<or> en_content e \<noteq> [] \<or> en_toolResults e \<noteq> []
             \<or> en_repair e \<noteq> None \<or> en_placeholder e \<noteq> None
          then Some AssistantStateShape else None
      | KindRepair \<Rightarrow>
          if en_repair e = None \<or> en_content e \<noteq> [] \<or> en_toolResults e \<noteq> []
             \<or> en_assistantState e \<noteq> None \<or> en_placeholder e \<noteq> None
          then Some RepairShape else None
      | k \<Rightarrow> Some (KindNotExternal k))"

subsection \<open>Batches\<close>

record batch =
  ba_events :: "event list"
  ba_items :: "item list"
  ba_start :: nat
  ba_end :: nat
  ba_triage :: triage
  ba_deferred :: bool

definition zero_batch :: batch where
  "zero_batch =
     \<lparr>ba_events = [], ba_items = [], ba_start = 0, ba_end = 0, ba_triage = TriageNone, ba_deferred = False\<rparr>"

definition batch_empty :: "batch \<Rightarrow> bool" where
  "batch_empty b = (ba_items b = [] \<and> ba_events b = [])"

definition SourceRevision :: "batch \<Rightarrow> nat" where
  "SourceRevision b = fold (\<lambda>it newest. max newest (item_revision it)) (ba_items b) 0"

definition Contains :: "batch \<Rightarrow> kind \<Rightarrow> bool" where
  "Contains b k = list_ex (\<lambda>it. item_kind it = k) (ba_items b)"

definition Signalled :: "batch \<Rightarrow> string \<Rightarrow> bool" where
  "Signalled b eventType = list_ex (\<lambda>e. en_kind e = KindSignal \<and> en_type e = eventType) (ba_events b)"

text \<open>One iteration of the loop of \<^verbatim>\<open>merge\<close>: the batch, whether it is the last, the batch so far and \<^verbatim>\<open>parallel\<close>.\<close>

definition merge_step :: "batch \<Rightarrow> bool \<Rightarrow> batch \<times> bool \<Rightarrow> batch \<times> bool" where
  "merge_step b last_one acc =
     (case acc of (m, par) \<Rightarrow>
       (m\<lparr>ba_events := ba_events m @ ba_events b, ba_items := ba_items m @ ba_items b,
          ba_deferred := ba_deferred m \<or> ba_deferred b \<or> \<not> last_one,
          ba_triage := if ba_triage b = TriageCancel then TriageCancel else ba_triage m\<rparr>,
        par \<and> ba_triage b = TriageParallel))"

fun merge_loop :: "batch list \<Rightarrow> batch \<times> bool \<Rightarrow> batch \<times> bool" where
  "merge_loop [] acc = acc"
| "merge_loop (b # bs) acc = merge_loop bs (merge_step b (bs = []) acc)"

definition merge :: "batch list \<Rightarrow> batch" where
  "merge bs =
     (if bs = [] then zero_batch
      else case merge_loop bs
             (zero_batch\<lparr>ba_start := ba_start (hd bs), ba_end := ba_end (last bs), ba_triage := TriageQueue\<rparr>, True) of
        (m, par) \<Rightarrow> if par \<and> ba_triage m \<noteq> TriageCancel then m\<lparr>ba_triage := TriageParallel\<rparr> else m)"

fun mark_items :: "string \<Rightarrow> nat \<Rightarrow> nat \<Rightarrow> item list \<Rightarrow> item list" where
  "mark_items batchID n i [] = []"
| "mark_items batchID n i (it # its) =
     it\<lparr>item_event := map_option (\<lambda>e. e\<lparr>ev_batchID := batchID, ev_batchIndex := i, ev_batchSize := n\<rparr>) (item_event it)\<rparr>
       # mark_items batchID n (i + 1) its"

definition markBatch :: "string \<Rightarrow> item list \<Rightarrow> item list" where
  "markBatch batchID items =
     (if length items < 2 then items else mark_items batchID (length items) 0 items)"

subsection \<open>Compilation\<close>

record sources =
  so_now :: "nat \<Rightarrow> nat"
  so_nextID :: "string \<Rightarrow> nat \<Rightarrow> string"

record compiling =
  cp_all :: "item list"
  cp_items :: "item list"
  cp_lastNS :: nat
  cp_parent :: string
  cp_ids :: nat
  cp_ticks :: nat

datatype compile_error = UnknownRevision nat | UnknownPlaceholderCall string | ResultsUnmatched match_error

fun direct_parents :: "string list \<Rightarrow> string list \<Rightarrow> string list" where
  "direct_parents seen [] = []"
| "direct_parents seen (i # is) =
     (if i = [] \<or> i \<in> set seen then direct_parents seen is else i # direct_parents (i # seen) is)"

definition directParents :: "string list \<Rightarrow> string list" where
  "directParents ids = direct_parents [] ids"

definition metadata_of :: "event \<Rightarrow> event_metadata" where
  "metadata_of e =
     \<lparr>ev_eventID = en_eventID e, ev_type = en_type e, ev_source = en_source e, ev_channel = en_channel e,
      ev_occurredNS = en_occurredNS e, ev_correlationID = en_correlationID e, ev_supersedes = en_supersedes e,
      ev_batchID = [], ev_batchIndex = 0, ev_batchSize = 0\<rparr>"

definition runtime_producer :: "phase \<Rightarrow> producer" where
  "runtime_producer p =
     \<lparr>pr_phase = p, pr_provider = [], pr_model = [], pr_reasoningEffort = [], pr_speechAuthority = []\<rparr>"

text \<open>An item with the fields every compiled item sets, the payload being added by the caller.\<close>

definition event_item :: "event \<Rightarrow> kind \<Rightarrow> string \<Rightarrow> nat \<Rightarrow> string list \<Rightarrow> producer \<Rightarrow> item" where
  "event_item e k i ns parents p =
     \<lparr>item_id = i, item_kind = k, item_ns = ns, item_parents = parents, item_revision = en_revision e,
      item_invocation = [], item_producer = p, item_content = [], item_interrupted = False,
      item_visibility = VisibilityNone, item_toolCall = None, item_derivation = None,
      item_disposition = None, item_toolResult = None, item_placeholder = None, item_observation = None,
      item_state = None, item_repair = None, item_event = Some (metadata_of e), item_stateType = [],
      item_providerState = []\<rparr>"

text \<open>The draw of an identifier and a time that does not go back, and the item appended to the log so far.\<close>

definition draw :: "sources \<Rightarrow> compiling \<Rightarrow> string \<times> nat \<times> compiling" where
  "draw src cp =
     (let ns = (if so_now src (cp_ticks cp) < cp_lastNS cp then cp_lastNS cp else so_now src (cp_ticks cp)) in
      (so_nextID src ''event-item'' (cp_ids cp), ns,
       cp\<lparr>cp_lastNS := ns, cp_ids := cp_ids cp + 1, cp_ticks := cp_ticks cp + 1\<rparr>))"

definition push :: "item \<Rightarrow> compiling \<Rightarrow> compiling" where
  "push it cp = cp\<lparr>cp_items := cp_items cp @ [it], cp_all := cp_all cp @ [it], cp_parent := item_id it\<rparr>"

fun push_results :: "sources \<Rightarrow> event \<Rightarrow> (pending_call \<times> tool_result) list \<Rightarrow> compiling \<Rightarrow> compiling" where
  "push_results src e [] cp = cp"
| "push_results src e ((p, r) # ps) cp =
     (case draw src cp of (i, ns, cp1) \<Rightarrow>
        push_results src e ps
          (push ((event_item e KindToolResult i ns (directParents [cp_parent cp, pc_itemID p]) (runtime_producer PhaseTool))
             \<lparr>item_revision := pc_revision p, item_invocation := en_invocation e, item_toolResult := Some r\<rparr>) cp1))"

definition compileToolResults :: "sources \<Rightarrow> event \<Rightarrow> compiling \<Rightarrow> (compile_error, compiling) result" where
  "compileToolResults src e cp =
     (case MatchToolResultBatch \<lparr>sn_version = length (cp_all cp), sn_items = cp_all cp\<rparr> (en_invocation e) (en_toolResults e) of
        Inl f \<Rightarrow> Inl (ResultsUnmatched f)
      | Inr matched \<Rightarrow> Inr (push_results src e matched cp))"

text \<open>The identifier the newest-first search stops at, empty when there is none.\<close>

definition newest_id :: "(item \<Rightarrow> bool) \<Rightarrow> item list \<Rightarrow> string" where
  "newest_id P all = (case find_last P all of None \<Rightarrow> [] | Some it \<Rightarrow> item_id it)"

definition compileObservation :: "sources \<Rightarrow> event \<Rightarrow> compiling \<Rightarrow> compile_error option \<times> compiling" where
  "compileObservation src e cp =
     (case draw src cp of (i, ns, cp1) \<Rightarrow>
       (let supersededID =
              (if en_supersedes e = 0 then []
               else newest_id (\<lambda>it. item_kind it = KindObservation \<and> item_revision it = en_supersedes e) (cp_all cp)) in
        if en_supersedes e \<noteq> 0 \<and> supersededID = [] then (Some (UnknownRevision (en_supersedes e)), cp1)
        else (None, push ((event_item e KindObservation i ns (directParents [cp_parent cp, supersededID]) (en_producer e))
                       \<lparr>item_content := en_content e, item_observation := en_observation e\<rparr>) cp1)))"

text \<open>\<^verbatim>\<open>validateEvent\<close> has required the payload of each kind, so the branches without one are not reached.\<close>

definition compile_event :: "sources \<Rightarrow> event \<Rightarrow> compiling \<Rightarrow> compile_error option \<times> compiling" where
  "compile_event src e cp =
     (case en_kind e of
        KindObservation \<Rightarrow> compileObservation src e cp
      | KindAssistantState \<Rightarrow>
          (case en_assistantState e of None \<Rightarrow> (None, cp) | Some a \<Rightarrow>
             (case draw src cp of (i, ns, cp1) \<Rightarrow>
               (None, push ((event_item e KindAssistantState i ns (directParents [cp_parent cp, as_itemID a])
                   (runtime_producer PhaseRuntime))\<lparr>item_state := Some a\<rparr>) cp1)))
      | KindRepair \<Rightarrow>
          (case en_repair e of None \<Rightarrow> (None, cp) | Some r \<Rightarrow>
             (case draw src cp of (i, ns, cp1) \<Rightarrow>
               (None, push ((event_item e KindRepair i ns (directParents [cp_parent cp, rs_target r, rs_repairItemID r])
                   (runtime_producer PhaseRuntime))\<lparr>item_repair := Some r\<rparr>) cp1)))
      | KindToolPlaceholder \<Rightarrow>
          (case en_placeholder e of None \<Rightarrow> (None, cp) | Some p \<Rightarrow>
             (let callItemID = newest_id (\<lambda>it. item_kind it = KindToolCall
                     \<and> map_option tc_callID (item_toolCall it) = Some (tp_callID p)) (cp_all cp) in
              if callItemID = [] then (Some (UnknownPlaceholderCall (tp_callID p)), cp)
              else case draw src cp of (i, ns, cp1) \<Rightarrow>
                (None, push ((event_item e KindToolPlaceholder i ns (directParents [cp_parent cp, callItemID])
                   (runtime_producer PhaseRuntime))\<lparr>item_invocation := en_invocation e, item_placeholder := Some p\<rparr>) cp1)))
      | KindToolResult \<Rightarrow>
          (case compileToolResults src e cp of Inl f \<Rightarrow> (Some f, cp) | Inr cp1 \<Rightarrow> (None, cp1))
      | _ \<Rightarrow> (None, cp))"

fun compile_events :: "sources \<Rightarrow> event list \<Rightarrow> compiling \<Rightarrow> compile_error option \<times> compiling" where
  "compile_events src [] cp = (None, cp)"
| "compile_events src (e # es) cp =
     (case compile_event src e cp of
        (Some f, cp1) \<Rightarrow> (Some f, cp1)
      | (None, cp1) \<Rightarrow> compile_events src es cp1)"

definition start_compiling :: "nat \<Rightarrow> nat \<Rightarrow> snapshot \<Rightarrow> compiling" where
  "start_compiling ids ticks sn =
     \<lparr>cp_all = sn_items sn, cp_items = [],
      cp_lastNS = (if sn_items sn = [] then 0 else item_ns (last (sn_items sn))),
      cp_parent = (if sn_items sn = [] then [] else item_id (last (sn_items sn))),
      cp_ids = ids, cp_ticks = ticks\<rparr>"

definition compile :: "sources \<Rightarrow> nat \<Rightarrow> nat \<Rightarrow> snapshot \<Rightarrow> event list \<Rightarrow> compile_error option \<times> compiling" where
  "compile src ids ticks sn events = compile_events src events (start_compiling ids ticks sn)"

subsection \<open>Merged batches\<close>

lemma merge_loop_result:
  assumes "merge_loop bs (m, par) = (m', par')"
  shows "ba_events m' = ba_events m @ concat (map ba_events bs)
    \<and> ba_items m' = ba_items m @ concat (map ba_items bs)
    \<and> ba_start m' = ba_start m \<and> ba_end m' = ba_end m
    \<and> ba_triage m' = (if list_ex (\<lambda>b. ba_triage b = TriageCancel) bs then TriageCancel else ba_triage m)
    \<and> ba_deferred m' = (ba_deferred m \<or> list_ex ba_deferred bs \<or> 1 < length bs)
    \<and> par' = (par \<and> list_all (\<lambda>b. ba_triage b = TriageParallel) bs)"
  using assms
proof (induction bs arbitrary: m par)
  case (Cons b bs)
  then have "merge_loop bs (merge_step b (bs = []) (m, par)) = (m', par')" by simp
  then obtain m1 p1 where s: "merge_step b (bs = []) (m, par) = (m1, p1)" and l: "merge_loop bs (m1, p1) = (m', par')"
    by (metis surj_pair)
  from s have m1: "ba_events m1 = ba_events m @ ba_events b" "ba_items m1 = ba_items m @ ba_items b"
    "ba_start m1 = ba_start m" "ba_end m1 = ba_end m"
    "ba_triage m1 = (if ba_triage b = TriageCancel then TriageCancel else ba_triage m)"
    "ba_deferred m1 = (ba_deferred m \<or> ba_deferred b \<or> bs \<noteq> [])" "p1 = (par \<and> ba_triage b = TriageParallel)"
    by (auto simp: merge_step_def)
  from Cons.IH [OF l] show ?case unfolding m1 by (cases bs) auto
qed simp

lemma merge_result:
  assumes "bs \<noteq> []"
  shows "ba_events (merge bs) = concat (map ba_events bs)" "ba_items (merge bs) = concat (map ba_items bs)"
    "ba_triage (merge bs) =
       (if list_ex (\<lambda>b. ba_triage b = TriageCancel) bs then TriageCancel
        else if list_all (\<lambda>b. ba_triage b = TriageParallel) bs then TriageParallel else TriageQueue)"
    "ba_start (merge bs) = ba_start (hd bs)" "ba_end (merge bs) = ba_end (last bs)"
    "ba_deferred (merge bs) \<longleftrightarrow> list_ex ba_deferred bs \<or> 1 < length bs"
proof -
  obtain m p where l: "merge_loop bs (zero_batch\<lparr>ba_start := ba_start (hd bs), ba_end := ba_end (last bs),
      ba_triage := TriageQueue\<rparr>, True) = (m, p)" by force
  from merge_loop_result [OF l] have r: "ba_events m = concat (map ba_events bs)" "ba_items m = concat (map ba_items bs)"
    "ba_start m = ba_start (hd bs)" "ba_end m = ba_end (last bs)"
    "ba_triage m = (if list_ex (\<lambda>b. ba_triage b = TriageCancel) bs then TriageCancel else TriageQueue)"
    "ba_deferred m = (list_ex ba_deferred bs \<or> 1 < length bs)"
    "p = list_all (\<lambda>b. ba_triage b = TriageParallel) bs"
    by (simp_all add: zero_batch_def)
  have m: "merge bs = (if p \<and> ba_triage m \<noteq> TriageCancel then m\<lparr>ba_triage := TriageParallel\<rparr> else m)"
    using assms l by (simp add: merge_def)
  show "ba_events (merge bs) = concat (map ba_events bs)" "ba_items (merge bs) = concat (map ba_items bs)"
    "ba_start (merge bs) = ba_start (hd bs)" "ba_end (merge bs) = ba_end (last bs)"
    "ba_deferred (merge bs) \<longleftrightarrow> list_ex ba_deferred bs \<or> 1 < length bs"
    using r by (simp_all add: m)
  show "ba_triage (merge bs) =
       (if list_ex (\<lambda>b. ba_triage b = TriageCancel) bs then TriageCancel
        else if list_all (\<lambda>b. ba_triage b = TriageParallel) bs then TriageParallel else TriageQueue)"
    using r by (simp add: m)
qed

subsection \<open>Batch markers\<close>

lemma mark_items_markers:
  "list_all (\<lambda>it. item_event it \<noteq> None) items \<Longrightarrow>
   map (map_option (\<lambda>e. (ev_batchID e, ev_batchIndex e, ev_batchSize e)) \<circ> item_event) (mark_items b n i items)
     = map (\<lambda>k. Some (b, k, n)) [i..<i + length items]"
  by (induction items arbitrary: i) (auto simp: upt_rec)

lemma mark_items_length [simp]: "length (mark_items b n i items) = length items"
  by (induction items arbitrary: i) auto

lemma markBatch_length [simp]: "length (markBatch b items) = length items"
  by (simp add: markBatch_def)

subsection \<open>Compiled items\<close>

lemma direct_parents_spec:
  "set (direct_parents seen is) = set is - {[]} - set seen \<and> distinct (direct_parents seen is)"
  by (induction seen "is" rule: direct_parents.induct) auto

lemma directParents_spec: "set (directParents is) = set is - {[]}" "distinct (directParents is)"
  using direct_parents_spec [of "[]" "is"] by (simp_all add: directParents_def)

text \<open>
  Each item comes no earlier than the one before it and names it among its parents, and its
  parents are distinct and not empty. The first two arguments are the identifier and time of the
  item before the list.
\<close>

fun linked :: "string \<Rightarrow> nat \<Rightarrow> item list \<Rightarrow> bool" where
  "linked p ns [] = True"
| "linked p ns (it # its) =
     (ns \<le> item_ns it \<and> (p = [] \<or> p \<in> set (item_parents it)) \<and> distinct (item_parents it)
      \<and> [] \<notin> set (item_parents it) \<and> linked (item_id it) (item_ns it) its)"

definition item_of_event :: "event \<Rightarrow> item \<Rightarrow> bool" where
  "item_of_event e it = (item_event it = Some (metadata_of e) \<and> item_kind it = en_kind e)"

definition grows :: "compiling \<Rightarrow> item list \<Rightarrow> compiling \<Rightarrow> bool" where
  "grows cp its cp' =
     (cp_items cp' = cp_items cp @ its \<and> cp_all cp' = cp_all cp @ its
      \<and> linked (cp_parent cp) (cp_lastNS cp) its
      \<and> (its = [] \<and> cp_parent cp' = cp_parent cp \<and> cp_lastNS cp' = cp_lastNS cp
         \<or> its \<noteq> [] \<and> cp_parent cp' = item_id (last its) \<and> cp_lastNS cp' = item_ns (last its)))"

lemma linked_append:
  "linked p ns (xs @ ys) \<longleftrightarrow> linked p ns xs
     \<and> (if xs = [] then linked p ns ys else linked (item_id (last xs)) (item_ns (last xs)) ys)"
  by (induction xs arbitrary: p ns) auto

lemma grows_refl: "grows cp [] cp"
  by (simp add: grows_def)

lemma grows_trans: "grows a xs b \<Longrightarrow> grows b ys c \<Longrightarrow> grows a (xs @ ys) c"
  by (cases "xs = []"; cases "ys = []") (simp_all add: grows_def linked_append)

lemma grows_push:
  assumes "draw src cp = (i, ns, cp1)" and "item_id it = i" "item_ns it = ns"
    and "item_parents it = directParents (cp_parent cp # qs)"
  shows "grows cp [it] (push it cp1)"
  using assms by (auto simp: draw_def push_def grows_def Let_def directParents_spec split: if_splits)

lemma event_item_simps [simp]:
  "item_id (event_item e k i ns ps p) = i" "item_ns (event_item e k i ns ps p) = ns"
  "item_parents (event_item e k i ns ps p) = ps" "item_kind (event_item e k i ns ps p) = k"
  "item_event (event_item e k i ns ps p) = Some (metadata_of e)"
  by (simp_all add: event_item_def)

lemma push_results_grows:
  "en_kind e = KindToolResult \<Longrightarrow>
   \<exists>its. grows cp its (push_results src e ps cp) \<and> list_all (item_of_event e) its \<and> length its = length ps
     \<and> map item_toolResult its = map (Some \<circ> snd) ps"
proof (induction ps arbitrary: cp)
  case (Cons pr ps)
  obtain p r where pr: "pr = (p, r)" by (cases pr)
  obtain i ns cp1 where d: "draw src cp = (i, ns, cp1)" by (cases "draw src cp") auto
  define it where "it = (event_item e KindToolResult i ns (directParents [cp_parent cp, pc_itemID p]) (runtime_producer PhaseTool))
             \<lparr>item_revision := pc_revision p, item_invocation := en_invocation e, item_toolResult := Some r\<rparr>"
  have g: "grows cp [it] (push it cp1)" by (rule grows_push [OF d]) (simp_all add: it_def)
  from Cons.IH [OF Cons.prems, of "push it cp1"] obtain its where
    its: "grows (push it cp1) its (push_results src e ps (push it cp1))" "list_all (item_of_event e) its"
    "length its = length ps" "map item_toolResult its = map (Some \<circ> snd) ps" by blast
  have e: "push_results src e (pr # ps) cp = push_results src e ps (push it cp1)" by (simp add: pr d it_def)
  have "item_of_event e it" "item_toolResult it = Some r"
    using Cons.prems by (simp_all add: it_def item_of_event_def)
  with grows_trans [OF g its(1)] its(2-4) e show ?case by (intro exI [of _ "it # its"]) (simp add: pr)
qed (auto intro: grows_refl)

lemma match_pending_fst: "match_pending m ps = Inr r \<Longrightarrow> map fst r = ps \<and> snd ` set r \<subseteq> snd ` set m"
proof (induction ps arbitrary: r)
  case (Cons p ps)
  from Cons.prems obtain t rest where t: "map_of m (tc_callID (pc_call p)) = Some t"
    and m: "match_pending m ps = Inr rest" "r = (p, t) # rest"
    by (auto simp: bind_result_eq_Inr split: option.splits if_splits)
  from map_of_SomeD [OF t] have "t \<in> snd ` set m" by force
  with Cons.IH [OF m(1)] m(2) show ?case by simp
qed simp

lemma snd_update_subset: "snd ` set (AList.update k v m) \<subseteq> insert v (snd ` set m)"
  by (induction m) auto

lemma provided_results_from: "provided_results rs m = Inr m' \<Longrightarrow> snd ` set m' \<subseteq> snd ` set m \<union> set rs"
proof (induction rs arbitrary: m)
  case (Cons r rs)
  then have "snd ` set m' \<subseteq> snd ` set (AList.update (tr_callID r) r m) \<union> set rs" by (auto split: if_splits)
  with snd_update_subset [of "tr_callID r" r m] show ?case unfolding list.set(2) by blast
qed simp

lemma match_batch_results:
  assumes "MatchToolResultBatch sn invo results = Inr matched"
  shows "length matched = length results" "matched \<noteq> []" "snd ` set matched \<subseteq> set results"
proof -
  let ?pending = "pending_calls (\<lambda>it. item_invocation it = invo) (List.map_filter (result_identity sn) (sn_items sn)) sn"
  from assms obtain m where p: "?pending \<noteq> []" "length results = length ?pending"
    and m: "provided_results results [] = Inr m" "match_pending m ?pending = Inr matched"
    by (auto simp: MatchToolResultBatch_def Let_def bind_result_eq_Inr split: if_splits)
  from match_pending_fst [OF m(2)] have f: "map fst matched = ?pending" "snd ` set matched \<subseteq> snd ` set m" by auto
  from arg_cong [OF f(1), of length] p show "length matched = length results" "matched \<noteq> []" by auto
  from f(2) provided_results_from [OF m(1)] show "snd ` set matched \<subseteq> set results" by auto
qed

text \<open>The item records the payload of its event.\<close>

definition carries :: "event \<Rightarrow> item \<Rightarrow> bool" where
  "carries e it =
     (item_of_event e it \<and> item_content it = en_content e \<and> item_state it = en_assistantState e
      \<and> item_repair it = en_repair e \<and> item_placeholder it = en_placeholder e
      \<and> (en_kind e = KindObservation \<longrightarrow> item_producer it = en_producer e
           \<and> item_observation it = en_observation e \<and> item_revision it = en_revision e)
      \<and> (case item_toolResult it of None \<Rightarrow> en_kind e \<noteq> KindToolResult | Some r \<Rightarrow> r \<in> set (en_toolResults e)))"

definition expected_items :: "event \<Rightarrow> nat" where
  "expected_items e =
     (if en_kind e = KindSignal then 0 else if en_kind e = KindToolResult then length (en_toolResults e) else 1)"

lemma valid_event_kind:
  assumes "validateEvent e = None"
  obtains (signal) "en_kind e = KindSignal"
  | (observation) "en_kind e = KindObservation" "en_assistantState e = None" "en_repair e = None" "en_placeholder e = None"
  | (result) "en_kind e = KindToolResult" "en_content e = []" "en_assistantState e = None" "en_repair e = None" "en_placeholder e = None"
  | (placeholder) p where "en_kind e = KindToolPlaceholder" "en_placeholder e = Some p" "en_content e = []" "en_assistantState e = None" "en_repair e = None"
  | (state) a where "en_kind e = KindAssistantState" "en_assistantState e = Some a" "en_content e = []" "en_repair e = None" "en_placeholder e = None"
  | (repair) r where "en_kind e = KindRepair" "en_repair e = Some r" "en_content e = []" "en_assistantState e = None" "en_placeholder e = None"
  using assms
  by (cases "en_kind e") (auto simp: validateEvent_def KindSignal_def split: if_splits)

lemma kind_signal_simps [simp]:
  "KindSignal \<noteq> KindObservation" "KindSignal \<noteq> KindToolResult" "KindSignal \<noteq> KindToolPlaceholder"
  "KindSignal \<noteq> KindAssistantState" "KindSignal \<noteq> KindRepair"
  "KindObservation \<noteq> KindSignal" "KindToolResult \<noteq> KindSignal" "KindToolPlaceholder \<noteq> KindSignal"
  "KindAssistantState \<noteq> KindSignal" "KindRepair \<noteq> KindSignal"
  by (simp_all add: KindSignal_def)

lemma grows_one:
  assumes "draw src cp = (i, ns, cp1)" and "item_id it = i" "item_ns it = ns"
    and "item_parents it = directParents (cp_parent cp # qs)" and "carries e it" and "expected_items e = 1"
  shows "\<exists>its. grows cp its (push it cp1) \<and> list_all (carries e) its \<and> length its = expected_items e"
  using grows_push [OF assms(1-4)] assms(5,6) by (intro exI [of _ "[it]"]) simp

lemma push_results_carry:
  assumes "en_kind e = KindToolResult" "en_content e = []" "en_assistantState e = None" "en_repair e = None"
    "en_placeholder e = None"
  shows "cp_items (push_results src e ps cp) = cp_items cp @ its \<Longrightarrow> snd ` set ps \<subseteq> set (en_toolResults e) \<Longrightarrow>
    list_all (carries e) its"
proof (induction ps arbitrary: cp its)
  case (Cons pr ps)
  obtain p r where pr: "pr = (p, r)" by (cases pr)
  obtain i ns cp1 where d: "draw src cp = (i, ns, cp1)" by (cases "draw src cp") auto
  define it where "it = (event_item e KindToolResult i ns (directParents [cp_parent cp, pc_itemID p]) (runtime_producer PhaseTool))
             \<lparr>item_revision := pc_revision p, item_invocation := en_invocation e, item_toolResult := Some r\<rparr>"
  have c: "cp_items cp1 = cp_items cp" using d by (auto simp: draw_def Let_def)
  have e: "push_results src e (pr # ps) cp = push_results src e ps (push it cp1)" by (simp add: pr d it_def)
  obtain its' where g: "grows (push it cp1) its' (push_results src e ps (push it cp1))"
    using push_results_grows [OF assms(1)] by blast
  then have i: "cp_items (push_results src e ps (push it cp1)) = cp_items (push it cp1) @ its'" by (simp add: grows_def)
  have "its = it # its'" using Cons.prems(1) i c unfolding e by (simp add: push_def)
  moreover have "list_all (carries e) its'" using Cons.IH [OF i] Cons.prems(2) by simp
  moreover have "carries e it"
    using assms Cons.prems(2) by (simp add: it_def carries_def item_of_event_def event_item_def pr)
  ultimately show ?case by simp
qed simp

lemma compile_event_grows:
  assumes c: "compile_event src e cp = (None, cp')" and v: "validateEvent e = None"
  shows "\<exists>its. grows cp its cp' \<and> list_all (carries e) its \<and> length its = expected_items e"
  using v
proof (cases rule: valid_event_kind)
  case signal
  with c have "cp' = cp" by (simp add: compile_event_def KindSignal_def)
  with signal show ?thesis by (auto intro!: exI [of _ "[]"] grows_refl simp: expected_items_def)
next
  case observation
  obtain i ns cp1 where d: "draw src cp = (i, ns, cp1)" by (cases "draw src cp") auto
  from c observation obtain q where "cp' = push ((event_item e KindObservation i ns (directParents [cp_parent cp, q]) (en_producer e))
                       \<lparr>item_content := en_content e, item_observation := en_observation e\<rparr>) cp1"
    by (auto simp: compile_event_def compileObservation_def d Let_def split: if_splits)
  with observation grows_one [OF d, of _ "[q]" e] show ?thesis
    by (simp add: carries_def item_of_event_def event_item_def expected_items_def)
next
  case result
  from c result obtain matched where
    m: "MatchToolResultBatch \<lparr>sn_version = length (cp_all cp), sn_items = cp_all cp\<rparr> (en_invocation e) (en_toolResults e) = Inr matched"
    and cp': "cp' = push_results src e matched cp"
    by (auto simp: compile_event_def compileToolResults_def split: sum.splits)
  from push_results_grows [OF result(1)] obtain its where
    its: "grows cp its cp'" "length its = length matched" unfolding cp' by blast
  have "cp_items (push_results src e matched cp) = cp_items cp @ its" using its(1) cp' by (simp add: grows_def)
  from push_results_carry [OF result this match_batch_results(3) [OF m]] its match_batch_results(1) [OF m] result(1)
  show ?thesis by (intro exI [of _ its]) (simp add: expected_items_def)
next
  case (placeholder p)
  obtain i ns cp1 where d: "draw src cp = (i, ns, cp1)" by (cases "draw src cp") auto
  from c placeholder obtain q where "cp' = push ((event_item e KindToolPlaceholder i ns (directParents [cp_parent cp, q])
                   (runtime_producer PhaseRuntime))\<lparr>item_invocation := en_invocation e, item_placeholder := Some p\<rparr>) cp1"
    by (auto simp: compile_event_def d Let_def split: if_splits)
  with placeholder grows_one [OF d, of _ "[q]" e] show ?thesis
    by (simp add: carries_def item_of_event_def event_item_def expected_items_def)
next
  case (state a)
  obtain i ns cp1 where d: "draw src cp = (i, ns, cp1)" by (cases "draw src cp") auto
  from c state grows_one [OF d, of _ "[as_itemID a]" e] show ?thesis
    by (auto simp: compile_event_def d carries_def item_of_event_def event_item_def expected_items_def)
next
  case (repair r)
  obtain i ns cp1 where d: "draw src cp = (i, ns, cp1)" by (cases "draw src cp") auto
  from c repair grows_one [OF d, of _ "[rs_target r, rs_repairItemID r]" e] show ?thesis
    by (auto simp: compile_event_def d carries_def item_of_event_def event_item_def expected_items_def)
qed

lemma compile_events_grow:
  "compile_events src es cp = (None, cp') \<Longrightarrow> list_all (\<lambda>e. validateEvent e = None) es \<Longrightarrow>
   \<exists>groups. grows cp (concat groups) cp'
     \<and> list_all2 (\<lambda>e its. list_all (carries e) its \<and> length its = expected_items e) es groups"
proof (induction es arbitrary: cp)
  case (Cons e es)
  from Cons.prems obtain cp1 where c: "compile_event src e cp = (None, cp1)" "compile_events src es cp1 = (None, cp')"
    by (auto split: prod.splits option.splits)
  from compile_event_grows [OF c(1)] Cons.prems(2) obtain its where
    its: "grows cp its cp1" "list_all (carries e) its" "length its = expected_items e" by auto
  from Cons.IH [OF c(2)] Cons.prems(2) obtain groups where
    g: "grows cp1 (concat groups) cp'"
    "list_all2 (\<lambda>e its. list_all (carries e) its \<and> length its = expected_items e) es groups" by auto
  from grows_trans [OF its(1) g(1)] its(2,3) g(2) show ?case by (intro exI [of _ "its # groups"]) simp
qed (auto intro!: exI [of _ "[]"] grows_refl)

subsection \<open>Properties\<close>

text \<open>
  Compilation is faithful to the events. When it succeeds on validated events, the items fall
  into one group per event in arrival order: none for a signal, one per result for a tool-result
  event, one otherwise, each recording the event's metadata and payload. The items extend the log
  linearly: times do not go back, every item names the item before it (the last one of the snapshot
  for the first) among its causal parents, and no parent is repeated or empty.
\<close>

theorem compile_groups_by_event:
  assumes "compile src ids ticks sn events = (None, cp)" and "list_all (\<lambda>e. validateEvent e = None) events"
  shows "(\<exists>groups. cp_items cp = concat groups
      \<and> list_all2 (\<lambda>e its. list_all (carries e) its \<and> length its = expected_items e) events groups)
    \<and> (if sn_items sn = [] then linked [] 0 (cp_items cp)
       else linked (item_id (last (sn_items sn))) (item_ns (last (sn_items sn))) (cp_items cp))"
proof -
  let ?cp = "start_compiling ids ticks sn"
  from compile_events_grow [of src events ?cp cp] assms obtain groups where g: "grows ?cp (concat groups) cp"
    "list_all2 (\<lambda>e its. list_all (carries e) its \<and> length its = expected_items e) events groups"
    by (auto simp: compile_def)
  from g(1) have "cp_items cp = concat groups" "linked (cp_parent ?cp) (cp_lastNS ?cp) (cp_items cp)"
    by (simp_all add: grows_def start_compiling_def)
  with g(2) show ?thesis by (auto simp: start_compiling_def)
qed

text \<open>An observation, a signal and a correction of the observation.\<close>

definition example_event :: "string \<Rightarrow> kind \<Rightarrow> priority \<Rightarrow> event" where
  "example_event i k p =
     \<lparr>en_eventID = i, en_type = ''transcript'', en_source = ''asr'', en_channel = ''voice'', en_correlationID = [],
      en_priority = p, en_kind = k, en_occurredNS = 0, en_revision = 0, en_supersedes = 0, en_invocation = [],
      en_producer = runtime_producer PhaseUser, en_content = [], en_observation = None, en_toolResults = [],
      en_placeholder = None, en_assistantState = None, en_repair = None\<rparr>"

definition example_events :: "event list" where
  "example_events =
     [(example_event ''e1'' KindObservation PriorityRoutine)\<lparr>en_content := ''he said'', en_revision := 1\<rparr>,
      example_event ''e2'' KindSignal PriorityParallel,
      (example_event ''e3'' KindObservation PriorityRoutine)
        \<lparr>en_content := ''she said'', en_revision := 2, en_supersedes := 1\<rparr>]"

definition example_sources :: sources where
  "example_sources = \<lparr>so_now = (\<lambda>n. 10), so_nextID = (\<lambda>p n. p @ replicate (n + 1) (CHR ''x''))\<rparr>"

definition example_compiled :: compiling where
  "example_compiled = snd (compile example_sources 0 0 (Snapshot NewStore) example_events)"

lemma example_compile:
  "fst (compile example_sources 0 0 (Snapshot NewStore) example_events) = None"
  "list_all (\<lambda>e. validateEvent e = None) example_events = True"
  "map item_parents (cp_items example_compiled) = [[], [''event-itemx'']]"
  by code_simp+

theorem compile_groups_by_event_witness:
  "\<exists>groups. cp_items example_compiled = concat groups \<and> map length groups = [1, 0, 1]"
proof -
  have c: "compile example_sources 0 0 (Snapshot NewStore) example_events = (None, example_compiled)"
    using example_compile(1) by (simp add: example_compiled_def prod_eq_iff)
  obtain groups where g: "cp_items example_compiled = concat groups"
    "list_all2 (\<lambda>e its. list_all (carries e) its \<and> length its = expected_items e) example_events groups"
    using compile_groups_by_event [OF c] unfolding example_compile(2) by blast
  from g(2) have "map length groups = map expected_items example_events"
    by (induction rule: list_all2_induct) auto
  also have "\<dots> = [1, 0, 1]" by (simp add: example_events_def example_event_def expected_items_def)
  finally show ?thesis using g(1) by (intro exI [of _ groups] conjI)
qed

end
