(* ===== verification/Coordinator.thy ===== *)
theory Coordinator
  imports Events
begin

section \<open>The event coordinator\<close>

text \<open>
  \<^verbatim>\<open>eventloop/coordinator.go\<close>: ingress, safe-point commits, deferral bookkeeping and interruption of
  the processor in flight. Each section of the code under \<^verbatim>\<open>coordinator.mu\<close> is one function, and a
  method is their composition; the machine at the end interleaves the sections.

  The store is shared with writers that do not take the commit lock. What they append between the
  snapshot and the append of one attempt, and between that append and the second snapshot, is an
  explicit list of batches, one pair of lists per attempt of \<^verbatim>\<open>commitAdmissible\<close>; the list of pairs is
  also the number of attempts the model is given, and running out of it is \<^const>\<open>None\<close>. A context
  is named by the epoch of the run it was created for; cancelling it records the first cause.
  Counters are natural numbers: a 64-bit counter does not wrap in the life of a session.
\<close>

subsection \<open>State\<close>

record queued =
  qe_sequence :: nat
  qe_submission :: nat
  qe_event :: event

datatype cause = ErrInterrupted | CauseOther string

record coordinator =
  el_store :: store
  el_sources :: sources
  el_maxPending :: int
  el_reserved :: int
  el_pending :: "queued list"
  el_eventIDs :: "string goset"
  el_nextSequence :: nat
  el_nextSubmission :: nat
  el_deferred :: "batch list"
  el_deferReason :: string
  el_deferSinceNS :: nat
  el_active :: bool
  el_activeEpoch :: nat
  el_activeCancel :: "nat option"
  el_parallel :: nat
  el_signal :: bool
  el_ids :: nat
  el_ticks :: nat
  el_cancelled :: "(nat, cause) gomap"
  el_committedBatches :: nat
  el_deferredBatches :: nat
  el_refusedEvents :: nat
  el_wakeups :: nat
  el_parallelRuns :: nat

datatype config_error = PendingBoundRequired | ReservedOutOfRange

definition New :: "store \<Rightarrow> sources \<Rightarrow> int \<Rightarrow> int \<Rightarrow> (config_error, coordinator) result" where
  "New st src maxPending reserved =
     (if maxPending \<le> 0 then Inl PendingBoundRequired
      else if reserved < 0 \<or> reserved \<ge> maxPending then Inl ReservedOutOfRange
      else Inr \<lparr>el_store = st, el_sources = src, el_maxPending = maxPending, el_reserved = reserved,
        el_pending = [], el_eventIDs = [], el_nextSequence = 0, el_nextSubmission = 0, el_deferred = [],
        el_deferReason = [], el_deferSinceNS = 0, el_active = False, el_activeEpoch = 0,
        el_activeCancel = None, el_parallel = 0, el_signal = False, el_ids = 0, el_ticks = 0,
        el_cancelled = [], el_committedBatches = 0, el_deferredBatches = 0, el_refusedEvents = 0,
        el_wakeups = 0, el_parallelRuns = 0\<rparr>)"

text \<open>The signal channel has depth one: a send that finds a token leaves it.\<close>

definition notify :: "coordinator \<Rightarrow> coordinator" where
  "notify c = c\<lparr>el_signal := True\<rparr>"

definition waiting :: "coordinator \<Rightarrow> bool" where
  "waiting c = (el_deferred c \<noteq> [] \<or> el_pending c \<noteq> [])"

definition Wake :: "coordinator \<Rightarrow> coordinator" where
  "Wake c = (if \<not> waiting c then c else notify (c\<lparr>el_wakeups := el_wakeups c + 1\<rparr>))"

definition cancel_active :: "cause \<Rightarrow> coordinator \<Rightarrow> coordinator" where
  "cancel_active why c =
     (case el_activeCancel c of
        None \<Rightarrow> c
      | Some ep \<Rightarrow> if gm_has (el_cancelled c) ep then c
                   else c\<lparr>el_cancelled := AList.update ep why (el_cancelled c)\<rparr>)"

definition Interrupt :: "cause option \<Rightarrow> coordinator \<Rightarrow> coordinator" where
  "Interrupt why c = cancel_active (case why of None \<Rightarrow> ErrInterrupted | Some w \<Rightarrow> w) c"

subsection \<open>Ingress\<close>

datatype submit_error =
    EmptyEventBatch | EventInvalid nat event_fault | EmptyGeneratedID | ErrQueueFull | DuplicateEventID string

fun validate_all :: "nat \<Rightarrow> event list \<Rightarrow> submit_error option" where
  "validate_all i [] = None"
| "validate_all i (e # es) =
     (case validateEvent e of Some f \<Rightarrow> Some (EventInvalid i f) | None \<Rightarrow> validate_all (i + 1) es)"

fun assign_ids :: "sources \<Rightarrow> nat \<Rightarrow> event list \<Rightarrow> event list \<times> nat" where
  "assign_ids src n [] = ([], n)"
| "assign_ids src n (e # es) =
     (let (e', n') = (if en_eventID e = [] then (e\<lparr>en_eventID := so_nextID src ''event'' n\<rparr>, n + 1) else (e, n));
          (es', n'') = assign_ids src n' es
      in (e' # es', n''))"

fun admit_fault :: "coordinator \<Rightarrow> nat \<Rightarrow> string list \<Rightarrow> event list \<Rightarrow> submit_error option" where
  "admit_fault c i batchIDs [] = None"
| "admit_fault c i batchIDs (e # es) =
     (let limit = (if en_priority e = PriorityRoutine then el_maxPending c - el_reserved c else el_maxPending c) in
      if int (length (el_pending c) + i) \<ge> limit then Some ErrQueueFull
      else if gm_has (el_eventIDs c) (en_eventID e) \<or> en_eventID e \<in> set batchIDs
      then Some (DuplicateEventID (en_eventID e))
      else admit_fault c (i + 1) (en_eventID e # batchIDs) es)"

fun enqueue :: "nat \<Rightarrow> nat \<Rightarrow> event list \<Rightarrow> queued list" where
  "enqueue sq sub [] = []"
| "enqueue sq sub (e # es) =
     \<lparr>qe_sequence = sq + 1, qe_submission = sub, qe_event = e\<rparr> # enqueue (sq + 1) sub es"

definition queue_events :: "event list \<Rightarrow> coordinator \<Rightarrow> coordinator" where
  "queue_events es c =
     c\<lparr>el_nextSubmission := el_nextSubmission c + 1,
       el_pending := el_pending c @ enqueue (el_nextSequence c) (el_nextSubmission c + 1) es,
       el_nextSequence := el_nextSequence c + length es,
       el_eventIDs := fold (gs_add \<circ> en_eventID) es (el_eventIDs c)\<rparr>"

definition SubmitBatch :: "event list \<Rightarrow> coordinator \<Rightarrow> coordinator \<times> (submit_error, string list) result" where
  "SubmitBatch events c =
     (if events = [] then (c, Inl EmptyEventBatch)
      else case validate_all 0 events of
        Some f \<Rightarrow> (c, Inl f)
      | None \<Rightarrow>
         (case assign_ids (el_sources c) (el_ids c) events of (es, n) \<Rightarrow>
           (let c1 = c\<lparr>el_ids := n\<rparr> in
            if list_ex (\<lambda>e. blank (en_eventID e)) es then (c1, Inl EmptyGeneratedID)
            else case admit_fault c1 0 [] es of
              Some f \<Rightarrow> (c1, Inl f)
            | None \<Rightarrow>
                (let c2 = queue_events es c1;
                     c3 = (if list_ex (\<lambda>e. en_priority e = PriorityInterrupt) es
                           then cancel_active ErrInterrupted c2 else c2)
                 in (notify c3, Inr (map en_eventID es))))))"

definition Submit :: "event \<Rightarrow> coordinator \<Rightarrow> coordinator \<times> (submit_error, string) result" where
  "Submit e c =
     (case SubmitBatch [e] c of
        (c', Inl f) \<Rightarrow> (c', Inl f)
      | (c', Inr ids) \<Rightarrow> (c', Inr (hd ids)))"

subsection \<open>Commit\<close>

datatype commit_error = CompileFailed compile_error | StoreFailed append_error

type_synonym interference = "item list list \<times> item list list"

text \<open>Batches of other writers, of which the store keeps those it accepts.\<close>

definition interfere :: "item list list \<Rightarrow> store \<Rightarrow> store" where
  "interfere bs st = fold (\<lambda>b s. case AppendBatch s b of Inl _ \<Rightarrow> s | Inr s' \<Rightarrow> s') bs st"

definition triage_of :: "event list \<Rightarrow> triage" where
  "triage_of es =
     (if list_ex (\<lambda>e. TriageOf (en_priority e) = TriageCancel) es then TriageCancel
      else if es \<noteq> [] \<and> list_all (\<lambda>e. TriageOf (en_priority e) = TriageParallel) es then TriageParallel
      else TriageQueue)"

definition append_external :: "nat \<Rightarrow> item list \<Rightarrow> store \<Rightarrow> (append_error, store) result" where
  "append_external version items st = (if items = [] then Inr st else AppendBatchAt st version items)"

definition commitQueued :: "interference \<Rightarrow> queued list \<Rightarrow> coordinator \<Rightarrow>
    coordinator \<times> (commit_error, batch) result" where
  "commitQueued w q c =
     (let events = map qe_event (sort_key qe_sequence q);
          sn = Snapshot (el_store c) in
      case compile (el_sources c) (el_ids c) (el_ticks c) sn events of
        (Some f, cp) \<Rightarrow> (c\<lparr>el_ids := cp_ids cp, el_ticks := cp_ticks cp\<rparr>, Inl (CompileFailed f))
      | (None, cp) \<Rightarrow>
          (let items = markBatch (so_nextID (el_sources c) ''batch'' (cp_ids cp)) (cp_items cp);
               c1 = c\<lparr>el_ids := cp_ids cp + 1, el_ticks := cp_ticks cp, el_store := interfere (fst w) (el_store c)\<rparr>
           in case append_external (sn_version sn) items (el_store c1) of
                Inl f \<Rightarrow> (c1, Inl (StoreFailed f))
              | Inr st \<Rightarrow>
                  (let st' = interfere (snd w) st in
                   (c1\<lparr>el_store := st'\<rparr>,
                    Inr \<lparr>ba_events = events, ba_items = drop (sn_version sn) (sn_items (Snapshot st')),
                         ba_start = sn_version sn, ba_end = sn_version (Snapshot st'),
                         ba_triage = triage_of events, ba_deferred = False\<rparr>))))"

fun commitAdmissible :: "interference list \<Rightarrow> queued list \<Rightarrow> queued list \<Rightarrow> coordinator \<Rightarrow>
    (coordinator \<times> (commit_error, batch \<times> queued list) result) option" where
  "commitAdmissible [] admissible refused c = None"
| "commitAdmissible (w # ws) admissible refused c =
     (let q = sort_key qe_sequence admissible in
      case commitQueued w q c of
        (c', Inr b) \<Rightarrow> Some (c', Inr (b, refused))
      | (c', Inl f) \<Rightarrow>
         (case f of
            StoreFailed (VersionConflict _ _) \<Rightarrow> commitAdmissible ws q refused c'
          | StoreFailed (ItemError n _ _ _) \<Rightarrow>
              (if length q \<le> 1 then Some (c', Inl f)
               else
                 (let index = min n (length q - 1) in
                  commitAdmissible ws (take index q @ drop (index + 1) q) (refused @ [q ! index]) c'))
          | _ \<Rightarrow> Some (c', Inl f)))"

definition new_partition :: "batch \<Rightarrow> batch" where
  "new_partition b = zero_batch\<lparr>ba_start := ba_start b, ba_end := ba_end b, ba_triage := TriageParallel\<rparr>"

definition join_partition :: "event \<Rightarrow> batch \<Rightarrow> batch" where
  "join_partition e p =
     (let p1 = p\<lparr>ba_events := ba_events p @ [e]\<rparr>;
          p2 = (if TriageOf (en_priority e) \<noteq> TriageParallel then p1\<lparr>ba_triage := TriageQueue\<rparr> else p1)
      in if TriageOf (en_priority e) = TriageCancel then p2\<lparr>ba_triage := TriageCancel\<rparr> else p2)"

fun partition_events :: "batch \<Rightarrow> (string, nat) gomap \<Rightarrow> event list \<Rightarrow>
    batch list \<times> (nat, nat) gomap \<times> (string, nat) gomap \<Rightarrow> batch list \<times> (nat, nat) gomap \<times> (string, nat) gomap" where
  "partition_events b submissionByEvent [] acc = acc"
| "partition_events b submissionByEvent (e # es) (ps, bySubmission, byEvent) =
     (let submission = (case map_of submissionByEvent (en_eventID e) of None \<Rightarrow> 0 | Some s \<Rightarrow> s) in
      case map_of bySubmission submission of
        Some i \<Rightarrow> partition_events b submissionByEvent es
          (ps[i := join_partition e (ps ! i)], bySubmission, AList.update (en_eventID e) i byEvent)
      | None \<Rightarrow> partition_events b submissionByEvent es
          (ps @ [join_partition e (new_partition b)], AList.update submission (length ps) bySubmission,
           AList.update (en_eventID e) (length ps) byEvent))"

fun partition_items :: "(string, nat) gomap \<Rightarrow> item list \<Rightarrow> batch list \<Rightarrow> batch list" where
  "partition_items byEvent [] ps = ps"
| "partition_items byEvent (it # its) ps =
     (let i = (case item_event it of None \<Rightarrow> 0
               | Some m \<Rightarrow> (case map_of byEvent (ev_eventID m) of None \<Rightarrow> 0 | Some i \<Rightarrow> i))
      in partition_items byEvent its (ps[i := (ps ! i)\<lparr>ba_items := ba_items (ps ! i) @ [it]\<rparr>]))"

definition partitionCommittedBatch :: "batch \<Rightarrow> queued list \<Rightarrow> batch list" where
  "partitionCommittedBatch b q =
     (if ba_events b = [] then [b]
      else
        (let submissionByEvent = fold (\<lambda>x. AList.update (en_eventID (qe_event x)) (qe_submission x)) q [] in
         case partition_events b submissionByEvent (ba_events b) ([], [], []) of
           (ps, _, byEvent) \<Rightarrow> partition_items byEvent (ba_items b) ps))"

definition forget :: "queued list \<Rightarrow> coordinator \<Rightarrow> coordinator" where
  "forget q c = c\<lparr>el_eventIDs := fold (\<lambda>x. AList.delete (en_eventID (qe_event x))) q (el_eventIDs c)\<rparr>"

definition requeue :: "queued list \<Rightarrow> coordinator \<Rightarrow> coordinator" where
  "requeue q c = notify (c\<lparr>el_pending := q @ el_pending c\<rparr>)"

text \<open>What \<^verbatim>\<open>Commit\<close> does with the outcome of \<^verbatim>\<open>commitAdmissible\<close> for the drained events.\<close>

definition settle :: "queued list \<Rightarrow> coordinator \<times> (commit_error, batch \<times> queued list) result \<Rightarrow>
    coordinator \<times> (commit_error, batch) result" where
  "settle q outcome =
     (case outcome of
        (c, Inl f) \<Rightarrow>
          ((case f of StoreFailed (VersionConflict _ _) \<Rightarrow> requeue q c | _ \<Rightarrow> forget q c), Inl f)
      | (c, Inr (b, refused)) \<Rightarrow>
          (let c1 = (if refused = [] then c
                     else forget refused (c\<lparr>el_refusedEvents := el_refusedEvents c + length refused\<rparr>));
               c2 = c1\<lparr>el_committedBatches := el_committedBatches c1 + 1,
                       el_deferred := el_deferred c1 @ partitionCommittedBatch b q\<rparr>
           in (notify c2, Inr b)))"

datatype run_error =
    ErrIdle | ErrBusy | ErrDeferred string | CommitFailed commit_error

definition Commit :: "interference list \<Rightarrow> coordinator \<Rightarrow> (coordinator \<times> (run_error, batch) result) option" where
  "Commit ws c =
     (if el_pending c = [] then Some (c, Inl ErrIdle)
      else case commitAdmissible ws (el_pending c) [] (c\<lparr>el_pending := []\<rparr>) of
        None \<Rightarrow> None
      | Some outcome \<Rightarrow>
          (case settle (el_pending c) outcome of
             (c', Inl f) \<Rightarrow> Some (c', Inl (CommitFailed f))
           | (c', Inr b) \<Rightarrow> Some (c', Inr b)))"

subsection \<open>Running\<close>

definition selectRunnable :: "batch list \<Rightarrow> bool \<Rightarrow> batch \<times> batch list" where
  "selectRunnable deferred active =
     (if \<not> active then (merge deferred, [])
      else
        (let runnable = filter (\<lambda>b. ba_triage b = TriageParallel) deferred;
             held = filter (\<lambda>b. ba_triage b \<noteq> TriageParallel) deferred
         in if runnable = [] then (zero_batch, deferred) else (merge runnable, held)))"

text \<open>The first section of \<^verbatim>\<open>run\<close>: what the gate is asked about.\<close>

definition offered :: "coordinator \<Rightarrow> (run_error, batch) result" where
  "offered c =
     (if el_deferred c = [] then Inl ErrIdle
      else
        (let work = fst (selectRunnable (el_deferred c) (el_active c)) in
         if ba_events work = [] then Inl ErrBusy else Inr work))"

definition markDeferred :: "string \<Rightarrow> coordinator \<Rightarrow> coordinator" where
  "markDeferred reason c =
     (let c1 = c\<lparr>el_deferredBatches := el_deferredBatches c + 1,
                 el_deferReason := if blank reason then ''unspecified policy deferral'' else reason\<rparr>
      in if el_deferSinceNS c1 = 0
         then c1\<lparr>el_deferSinceNS := so_now (el_sources c1) (el_ticks c1), el_ticks := el_ticks c1 + 1\<rparr>
         else c1)"

text \<open>A run in flight: a parallel branch, or the run of an epoch.\<close>

datatype ticket = ParallelBranch | Epoch nat

text \<open>The second section of \<^verbatim>\<open>run\<close>: the selection is made again and the work is taken.\<close>

definition claim :: "coordinator \<Rightarrow> (run_error, coordinator \<times> batch \<times> ticket) result" where
  "claim c =
     (if el_deferred c = [] then Inl ErrIdle
      else
        (case selectRunnable (el_deferred c) (el_active c) of (work, held) \<Rightarrow>
          (if ba_events work = [] then Inl ErrBusy
           else
             (let c1 = c\<lparr>el_deferred := held\<rparr>;
                  c2 = (if held = [] then c1\<lparr>el_deferReason := [], el_deferSinceNS := 0\<rparr> else c1)
              in if ba_triage work = TriageParallel \<and> el_active c
                 then Inr (c2\<lparr>el_parallel := el_parallel c2 + 1, el_parallelRuns := el_parallelRuns c2 + 1\<rparr>,
                           work, ParallelBranch)
                 else Inr (c2\<lparr>el_active := True, el_activeEpoch := el_activeEpoch c2 + 1,
                              el_activeCancel := Some (el_activeEpoch c2 + 1)\<rparr>,
                           work, Epoch (el_activeEpoch c2 + 1))))))"

definition finish :: "nat \<Rightarrow> coordinator \<Rightarrow> coordinator" where
  "finish ep c =
     (let c1 = (if el_active c \<and> el_activeEpoch c = ep
                then c\<lparr>el_active := False, el_activeCancel := None\<rparr> else c)
      in if waiting c then notify c1 else c1)"

definition end_run :: "ticket \<Rightarrow> coordinator \<Rightarrow> coordinator" where
  "end_run tk c = (case tk of ParallelBranch \<Rightarrow> c\<lparr>el_parallel := el_parallel c - 1\<rparr> | Epoch ep \<Rightarrow> finish ep c)"

definition run_cause :: "ticket \<Rightarrow> coordinator \<Rightarrow> cause option" where
  "run_cause tk c = (case tk of ParallelBranch \<Rightarrow> None | Epoch ep \<Rightarrow> map_of (el_cancelled c) ep)"

datatype run_outcome = Stopped run_error batch | Ran batch "cause option"

text \<open>
  \<^verbatim>\<open>run\<close> by one goroutine: the gate is consulted on the offered batch (\<^const>\<open>None\<close> when no gate is
  installed), and \<open>process\<close> is what the processor and everyone else did while it ran.
\<close>

definition run :: "(batch \<Rightarrow> bool \<times> string) option \<Rightarrow> (batch \<Rightarrow> coordinator \<Rightarrow> coordinator) \<Rightarrow> batch \<Rightarrow>
    coordinator \<Rightarrow> coordinator \<times> run_outcome" where
  "run gate process committed c =
     (case offered c of
        Inl ErrBusy \<Rightarrow> (c, Stopped ErrBusy committed)
      | Inl f \<Rightarrow> (c, Stopped f zero_batch)
      | Inr work \<Rightarrow>
          (case (case gate of None \<Rightarrow> (True, []) | Some g \<Rightarrow> g work) of
             (False, reason) \<Rightarrow> (markDeferred reason c, Stopped (ErrDeferred reason) committed)
           | (True, _) \<Rightarrow>
               (case claim c of
                  Inl ErrBusy \<Rightarrow> (c, Stopped ErrBusy committed)
                | Inl f \<Rightarrow> (c, Stopped f zero_batch)
                | Inr (c1, b, tk) \<Rightarrow>
                    (let c2 = process b c1 in (end_run tk c2, Ran b (run_cause tk c2))))))"

definition RunNext :: "interference list \<Rightarrow> (batch \<Rightarrow> bool \<times> string) option \<Rightarrow>
    (batch \<Rightarrow> coordinator \<Rightarrow> coordinator) \<Rightarrow> coordinator \<Rightarrow> (coordinator \<times> run_outcome) option" where
  "RunNext ws gate process c =
     (case Commit ws c of
        None \<Rightarrow> None
      | Some (c', Inr b) \<Rightarrow> Some (run gate process b c')
      | Some (c', Inl ErrIdle) \<Rightarrow> Some (run gate process zero_batch c')
      | Some (c', Inl f) \<Rightarrow> Some (c', Stopped f zero_batch))"

record deferral_report =
  dp_reason :: string
  dp_events :: nat
  dp_items :: nat
  dp_sinceNS :: nat
  dp_start :: nat
  dp_end :: nat

definition DeferralReport :: "coordinator \<Rightarrow> deferral_report option" where
  "DeferralReport c =
     (if el_deferred c = [] then None
      else
        (let work = merge (el_deferred c) in
         Some \<lparr>dp_reason = el_deferReason c, dp_events = length (ba_events work), dp_items = length (ba_items work),
               dp_sinceNS = el_deferSinceNS c, dp_start = ba_start work, dp_end = ba_end work\<rparr>))"

subsection \<open>What an attempt to commit keeps\<close>

text \<open>An attempt draws identifiers and times and extends the store; nothing else of the coordinator changes.\<close>

definition attempted :: "coordinator \<Rightarrow> coordinator \<Rightarrow> bool" where
  "attempted c c' =
     (\<exists>st n t. c' = c\<lparr>el_store := st, el_ids := n, el_ticks := t\<rparr> \<and> extends (el_store c) st)"

lemma coordinator_update_id: "c\<lparr>el_store := el_store c, el_ids := el_ids c, el_ticks := el_ticks c\<rparr> = c"
  by (cases c) simp

lemma attempted_refl: "attempted c c"
  unfolding attempted_def using coordinator_update_id [of c] extends_refl by metis

lemma attempted_trans: "attempted a b \<Longrightarrow> attempted b c \<Longrightarrow> attempted a c"
  unfolding attempted_def using extends_trans by fastforce

lemma attempted_frame:
  assumes "attempted c c'"
  shows "el_sources c' = el_sources c" "el_maxPending c' = el_maxPending c" "el_reserved c' = el_reserved c"
    "el_pending c' = el_pending c" "el_eventIDs c' = el_eventIDs c" "el_nextSequence c' = el_nextSequence c"
    "el_nextSubmission c' = el_nextSubmission c" "el_deferred c' = el_deferred c" "el_active c' = el_active c"
    "el_signal c' = el_signal c" "el_activeEpoch c' = el_activeEpoch c" "extends (el_store c) (el_store c')"
  using assms by (auto simp: attempted_def)

lemma interfere_extends: "extends s (interfere bs s)"
proof (induction bs arbitrary: s)
  case (Cons b bs)
  have "extends s (case AppendBatch s b of Inl _ \<Rightarrow> s | Inr s' \<Rightarrow> s')"
    by (auto intro: extends_refl append_ops_extend(1) split: sum.split)
  with Cons.IH show ?case by (auto simp: interfere_def intro: extends_trans)
qed (simp add: interfere_def extends_refl)

lemma interfere_nil [simp]: "interfere [] s = s"
  by (simp add: interfere_def)

lemma append_external_extends: "append_external v items s = Inr s' \<Longrightarrow> extends s s'"
  by (auto simp: append_external_def extends_refl intro: append_ops_extend(2) split: if_splits)

lemma append_external_errors:
  "append_external v items s = Inl f \<Longrightarrow> v = length (st_items s) \<Longrightarrow> \<exists>n i k g. f = ItemError n i k g"
  "append_external v items s = Inl f \<Longrightarrow> (\<exists>m n. f = VersionConflict m n) \<or> (\<exists>n i k g. f = ItemError n i k g)"
proof -
  have "appendItems m s its = Inl f \<Longrightarrow> \<exists>n i k g. f = ItemError n i k g" for m s its
    by (induction its arbitrary: m s) (auto split: sum.splits)
  then show "append_external v items s = Inl f \<Longrightarrow> v = length (st_items s) \<Longrightarrow> \<exists>n i k g. f = ItemError n i k g"
    "append_external v items s = Inl f \<Longrightarrow> (\<exists>m n. f = VersionConflict m n) \<or> (\<exists>n i k g. f = ItemError n i k g)"
    by (auto simp: append_external_def AppendBatchAt_def appendBatch_def appendBatchLocked_def split: if_splits)
qed

lemma commitQueued_cases:
  assumes "commitQueued w q c = (c', r)"
  obtains (compile) f and cp :: compiling where "r = Inl (CompileFailed f)" "c' = c\<lparr>el_ids := cp_ids cp, el_ticks := cp_ticks cp\<rparr>"
      "compile (el_sources c) (el_ids c) (el_ticks c) (Snapshot (el_store c)) (map qe_event (sort_key qe_sequence q)) = (Some f, cp)"
  | (store) f and cp :: compiling where "r = Inl (StoreFailed f)"
      "c' = c\<lparr>el_ids := cp_ids cp + 1, el_ticks := cp_ticks cp, el_store := interfere (fst w) (el_store c)\<rparr>"
      "append_external (length (st_items (el_store c)))
        (markBatch (so_nextID (el_sources c) ''batch'' (cp_ids cp)) (cp_items cp)) (interfere (fst w) (el_store c)) = Inl f"
  | (committed) b and cp :: compiling and st where "r = Inr b"
      "c' = c\<lparr>el_ids := cp_ids cp + 1, el_ticks := cp_ticks cp, el_store := interfere (snd w) st\<rparr>"
      "compile (el_sources c) (el_ids c) (el_ticks c) (Snapshot (el_store c)) (map qe_event (sort_key qe_sequence q)) = (None, cp)"
      "append_external (length (st_items (el_store c)))
        (markBatch (so_nextID (el_sources c) ''batch'' (cp_ids cp)) (cp_items cp)) (interfere (fst w) (el_store c)) = Inr st"
      "ba_events b = map qe_event (sort_key qe_sequence q)" "ba_items b = drop (length (st_items (el_store c))) (st_items (el_store c'))"
      "ba_start b = length (st_items (el_store c))" "ba_end b = length (st_items (el_store c'))"
proof -
  obtain e cp where k: "compile (el_sources c) (el_ids c) (el_ticks c) (Snapshot (el_store c)) (map qe_event (sort_key qe_sequence q)) = (e, cp)"
    by force
  show thesis
  proof (cases e)
    case (Some f)
    with k assms compile show ?thesis by (auto simp: commitQueued_def Let_def)
  next
    case None
    let ?m = "markBatch (so_nextID (el_sources c) ''batch'' (cp_ids cp)) (cp_items cp)"
    show ?thesis
    proof (cases "append_external (length (st_items (el_store c))) ?m (interfere (fst w) (el_store c))")
      case (Inl f)
      with None k assms store [of f cp] show ?thesis
        by (auto simp: commitQueued_def Let_def Snapshot_def)
    next
      case (Inr st)
      with None k assms committed [of _ st cp] show ?thesis
        by (auto simp: commitQueued_def Let_def Snapshot_def)
    qed
  qed
qed

lemma commitQueued_attempted:
  assumes "commitQueued w q c = (c', r)"
  shows "attempted c c'"
  using assms
proof (cases rule: commitQueued_cases)
  case (compile f cp)
  then have "c' = c\<lparr>el_store := el_store c, el_ids := cp_ids cp, el_ticks := cp_ticks cp\<rparr>" by simp
  then show ?thesis unfolding attempted_def using extends_refl by blast
next
  case (store f cp)
  then have "c' = c\<lparr>el_store := interfere (fst w) (el_store c), el_ids := cp_ids cp + 1, el_ticks := cp_ticks cp\<rparr>" by simp
  then show ?thesis unfolding attempted_def using interfere_extends by blast
next
  case (committed b cp st)
  have "extends (el_store c) (interfere (snd w) st)"
    using append_external_extends [OF committed(4)] interfere_extends extends_trans by metis
  moreover have "c' = c\<lparr>el_store := interfere (snd w) st, el_ids := cp_ids cp + 1, el_ticks := cp_ticks cp\<rparr>"
    using committed(2) by simp
  ultimately show ?thesis unfolding attempted_def by blast
qed

text \<open>An attempt during which no other writer appends cannot meet a version conflict.\<close>

definition quiet :: "interference \<Rightarrow> bool" where
  "quiet w = (fst w = [])"

lemma quiet_no_conflict:
  assumes "commitQueued w q c = (c', Inl f)" and "quiet w"
  shows "f \<noteq> StoreFailed (VersionConflict m n)"
  using assms(1)
proof (cases rule: commitQueued_cases)
  case (store g cp)
  then show ?thesis using append_external_errors(1) [OF store(3)] assms(2) by (auto simp: quiet_def)
qed auto

subsection \<open>The commit loop\<close>

definition is_conflict :: "commit_error \<Rightarrow> bool" where
  "is_conflict f = (case f of StoreFailed (VersionConflict _ _) \<Rightarrow> True | _ \<Rightarrow> False)"

lemma admissible_cases:
  assumes "commitAdmissible (w # ws) q refused c = out"
  obtains c' b where "commitQueued w (sort_key qe_sequence q) c = (c', Inr b)" "out = Some (c', Inr (b, refused))"
  | c' f where "commitQueued w (sort_key qe_sequence q) c = (c', Inl f)" "is_conflict f"
      "commitAdmissible ws (sort_key qe_sequence q) refused c' = out"
  | c' f where "commitQueued w (sort_key qe_sequence q) c = (c', Inl f)" "\<not> is_conflict f" "out = Some (c', Inl f)"
      "(\<exists>n i k g. f = StoreFailed (ItemError n i k g)) \<longrightarrow> length q \<le> 1"
  | c' f i where "commitQueued w (sort_key qe_sequence q) c = (c', Inl f)" "\<not> is_conflict f" "i < length q" "1 < length q"
      "commitAdmissible ws (take i (sort_key qe_sequence q) @ drop (i + 1) (sort_key qe_sequence q))
         (refused @ [sort_key qe_sequence q ! i]) c' = out"
      "\<exists>n k kd g. f = StoreFailed (ItemError n k kd g) \<and> i = min n (length q - 1)"
proof -
  let ?q = "sort_key qe_sequence q"
  obtain c' r where k: "commitQueued w ?q c = (c', r)" by force
  show thesis
  proof (cases r)
    case (Inr b)
    with k assms that(1) show ?thesis by (simp add: Let_def)
  next
    case (Inl f)
    show ?thesis
    proof (cases "\<exists>n i kd g. f = StoreFailed (ItemError n i kd g) \<and> 1 < length q")
      case True
      then obtain n i kd g where f: "f = StoreFailed (ItemError n i kd g)" and l: "1 < length q" by blast
      have "\<not> is_conflict f" by (simp add: f is_conflict_def)
      moreover have "commitAdmissible ws (take (min n (length q - 1)) ?q @ drop (min n (length q - 1) + 1) ?q)
          (refused @ [?q ! min n (length q - 1)]) c' = out"
        using assms k Inl f l by (simp add: Let_def)
      moreover have "min n (length q - 1) < length q" using l by linarith
      ultimately show ?thesis using that(4) [of c' f "min n (length q - 1)"] k Inl l f by simp
    next
      case False
      then show ?thesis
        using assms k Inl that(2,3) [of c' f]
        by (auto simp: Let_def is_conflict_def not_less split: commit_error.splits append_error.splits if_splits)
    qed
  qed
qed

lemma mset_take_out: "i < length q \<Longrightarrow> add_mset (q ! i) (mset (take i q @ drop (i + 1) q)) = mset q"
  using id_take_nth_drop [of i q] by (metis Suc_eq_plus1 mset_append mset.simps(2) union_mset_add_mset_right)

lemma sort_key_Nil [simp]: "sort_key f q = [] \<longleftrightarrow> q = []"
  by (metis length_0_conv length_sort)

lemma take_out_not_Nil: "1 < length q \<Longrightarrow> take i q @ drop (i + 1) q \<noteq> []"
  by (cases i; cases q) auto

lemma admissible_outcome:
  "commitAdmissible ws q refused c = Some (c', r) \<Longrightarrow>
   attempted c c' \<and>
   (case r of
      Inl f \<Rightarrow> \<not> is_conflict f
    | Inr (b, refused') \<Rightarrow>
        \<exists>kept. mset kept + mset refused' = mset q + mset refused \<and> ba_events b = map qe_event kept
          \<and> (q \<noteq> [] \<longrightarrow> kept \<noteq> []))"
proof (induction ws arbitrary: q refused c)
  case (Cons w ws)
  let ?q = "sort_key qe_sequence q"
  from Cons.prems show ?case
  proof (cases rule: admissible_cases)
    case (1 c1 b)
    have "ba_events b = map qe_event (sort_key qe_sequence ?q)"
      using 1(1) by (cases rule: commitQueued_cases) auto
    with 1 commitQueued_attempted [OF 1(1)] show ?thesis
      by (auto intro!: exI [of _ "sort_key qe_sequence ?q"])
  next
    case (2 c1 f)
    from Cons.IH [OF 2(3)] attempted_trans [OF commitQueued_attempted [OF 2(1)]] show ?thesis
      by (simp split: sum.splits prod.splits)
  next
    case (3 c1 f)
    with commitQueued_attempted [OF 3(1)] show ?thesis by simp
  next
    case (4 c1 f i)
    let ?rest = "take i ?q @ drop (i + 1) ?q"
    have m: "mset ?rest + mset (refused @ [?q ! i]) = mset q + mset refused"
      using mset_take_out [of i ?q] 4(3) by (simp add: union_commute)
    have "?rest \<noteq> []" by (rule take_out_not_Nil) (use 4(4) in simp)
    with Cons.IH [OF 4(5), unfolded m] attempted_trans [OF commitQueued_attempted [OF 4(1)]] show ?thesis
      by (auto split: sum.splits prod.splits)
  qed
qed simp

text \<open>
  Why an event of a group is given up: in an attempt at a part of the group, at a store the log has been
  through since, the log refused an item and the event stands at that item's place; or the part the event
  was in did not compile.
\<close>

definition tried :: "sources \<Rightarrow> store \<Rightarrow> queued list \<Rightarrow> queued list \<Rightarrow> commit_error \<Rightarrow> bool" where
  "tried src st q part f \<longleftrightarrow> part \<noteq> [] \<and> set part \<subseteq> set q
     \<and> (\<exists>w c c'. commitQueued w part c = (c', Inl f) \<and> el_sources c = src \<and> extends (el_store c) st)"

definition refused_by_log :: "sources \<Rightarrow> store \<Rightarrow> queued list \<Rightarrow> queued \<Rightarrow> bool" where
  "refused_by_log src st q x \<longleftrightarrow>
     (\<exists>part n i k e. tried src st q part (StoreFailed (ItemError n i k e)) \<and> x = part ! min n (length part - 1))"

definition uncompiled_with :: "sources \<Rightarrow> store \<Rightarrow> queued list \<Rightarrow> commit_error \<Rightarrow> queued \<Rightarrow> bool" where
  "uncompiled_with src st q f x \<longleftrightarrow> (\<exists>part e. tried src st q part f \<and> f = CompileFailed e \<and> x \<in> set part)"

definition given_up :: "sources \<Rightarrow> store \<Rightarrow> queued list \<Rightarrow> commit_error \<Rightarrow> queued \<Rightarrow> bool" where
  "given_up src st q f x \<longleftrightarrow> refused_by_log src st q x \<or> uncompiled_with src st q f x"

lemma tried_later: "tried src st p part f \<Longrightarrow> extends st st' \<Longrightarrow> set p \<subseteq> set q \<Longrightarrow> tried src st' q part f"
  unfolding tried_def using extends_trans by blast

lemma refused_by_log_later: "refused_by_log src st p x \<Longrightarrow> extends st st' \<Longrightarrow> set p \<subseteq> set q \<Longrightarrow> refused_by_log src st' q x"
  unfolding refused_by_log_def using tried_later by (elim exE conjE) blast

lemma uncompiled_with_later: "uncompiled_with src st p f x \<Longrightarrow> extends st st' \<Longrightarrow> set p \<subseteq> set q \<Longrightarrow> uncompiled_with src st' q f x"
  unfolding uncompiled_with_def using tried_later by blast

lemma given_up_later: "given_up src st p f x \<Longrightarrow> extends st st' \<Longrightarrow> set p \<subseteq> set q \<Longrightarrow> given_up src st' q f x"
  unfolding given_up_def using uncompiled_with_later refused_by_log_later by blast

lemma admissible_losses:
  "commitAdmissible ws q refused c = Some (c', r) \<Longrightarrow> q \<noteq> [] \<Longrightarrow>
   (case r of
      Inl f \<Rightarrow> \<forall>x\<in>set q. given_up (el_sources c) (el_store c') q f x
    | Inr (b, refused') \<Rightarrow> \<exists>gone. refused' = refused @ gone
        \<and> (\<forall>x\<in>set gone. refused_by_log (el_sources c) (el_store c') q x))"
proof (induction ws arbitrary: q refused c)
  case (Cons w ws)
  let ?q = "sort_key qe_sequence q"
  have now: "tried (el_sources c) (el_store c1) q ?q f" if "commitQueued w ?q c = (c1, Inl f)" for c1 f
    unfolding tried_def
  proof (intro conjI exI)
    show "commitQueued w ?q c = (c1, Inl f)" by (rule that)
    show "extends (el_store c) (el_store c1)" by (rule attempted_frame(12) [OF commitQueued_attempted [OF that]])
  qed (use Cons.prems(2) in simp_all)
  from Cons.prems(1) show ?case
  proof (cases rule: admissible_cases)
    case (1 c1 b)
    then show ?thesis by simp
  next
    case (2 c1 f)
    have "el_sources c1 = el_sources c" by (rule attempted_frame(1) [OF commitQueued_attempted [OF 2(1)]])
    moreover have "refused_by_log src st ?q x = refused_by_log src st q x" "given_up src st ?q f x = given_up src st q f x" for src st f x
      by (simp_all add: given_up_def refused_by_log_def uncompiled_with_def tried_def)
    ultimately show ?thesis using Cons.IH [OF 2(3)] Cons.prems(2) by (simp split: sum.splits prod.splits)
  next
    case (3 c1 f)
    note t = now [OF 3(1)]
    have "given_up (el_sources c) (el_store c1) q f x" if x: "x \<in> set q" for x
    proof (cases "\<exists>e. f = CompileFailed e")
      case True
      then show ?thesis using t x unfolding given_up_def uncompiled_with_def by fastforce
    next
      case False
      from 3(1) False obtain g where g: "f = StoreFailed g" "(\<exists>m n. g = VersionConflict m n) \<or> (\<exists>n i k e. g = ItemError n i k e)"
        by (cases rule: commitQueued_cases) (auto dest: append_external_errors(2))
      with 3(2) obtain n i k e where f: "f = StoreFailed (ItemError n i k e)" by (auto simp: is_conflict_def)
      then obtain y where "q = [y]" using 3(4) Cons.prems(2) by (cases q) auto
      with x have "x = ?q ! min n (length ?q - 1)" by simp
      then show ?thesis using t f unfolding given_up_def refused_by_log_def by blast
    qed
    with 3(3) show ?thesis by simp
  next
    case (4 c1 f i)
    let ?rest = "take i ?q @ drop (i + 1) ?q"
    have e: "extends (el_store c1) (el_store c')"
      using admissible_outcome [OF 4(5)] attempted_frame(12) by blast
    have s: "el_sources c1 = el_sources c" by (rule attempted_frame(1) [OF commitQueued_attempted [OF 4(1)]])
    have i: "i < length ?q" using 4(3) by simp
    have m: "set ?rest \<subseteq> set q" "set q = insert (?q ! i) (set ?rest)"
      using mset_take_out [OF i, THEN arg_cong, of set_mset] by auto
    obtain n k kd g where f: "f = StoreFailed (ItemError n k kd g)" "i = min n (length q - 1)" using 4(6) by blast
    have r1: "refused_by_log (el_sources c) (el_store c1) q (?q ! i)"
      unfolding refused_by_log_def using now [OF 4(1)] f by fastforce
    have r: "refused_by_log (el_sources c) (el_store c') q (?q ! i)"
      by (rule refused_by_log_later [OF r1 e]) simp
    have "?rest \<noteq> []" by (rule take_out_not_Nil) (use 4(4) in simp)
    note ih = Cons.IH [OF 4(5) this, unfolded s]
    show ?thesis
    proof (cases r)
      case (Inl f')
      have "given_up (el_sources c) (el_store c') q f' x" if "x \<in> set ?rest" for x
        using ih that given_up_later [OF _ extends_refl m(1)] by (simp add: Inl del: set_append)
      with r m(2) show ?thesis by (auto simp: Inl given_up_def)
    next
      case (Inr br)
      obtain b refused' where br: "br = (b, refused')" by (cases br)
      from ih obtain gone where gone: "refused' = refused @ ?q ! i # gone"
        "\<forall>x\<in>set gone. refused_by_log (el_sources c) (el_store c') ?rest x"
        by (auto simp: Inr br)
      have "\<forall>x\<in>set gone. refused_by_log (el_sources c) (el_store c') q x"
        using gone(2) refused_by_log_later [OF _ extends_refl m(1)] by blast
      with gone(1) r show ?thesis by (auto simp: Inr br)
    qed
  qed
qed simp

lemma admissible_terminates:
  "q \<noteq> [] \<Longrightarrow> length q \<le> length (filter quiet ws) \<Longrightarrow> commitAdmissible ws q refused c \<noteq> None"
proof (induction ws arbitrary: q refused c)
  case (Cons w ws)
  let ?q = "sort_key qe_sequence q"
  obtain out where out: "commitAdmissible (w # ws) q refused c = out" by blast
  then have "out \<noteq> None"
  proof (cases rule: admissible_cases)
    case (2 c1 f)
    then have "\<not> quiet w" using quiet_no_conflict [OF 2(1)]
      by (auto simp: is_conflict_def split: commit_error.splits append_error.splits)
    with Cons.prems Cons.IH [of ?q refused c1] 2(3) show ?thesis by simp
  next
    case (4 c1 f i)
    let ?rest = "take i ?q @ drop (i + 1) ?q"
    have "?rest \<noteq> []" by (rule take_out_not_Nil) (use 4(4) in simp)
    moreover have "length ?rest = length q - 1" using 4(3,4) by simp
    moreover from this have "length ?rest \<le> length (filter quiet ws)"
      using Cons.prems(2) by (cases "quiet w") simp_all
    ultimately show ?thesis using Cons.IH 4(5) by blast
  qed simp_all
  with out show ?case by simp
qed simp

subsection \<open>Partition of a commit\<close>

lemma sum_list_change:
  "i < length xs \<Longrightarrow> f (y :: 'a) = f (xs ! i) + d \<Longrightarrow>
   sum_list (map f (xs[i := y])) = sum_list (map f xs) + (d :: 'b multiset)"
proof (induction xs arbitrary: i)
  case (Cons x xs)
  then show ?case by (cases i) (auto simp: ac_simps)
qed simp

lemma map_update_same: "f y = f (xs ! i) \<Longrightarrow> map f (xs[i := y]) = map f xs"
  by (metis list_update_id map_update)

definition partitions_ok :: "batch list \<times> (nat, nat) gomap \<times> (string, nat) gomap \<Rightarrow> bool" where
  "partitions_ok acc = (case acc of (ps, bs, be) \<Rightarrow>
     (\<forall>k i. map_of bs k = Some i \<longrightarrow> i < length ps) \<and> (\<forall>k i. map_of be k = Some i \<longrightarrow> i < length ps)
     \<and> (\<forall>p\<in>set ps. ba_events p \<noteq> [] \<and> ba_items p = [] \<and> \<not> ba_deferred p
          \<and> (ba_triage p = TriageParallel \<longleftrightarrow> list_all (\<lambda>e. TriageOf (en_priority e) = TriageParallel) (ba_events p))))"

lemma join_partition_simps [simp]:
  "ba_events (join_partition e p) = ba_events p @ [e]" "ba_items (join_partition e p) = ba_items p"
  "ba_deferred (join_partition e p) = ba_deferred p"
  "ba_triage (join_partition e p) = TriageParallel \<longleftrightarrow>
     ba_triage p = TriageParallel \<and> TriageOf (en_priority e) = TriageParallel"
  by (auto simp: join_partition_def Let_def)

lemma new_partition_simps [simp]:
  "ba_events (new_partition b) = []" "ba_items (new_partition b) = []" "\<not> ba_deferred (new_partition b)"
  "ba_triage (new_partition b) = TriageParallel"
  by (simp_all add: new_partition_def zero_batch_def)

lemma partition_events_spec:
  "partition_events b sbe es (ps, bs, be) = (ps', bs', be') \<Longrightarrow> partitions_ok (ps, bs, be) \<Longrightarrow>
   partitions_ok (ps', bs', be') \<and> length ps \<le> length ps'
   \<and> (\<Sum>p\<leftarrow>ps'. mset (ba_events p)) = (\<Sum>p\<leftarrow>ps. mset (ba_events p)) + mset es
   \<and> (es \<noteq> [] \<longrightarrow> ps' \<noteq> [])"
proof (induction es arbitrary: ps bs be)
  case (Cons e es)
  define sub where "sub = (case map_of sbe (en_eventID e) of None \<Rightarrow> 0 | Some s \<Rightarrow> s)"
  show ?case
  proof (cases "map_of bs sub")
    case None
    let ?ps = "ps @ [join_partition e (new_partition b)]"
    from Cons.prems(1) None have r: "partition_events b sbe es (?ps, AList.update sub (length ps) bs,
        AList.update (en_eventID e) (length ps) be) = (ps', bs', be')"
      by (simp add: sub_def [symmetric])
    have ok: "partitions_ok (?ps, AList.update sub (length ps) bs, AList.update (en_eventID e) (length ps) be)"
      using Cons.prems(2) by (auto simp: partitions_ok_def less_Suc_eq)
    from Cons.IH [OF r ok] show ?thesis by (auto simp: ac_simps)
  next
    case (Some i)
    let ?ps = "ps[i := join_partition e (ps ! i)]"
    from Cons.prems(1) Some have r: "partition_events b sbe es (?ps, bs, AList.update (en_eventID e) i be) = (ps', bs', be')"
      by (simp add: sub_def [symmetric])
    have i: "i < length ps" using Cons.prems(2) Some by (auto simp: partitions_ok_def)
    then have "ps ! i \<in> set ps" by simp
    then have ok: "partitions_ok (?ps, bs, AList.update (en_eventID e) i be)"
      using Cons.prems(2) i by (auto simp: partitions_ok_def dest!: subsetD [OF set_update_subset_insert])
    have s: "(\<Sum>p\<leftarrow>?ps. mset (ba_events p)) = (\<Sum>p\<leftarrow>ps. mset (ba_events p)) + {#e#}"
      by (rule sum_list_change [OF i]) simp
    from Cons.IH [OF r ok] s i show ?thesis by auto
  qed
qed auto

lemma partition_items_spec:
  "ps \<noteq> [] \<Longrightarrow> (\<forall>k i. map_of be k = Some i \<longrightarrow> i < length ps) \<Longrightarrow>
   map ba_events (partition_items be its ps) = map ba_events ps
   \<and> map ba_triage (partition_items be its ps) = map ba_triage ps
   \<and> (\<Sum>p\<leftarrow>partition_items be its ps. mset (ba_items p)) = (\<Sum>p\<leftarrow>ps. mset (ba_items p)) + mset its"
proof (induction its arbitrary: ps)
  case (Cons it its)
  define i where "i = (case item_event it of None \<Rightarrow> 0
               | Some m \<Rightarrow> (case map_of be (ev_eventID m) of None \<Rightarrow> 0 | Some i \<Rightarrow> i))"
  let ?ps = "ps[i := (ps ! i)\<lparr>ba_items := ba_items (ps ! i) @ [it]\<rparr>]"
  have i: "i < length ps" using Cons.prems by (auto simp: i_def split: option.splits)
  have s: "(\<Sum>p\<leftarrow>?ps. mset (ba_items p)) = (\<Sum>p\<leftarrow>ps. mset (ba_items p)) + {#it#}"
    by (rule sum_list_change [OF i]) simp
  have m: "map ba_events ?ps = map ba_events ps" "map ba_triage ?ps = map ba_triage ps"
    by (simp_all add: map_update_same)
  have "partition_items be (it # its) ps = partition_items be its ?ps" by (simp add: i_def Let_def)
  moreover have "?ps \<noteq> []" "\<forall>k j. map_of be k = Some j \<longrightarrow> j < length ?ps" using Cons.prems by simp_all
  from Cons.IH [OF this] have "map ba_events (partition_items be its ?ps) = map ba_events ps"
    "map ba_triage (partition_items be its ?ps) = map ba_triage ps"
    "(\<Sum>p\<leftarrow>partition_items be its ?ps. mset (ba_items p)) = (\<Sum>p\<leftarrow>ps. mset (ba_items p)) + {#it#} + mset its"
    unfolding s m by blast+
  ultimately show ?case by simp
qed simp

lemma partition_spec:
  assumes "ba_events b \<noteq> []"
  shows "(\<Sum>p\<leftarrow>partitionCommittedBatch b q. mset (ba_events p)) = mset (ba_events b)"
    and "(\<Sum>p\<leftarrow>partitionCommittedBatch b q. mset (ba_items p)) = mset (ba_items b)"
    and "\<forall>p\<in>set (partitionCommittedBatch b q). ba_events p \<noteq> []
      \<and> (ba_triage p = TriageParallel \<longleftrightarrow> list_all (\<lambda>e. TriageOf (en_priority e) = TriageParallel) (ba_events p))"
proof -
  let ?sbe = "fold (\<lambda>x. AList.update (en_eventID (qe_event x)) (qe_submission x)) q []"
  obtain ps bs be where r: "partition_events b ?sbe (ba_events b) ([], [], []) = (ps, bs, be)" by (rule prod_cases3)
  have "partitions_ok ([], [], [])" by (simp add: partitions_ok_def)
  note e = partition_events_spec [OF r this]
  then have ok: "partitions_ok (ps, bs, be)" and ne: "ps \<noteq> []"
    and se: "(\<Sum>p\<leftarrow>ps. mset (ba_events p)) = mset (ba_events b)" using assms by auto
  have it: "(\<Sum>p\<leftarrow>ps. mset (ba_items p)) = {#}" using ok by (auto simp: partitions_ok_def intro!: sum_list_0 cong: map_cong)
  have p: "partitionCommittedBatch b q = partition_items be (ba_items b) ps"
    using assms r by (simp add: partitionCommittedBatch_def Let_def)
  have i: "map ba_events (partition_items be (ba_items b) ps) = map ba_events ps
   \<and> map ba_triage (partition_items be (ba_items b) ps) = map ba_triage ps
   \<and> (\<Sum>p\<leftarrow>partition_items be (ba_items b) ps. mset (ba_items p)) = (\<Sum>p\<leftarrow>ps. mset (ba_items p)) + mset (ba_items b)"
    by (rule partition_items_spec [OF ne]) (use ok in \<open>auto simp: partitions_ok_def\<close>)
  have me: "map (mset \<circ> ba_events) (partitionCommittedBatch b q) = map (mset \<circ> ba_events) ps"
    using i unfolding p by (metis map_map)
  show "(\<Sum>p\<leftarrow>partitionCommittedBatch b q. mset (ba_events p)) = mset (ba_events b)"
    using arg_cong [OF me, of sum_list] se by (simp add: comp_def)
  show "(\<Sum>p\<leftarrow>partitionCommittedBatch b q. mset (ba_items p)) = mset (ba_items b)"
    using i it unfolding p by simp
  have same: "\<exists>p'\<in>set ps. ba_events p' = ba_events p \<and> ba_triage p' = ba_triage p"
    if "p \<in> set (partitionCommittedBatch b q)" for p
  proof -
    from that obtain n where n: "n < length (partition_items be (ba_items b) ps)" "p = partition_items be (ba_items b) ps ! n"
      unfolding p by (auto simp: in_set_conv_nth)
    have l: "length (partition_items be (ba_items b) ps) = length ps" using i map_eq_imp_length_eq by blast
    have "ba_events (ps ! n) = ba_events p" "ba_triage (ps ! n) = ba_triage p"
      using i n l nth_map by metis+
    with n(1) l show ?thesis by (intro bexI [of _ "ps ! n"]) simp_all
  qed
  show "\<forall>p\<in>set (partitionCommittedBatch b q). ba_events p \<noteq> []
      \<and> (ba_triage p = TriageParallel \<longleftrightarrow> list_all (\<lambda>e. TriageOf (en_priority e) = TriageParallel) (ba_events p))"
  proof
    fix p assume "p \<in> set (partitionCommittedBatch b q)"
    from same [OF this] obtain p' where p': "p' \<in> set ps" "ba_events p' = ba_events p" "ba_triage p' = ba_triage p" by blast
    have "ba_events p' \<noteq> [] \<and> (ba_triage p' = TriageParallel \<longleftrightarrow>
        list_all (\<lambda>e. TriageOf (en_priority e) = TriageParallel) (ba_events p'))"
      using ok p'(1) by (auto simp: partitions_ok_def)
    then show "ba_events p \<noteq> [] \<and> (ba_triage p = TriageParallel \<longleftrightarrow>
        list_all (\<lambda>e. TriageOf (en_priority e) = TriageParallel) (ba_events p))"
      unfolding p'(2,3) .
  qed
qed

subsection \<open>Ingress\<close>

text \<open>An event as it is queued: the submitted one, with an identifier generated when it had none.\<close>

definition identified :: "event \<Rightarrow> event \<Rightarrow> bool" where
  "identified e e' = (e' = e\<lparr>en_eventID := en_eventID e'\<rparr> \<and> (en_eventID e = [] \<or> e' = e))"

lemma event_id_update [simp]: "e\<lparr>en_eventID := en_eventID e\<rparr> = e"
  by (cases e) simp

lemma assign_ids_identified: "list_all2 identified es (fst (assign_ids src n es))"
  by (induction es arbitrary: n) (simp_all add: identified_def split_beta Let_def)

definition ingress_limit :: "coordinator \<Rightarrow> event \<Rightarrow> int" where
  "ingress_limit c e = (if en_priority e = PriorityRoutine then el_maxPending c - el_reserved c else el_maxPending c)"

lemma admit_fault_None:
  "admit_fault c i seen es = None \<Longrightarrow>
   (\<forall>k<length es. int (length (el_pending c) + i + k) < ingress_limit c (es ! k))
   \<and> distinct (map en_eventID es) \<and> en_eventID ` set es \<inter> set seen = {}
   \<and> (\<forall>e\<in>set es. \<not> gm_has (el_eventIDs c) (en_eventID e))"
proof (induction es arbitrary: i seen)
  case (Cons e es)
  have h: "int (length (el_pending c) + i) < ingress_limit c e" "map_of (el_eventIDs c) (en_eventID e) = None"
    "en_eventID e \<notin> set seen" and t: "admit_fault c (i + 1) (en_eventID e # seen) es = None"
    using Cons.prems by (auto simp: ingress_limit_def Let_def simp del: not_Some_eq not_None_eq split: if_splits)
  note ih = Cons.IH [OF t]
  have "int (length (el_pending c) + i + k) < ingress_limit c ((e # es) ! k)" if "k < length (e # es)" for k
    using h(1) ih that by (cases k) auto
  with h ih show ?case by auto
qed simp

lemma enqueue_events [simp]: "map qe_event (enqueue sq sub es) = es" "length (enqueue sq sub es) = length es"
  by (induction es arbitrary: sq) auto

lemma enqueue_submission: "x \<in> set (enqueue sq sub es) \<Longrightarrow> qe_submission x = sub"
  by (induction es arbitrary: sq) auto

lemma cancel_active_frame [simp]:
  "el_pending (cancel_active w c) = el_pending c" "el_deferred (cancel_active w c) = el_deferred c"
  "el_maxPending (cancel_active w c) = el_maxPending c" "el_reserved (cancel_active w c) = el_reserved c"
  "el_eventIDs (cancel_active w c) = el_eventIDs c" "el_nextSubmission (cancel_active w c) = el_nextSubmission c"
  "el_store (cancel_active w c) = el_store c" "el_activeCancel (cancel_active w c) = el_activeCancel c"
  by (simp_all add: cancel_active_def split: option.split)

lemma cancel_active_done: "el_activeCancel c = Some ep \<Longrightarrow> gm_has (el_cancelled (cancel_active w c)) ep"
  by (simp add: cancel_active_def)

lemma SubmitBatch_error:
  assumes "SubmitBatch events c = (c', Inl f)"
  shows "\<exists>n. c' = c\<lparr>el_ids := n\<rparr>"
proof -
  obtain es n where a: "assign_ids (el_sources c) (el_ids c) events = (es, n)" by force
  have id: "c = c\<lparr>el_ids := el_ids c\<rparr>" by (cases c) simp
  have "c' = c \<or> c' = c\<lparr>el_ids := n\<rparr>"
    using assms by (auto simp: SubmitBatch_def a Let_def split: if_splits option.splits)
  then show ?thesis using id by metis
qed

lemma SubmitBatch_success:
  assumes "SubmitBatch events c = (c', Inr ids)"
  obtains es n where "list_all2 identified events es" "events \<noteq> []" "admit_fault (c\<lparr>el_ids := n\<rparr>) 0 [] es = None"
    "ids = map en_eventID es" "el_signal c'"
    "el_pending c' = el_pending c @ enqueue (el_nextSequence c) (el_nextSubmission c + 1) es"
    "el_deferred c' = el_deferred c" "el_maxPending c' = el_maxPending c" "el_reserved c' = el_reserved c"
    "list_ex (\<lambda>e. en_priority e = PriorityInterrupt) es \<longrightarrow>
       (\<forall>ep. el_activeCancel c = Some ep \<longrightarrow> gm_has (el_cancelled c') ep)"
    "list_all (\<lambda>e. validateEvent e = None) events"
proof -
  obtain es n where a: "assign_ids (el_sources c) (el_ids c) events = (es, n)" by force
  have i: "list_all2 identified events es" using assign_ids_identified [of events "el_sources c" "el_ids c"] a by simp
  have v: "validate_all k evs = None \<Longrightarrow> list_all (\<lambda>e. validateEvent e = None) evs" for k evs
    by (induction evs arbitrary: k) (auto split: option.splits)
  from assms have ne: "events \<noteq> []" and va: "validate_all 0 events = None"
    and ad: "admit_fault (c\<lparr>el_ids := n\<rparr>) 0 [] es = None" and ids: "ids = map en_eventID es"
    and c': "c' = notify (if list_ex (\<lambda>e. en_priority e = PriorityInterrupt) es
               then cancel_active ErrInterrupted (queue_events es (c\<lparr>el_ids := n\<rparr>)) else queue_events es (c\<lparr>el_ids := n\<rparr>))"
    by (auto simp: SubmitBatch_def a Let_def split: if_splits option.splits)
  show thesis
  proof (rule that [OF i ne ad ids])
    show "el_signal c'" by (simp add: c' notify_def)
    show "list_ex (\<lambda>e. en_priority e = PriorityInterrupt) es \<longrightarrow>
       (\<forall>ep. el_activeCancel c = Some ep \<longrightarrow> gm_has (el_cancelled c') ep)"
      using cancel_active_done [of "queue_events es (c\<lparr>el_ids := n\<rparr>)" _ ErrInterrupted]
      by (auto simp: c' notify_def queue_events_def)
    show "list_all (\<lambda>e. validateEvent e = None) events" by (rule v [OF va])
  qed (simp_all add: c' notify_def queue_events_def)
qed

subsection \<open>Selection\<close>

definition events_of :: "batch list \<Rightarrow> event multiset" where
  "events_of bs = (\<Sum>b\<leftarrow>bs. mset (ba_events b))"

lemma events_of_simps [simp]:
  "events_of [] = {#}" "events_of (b # bs) = mset (ba_events b) + events_of bs"
  "events_of (bs @ cs) = events_of bs + events_of cs"
  by (simp_all add: events_of_def)

lemma mset_merge: "mset (ba_events (merge bs)) = events_of bs"
proof (cases "bs = []")
  case False
  have "mset (concat (map ba_events bs)) = events_of bs" by (induction bs) auto
  with False show ?thesis by (simp add: merge_result)
qed (simp add: merge_def zero_batch_def)

lemma events_of_filter: "events_of (filter P bs) + events_of (filter (\<lambda>b. \<not> P b) bs) = events_of bs"
  by (induction bs) (auto simp: ac_simps)

lemma selectRunnable_events:
  assumes "selectRunnable bs active = (work, held)"
  shows "events_of bs = mset (ba_events work) + events_of held" "set held \<subseteq> set bs"
    "active \<longrightarrow> held = filter (\<lambda>b. ba_triage b \<noteq> TriageParallel) bs \<or> ba_events work = []"
    "active \<longrightarrow> ba_events work = [] \<or> ba_triage work = TriageParallel"
proof -
  have f: "events_of bs = events_of (filter (\<lambda>b. ba_triage b = TriageParallel) bs)
      + events_of (filter (\<lambda>b. ba_triage b \<noteq> TriageParallel) bs)"
    using events_of_filter by metis
  have p: "ba_triage (merge (filter (\<lambda>b. ba_triage b = TriageParallel) bs)) = TriageParallel"
    if "filter (\<lambda>b. ba_triage b = TriageParallel) bs \<noteq> []"
    using merge_result(3) [OF that] by (auto simp: list_ex_iff list_all_iff)
  show "events_of bs = mset (ba_events work) + events_of held"
    using assms f by (auto simp: selectRunnable_def mset_merge Let_def zero_batch_def split: if_splits)
  show "set held \<subseteq> set bs" using assms by (auto simp: selectRunnable_def Let_def split: if_splits)
  show "active \<longrightarrow> held = filter (\<lambda>b. ba_triage b \<noteq> TriageParallel) bs \<or> ba_events work = []"
    using assms by (auto simp: selectRunnable_def Let_def zero_batch_def split: if_splits)
  show "active \<longrightarrow> ba_events work = [] \<or> ba_triage work = TriageParallel"
    using assms p by (auto simp: selectRunnable_def Let_def zero_batch_def split: if_splits)
qed

lemma claim_cases:
  assumes "claim c = Inr (c', work, tk)"
  shows "events_of (el_deferred c) = mset (ba_events work) + events_of (el_deferred c')"
    "set (el_deferred c') \<subseteq> set (el_deferred c)" "el_pending c' = el_pending c"
    "el_maxPending c' = el_maxPending c" "el_reserved c' = el_reserved c" "ba_events work \<noteq> []"
    "if tk = ParallelBranch then el_active c \<and> ba_triage work = TriageParallel \<and> el_activeEpoch c' = el_activeEpoch c
       \<and> el_activeCancel c' = el_activeCancel c \<and> el_parallel c' = el_parallel c + 1
     else \<not> el_active c \<and> tk = Epoch (el_activeEpoch c + 1) \<and> el_activeCancel c' = Some (el_activeEpoch c + 1)
       \<and> el_activeEpoch c' = el_activeEpoch c + 1"
    "el_active c'"
proof -
  obtain w held where s: "selectRunnable (el_deferred c) (el_active c) = (w, held)" by force
  note sel = selectRunnable_events [OF s]
  have d: "el_deferred c' = held" "work = w" "ba_events w \<noteq> []"
    using assms s by (auto simp: claim_def Let_def split: if_splits)
  show "events_of (el_deferred c) = mset (ba_events work) + events_of (el_deferred c')"
    "set (el_deferred c') \<subseteq> set (el_deferred c)" "ba_events work \<noteq> []"
    using sel d by auto
  show "el_pending c' = el_pending c" "el_maxPending c' = el_maxPending c" "el_reserved c' = el_reserved c" "el_active c'"
    using assms s by (auto simp: claim_def Let_def split: if_splits)
  show "if tk = ParallelBranch then el_active c \<and> ba_triage work = TriageParallel \<and> el_activeEpoch c' = el_activeEpoch c
       \<and> el_activeCancel c' = el_activeCancel c \<and> el_parallel c' = el_parallel c + 1
     else \<not> el_active c \<and> tk = Epoch (el_activeEpoch c + 1) \<and> el_activeCancel c' = Some (el_activeEpoch c + 1)
       \<and> el_activeEpoch c' = el_activeEpoch c + 1"
    using assms s sel(4) d(2,3) by (auto simp: claim_def Let_def split: if_splits)
qed

subsection \<open>The machine of locked sections\<close>

text \<open>
  The state adds to the coordinator the events one \<^verbatim>\<open>Commit\<close> has drained and not yet settled, and the
  history: what was submitted, handed to a processor, refused by the log, and the groups forgotten because
  their commit failed, each with its error. Any goroutine may take any step.
\<close>

record loop =
  lp_coord :: coordinator
  lp_draining :: "queued list option"
  lp_submitted :: "event list"
  lp_handed :: "batch list"
  lp_refused :: "queued list"
  lp_forgotten :: "(queued list \<times> commit_error) list"

definition initial_loop :: "coordinator \<Rightarrow> loop" where
  "initial_loop c = \<lparr>lp_coord = c, lp_draining = None, lp_submitted = [], lp_handed = [], lp_refused = [], lp_forgotten = []\<rparr>"

definition queued_by :: "coordinator \<Rightarrow> coordinator \<Rightarrow> event list" where
  "queued_by c c' = map qe_event (drop (length (el_pending c)) (el_pending c'))"

inductive loop_step :: "loop \<Rightarrow> loop \<Rightarrow> bool" where
  submitted: "SubmitBatch es (lp_coord l) = (c, Inr ids) \<Longrightarrow>
    loop_step l (l\<lparr>lp_coord := c, lp_submitted := lp_submitted l @ queued_by (lp_coord l) c\<rparr>)"
| turned_away: "SubmitBatch es (lp_coord l) = (c, Inl f) \<Longrightarrow> loop_step l (l\<lparr>lp_coord := c\<rparr>)"
| drained: "lp_draining l = None \<Longrightarrow> el_pending (lp_coord l) \<noteq> [] \<Longrightarrow>
    loop_step l (l\<lparr>lp_coord := (lp_coord l)\<lparr>el_pending := []\<rparr>, lp_draining := Some (el_pending (lp_coord l))\<rparr>)"
| settled: "lp_draining l = Some q \<Longrightarrow> commitAdmissible ws q [] (lp_coord l) = Some (c, r) \<Longrightarrow>
    settle q (c, r) = (c', res) \<Longrightarrow>
    loop_step l (l\<lparr>lp_coord := c', lp_draining := None,
      lp_refused := lp_refused l @ (case r of Inl _ \<Rightarrow> [] | Inr (_, refused) \<Rightarrow> refused),
      lp_forgotten := lp_forgotten l @ (case r of Inl f \<Rightarrow> [(q, f)] | Inr _ \<Rightarrow> [])\<rparr>)"
| held_back: "loop_step l (l\<lparr>lp_coord := markDeferred reason (lp_coord l)\<rparr>)"
| claimed: "claim (lp_coord l) = Inr (c, work, tk) \<Longrightarrow>
    loop_step l (l\<lparr>lp_coord := c, lp_handed := lp_handed l @ [work]\<rparr>)"
| ended: "loop_step l (l\<lparr>lp_coord := end_run tk (lp_coord l)\<rparr>)"
| woken: "loop_step l (l\<lparr>lp_coord := Wake (lp_coord l)\<rparr>)"
| interrupted: "loop_step l (l\<lparr>lp_coord := Interrupt why (lp_coord l)\<rparr>)"
| token_taken: "loop_step l (l\<lparr>lp_coord := (lp_coord l)\<lparr>el_signal := False\<rparr>\<rparr>)"
| other_writer: "AppendBatch (el_store (lp_coord l)) items = Inr st \<Longrightarrow>
    loop_step l (l\<lparr>lp_coord := (lp_coord l)\<lparr>el_store := st\<rparr>\<rparr>)"

definition drained_events :: "loop \<Rightarrow> queued list" where
  "drained_events l = (case lp_draining l of None \<Rightarrow> [] | Some q \<Rightarrow> q)"

definition accounted :: "loop \<Rightarrow> event multiset" where
  "accounted l = mset (map qe_event (el_pending (lp_coord l))) + mset (map qe_event (drained_events l))
     + events_of (el_deferred (lp_coord l)) + events_of (lp_handed l)
     + mset (map qe_event (lp_refused l)) + mset (map qe_event (concat (map fst (lp_forgotten l))))"

text \<open>A waiting batch has an event, and one that may run beside the work in flight has only parallel events.\<close>

definition batch_ok :: "batch \<Rightarrow> bool" where
  "batch_ok b = (ba_events b \<noteq> []
     \<and> (ba_triage b = TriageParallel \<longrightarrow> list_all (\<lambda>e. en_priority e = PriorityParallel) (ba_events b)))"

lemma TriageOf_parallel [simp]: "TriageOf p = TriageParallel \<longleftrightarrow> p = PriorityParallel"
  by (simp add: TriageOf_def split: priority.split)

definition loop_ok :: "loop \<Rightarrow> bool" where
  "loop_ok l =
     (mset (lp_submitted l) = accounted l
      \<and> 0 \<le> el_reserved (lp_coord l) \<and> el_reserved (lp_coord l) < el_maxPending (lp_coord l)
      \<and> int (length (el_pending (lp_coord l))) \<le> el_maxPending (lp_coord l)
      \<and> (\<forall>b\<in>set (el_deferred (lp_coord l)). batch_ok b) \<and> lp_draining l \<noteq> Some [])"

text \<open>Steps that move no event.\<close>

definition same_work :: "coordinator \<Rightarrow> coordinator \<Rightarrow> bool" where
  "same_work c c' = (el_pending c' = el_pending c \<and> el_deferred c' = el_deferred c
     \<and> el_maxPending c' = el_maxPending c \<and> el_reserved c' = el_reserved c)"

lemma same_work_ok: "same_work (lp_coord l) c \<Longrightarrow> loop_ok l \<Longrightarrow> loop_ok (l\<lparr>lp_coord := c\<rparr>)"
  by (simp add: same_work_def loop_ok_def accounted_def drained_events_def)

lemma same_work_ops:
  "same_work c (markDeferred reason c)" "same_work c (end_run tk c)" "same_work c (Wake c)"
  "same_work c (Interrupt why c)" "same_work c (c\<lparr>el_signal := b\<rparr>)" "same_work c (c\<lparr>el_store := st\<rparr>)"
  by (auto simp: same_work_def markDeferred_def Let_def end_run_def finish_def notify_def Wake_def Interrupt_def
      split: ticket.splits)

lemma submitted_ok:
  assumes "SubmitBatch es (lp_coord l) = (c, Inr ids)" and "loop_ok l"
  shows "loop_ok (l\<lparr>lp_coord := c, lp_submitted := lp_submitted l @ queued_by (lp_coord l) c\<rparr>)"
  using assms(1)
proof (cases rule: SubmitBatch_success)
  case (1 qs n)
  let ?p = "length (el_pending (lp_coord l))"
  have bound: "int (?p + length qs) \<le> el_maxPending (lp_coord l)"
  proof (cases qs)
    case (Cons e qs')
    have "length qs - 1 < length qs" using Cons by simp
    with admit_fault_None [OF 1(3)] have
      "int (?p + (length qs - 1)) < ingress_limit ((lp_coord l)\<lparr>el_ids := n\<rparr>) (qs ! (length qs - 1))" by fastforce
    moreover have "ingress_limit ((lp_coord l)\<lparr>el_ids := n\<rparr>) e' \<le> el_maxPending (lp_coord l)" for e'
      using assms(2) by (simp add: ingress_limit_def loop_ok_def)
    ultimately have "int (?p + (length qs - 1)) < el_maxPending (lp_coord l)" by (meson less_le_trans)
    with Cons show ?thesis by simp
  qed (use assms(2) in \<open>simp add: loop_ok_def\<close>)
  have "queued_by (lp_coord l) c = qs" by (simp add: queued_by_def 1(6))
  with bound assms(2) 1(6-9) show ?thesis
    by (simp add: loop_ok_def accounted_def drained_events_def ac_simps)
qed

lemma forget_frame [simp]:
  "el_pending (forget q c) = el_pending c" "el_deferred (forget q c) = el_deferred c"
  "el_maxPending (forget q c) = el_maxPending c" "el_reserved (forget q c) = el_reserved c"
  by (simp_all add: forget_def)

lemma settle_error_forgets: "\<not> is_conflict f \<Longrightarrow> settle q (c, Inl f) = (forget q c, Inl f)"
  by (auto simp: settle_def is_conflict_def split: commit_error.splits append_error.splits)

lemma settled_ok:
  assumes q: "lp_draining l = Some q" and a: "commitAdmissible ws q [] (lp_coord l) = Some (c, r)"
    and s: "settle q (c, r) = (c', res)" and ok: "loop_ok l"
  shows "loop_ok (l\<lparr>lp_coord := c', lp_draining := None,
      lp_refused := lp_refused l @ (case r of Inl _ \<Rightarrow> [] | Inr (_, refused) \<Rightarrow> refused),
      lp_forgotten := lp_forgotten l @ (case r of Inl f \<Rightarrow> [(q, f)] | Inr _ \<Rightarrow> [])\<rparr>)"
proof -
  note out = admissible_outcome [OF a]
  from out have at: "attempted (lp_coord l) c" by blast
  note fr = attempted_frame [OF at]
  show ?thesis
  proof (cases r)
    case (Inl f)
    with out s have "c' = forget q c" by (simp add: settle_error_forgets)
    with Inl q ok fr show ?thesis by (simp add: loop_ok_def accounted_def drained_events_def ac_simps)
  next
    case (Inr br)
    obtain b refused where br: "br = (b, refused)" by (cases br)
    from out Inr br ok q obtain kept where k: "mset kept + mset refused = mset q" "ba_events b = map qe_event kept" "kept \<noteq> []"
      by (auto simp: loop_ok_def)
    have m: "mset (ba_events b) + mset (map qe_event refused) = mset (map qe_event q)"
      using arg_cong [OF k(1), of "image_mset qe_event"] by (simp add: k(2))
    have d: "el_deferred c' = el_deferred c @ partitionCommittedBatch b q" "el_pending c' = el_pending c"
      "el_maxPending c' = el_maxPending c" "el_reserved c' = el_reserved c"
      using s by (auto simp: Inr br settle_def Let_def notify_def)
    have ne: "ba_events b \<noteq> []" using k by simp
    have "events_of (partitionCommittedBatch b q) = mset (ba_events b)"
      using partition_spec(1) [OF ne] by (simp add: events_of_def)
    moreover have "\<forall>p\<in>set (partitionCommittedBatch b q). batch_ok p"
      using partition_spec(3) [OF ne] by (simp add: batch_ok_def)
    ultimately show ?thesis
      using Inr br q ok fr d m by (auto simp: loop_ok_def accounted_def drained_events_def ac_simps)
  qed
qed

lemma claimed_ok:
  assumes "claim (lp_coord l) = Inr (c, work, tk)" and "loop_ok l"
  shows "loop_ok (l\<lparr>lp_coord := c, lp_handed := lp_handed l @ [work]\<rparr>)"
  using claim_cases [OF assms(1)] assms(2)
  by (auto simp: loop_ok_def accounted_def drained_events_def ac_simps)

lemma loop_step_ok: "loop_step l l' \<Longrightarrow> loop_ok l \<Longrightarrow> loop_ok l'"
proof (induction rule: loop_step.induct)
  case (turned_away es l c f)
  from SubmitBatch_error [OF turned_away.hyps] obtain n where "c = (lp_coord l)\<lparr>el_ids := n\<rparr>" by blast
  then have "same_work (lp_coord l) c" by (simp add: same_work_def)
  with turned_away.prems show ?case by (rule same_work_ok [rotated])
next
  case (drained l)
  then show ?case by (simp add: loop_ok_def accounted_def drained_events_def ac_simps)
qed (auto intro: same_work_ok same_work_ops submitted_ok settled_ok claimed_ok)

interpretation loop_runs: stable loop_step loop_ok
  by unfold_locales (rule loop_step_ok)

subsection \<open>What is given up\<close>

text \<open>The refused events are the counted ones, and every loss has its reason.\<close>

definition losses_ok :: "loop \<Rightarrow> bool" where
  "losses_ok l \<longleftrightarrow> el_refusedEvents (lp_coord l) = length (lp_refused l)
     \<and> (\<forall>x\<in>set (lp_refused l). \<exists>q. refused_by_log (el_sources (lp_coord l)) (el_store (lp_coord l)) q x)
     \<and> (\<forall>(q, f)\<in>set (lp_forgotten l). \<forall>x\<in>set q. given_up (el_sources (lp_coord l)) (el_store (lp_coord l)) q f x)
     \<and> lp_draining l \<noteq> Some []"

definition same_log :: "coordinator \<Rightarrow> coordinator \<Rightarrow> bool" where
  "same_log c c' \<longleftrightarrow> el_sources c' = el_sources c \<and> extends (el_store c) (el_store c')"

lemma losses_later:
  assumes "losses_ok l" and "same_log (lp_coord l) (lp_coord l')"
  shows "\<forall>x\<in>set (lp_refused l). \<exists>q. refused_by_log (el_sources (lp_coord l')) (el_store (lp_coord l')) q x"
    "\<forall>(q, f)\<in>set (lp_forgotten l). \<forall>x\<in>set q. given_up (el_sources (lp_coord l')) (el_store (lp_coord l')) q f x"
proof -
  have e: "extends (el_store (lp_coord l)) (el_store (lp_coord l'))" and s: "el_sources (lp_coord l') = el_sources (lp_coord l)"
    using assms(2) by (simp_all add: same_log_def)
  show "\<forall>x\<in>set (lp_refused l). \<exists>q. refused_by_log (el_sources (lp_coord l')) (el_store (lp_coord l')) q x"
    using assms(1) refused_by_log_later [OF _ e subset_refl] unfolding losses_ok_def s by blast
  show "\<forall>(q, f)\<in>set (lp_forgotten l). \<forall>x\<in>set q. given_up (el_sources (lp_coord l')) (el_store (lp_coord l')) q f x"
    using assms(1) given_up_later [OF _ e subset_refl] unfolding losses_ok_def s by fast
qed

lemma losses_unchanged:
  assumes "losses_ok l" and "same_log (lp_coord l) (lp_coord l')" and "el_refusedEvents (lp_coord l') = el_refusedEvents (lp_coord l)"
    and "lp_refused l' = lp_refused l" "lp_forgotten l' = lp_forgotten l" "lp_draining l' = lp_draining l"
  shows "losses_ok l'"
  using losses_later [OF assms(1,2)] assms(1,3-6) unfolding losses_ok_def by simp

lemma same_log_ops:
  "same_log c (markDeferred reason c)" "same_log c (end_run tk c)" "same_log c (Wake c)"
  "same_log c (Interrupt why c)" "same_log c (c\<lparr>el_signal := b\<rparr>)" "same_log c (c\<lparr>el_pending := q\<rparr>)"
  "extends (el_store c) st \<Longrightarrow> same_log c (c\<lparr>el_store := st\<rparr>)"
  "el_refusedEvents (markDeferred reason c) = el_refusedEvents c" "el_refusedEvents (end_run tk c) = el_refusedEvents c"
  "el_refusedEvents (Wake c) = el_refusedEvents c" "el_refusedEvents (Interrupt why c) = el_refusedEvents c"
  by (auto simp: same_log_def markDeferred_def Let_def end_run_def finish_def notify_def Wake_def Interrupt_def cancel_active_def
      extends_refl split: ticket.splits option.splits)

lemma same_log_submit:
  assumes "SubmitBatch es c = (c', r)"
  shows "same_log c c'" "el_refusedEvents c' = el_refusedEvents c"
  using assms
  by (auto simp: SubmitBatch_def Let_def same_log_def extends_refl queue_events_def notify_def cancel_active_def
      split: if_splits option.splits prod.splits)

lemma same_log_claim:
  assumes "claim c = Inr (c', work, tk)"
  shows "same_log c c'" "el_refusedEvents c' = el_refusedEvents c"
  using assms by (auto simp: claim_def Let_def same_log_def extends_refl split: if_splits prod.splits)

lemma settled_losses:
  assumes q: "lp_draining l = Some q" and a: "commitAdmissible ws q [] (lp_coord l) = Some (c, r)"
    and s: "settle q (c, r) = (c', res)" and ok: "losses_ok l"
  shows "losses_ok (l\<lparr>lp_coord := c', lp_draining := None,
      lp_refused := lp_refused l @ (case r of Inl _ \<Rightarrow> [] | Inr (_, refused) \<Rightarrow> refused),
      lp_forgotten := lp_forgotten l @ (case r of Inl f \<Rightarrow> [(q, f)] | Inr _ \<Rightarrow> [])\<rparr>)" (is "losses_ok ?l")
proof -
  note out = admissible_outcome [OF a]
  have at: "attempted (lp_coord l) c" using out by blast
  have at': "el_sources c = el_sources (lp_coord l)" "extends (el_store (lp_coord l)) (el_store c)"
    "el_refusedEvents c = el_refusedEvents (lp_coord l)"
    using at by (auto simp: attempted_def)
  have ne: "q \<noteq> []" using ok q by (auto simp: losses_ok_def)
  note loss = admissible_losses [OF a ne]
  have c': "el_sources c' = el_sources c" "el_store c' = el_store c"
    using s by (auto simp: settle_def Let_def notify_def forget_def requeue_def split: sum.splits prod.splits commit_error.splits append_error.splits)
  have "same_log (lp_coord l) (lp_coord ?l)" using at' c' by (simp add: same_log_def)
  note later = losses_later [OF ok this]
  show ?thesis
  proof (cases r)
    case (Inl f)
    with out s have "c' = forget q c" by (simp add: settle_error_forgets)
    with Inl later loss ok at' show ?thesis by (simp add: losses_ok_def forget_def)
  next
    case (Inr br)
    obtain b refused where br: "br = (b, refused)" by (cases br)
    have n: "el_refusedEvents c' = el_refusedEvents c + length refused"
      using s by (auto simp: Inr br settle_def Let_def notify_def forget_def split: if_splits)
    have "\<forall>x\<in>set refused. \<exists>q. refused_by_log (el_sources c') (el_store c') q x"
      using loss at'(1) by (auto simp: Inr br c')
    with later n ok at'(3) show ?thesis by (auto simp: losses_ok_def Inr br)
  qed
qed

lemma loop_step_losses: "loop_step l l' \<Longrightarrow> losses_ok l \<Longrightarrow> losses_ok l'"
proof (induction rule: loop_step.induct)
  case (submitted es l c ids)
  then show ?case using same_log_submit by (auto intro: losses_unchanged)
next
  case (turned_away es l c f)
  then show ?case using same_log_submit by (auto intro: losses_unchanged)
next
  case (drained l)
  then show ?case by (simp add: losses_ok_def)
next
  case (claimed l c work tk)
  then show ?case using same_log_claim by (auto intro: losses_unchanged)
next
  case (other_writer l items st)
  then show ?case using same_log_ops(7) [OF append_ops_extend(1)] by (auto intro: losses_unchanged)
qed (auto intro: losses_unchanged settled_losses same_log_ops simp: same_log_ops)

interpretation loop_losses: stable loop_step losses_ok
  by unfold_locales (rule loop_step_losses)

end
