(* ===== verification/Coordinator_Properties.thy ===== *)
theory Coordinator_Properties
  imports Coordinator
begin

section \<open>What the event loop guarantees\<close>

text \<open>
  The properties of the coordinator: ingress is all or nothing and bounded, commits record what the
  events say, nothing submitted is lost track of, parallel work never carries routine work with it,
  and every transition to runnable work leaves a signal. Three closing theorems state where the
  code departs from its comments.
\<close>

subsection \<open>A session\<close>

text \<open>A user transcript and a signal, submitted separately to a coordinator with room for four events.\<close>

definition example_new :: coordinator where
  "example_new = (case New NewStore example_sources 4 1 of Inr c \<Rightarrow> c | Inl _ \<Rightarrow> undefined)"

definition example_utterance :: event where
  "example_utterance = (example_event ''e1'' KindObservation PriorityRoutine)\<lparr>en_content := ''hello'', en_revision := 1\<rparr>"

definition example_safe_point :: event where
  "example_safe_point = example_event [] KindSignal PriorityParallel"

definition example_one :: coordinator where
  "example_one = fst (SubmitBatch [example_utterance] example_new)"

definition example_two :: coordinator where
  "example_two = fst (SubmitBatch [example_safe_point] example_one)"

definition quiet_attempts :: "interference list" where
  "quiet_attempts = [([], []), ([], []), ([], [])]"

lemma example_new_ok: "New NewStore example_sources 4 1 = Inr example_new"
  by (simp add: example_new_def New_def)

lemma example_submissions:
  "snd (SubmitBatch [example_utterance] example_new) = Inr [''e1'']"
  "snd (SubmitBatch [example_safe_point] example_one) = Inr [''eventx'']"
  "map (\<lambda>q. (qe_submission q, en_eventID (qe_event q))) (el_pending example_two) = [(1, ''e1''), (2, ''eventx'')]"
  by code_simp+

subsection \<open>Ingress\<close>

lemma ball_set_map: "(\<forall>y\<in>set (map f xs). P y) \<longleftrightarrow> (\<forall>x\<in>set xs. P (f x))"
  by simp

lemma admitted_batch:
  assumes "admit_fault (c\<lparr>el_ids := n\<rparr>) 0 [] es = None" and "0 \<le> el_reserved c"
  shows "distinct (map en_eventID es)" "\<forall>e\<in>set es. \<not> gm_has (el_eventIDs c) (en_eventID e)"
    "\<forall>k<length es. en_priority (es ! k) = PriorityRoutine \<longrightarrow>
       int (length (el_pending c) + k) < el_maxPending c - el_reserved c"
    "es \<noteq> [] \<Longrightarrow> int (length (el_pending c) + length es) \<le> el_maxPending c"
proof -
  note a = admit_fault_None [OF assms(1)]
  then show "distinct (map en_eventID es)" "\<forall>e\<in>set es. \<not> gm_has (el_eventIDs c) (en_eventID e)" by simp_all
  have i: "ingress_limit (c\<lparr>el_ids := n\<rparr>) e = ingress_limit c e" for e by (simp add: ingress_limit_def)
  have l: "int (length (el_pending c) + k) < ingress_limit c (es ! k)" if "k < length es" for k
    using a that by (simp add: i)
  then show "\<forall>k<length es. en_priority (es ! k) = PriorityRoutine \<longrightarrow>
       int (length (el_pending c) + k) < el_maxPending c - el_reserved c"
    unfolding ingress_limit_def by metis
  assume "es \<noteq> []"
  then have "int (length (el_pending c) + (length es - 1)) < ingress_limit c (es ! (length es - 1))"
    by (intro l) simp
  also have "\<dots> \<le> el_maxPending c" using assms(2) by (simp add: ingress_limit_def)
  finally show "int (length (el_pending c) + length es) \<le> el_maxPending c" using \<open>es \<noteq> []\<close> by (cases es) simp_all
qed

lemma enqueue_submissions: "es \<noteq> [] \<Longrightarrow> qe_submission ` set (enqueue sq sub es) = {sub}"
  using enqueue_submission [of _ sq sub es] by (cases es) auto

lemma enqueue_interrupt:
  "list_ex (\<lambda>q. en_priority (qe_event q) = PriorityInterrupt) (enqueue sq sub es)
     \<longleftrightarrow> list_ex (\<lambda>e. en_priority e = PriorityInterrupt) es"
  by (induction es arbitrary: sq) auto

text \<open>
  Ingress is all or nothing, and bounded. A submission that is refused changes nothing but the
  count of identifiers drawn. One that is accepted appends all its events in order, as one
  submission, each as given apart from a generated identifier, with identifiers that are new and
  distinct; the queue stays within its bound, a routine event finds the reserved places free, a
  signal is pending, and an interrupting event has cancelled the run in flight.
\<close>

theorem SubmitBatch_all_or_none:
  assumes "0 \<le> el_reserved c"
  shows "case SubmitBatch events c of
      (c', Inl f) \<Rightarrow> \<exists>n. c' = c\<lparr>el_ids := n\<rparr>
    | (c', Inr ids) \<Rightarrow> \<exists>new. el_pending c' = el_pending c @ new \<and> new \<noteq> []
        \<and> list_all2 identified events (map qe_event new) \<and> ids = map (en_eventID \<circ> qe_event) new
        \<and> qe_submission ` set new = {el_nextSubmission c + 1}
        \<and> distinct ids \<and> (\<forall>i\<in>set ids. \<not> gm_has (el_eventIDs c) i)
        \<and> int (length (el_pending c')) \<le> el_maxPending c
        \<and> (\<forall>k<length new. en_priority (qe_event (new ! k)) = PriorityRoutine \<longrightarrow>
             int (length (el_pending c) + k) < el_maxPending c - el_reserved c)
        \<and> el_signal c'
        \<and> (list_ex (\<lambda>q. en_priority (qe_event q) = PriorityInterrupt) new \<longrightarrow>
             (\<forall>ep. el_activeCancel c = Some ep \<longrightarrow> gm_has (el_cancelled c') ep))"
proof -
  obtain c' r where s: "SubmitBatch events c = (c', r)" by force
  show ?thesis
  proof (cases r)
    case (Inl f)
    with s SubmitBatch_error show ?thesis by simp
  next
    case (Inr ids)
    with s have "SubmitBatch events c = (c', Inr ids)" by simp
    then show ?thesis
    proof (cases rule: SubmitBatch_success)
      case (1 es n)
      let ?new = "enqueue (el_nextSequence c) (el_nextSubmission c + 1) es"
      note a = admitted_batch [OF 1(3) assms]
      have ne: "es \<noteq> []" using 1(1,2) by auto
      have k: "\<forall>k<length ?new. en_priority (qe_event (?new ! k)) = PriorityRoutine \<longrightarrow>
             int (length (el_pending c) + k) < el_maxPending c - el_reserved c"
        using a(3) by (metis enqueue_events nth_map)
      show ?thesis
        unfolding s Inr prod.case sum.case
      proof (intro exI [of _ ?new] conjI)
        show "qe_submission ` set ?new = {el_nextSubmission c + 1}" by (rule enqueue_submissions [OF ne])
        show "?new \<noteq> []" using ne enqueue_events(2) by (metis length_0_conv)
        show "ids = map (en_eventID \<circ> qe_event) ?new" using 1(4) enqueue_events(1) by (metis map_map)
        show "list_ex (\<lambda>q. en_priority (qe_event q) = PriorityInterrupt) ?new \<longrightarrow>
             (\<forall>ep. el_activeCancel c = Some ep \<longrightarrow> gm_has (el_cancelled c') ep)"
          using 1(10) enqueue_interrupt by metis
        show "\<forall>i\<in>set ids. \<not> gm_has (el_eventIDs c) i" unfolding 1(4) ball_set_map by (rule a(2))
        show "int (length (el_pending c')) \<le> el_maxPending c" using a(4) [OF ne] by (simp add: 1(6))
      qed (use 1 a(1) k in simp_all)
    qed
  qed
qed

theorem SubmitBatch_all_or_none_witness:
  "\<exists>new. el_pending example_two = el_pending example_one @ new
     \<and> map (en_eventID \<circ> qe_event) new = [''eventx''] \<and> qe_submission ` set new = {el_nextSubmission example_one + 1}"
proof -
  have r: "0 \<le> el_reserved example_one" by code_simp
  have s: "SubmitBatch [example_safe_point] example_one = (example_two, Inr [''eventx''])"
    using example_submissions(2) by (simp add: example_two_def prod_eq_iff)
  from SubmitBatch_all_or_none [OF r, of "[example_safe_point]"] show ?thesis
    unfolding s prod.case sum.case by auto
qed

subsection \<open>Accounting\<close>


lemma example_two_run:
  obtains l where "loop_step\<^sup>*\<^sup>* (initial_loop example_new) l" "lp_coord l = example_two"
    "map en_eventID (lp_submitted l) = [''e1'', ''eventx'']" "lp_handed l = []" "lp_refused l = []" "lp_forgotten l = []"
    "lp_draining l = None"
proof -
  let ?l = "initial_loop example_new"
  have s1: "SubmitBatch [example_utterance] (lp_coord ?l) = (example_one, Inr [''e1''])"
    using example_submissions(1) by (simp add: example_one_def initial_loop_def prod_eq_iff)
  let ?l1 = "?l\<lparr>lp_coord := example_one, lp_submitted := lp_submitted ?l @ queued_by (lp_coord ?l) example_one\<rparr>"
  have s2: "SubmitBatch [example_safe_point] (lp_coord ?l1) = (example_two, Inr [''eventx''])"
    using example_submissions(2) by (simp add: example_two_def prod_eq_iff)
  let ?l2 = "?l1\<lparr>lp_coord := example_two, lp_submitted := lp_submitted ?l1 @ queued_by (lp_coord ?l1) example_two\<rparr>"
  have "loop_step\<^sup>*\<^sup>* ?l ?l2"
    using loop_step.submitted [OF s1] loop_step.submitted [OF s2] by (meson rtranclp.rtrancl_refl rtranclp.rtrancl_into_rtrancl)
  moreover have "map en_eventID (queued_by example_new example_one) = [''e1'']"
    "map en_eventID (queued_by example_one example_two) = [''eventx'']" by code_simp+
  ultimately show thesis using that [of ?l2] by (simp add: initial_loop_def)
qed


subsection \<open>Commit\<close>

text \<open>
  C31. The commit loop ends. Given as many attempts without interference as there are queued events,
  whatever other writers do in the remaining attempts, \<^verbatim>\<open>Commit\<close> returns; it leaves no pending event
  behind, and it never puts events back, so the requeueing branch is not taken and a conflict is
  not reported.
\<close>

theorem Commit_returns:
  assumes "length (el_pending c) \<le> length (filter quiet ws)"
  shows "\<exists>c' r. Commit ws c = Some (c', r) \<and> el_pending c' = []
    \<and> (\<forall>f. r = Inl (CommitFailed f) \<longrightarrow> \<not> is_conflict f)"
proof (cases "el_pending c = []")
  case False
  from admissible_terminates [OF False assms] obtain c1 r where
    a: "commitAdmissible ws (el_pending c) [] (c\<lparr>el_pending := []\<rparr>) = Some (c1, r)" by fast
  note out = admissible_outcome [OF a]
  then have p: "el_pending c1 = []" using attempted_frame(4) by fastforce
  show ?thesis
  proof (cases r)
    case (Inl f)
    with out have "\<not> is_conflict f" by simp
    with Inl a p False show ?thesis by (simp add: Commit_def settle_error_forgets)
  next
    case (Inr br)
    obtain b refused where "br = (b, refused)" by (cases br)
    with Inr a p False show ?thesis by (simp add: Commit_def settle_def notify_def Let_def)
  qed
qed (simp add: Commit_def)

theorem Commit_returns_witness:
  "\<exists>c' r. Commit quiet_attempts example_two = Some (c', r) \<and> el_pending c' = []"
proof -
  have "length (el_pending example_two) \<le> length (filter quiet quiet_attempts)" by code_simp
  from Commit_returns [OF this] show ?thesis by blast
qed

subsection \<open>What a commit records\<close>

text \<open>The event an item was compiled from and its kind, and the batch marker it carries.\<close>

definition origin :: "item \<Rightarrow> string option \<times> kind" where
  "origin it = (map_option ev_eventID (item_event it), item_kind it)"

definition marker :: "item \<Rightarrow> (string \<times> nat \<times> nat) option" where
  "marker it = map_option (\<lambda>e. (ev_batchID e, ev_batchIndex e, ev_batchSize e)) (item_event it)"

definition expected_origins :: "event list \<Rightarrow> (string option \<times> kind) list" where
  "expected_origins es = concat (map (\<lambda>e. replicate (expected_items e) (Some (en_eventID e), en_kind e)) es)"

lemma recorded_origin: "recorded_as x y \<Longrightarrow> origin y = origin x \<and> marker y = marker x"
  unfolding recorded_as_def origin_def marker_def by (metis (no_types, lifting) item.select_convs(2,19) item.surjective item.update_convs(6,10))

lemma mark_items_origin: "map origin (mark_items b n i items) = map origin items"
  by (induction items arbitrary: i) (auto simp: origin_def option.map_comp comp_def)

lemma groups_origins:
  "list_all2 (\<lambda>e its. list_all (carries e) its \<and> length its = expected_items e) es groups \<Longrightarrow>
   map origin (concat groups) = expected_origins es"
proof (induction rule: list_all2_induct)
  case (Cons e es its groups)
  have "map origin its = replicate (length its) (Some (en_eventID e), en_kind e)"
    using conjunct1 [OF Cons(1)] by (induction its) (auto simp: origin_def carries_def item_of_event_def metadata_of_def)
  with Cons show ?case by (simp add: expected_origins_def)
qed (simp add: expected_origins_def)

lemma extends_prefix: "extends s t \<Longrightarrow> \<exists>zs. st_items t = st_items s @ zs"
  by (induction rule: extends.induct) (auto dest: appended_items)

lemma append_external_recorded:
  assumes "append_external (length (st_items s)) items (interfere bs s) = Inr t"
  shows "\<exists>ys zs. st_items t = st_items s @ ys @ zs \<and> list_all2 recorded_as items ys \<and> (bs = [] \<longrightarrow> zs = [])"
proof (cases "items = []")
  case True
  obtain zs where "st_items (interfere bs s) = st_items s @ zs" using extends_prefix [OF interfere_extends] by blast
  with assms True show ?thesis by (intro exI [of _ "[]"] exI [of _ zs]) (auto simp: append_external_def)
next
  case False
  with assms have a: "AppendBatchAt (interfere bs s) (length (st_items s)) items = Inr t" by (simp add: append_external_def)
  then have l: "length (st_items s) = length (st_items (interfere bs s))"
    by (auto simp: AppendBatchAt_def appendBatch_def dest!: appendBatchLocked_items split: if_splits)
  have e: "st_items (interfere bs s) = st_items s"
    using l extends_prefix [OF interfere_extends [of s bs]] by auto
  from appendItems_recorded [OF append_ops_items(2) [OF a]] obtain ys where
    "st_items t = st_items s @ ys" "list_all2 recorded_as items ys" unfolding e by blast
  then show ?thesis by (intro exI [of _ ys] exI [of _ "[]"]) simp
qed

text \<open>
  A signal, a transition of an assistant item the log does not know, and a transcript, waiting
  together. Each is valid as an event; only the transition is inadmissible.
\<close>

definition example_stray :: event where
  "example_stray = (example_event ''e2'' KindAssistantState PriorityRoutine)
     \<lparr>en_assistantState := Some \<lparr>as_itemID = ''ghost'', as_visibility = VisibilityPlayed, as_playedAudioMS = 5, as_heard = None\<rparr>\<rparr>"

definition example_group :: "queued list" where
  "example_group = enqueue 0 1 [example_event ''e0'' KindSignal PriorityRoutine, example_stray, example_utterance]"

text \<open>The session continued: the two submissions are committed, become two waiting batches, and are claimed.\<close>

definition example_committed :: coordinator where
  "example_committed = fst (settle (el_pending example_two)
     (the (commitAdmissible quiet_attempts (el_pending example_two) [] (example_two\<lparr>el_pending := []\<rparr>))))"

text \<open>The evaluations the examples below rest on, in one run of the evaluator.\<close>

definition unknown_correction :: event where
  "unknown_correction = (example_event ''e3'' KindObservation PriorityRoutine)
     \<lparr>en_content := ''no'', en_revision := 3, en_supersedes := 2\<rparr>"

definition outcome_ids :: "(coordinator \<times> (commit_error, batch \<times> queued list) result) option \<Rightarrow>
    (commit_error + string list \<times> string list) option" where
  "outcome_ids = map_option (\<lambda>(c, r). map_sum id
     (\<lambda>(b, refused). (map en_eventID (ba_events b), map (en_eventID \<circ> qe_event) refused)) r)"

definition example_checks :: bool where
  "example_checks =
     (map (map en_eventID \<circ> ba_events) (el_deferred example_committed) = [[''e1''], [''eventx'']]
      \<and> \<not> el_active example_committed \<and> el_activeEpoch example_committed = 0
      \<and> \<not> isl (claim example_committed)
      \<and> map_option (isl \<circ> snd) (Commit quiet_attempts example_two) = Some False
      \<and> map_option (\<lambda>_. ()) (commitAdmissible quiet_attempts (el_pending example_two) [] (example_two\<lparr>el_pending := []\<rparr>)) = Some ()
      \<and> \<not> isl (snd (commitQueued ([], []) (el_pending example_two) example_two))
      \<and> outcome_ids (commitAdmissible quiet_attempts example_group [] example_new) = Some (Inr ([''e1''], [''e0'', ''e2'']))
      \<and> outcome_ids (commitAdmissible quiet_attempts (take 1 example_group) [] example_new) = Some (Inr ([''e0''], []))
      \<and> map_option (\<lambda>(c, r). (map origin (st_items (el_store c)), map qe_sequence (el_pending c), map_sum id ba_start r))
          (Commit quiet_attempts (example_new\<lparr>el_pending := enqueue 0 1 [example_utterance, unknown_correction]\<rparr>))
          = Some ([], [], Inl (CommitFailed (CompileFailed (UnknownRevision 2))))
      \<and> map_option (\<lambda>(c, r). map origin (st_items (el_store c)))
          (Commit quiet_attempts (example_new\<lparr>el_pending := enqueue 0 1 [example_utterance]\<rparr>))
          = Some [(Some ''e1'', KindObservation)])"

lemma example_evaluated: "example_checks = True"
  by code_simp

lemmas example_committed_eval = example_evaluated [unfolded example_checks_def eq_True]

text \<open>
  What a commit records. A successful commit of validated events extends the log by the items of
  exactly these events, in arrival order, none for a signal and one per result for a tool-result
  event, followed by whatever other writers appended before the batch was read back; the batch
  returned is that extension. A group of at least two items is marked as one: each carries the
  batch identifier, its position and the size of the group.
\<close>

theorem commit_records_events:
  assumes "commitQueued w q c = (c', Inr b)" and "list_all (\<lambda>x. validateEvent (qe_event x) = None) q"
  shows "ba_events b = map qe_event (sort_key qe_sequence q)
    \<and> (\<exists>own others. ba_items b = own @ others \<and> st_items (el_store c') = st_items (el_store c) @ ba_items b
        \<and> map origin own = expected_origins (ba_events b) \<and> (w = ([], []) \<longrightarrow> others = [])
        \<and> (2 \<le> length own \<longrightarrow> (\<exists>i. map marker own = map (\<lambda>k. Some (i, k, length own)) [0..<length own])))"
  using assms(1)
proof (cases rule: commitQueued_cases)
  case (committed b' cp st)
  let ?i = "so_nextID (el_sources c) ''batch'' (cp_ids cp)"
  have v: "list_all (\<lambda>e. validateEvent e = None) (map qe_event (sort_key qe_sequence q))"
    using assms(2) by (simp add: list_all_iff)
  obtain groups where g: "cp_items cp = concat groups"
    "list_all2 (\<lambda>e its. list_all (carries e) its \<and> length its = expected_items e) (map qe_event (sort_key qe_sequence q)) groups"
    using compile_events_grow [OF committed(3) [unfolded compile_def] v] by (auto simp: grows_def start_compiling_def)
  obtain own zs where o: "st_items st = st_items (el_store c) @ own @ zs" "list_all2 recorded_as (markBatch ?i (cp_items cp)) own"
    "fst w = [] \<longrightarrow> zs = []"
    using append_external_recorded [OF committed(4)] by blast
  obtain us where u: "st_items (interfere (snd w) st) = st_items st @ us" using extends_prefix [OF interfere_extends] by blast
  have us: "us = []" if "snd w = []" using u that by simp
  have "map origin own = map origin (markBatch ?i (cp_items cp)) \<and> map marker own = map marker (markBatch ?i (cp_items cp))"
    using o(2) by (induction rule: list_all2_induct) (auto dest: recorded_origin)
  then have org: "map origin own = expected_origins (map qe_event (sort_key qe_sequence q))"
    and mk: "map marker own = map marker (markBatch ?i (cp_items cp))"
    using groups_origins [OF g(2)] by (simp_all add: markBatch_def mark_items_origin g(1))
  have len: "length own = length (cp_items cp)" using list_all2_lengthD [OF o(2)] by simp
  have ev: "list_all (\<lambda>it. item_event it \<noteq> None) (cp_items cp)"
    using g(2) unfolding g(1)
    by (induction rule: list_all2_induct) (auto simp: list_all_iff carries_def item_of_event_def)
  have marked: "map marker own = map (\<lambda>k. Some (?i, k, length own)) [0..<length own]" if "2 \<le> length own"
    using mark_items_markers [OF ev, of ?i "length own" 0] that len mk
    by (simp add: markBatch_def comp_def marker_def [abs_def])
  have st: "st_items (el_store c') = st_items (el_store c) @ own @ zs @ us" using committed(2) o(1) u by simp
  have "b = b'" using committed(1) by simp
  then show ?thesis
    using committed(5,6) st org marked o(3) us
    by (intro conjI exI [of _ own] exI [of _ "zs @ us"]) auto
qed simp_all

theorem commit_records_events_witness:
  "\<exists>c' b own. commitQueued ([], []) (el_pending example_two) example_two = (c', Inr b)
     \<and> st_items (el_store c') = st_items (el_store example_two) @ own
     \<and> map origin own = [(Some ''e1'', KindObservation)]"
proof -
  obtain c' r where k: "commitQueued ([], []) (el_pending example_two) example_two = (c', r)" by force
  have "\<not> isl (snd (commitQueued ([], []) (el_pending example_two) example_two))" using example_committed_eval by blast
  with k obtain b where b: "r = Inr b" by (cases r) auto
  have v: "list_all (\<lambda>x. validateEvent (qe_event x) = None) (el_pending example_two)" by code_simp
  have e: "expected_origins (map qe_event (sort_key qe_sequence (el_pending example_two))) = [(Some ''e1'', KindObservation)]"
    by code_simp
  from commit_records_events [OF k [unfolded b] v] e obtain own others where
    "ba_items b = own @ others" "others = []" "st_items (el_store c') = st_items (el_store example_two) @ ba_items b"
    "map origin own = [(Some ''e1'', KindObservation)]" by auto
  with k b show ?thesis by auto
qed

subsection \<open>Acting on committed work\<close>

text \<open>
  Work that joins a run in flight is parallel throughout. When a reachable coordinator hands out
  a batch while a run is active, every event in the batch has parallel priority, the run in flight
  keeps its epoch and its cancellation, and every batch that is not parallel is still waiting.
  When no run is active, everything that waits is handed out together.
\<close>

theorem parallel_branch_is_unanimous:
  assumes "New st src maxPending reserved = Inr c0" and "loop_step\<^sup>*\<^sup>* (initial_loop c0) l"
    and "claim (lp_coord l) = Inr (c, work, tk)"
  shows "if el_active (lp_coord l)
    then tk = ParallelBranch \<and> list_all (\<lambda>e. en_priority e = PriorityParallel) (ba_events work)
      \<and> el_activeEpoch c = el_activeEpoch (lp_coord l) \<and> el_activeCancel c = el_activeCancel (lp_coord l)
      \<and> el_deferred c = filter (\<lambda>b. ba_triage b \<noteq> TriageParallel) (el_deferred (lp_coord l))
    else tk = Epoch (el_activeEpoch (lp_coord l) + 1) \<and> work = merge (el_deferred (lp_coord l)) \<and> el_deferred c = []"
proof -
  have "loop_ok (initial_loop c0)"
    using assms(1) by (auto simp: New_def loop_ok_def initial_loop_def accounted_def drained_events_def split: if_splits)
  from loop_runs.run_keeps [OF assms(2) this]
  have ok: "\<forall>b\<in>set (el_deferred (lp_coord l)). batch_ok b" by (simp add: loop_ok_def)
  note cl = claim_cases(6,7) [OF assms(3)]
  obtain w held where s: "selectRunnable (el_deferred (lp_coord l)) (el_active (lp_coord l)) = (w, held)" by force
  have wh: "work = w" "el_deferred c = held"
    using assms(3) s by (auto simp: claim_def Let_def split: if_splits)
  show ?thesis
  proof (cases "el_active (lp_coord l)")
    case True
    let ?par = "filter (\<lambda>b. ba_triage b = TriageParallel) (el_deferred (lp_coord l))"
    have p: "?par \<noteq> []" "work = merge ?par"
      using s True cl(1) wh by (auto simp: selectRunnable_def Let_def zero_batch_def split: if_splits)
    have "list_all (\<lambda>e. en_priority e = PriorityParallel) (ba_events work)"
      using ok unfolding p(2) merge_result(1) [OF p(1)] by (auto simp: list_all_iff batch_ok_def)
    with True cl(2) s wh p show ?thesis
      by (auto simp: selectRunnable_def Let_def split: if_splits)
  next
    case False
    with cl(2) s wh show ?thesis by (auto simp: selectRunnable_def split: if_splits)
  qed
qed

lemma idle_offers_all:
  assumes "el_deferred c \<noteq> []" and "\<not> el_active c" and "\<forall>b\<in>set (el_deferred c). ba_events b \<noteq> []"
  shows "offered c = Inr (merge (el_deferred c))" "ba_events (merge (el_deferred c)) \<noteq> []"
proof -
  show e: "ba_events (merge (el_deferred c)) \<noteq> []"
    using assms(1,3) by (cases "el_deferred c") (auto simp: merge_result)
  show "offered c = Inr (merge (el_deferred c))" using assms(1,2) e by (simp add: offered_def selectRunnable_def)
qed

lemma admitted_runs_all:
  assumes "el_deferred c \<noteq> []" and "\<not> el_active c" and "\<forall>b\<in>set (el_deferred c). ba_events b \<noteq> []"
    and "fst (gate (merge (el_deferred c)))"
  shows "\<exists>c' ca. run (Some gate) process committed c = (end_run (Epoch (el_activeEpoch c + 1)) (process (merge (el_deferred c)) c'),
             Ran (merge (el_deferred c)) ca) \<and> el_deferred c' = [] \<and> el_active c'"
proof -
  obtain reason where "gate (merge (el_deferred c)) = (True, reason)" using assms(4) by (metis prod.collapse)
  with idle_offers_all [OF assms(1-3)] assms(1,2) show ?thesis
    by (simp add: run_def claim_def selectRunnable_def Let_def) (rule exI, intro conjI, rule refl, simp_all)
qed

text \<open>
  A gate decides when, never whether. When the gate declines the offered batch, the waiting and
  pending work, the store and the run in flight are what they were, and the reason is recorded;
  when it admits the batch of an idle coordinator, the processor gets all the waiting work at
  once, and nothing waits afterwards.
\<close>

theorem gate_never_drops:
  assumes "el_deferred c \<noteq> []" and "\<not> el_active c" and "\<forall>b\<in>set (el_deferred c). ba_events b \<noteq> []"
  shows "case gate (merge (el_deferred c)) of
      (False, reason) \<Rightarrow>
        snd (run (Some gate) process committed c) = Stopped (ErrDeferred reason) committed
        \<and> (let c' = fst (run (Some gate) process committed c) in
            el_deferred c' = el_deferred c \<and> el_pending c' = el_pending c \<and> el_store c' = el_store c
            \<and> \<not> el_active c' \<and> el_signal c' = el_signal c \<and> \<not> blank (el_deferReason c'))
    | (True, _) \<Rightarrow>
        \<exists>c' ca. run (Some gate) process committed c = (end_run (Epoch (el_activeEpoch c + 1)) (process (merge (el_deferred c)) c'),
             Ran (merge (el_deferred c)) ca) \<and> el_deferred c' = [] \<and> el_active c'"
proof -
  have nb: "\<not> blank ''unspecified policy deferral''" by code_simp
  obtain ok reason where g: "gate (merge (el_deferred c)) = (ok, reason)" by force
  show ?thesis
  proof (cases ok)
    case True
    with g admitted_runs_all [OF assms, of gate] show ?thesis by simp
  next
    case False
    with g idle_offers_all [OF assms] assms(2) nb show ?thesis by (simp add: run_def markDeferred_def Let_def)
  qed
qed

text \<open>
  Every transition to runnable work leaves a signal: a wake-up or the end of a run while
  something waits, and every successful commit, after which something waits. A wake-up with
  nothing waiting changes nothing.
\<close>

theorem runnable_work_is_signalled:
  "(if waiting c then el_signal (Wake c) \<and> el_signal (finish ep c) else Wake c = c)
   \<and> (\<forall>c' b. Commit ws c = Some (c', Inr b) \<longrightarrow> el_signal c' \<and> el_deferred c' \<noteq> [])"
proof (intro conjI allI impI)
  show "if waiting c then el_signal (Wake c) \<and> el_signal (finish ep c) else Wake c = c"
    by (simp add: Wake_def finish_def notify_def Let_def)
  fix c' b
  assume k: "Commit ws c = Some (c', Inr b)"
  then have p: "el_pending c \<noteq> []" by (auto simp: Commit_def)
  with k obtain c1 r where a: "commitAdmissible ws (el_pending c) [] (c\<lparr>el_pending := []\<rparr>) = Some (c1, r)"
    and s: "settle (el_pending c) (c1, r) = (c', Inr b)"
    by (auto simp: Commit_def split: option.splits prod.splits sum.splits)
  from s obtain refused where r: "r = Inr (b, refused)" by (auto simp: settle_def Let_def split: sum.splits)
  from admissible_outcome [OF a] p r have ne: "ba_events b \<noteq> []" by auto
  have "partitionCommittedBatch b (el_pending c) \<noteq> []"
    using partition_spec(1) [OF ne, of "el_pending c"] ne by auto
  with s r show "el_signal c'" "el_deferred c' \<noteq> []" by (auto simp: settle_def Let_def notify_def)
qed

lemma example_committed_run:
  obtains l where "loop_step\<^sup>*\<^sup>* (initial_loop example_new) l" "lp_coord l = example_committed"
proof -
  obtain l where l: "loop_step\<^sup>*\<^sup>* (initial_loop example_new) l" "lp_coord l = example_two" "lp_draining l = None"
    by (rule example_two_run)
  have "el_pending example_two \<noteq> []" using example_submissions(3) by auto
  with l have d: "loop_step l (l\<lparr>lp_coord := example_two\<lparr>el_pending := []\<rparr>, lp_draining := Some (el_pending example_two)\<rparr>)"
    using loop_step.drained [of l] by simp
  let ?l = "l\<lparr>lp_coord := example_two\<lparr>el_pending := []\<rparr>, lp_draining := Some (el_pending example_two)\<rparr>"
  have "map_option (\<lambda>_. ()) (commitAdmissible quiet_attempts (el_pending example_two) [] (example_two\<lparr>el_pending := []\<rparr>)) = Some ()"
    using example_committed_eval by blast
  then obtain c r where
    a: "commitAdmissible quiet_attempts (el_pending example_two) [] (example_two\<lparr>el_pending := []\<rparr>) = Some (c, r)" by auto
  obtain c' res where s: "settle (el_pending example_two) (c, r) = (c', res)" by force
  have "c' = example_committed" using a s by (simp add: example_committed_def)
  moreover obtain l' where "loop_step ?l l'" "lp_coord l' = c'"
    using loop_step.settled [of ?l, OF _ _ s] a by fastforce
  ultimately show thesis using l(1) d that by (meson rtranclp.rtrancl_into_rtrancl)
qed

theorem parallel_branch_is_unanimous_witness:
  "\<exists>c tk. claim example_committed = Inr (c, merge (el_deferred example_committed), tk) \<and> tk = Epoch 1"
proof -
  obtain l where l: "loop_step\<^sup>*\<^sup>* (initial_loop example_new) l" "lp_coord l = example_committed"
    by (rule example_committed_run)
  have i: "\<not> isl (claim example_committed)" "el_activeEpoch example_committed = 0" "\<not> el_active example_committed"
    using example_committed_eval by blast+
  then obtain c work tk where k: "claim (lp_coord l) = Inr (c, work, tk)"
    unfolding l(2) by (cases "claim example_committed") auto
  from parallel_branch_is_unanimous [OF example_new_ok l(1) k] show ?thesis
    using k i(2,3) unfolding l(2) by simp
qed

theorem gate_never_drops_witness:
  "\<exists>c'. run (Some (\<lambda>_. (False, ''user is speaking''))) (\<lambda>_ c. c) zero_batch example_committed
      = (c', Stopped (ErrDeferred ''user is speaking'') zero_batch) \<and> el_deferred c' = el_deferred example_committed"
proof -
  have m: "map (map en_eventID \<circ> ba_events) (el_deferred example_committed) = [[''e1''], [''eventx'']]"
    and a: "\<not> el_active example_committed" using example_committed_eval by blast+
  then have d: "el_deferred example_committed \<noteq> []" by auto
  have e: "\<forall>b\<in>set (el_deferred example_committed). ba_events b \<noteq> []"
    using arg_cong [OF m, of set] by (auto simp: image_iff)
  from gate_never_drops [OF d a e, of "\<lambda>_. (False, ''user is speaking'')" "\<lambda>_ c. c" zero_batch]
  show ?thesis by (auto simp: Let_def prod_eq_iff)
qed

theorem runnable_work_is_signalled_witness:
  "el_signal (Wake example_committed) \<and> (\<exists>c' b. Commit quiet_attempts example_two = Some (c', Inr b) \<and> el_signal c')"
proof -
  have "map_option (isl \<circ> snd) (Commit quiet_attempts example_two) = Some False" using example_committed_eval by blast
  then obtain c' r where k1: "Commit quiet_attempts example_two = Some (c', r)" "\<not> isl r" by auto
  then obtain b where k: "Commit quiet_attempts example_two = Some (c', Inr b)" by (cases r) auto
  have "map (map en_eventID \<circ> ba_events) (el_deferred example_committed) = [[''e1''], [''eventx'']]"
    using example_committed_eval by blast
  then have "waiting example_committed" by (auto simp: waiting_def)
  with runnable_work_is_signalled [of example_committed 0 quiet_attempts]
  have "el_signal (Wake example_committed)" by simp
  moreover from runnable_work_is_signalled [of example_two 0 quiet_attempts] k have "el_signal c'" by blast
  ultimately show ?thesis using k by blast
qed

subsection \<open>Where the code departs from its comments\<close>

text \<open>
  Refusals are attributed by item position, which is not event position. The store's refusal
  of the first item costs the signal queued before it, which compiles to no item: the commit loop
  drops the signal, although the signal alone commits.
\<close>

theorem refusal_drops_a_signal:
  "outcome_ids (commitAdmissible quiet_attempts example_group [] example_new) = Some (Inr ([''e1''], [''e0'', ''e2'']))
   \<and> outcome_ids (commitAdmissible quiet_attempts (take 1 example_group) [] example_new) = Some (Inr ([''e0''], []))"
  using example_committed_eval by blast

text \<open>
  One event that cannot be compiled costs its neighbours. A correction of a revision the log does
  not have makes the commit fail and the whole group be forgotten, the valid transcript beside it
  included, although the transcript alone commits.
\<close>

theorem compile_error_costs_neighbours:
  "map_option (\<lambda>(c, r). (map origin (st_items (el_store c)), map qe_sequence (el_pending c), map_sum id ba_start r))
     (Commit quiet_attempts (example_new\<lparr>el_pending := enqueue 0 1 [example_utterance, unknown_correction]\<rparr>))
     = Some ([], [], Inl (CommitFailed (CompileFailed (UnknownRevision 2))))
   \<and> map_option (\<lambda>(c, r). map origin (st_items (el_store c)))
     (Commit quiet_attempts (example_new\<lparr>el_pending := enqueue 0 1 [example_utterance]\<rparr>))
     = Some [(Some ''e1'', KindObservation)]"
  using example_committed_eval by blast

text \<open>
  The triage of a waiting batch depends on the order of its events: a submission whose
  interrupting event comes before a routine one is left with the weaker triage, and in the other
  order with the stronger, while the committed batch as a whole reports cancellation both times.
\<close>

theorem partition_triage_depends_on_order:
  "map (\<lambda>es. map ba_triage (partitionCommittedBatch
        (zero_batch\<lparr>ba_events := es, ba_triage := triage_of es\<rparr>) (enqueue 0 1 es)))
     [[example_event ''a'' KindSignal PriorityInterrupt, example_event ''b'' KindSignal PriorityRoutine],
      [example_event ''b'' KindSignal PriorityRoutine, example_event ''a'' KindSignal PriorityInterrupt]]
     = [[TriageQueue], [TriageCancel]]
   \<and> triage_of [example_event ''a'' KindSignal PriorityInterrupt, example_event ''b'' KindSignal PriorityRoutine] = TriageCancel"
  by code_simp

end
