(* ===== verification/Deferral.thy ===== *)
theory Deferral
  imports Coordinator Duplex
begin

section \<open>When committed work may run: deferral policies and their gate\<close>

text \<open>
  \<^verbatim>\<open>interaction/deferral.go\<close>: what a policy may see of a batch, the shipped policies (and the meeting
  profile's, from \<^verbatim>\<open>cmd/openrealtime/meeting_profile.go\<close>), and the gate that adapts a policy to the
  event loop and wires the wake-ups its conditions imply. A Go policy value is the record of its
  methods; the optional \<^verbatim>\<open>RequestConsumption\<close> interface is an optional method. The observer a gate
  registers with the duplex is the list of transition kinds it captured.
\<close>

subsection \<open>What a policy sees\<close>

record waiting_view =
  wv_duplex :: duplex_snapshot
  wv_observation :: bool
  wv_toolResult :: bool
  wv_repair :: bool
  wv_autonomous :: bool
  wv_parallel :: bool
  wv_deliberation :: bool
  wv_requested :: bool
  wv_backpressure :: bool

definition SignalEscalated :: string where
  "SignalEscalated = ''cognition.escalated''"

definition AutonomousObservation :: "batch \<Rightarrow> bool" where
  "AutonomousObservation b =
     (Contains b KindObservation
      \<and> list_all (\<lambda>it. item_kind it = KindObservation \<longrightarrow> AuthorityOf it = AuthorityObserver) (ba_items b)
      \<and> list_all (\<lambda>e. en_kind e = KindObservation) (ba_events b))"

definition WaitingFrom :: "batch \<Rightarrow> duplex_snapshot \<Rightarrow> waiting_view" where
  "WaitingFrom b s =
     \<lparr>wv_duplex = s, wv_observation = Contains b KindObservation, wv_toolResult = Contains b KindToolResult,
      wv_repair = Contains b KindRepair, wv_autonomous = AutonomousObservation b,
      wv_parallel = (ba_triage b = TriageParallel),
      wv_deliberation = (Signalled b SignalEscalated \<or> Contains b KindToolResult),
      wv_requested = False, wv_backpressure = False\<rparr>"

subsection \<open>Policies\<close>

record policy =
  pl_name :: string
  pl_admit :: "waiting_view \<Rightarrow> bool \<times> string"
  pl_conditions :: "transition_kind list"
  pl_consumes :: "(waiting_view \<Rightarrow> bool) option"

record deferral_options =
  do_overUser :: bool
  do_overAgent :: bool
  do_backpressure :: bool

definition duplex_name :: "deferral_options \<Rightarrow> string" where
  "duplex_name opt = ''duplex''
     @ (if do_overUser opt then ''+allow-over-user'' else [])
     @ (if do_overAgent opt then ''+allow-over-agent'' else [])
     @ (if do_backpressure opt then ''+backpressure'' else [])"

definition duplex_conditions :: "deferral_options \<Rightarrow> transition_kind list" where
  "duplex_conditions opt =
     (if do_overUser opt then [] else [EdgeUserSpeechStopped]) @ (if do_overAgent opt then [] else [EdgeAgentAudioStopped])"

definition duplex_admit :: "deferral_options \<Rightarrow> waiting_view \<Rightarrow> bool \<times> string" where
  "duplex_admit opt w =
     (if wv_parallel w then (True, [])
      else if wv_deliberation w then (True, [])
      else if do_backpressure opt \<and> wv_backpressure w then (False, ''provider backpressure'')
      else if ds_userSpeaking (wv_duplex w) \<and> \<not> do_overUser opt then (False, ''user is speaking'')
      else if ds_agentSpeaking (wv_duplex w) \<and> wv_autonomous w then (True, [])
      else if ds_agentSpeaking (wv_duplex w) \<and> \<not> do_overAgent opt then (False, ''agent audio is reaching the user'')
      else (True, []))"

definition NewDuplexDeferral :: "deferral_options \<Rightarrow> policy" where
  "NewDuplexDeferral opt =
     \<lparr>pl_name = duplex_name opt, pl_admit = duplex_admit opt, pl_conditions = duplex_conditions opt, pl_consumes = None\<rparr>"

definition NewClientDriven :: policy where
  "NewClientDriven =
     \<lparr>pl_name = ''client-driven'',
      pl_admit = (\<lambda>w. if wv_requested w then (True, []) else (False, ''waiting for the client to request a response'')),
      pl_conditions = [], pl_consumes = None\<rparr>"

definition AlwaysRun :: policy where
  "AlwaysRun = \<lparr>pl_name = ''always'', pl_admit = (\<lambda>_. (True, [])), pl_conditions = [], pl_consumes = None\<rparr>"

definition meetingManualDeferral :: policy where
  "meetingManualDeferral =
     \<lparr>pl_name = ''meeting-client-driven+silent-observers'',
      pl_admit = (\<lambda>w. if wv_autonomous w then (True, []) else if wv_requested w then (True, [])
                      else (False, ''waiting for the client to request a response'')),
      pl_conditions = [], pl_consumes = Some (\<lambda>w. \<not> wv_autonomous w)\<rparr>"

subsection \<open>The gate\<close>

type_synonym gate_observer = "transition_kind list"

record gate =
  gt_policy :: policy
  gt_subscription :: "u64 option"
  gt_backpressure :: bool
  gt_requested :: bool

definition Bind :: "policy \<Rightarrow> gate_observer duplex \<Rightarrow> gate_observer duplex \<times> gate" where
  "Bind p d =
     (let g = \<lparr>gt_policy = p, gt_subscription = None, gt_backpressure = False, gt_requested = False\<rparr> in
      if pl_conditions p = [] then (d, g)
      else case Observe (pl_conditions p) d of (d', h) \<Rightarrow> (d', g\<lparr>gt_subscription := Some h\<rparr>))"

text \<open>The closure registered by \<^verbatim>\<open>Bind\<close>: the reason of the wake-up it makes, if it makes one.\<close>

definition observed :: "gate_observer \<Rightarrow> transition \<Rightarrow> string option" where
  "observed wanted t = (if tn_kind t \<in> set wanted then Some (Reason t) else None)"

definition GateClose :: "gate \<Rightarrow> gate_observer duplex \<Rightarrow> gate \<times> gate_observer duplex" where
  "GateClose g d =
     (case gt_subscription g of None \<Rightarrow> (g, d) | Some h \<Rightarrow> (g\<lparr>gt_subscription := None\<rparr>, unobserve h d))"

definition SetBackpressure :: "bool \<Rightarrow> gate \<Rightarrow> gate \<times> string option" where
  "SetBackpressure load g =
     (g\<lparr>gt_backpressure := load\<rparr>,
      if gt_backpressure g \<noteq> load \<and> \<not> load then Some ''provider backpressure relieved'' else None)"

definition RequestResponse :: "gate \<Rightarrow> gate \<times> string option" where
  "RequestResponse g = (g\<lparr>gt_requested := True\<rparr>, Some ''client requested a response'')"

text \<open>What the gate asks its policy about a batch.\<close>

definition view_of :: "gate \<Rightarrow> duplex_snapshot \<Rightarrow> batch \<Rightarrow> waiting_view" where
  "view_of g s b = (WaitingFrom b s)\<lparr>wv_backpressure := gt_backpressure g, wv_requested := gt_requested g\<rparr>"

definition AdmitRun :: "batch \<Rightarrow> duplex_snapshot \<Rightarrow> gate \<Rightarrow> gate \<times> bool \<times> string" where
  "AdmitRun b s g =
     (let w = view_of g s b;
          (admitted, reason) = pl_admit (gt_policy g) w;
          consume = (admitted \<and> wv_requested w
            \<and> (case pl_consumes (gt_policy g) of None \<Rightarrow> True | Some f \<Rightarrow> f w))
      in ((if consume then g\<lparr>gt_requested := False\<rparr> else g), admitted, reason))"

definition admits :: "gate \<Rightarrow> duplex_snapshot \<Rightarrow> batch \<Rightarrow> bool" where
  "admits g s b = fst (pl_admit (gt_policy g) (view_of g s b))"

subsection \<open>The contract of a policy\<close>

text \<open>
  A policy owes that its answer depends on the duplex only through the two facts; that what it
  declines is admitted once everyone is silent, providers are relieved and the client asks; and
  that whenever the end of a party's audio turns a refusal into an admission, it has listed that
  transition, while the start of audio never does so.
\<close>

definition with_facts :: "bool \<Rightarrow> bool \<Rightarrow> waiting_view \<Rightarrow> waiting_view" where
  "with_facts u a w = w\<lparr>wv_duplex := (wv_duplex w)\<lparr>ds_userSpeaking := u, ds_agentSpeaking := a\<rparr>\<rparr>"

locale deferral =
  fixes p :: policy
  assumes facts_only: "ds_userSpeaking (wv_duplex w) = ds_userSpeaking s \<Longrightarrow>
      ds_agentSpeaking (wv_duplex w) = ds_agentSpeaking s \<Longrightarrow>
      fst (pl_admit p (w\<lparr>wv_duplex := s\<rparr>)) = fst (pl_admit p w)"
    and admits_when_clear: "fst (pl_admit p ((with_facts False False w)\<lparr>wv_backpressure := False, wv_requested := True\<rparr>))"
    and user_stop_listed: "\<not> fst (pl_admit p (with_facts True a w)) \<Longrightarrow> fst (pl_admit p (with_facts False a w)) \<Longrightarrow>
      EdgeUserSpeechStopped \<in> set (pl_conditions p)"
    and agent_stop_listed: "\<not> fst (pl_admit p (with_facts u True w)) \<Longrightarrow> fst (pl_admit p (with_facts u False w)) \<Longrightarrow>
      EdgeAgentAudioStopped \<in> set (pl_conditions p)"
    and user_start_never_admits: "fst (pl_admit p (with_facts True a w)) \<Longrightarrow> fst (pl_admit p (with_facts False a w))"
    and agent_start_never_admits: "fst (pl_admit p (with_facts u True w)) \<Longrightarrow> fst (pl_admit p (with_facts u False w))"
    and request_helps: "fst (pl_admit p w) \<Longrightarrow> fst (pl_admit p (w\<lparr>wv_requested := True\<rparr>))"
    and relief_helps: "fst (pl_admit p w) \<Longrightarrow> fst (pl_admit p (w\<lparr>wv_backpressure := False\<rparr>))"
begin

text \<open>
  Whenever one step of the outside world turns a refusal of waiting work into its admission, the
  gate makes a wake-up at that step: an edge of the duplex reaches the observer \<^verbatim>\<open>Bind\<close> registered,
  relief and requests wake by themselves.
\<close>

lemma with_facts_view:
  "fst (pl_admit p (view_of g s b)) =
     fst (pl_admit p (with_facts (ds_userSpeaking s) (ds_agentSpeaking s) (view_of g t b)))"
proof -
  have "view_of g s b = (with_facts (ds_userSpeaking s) (ds_agentSpeaking s) (view_of g t b))\<lparr>wv_duplex := s\<rparr>"
    by (simp add: view_of_def WaitingFrom_def with_facts_def)
  then show ?thesis using facts_only [of "with_facts (ds_userSpeaking s) (ds_agentSpeaking s) (view_of g t b)" s]
    by (simp add: with_facts_def)
qed

lemma edge_wakes:
  assumes "gt_policy g = p" and "edge_ok t" and "\<not> admits g (tn_before t) b" and "admits g (tn_after t) b"
  shows "observed (pl_conditions p) t = Some (Reason t)"
proof -
  let ?w = "view_of g silence b"
  have b: "\<not> fst (pl_admit p (with_facts (ds_userSpeaking (tn_before t)) (ds_agentSpeaking (tn_before t)) ?w))"
    using assms(1,3) with_facts_view by (simp add: admits_def)
  have a: "fst (pl_admit p (with_facts (ds_userSpeaking (tn_after t)) (ds_agentSpeaking (tn_after t)) ?w))"
    using assms(1,4) with_facts_view by (simp add: admits_def)
  have f: "edge_facts (tn_kind t) (tn_before t) (tn_after t)" using assms(2) by (simp add: edge_ok_def Let_def)
  have "tn_kind t \<in> set (pl_conditions p)"
    using f a b user_stop_listed agent_stop_listed user_start_never_admits agent_start_never_admits
    by (cases "tn_kind t") auto
  then show ?thesis by (simp add: observed_def)
qed

lemma silent_keeps_decision:
  assumes "gt_policy g = p" and "same_facts s t"
  shows "admits g s b = admits g t b"
  using assms with_facts_view [of g s b silence] with_facts_view [of g t b silence]
  by (simp add: admits_def same_facts_def)

lemma relief_wakes:
  assumes "gt_policy g = p" and "\<not> admits g s b" and "admits (fst (SetBackpressure load g)) s b"
  shows "snd (SetBackpressure load g) \<noteq> None"
proof -
  have v: "view_of (g\<lparr>gt_backpressure := u\<rparr>) s b = (view_of g s b)\<lparr>wv_backpressure := u\<rparr>" for u
    by (simp add: view_of_def)
  have "gt_backpressure g \<noteq> load"
  proof
    assume "gt_backpressure g = load"
    then have "g\<lparr>gt_backpressure := load\<rparr> = g" by (cases g) simp
    with assms show False by (simp add: SetBackpressure_def)
  qed
  moreover have "\<not> load"
  proof
    assume u: "load"
    with assms(1,3) v [of True] have "fst (pl_admit p ((view_of g s b)\<lparr>wv_backpressure := True\<rparr>))"
      by (simp add: admits_def SetBackpressure_def)
    then have "fst (pl_admit p ((view_of g s b)\<lparr>wv_backpressure := False\<rparr>))" using relief_helps by fastforce
    moreover have "(view_of g s b)\<lparr>wv_backpressure := False\<rparr> = view_of g s b"
      using u \<open>gt_backpressure g \<noteq> load\<close> by (simp add: view_of_def)
    ultimately show False using assms(1,2) by (simp add: admits_def)
  qed
  ultimately show ?thesis by (simp add: SetBackpressure_def)
qed

end

lemma with_facts_simps [simp]:
  "ds_userSpeaking (wv_duplex (with_facts u a w)) = u" "ds_agentSpeaking (wv_duplex (with_facts u a w)) = a"
  "wv_autonomous (with_facts u a w) = wv_autonomous w" "wv_parallel (with_facts u a w) = wv_parallel w"
  "wv_deliberation (with_facts u a w) = wv_deliberation w" "wv_requested (with_facts u a w) = wv_requested w"
  "wv_backpressure (with_facts u a w) = wv_backpressure w"
  by (simp_all add: with_facts_def)

interpretation duplex_policy: deferral "NewDuplexDeferral opt" for opt
  by unfold_locales
    (auto simp: NewDuplexDeferral_def duplex_admit_def duplex_conditions_def split: if_splits)

interpretation client_driven: deferral NewClientDriven
  by unfold_locales (auto simp: NewClientDriven_def split: if_splits)

interpretation always_run: deferral AlwaysRun
  by unfold_locales (auto simp: AlwaysRun_def)

interpretation meeting_manual: deferral meetingManualDeferral
  by unfold_locales (auto simp: meetingManualDeferral_def split: if_splits)

subsection \<open>Properties\<close>

definition shipped :: "policy \<Rightarrow> bool" where
  "shipped p = (p \<in> {NewClientDriven, AlwaysRun, meetingManualDeferral} \<or> (\<exists>opt. p = NewDuplexDeferral opt))"

lemma shipped_deferral: "shipped p \<Longrightarrow> deferral p"
  using duplex_policy.deferral_axioms client_driven.deferral_axioms always_run.deferral_axioms meeting_manual.deferral_axioms
  by (auto simp: shipped_def)

text \<open>The gate's observer is registered with the duplex, unless its policy lists no transition.\<close>

definition subscribed :: "gate \<Rightarrow> gate_observer duplex \<Rightarrow> bool" where
  "subscribed g d = (pl_conditions (gt_policy g) = []
     \<or> (\<exists>h. gt_subscription g = Some h \<and> map_of (dx_observers d) h = Some (pl_conditions (gt_policy g))))"

lemma Bind_subscribes: "Bind p d = (d', g) \<Longrightarrow> subscribed g d' \<and> gt_policy g = p"
  by (auto simp: Bind_def subscribed_def Observe_def Let_def split: if_splits)

lemma exec_edge_observers: "exec op d = (d', Some t) \<Longrightarrow> dx_observers d' = dx_observers d"
  by (cases op) (auto simp: duplex_op_defs split: if_splits option.splits sum.splits)

lemma duplex_policy_admits_in_silence:
  assumes "gt_policy g = NewDuplexDeferral opt" and "\<not> gt_backpressure g"
    and "\<not> ds_userSpeaking s" and "\<not> ds_agentSpeaking s"
  shows "admits g s b"
  using assms by (simp add: admits_def NewDuplexDeferral_def duplex_admit_def view_of_def WaitingFrom_def)

lemma AdmitRun_admits: "fst (snd (AdmitRun b s g)) = admits g s b"
  by (simp add: AdmitRun_def admits_def Let_def case_prod_beta)

lemma subscribed_delivers:
  assumes "subscribed g d" and "dx_observers d' = dx_observers d" and "tn_kind t \<in> set (pl_conditions (gt_policy g))"
  shows "(pl_conditions (gt_policy g), t) \<in> set (publish d' t)"
proof -
  obtain h where "map_of (dx_observers d') h = Some (pl_conditions (gt_policy g))"
    using assms by (auto simp: subscribed_def)
  then show ?thesis by (force simp: publish_def dest: map_of_SomeD)
qed

text \<open>
  C6. Every deferral has a wake-up. For each shipped policy bound to the duplex of a session: when an
  operation of the duplex turns the refusal of a batch into its admission, it produces a
  transition, and publishing that transition calls the gate's observer, which wakes the loop; when
  a report on provider load does so, the report wakes the loop; and a client's request always
  does.
\<close>

theorem every_deferral_has_a_wakeup:
  assumes "shipped (gt_policy g)" and "duplex_run c" and "subscribed g (cf_duplex c)"
    and "\<not> admits g (dx_state (cf_duplex c)) b"
  shows "(\<forall>op d r. exec op (cf_duplex c) = (d, r) \<longrightarrow> admits g (dx_state d) b \<longrightarrow>
      (\<exists>t wanted. r = Some t \<and> (wanted, t) \<in> set (publish d t) \<and> observed wanted t = Some (Reason t)))
    \<and> (\<forall>load. admits (fst (SetBackpressure load g)) (dx_state (cf_duplex c)) b \<longrightarrow> snd (SetBackpressure load g) \<noteq> None)
    \<and> snd (RequestResponse g) \<noteq> None"
proof (intro conjI allI impI)
  note def = shipped_deferral [OF assms(1)]
  have ok: "duplex_ok (cf_duplex c)" using run_config_ok [OF assms(2)] by (simp add: config_ok_def)
  show "snd (RequestResponse g) \<noteq> None" by (simp add: RequestResponse_def)
  show "snd (SetBackpressure load g) \<noteq> None" if "admits (fst (SetBackpressure load g)) (dx_state (cf_duplex c)) b" for load
    using deferral.relief_wakes [OF def refl assms(4) that] .
  fix op d r
  assume e: "exec op (cf_duplex c) = (d, r)" and a: "admits g (dx_state d) b"
  show "\<exists>t wanted. r = Some t \<and> (wanted, t) \<in> set (publish d t) \<and> observed wanted t = Some (Reason t)"
  proof (cases r)
    case None
    with e have "same_facts (dx_state (cf_duplex c)) (dx_state d)" by (simp add: exec_silent)
    with a assms(4) deferral.silent_keeps_decision [OF def refl] show ?thesis by blast
  next
    case (Some t)
    note ed = exec_edge [OF e [unfolded Some] ok]
    have w: "observed (pl_conditions (gt_policy g)) t = Some (Reason t)"
      using deferral.edge_wakes [OF def refl, of t b] ed a assms(4) by simp
    then have "tn_kind t \<in> set (pl_conditions (gt_policy g))" by (auto simp: observed_def split: if_splits)
    note delivered = subscribed_delivers [OF assms(3) exec_edge_observers [OF e [unfolded Some]] this]
    with w Some delivered show ?thesis by blast
  qed
qed

text \<open>
  No policy holds work forever: whatever a shipped policy declined, it admits once both parties
  are silent, the providers are relieved and the client has asked.
\<close>

theorem declined_work_becomes_admissible:
  assumes "shipped (gt_policy g)" and "Silent s" and "ds_phase s = derivePhase s"
  shows "admits (fst (RequestResponse (fst (SetBackpressure False g)))) s b"
proof -
  note def = shipped_deferral [OF assms(1)]
  have s: "\<not> ds_userSpeaking s" "\<not> ds_agentSpeaking s"
    using assms(2,3) by (auto simp: Silent_def derivePhase_def split: if_splits)
  let ?g = "g\<lparr>gt_backpressure := False, gt_requested := True\<rparr>"
  have v: "(with_facts False False (view_of ?g s b))\<lparr>wv_backpressure := False, wv_requested := True\<rparr>
      = with_facts False False (view_of ?g s b)"
    by (simp add: with_facts_def view_of_def)
  have "fst (pl_admit (gt_policy g) (view_of ?g s b))"
    using deferral.admits_when_clear [OF def, of "view_of ?g s b"] deferral.with_facts_view [OF def, of ?g s b s] s
    unfolding v by simp
  then show ?thesis by (simp add: admits_def RequestResponse_def SetBackpressure_def)
qed

text \<open>
  One request releases one run. Under the client-driven policy a request admits the next batch and
  is spent by it, so the batch after that waits for another request; under the meeting policy an
  observer-only batch is admitted without spending the request.
\<close>

theorem request_is_spent_once:
  "(gt_policy g = NewClientDriven \<longrightarrow>
     (\<exists>g1. AdmitRun b s (fst (RequestResponse g)) = (g1, True, []) \<and> \<not> fst (snd (AdmitRun b' s' g1))))
   \<and> (gt_policy g = meetingManualDeferral \<longrightarrow> AutonomousObservation b \<longrightarrow>
       AdmitRun b s (fst (RequestResponse g)) = (fst (RequestResponse g), True, []))"
  by (auto simp: AdmitRun_def RequestResponse_def NewClientDriven_def meetingManualDeferral_def view_of_def WaitingFrom_def)

subsection \<open>An agent that is being heard\<close>

text \<open>A gate with the default duplex policy, bound before the agent starts to speak.\<close>

definition example_options :: deferral_options where
  "example_options = \<lparr>do_overUser = False, do_overAgent = False, do_backpressure = False\<rparr>"

definition example_gate :: gate where
  "example_gate = snd (Bind (NewDuplexDeferral example_options) NewDuplex)"

definition example_heard :: "gate_observer config" where
  "example_heard = perform [Perform (OpObserve (duplex_conditions example_options)),
     Perform (OpAgentAudioHandedOff 100 ''u1'' 50)]"

definition example_batch :: batch where
  "example_batch = zero_batch\<lparr>ba_triage := TriageQueue\<rparr>"

lemma example_gate_eval:
  "gt_policy example_gate = NewDuplexDeferral example_options" "gt_subscription example_gate = Some 1"
  "map_of (dx_observers (cf_duplex example_heard)) 1 = Some (duplex_conditions example_options)"
  "ds_agentSpeaking (dx_state (cf_duplex example_heard)) = True"
  "ds_userSpeaking (dx_state (cf_duplex example_heard)) = False"
  by (simp_all add: example_gate_def Bind_def Observe_def NewDuplexDeferral_def duplex_conditions_def example_options_def
      NewDuplex_def Let_def) code_simp+

lemma example_gate_setting:
  "shipped (gt_policy example_gate)" "duplex_run example_heard" "subscribed example_gate (cf_duplex example_heard)"
  "\<not> admits example_gate (dx_state (cf_duplex example_heard)) example_batch"
  using example_gate_eval
  by (auto simp: shipped_def example_heard_def perform_run subscribed_def NewDuplexDeferral_def admits_def view_of_def
      WaitingFrom_def duplex_admit_def example_batch_def Signalled_def Contains_def zero_batch_def example_options_def AutonomousObservation_def)

theorem every_deferral_has_a_wakeup_witness:
  "\<exists>d t wanted. exec (OpPlayoutElapsed 150) (cf_duplex example_heard) = (d, Some t)
     \<and> admits example_gate (dx_state d) example_batch \<and> (wanted, t) \<in> set (publish d t)
     \<and> observed wanted t = Some ''agent playback complete''"
proof -
  obtain d r where e: "exec (OpPlayoutElapsed 150) (cf_duplex example_heard) = (d, r)" by force
  have "ds_userSpeaking (dx_state (fst (exec (OpPlayoutElapsed 150) (cf_duplex example_heard)))) = False"
    "ds_agentSpeaking (dx_state (fst (exec (OpPlayoutElapsed 150) (cf_duplex example_heard)))) = False" by code_simp+
  then have a: "admits example_gate (dx_state d) example_batch"
    using example_gate_eval(1) e
    by (simp add: admits_def view_of_def WaitingFrom_def NewDuplexDeferral_def duplex_admit_def example_options_def)
  have k: "map_option tn_kind (snd (exec (OpPlayoutElapsed 150) (cf_duplex example_heard))) = Some EdgeAgentAudioStopped"
    by code_simp
  from every_deferral_has_a_wakeup [OF example_gate_setting] e a obtain t wanted where
    t: "r = Some t" "(wanted, t) \<in> set (publish d t)" "observed wanted t = Some (Reason t)" by blast
  have "Reason t = ''agent playback complete''" using k e t(1) by (simp add: Reason_def)
  with e a t show ?thesis by metis
qed

theorem declined_work_becomes_admissible_witness:
  "admits (fst (RequestResponse (fst (SetBackpressure False example_gate)))) silence example_batch"
  by (rule declined_work_becomes_admissible [OF example_gate_setting(1)]) (simp_all add: Silent_def silence_def derivePhase_def)

theorem request_is_spent_once_witness:
  "\<exists>g1. AdmitRun example_batch silence (fst (RequestResponse (snd (Bind NewClientDriven NewDuplex)))) = (g1, True, [])
     \<and> \<not> fst (snd (AdmitRun example_batch silence g1))"
proof -
  have "gt_policy (snd (Bind NewClientDriven NewDuplex)) = NewClientDriven" using Bind_subscribes by (metis prod.collapse)
  with request_is_spent_once [of "snd (Bind NewClientDriven NewDuplex)" example_batch silence] show ?thesis by blast
qed

end
