(* ===== verification/Governor.thy ===== *)
theory Governor
  imports Prelude "HOL-Library.Product_Lexorder"
begin

section \<open>Admission to a bounded resource\<close>

text \<open>
  \<^verbatim>\<open>admission/governor.go\<close>: a priority scheduler of leases on integer capacity, with a reservation for
  interactive work, admission deadlines and cooperative preemption. Each section under the
  governor's lock is one function. A waiter is named by its sequence number and a lease by its
  identifier; the state a waiter object carries is a map from sequence numbers, which the caller
  of \<^verbatim>\<open>Acquire\<close> reads through its pointer. The clock is a function of the number of readings.
  Times are natural numbers; the zero \<^verbatim>\<open>time.Time\<close> of an absent deadline is \<^const>\<open>None\<close>. Contexts are
  named by their lease, and the first cause of a cancellation is kept.
\<close>

subsection \<open>State\<close>

type_synonym admission_class = nat

definition ClassBackground :: admission_class where [simp]: "ClassBackground = 1"
definition ClassSpeculative :: admission_class where [simp]: "ClassSpeculative = 2"
definition ClassInteractive :: admission_class where [simp]: "ClassInteractive = 3"
definition ClassUrgent :: admission_class where [simp]: "ClassUrgent = 4"

record request =
  rq_class :: admission_class
  rq_cost :: int
  rq_preemptible :: bool
  rq_deadline :: "nat option"
  rq_label :: string

datatype waiter_state = Waiting | Granted nat | Cancelled

record waiter =
  wt_sequence :: nat
  wt_request :: request
  wt_enqueued :: nat

record running =
  rn_id :: nat
  rn_request :: request
  rn_sequence :: nat
  rn_preempting :: bool
  rn_granted :: nat
  rn_preempted :: "nat option"

record class_timing =
  ct_admitted :: nat
  ct_released :: nat
  ct_preemptions :: nat
  ct_waitTotal :: nat
  ct_waitMax :: nat
  ct_serviceTotal :: nat
  ct_serviceMax :: nat
  ct_preemptTotal :: nat
  ct_preemptMax :: nat

datatype lease_cause = ErrPreempted | ContextCanceled

record governor =
  gv_capacity :: int
  gv_reserved :: int
  gv_clock :: "nat \<Rightarrow> nat"
  gv_ticks :: nat
  gv_nextSequence :: nat
  gv_nextLeaseID :: nat
  gv_used :: int
  gv_lowerUsed :: int
  gv_waiters :: "waiter list"
  gv_states :: "(nat, waiter_state) gomap"
  gv_running :: "(nat, running) gomap"
  gv_cancelled :: "(nat, lease_cause) gomap"
  gv_admitted :: nat
  gv_released :: nat
  gv_preemptions :: nat
  gv_cancelledWaiters :: nat
  gv_deadlineMisses :: nat
  gv_classes :: "(admission_class, class_timing) gomap"

datatype governor_error =
    CapacityNotPositive | ReservationOutOfRange | InvalidClass nat | CostOutOfRange | ExceedsReservation
  | ErrAdmissionDeadline

definition NewGovernor :: "int \<Rightarrow> int \<Rightarrow> (nat \<Rightarrow> nat) \<Rightarrow> (governor_error, governor) result" where
  "NewGovernor capacity reserved clock =
     (if capacity \<le> 0 then Inl CapacityNotPositive
      else if reserved < 0 \<or> reserved > capacity then Inl ReservationOutOfRange
      else Inr \<lparr>gv_capacity = capacity, gv_reserved = reserved, gv_clock = clock, gv_ticks = 0,
        gv_nextSequence = 0, gv_nextLeaseID = 0, gv_used = 0, gv_lowerUsed = 0, gv_waiters = [],
        gv_states = [], gv_running = [], gv_cancelled = [], gv_admitted = 0, gv_released = 0,
        gv_preemptions = 0, gv_cancelledWaiters = 0, gv_deadlineMisses = 0, gv_classes = []\<rparr>)"

definition validateRequest :: "governor \<Rightarrow> request \<Rightarrow> governor_error option" where
  "validateRequest g r =
     (if rq_class r \<notin> {ClassBackground, ClassSpeculative, ClassInteractive, ClassUrgent}
      then Some (InvalidClass (rq_class r))
      else if rq_cost r \<le> 0 \<or> rq_cost r > gv_capacity g then Some CostOutOfRange
      else if rq_class r \<le> ClassSpeculative \<and> rq_cost r > gv_capacity g - gv_reserved g
      then Some ExceedsReservation
      else None)"

subsection \<open>The clock and the timing of classes\<close>

definition tick :: "governor \<Rightarrow> nat \<times> governor" where
  "tick g = (gv_clock g (gv_ticks g), g\<lparr>gv_ticks := gv_ticks g + 1\<rparr>)"

definition zero_timing :: class_timing where
  "zero_timing = \<lparr>ct_admitted = 0, ct_released = 0, ct_preemptions = 0, ct_waitTotal = 0, ct_waitMax = 0,
     ct_serviceTotal = 0, ct_serviceMax = 0, ct_preemptTotal = 0, ct_preemptMax = 0\<rparr>"

definition update_timing :: "admission_class \<Rightarrow> (class_timing \<Rightarrow> class_timing) \<Rightarrow> governor \<Rightarrow> governor" where
  "update_timing k f g =
     g\<lparr>gv_classes := AList.update k (f (case map_of (gv_classes g) k of None \<Rightarrow> zero_timing | Some t \<Rightarrow> t)) (gv_classes g)\<rparr>"

text \<open>\<^verbatim>\<open>nonnegativeDuration(later.Sub(earlier))\<close> is subtraction that stops at zero.\<close>

definition elapsed :: "nat \<Rightarrow> nat \<Rightarrow> nat" where
  "elapsed later earlier = later - earlier"

subsection \<open>Order of the queue\<close>

definition compareWaiters :: "waiter \<Rightarrow> waiter \<Rightarrow> int" where
  "compareWaiters l r =
     (if rq_class (wt_request l) \<noteq> rq_class (wt_request r)
      then int (rq_class (wt_request r)) - int (rq_class (wt_request l))
      else case (rq_deadline (wt_request l), rq_deadline (wt_request r)) of
        (None, Some _) \<Rightarrow> 1
      | (Some _, None) \<Rightarrow> -1
      | (Some a, Some b) \<Rightarrow>
          (if a \<noteq> b then (if a < b then -1 else 1)
           else if wt_sequence l < wt_sequence r then -1 else if wt_sequence l > wt_sequence r then 1 else 0)
      | (None, None) \<Rightarrow>
          (if wt_sequence l < wt_sequence r then -1 else if wt_sequence l > wt_sequence r then 1 else 0))"

text \<open>A stable sort by a comparison function, as \<^verbatim>\<open>slices.SortStableFunc\<close>.\<close>

fun insert_by :: "('a \<Rightarrow> 'a \<Rightarrow> int) \<Rightarrow> 'a \<Rightarrow> 'a list \<Rightarrow> 'a list" where
  "insert_by cmp x [] = [x]"
| "insert_by cmp x (y # ys) = (if cmp x y \<le> 0 then x # y # ys else y # insert_by cmp x ys)"

definition sort_stable :: "('a \<Rightarrow> 'a \<Rightarrow> int) \<Rightarrow> 'a list \<Rightarrow> 'a list" where
  "sort_stable cmp xs = foldr (insert_by cmp) xs []"

subsection \<open>Admission\<close>

definition fits :: "governor \<Rightarrow> request \<Rightarrow> bool" where
  "fits g r = (gv_used g + rq_cost r \<le> gv_capacity g
     \<and> (rq_class r \<le> ClassSpeculative \<longrightarrow> gv_lowerUsed g + rq_cost r \<le> gv_capacity g - gv_reserved g))"

definition state_of :: "governor \<Rightarrow> nat \<Rightarrow> waiter_state" where
  "state_of g s = (case map_of (gv_states g) s of None \<Rightarrow> Waiting | Some st \<Rightarrow> st)"

definition set_state :: "nat \<Rightarrow> waiter_state \<Rightarrow> governor \<Rightarrow> governor" where
  "set_state s st g = g\<lparr>gv_states := AList.update s st (gv_states g)\<rparr>"

definition cancel_lease :: "nat \<Rightarrow> lease_cause \<Rightarrow> governor \<Rightarrow> governor" where
  "cancel_lease i why g =
     (if gm_has (gv_cancelled g) i then g else g\<lparr>gv_cancelled := AList.update i why (gv_cancelled g)\<rparr>)"

text \<open>The clock is only read for a request that has a deadline.\<close>

definition deadline_passed :: "waiter \<Rightarrow> governor \<Rightarrow> bool \<times> governor" where
  "deadline_passed w g =
     (case rq_deadline (wt_request w) of
        None \<Rightarrow> (False, g)
      | Some d \<Rightarrow> (case tick g of (now, g') \<Rightarrow> (d \<le> now, g')))"

definition expire :: "waiter \<Rightarrow> governor \<Rightarrow> governor" where
  "expire w g = (set_state (wt_sequence w) Cancelled g)\<lparr>gv_deadlineMisses := gv_deadlineMisses g + 1\<rparr>"

text \<open>The loop of \<^verbatim>\<open>firstAdmissibleLocked\<close> from position \<open>i\<close>.\<close>

fun first_loop :: "nat \<Rightarrow> waiter list \<Rightarrow> governor \<Rightarrow> governor \<times> nat option" where
  "first_loop i [] g = (g, None)"
| "first_loop i (w # ws) g =
     (if state_of g (wt_sequence w) \<noteq> Waiting then first_loop (i + 1) ws g
      else
        (case deadline_passed w g of (late, g1) \<Rightarrow>
           if late then first_loop (i + 1) ws (expire w g1)
           else if fits g1 (wt_request w) then (g1, Some i)
           else first_loop (i + 1) ws g1))"

definition firstAdmissible :: "governor \<Rightarrow> governor \<times> nat option" where
  "firstAdmissible g =
     (case first_loop 0 (gv_waiters g) g of
        (g1, Some i) \<Rightarrow> (g1, Some i)
      | (g1, None) \<Rightarrow>
          (g1\<lparr>gv_waiters := filter (\<lambda>w. state_of g1 (wt_sequence w) \<noteq> Cancelled) (gv_waiters g1)\<rparr>, None))"

definition grant :: "nat \<Rightarrow> governor \<Rightarrow> governor" where
  "grant i g =
     (let w = gv_waiters g ! i; r = wt_request w;
          (now, g1) = tick (g\<lparr>gv_waiters := take i (gv_waiters g) @ drop (i + 1) (gv_waiters g)\<rparr>);
          lid = gv_nextLeaseID g1 + 1;
          g2 = set_state (wt_sequence w) (Granted lid) (g1\<lparr>gv_nextLeaseID := lid\<rparr>);
          g3 = g2\<lparr>gv_running := AList.update lid \<lparr>rn_id = lid, rn_request = r, rn_sequence = wt_sequence w,
                 rn_preempting = False, rn_granted = now, rn_preempted = None\<rparr> (gv_running g2),
               gv_used := gv_used g2 + rq_cost r,
               gv_lowerUsed := (if rq_class r \<le> ClassSpeculative then gv_lowerUsed g2 + rq_cost r else gv_lowerUsed g2),
               gv_admitted := gv_admitted g2 + 1\<rparr>;
          wait = elapsed now (wt_enqueued w)
      in update_timing (rq_class r) (\<lambda>t. t\<lparr>ct_admitted := ct_admitted t + 1, ct_waitTotal := ct_waitTotal t + wait,
            ct_waitMax := max (ct_waitMax t) wait\<rparr>) g3)"

subsection \<open>Preemption\<close>

definition capacity_needed :: "governor \<Rightarrow> request \<Rightarrow> int" where
  "capacity_needed g r =
     (let needed = gv_used g + rq_cost r - gv_capacity g in
      if rq_class r \<le> ClassSpeculative
      then max needed (gv_lowerUsed g + rq_cost r - (gv_capacity g - gv_reserved g)) else needed)"

text \<open>The comparison of candidates: lower classes first, then larger, then younger leases.\<close>

definition victim_key :: "running \<Rightarrow> nat \<times> int \<times> int" where
  "victim_key r = (rq_class (rn_request r), - rq_cost (rn_request r), - int (rn_sequence r))"

definition candidates :: "governor \<Rightarrow> admission_class \<Rightarrow> running list" where
  "candidates g k = sort_key victim_key (filter (\<lambda>r. \<not> rn_preempting r \<and> rq_preemptible (rn_request r)
     \<and> rq_class (rn_request r) < k) (map snd (gv_running g)))"

definition preempt :: "running \<Rightarrow> governor \<Rightarrow> governor" where
  "preempt r g =
     (case tick g of (now, g1) \<Rightarrow>
       (let g2 = g1\<lparr>gv_running := AList.update (rn_id r) (r\<lparr>rn_preempting := True, rn_preempted := Some now\<rparr>) (gv_running g1)\<rparr>;
            g3 = cancel_lease (rn_id r) ErrPreempted g2
        in update_timing (rq_class (rn_request r)) (\<lambda>t. t\<lparr>ct_preemptions := ct_preemptions t + 1\<rparr>)
             (g3\<lparr>gv_preemptions := gv_preemptions g3 + 1\<rparr>)))"

fun preempt_loop :: "int \<Rightarrow> running list \<Rightarrow> governor \<Rightarrow> governor" where
  "preempt_loop needed [] g = g"
| "preempt_loop needed (r # rs) g =
     (let g1 = preempt r g; needed' = needed - rq_cost (rn_request r) in
      if needed' \<le> 0 then g1 else preempt_loop needed' rs g1)"

definition requestPreemption :: "governor \<Rightarrow> governor" where
  "requestPreemption g =
     (case gv_waiters g of
        [] \<Rightarrow> g
      | wanted # _ \<Rightarrow>
          (if state_of g (wt_sequence wanted) \<noteq> Waiting then g
           else
             (let needed = capacity_needed g (wt_request wanted) in
              if needed \<le> 0 then g
              else preempt_loop needed (candidates g (rq_class (wt_request wanted))) g)))"

subsection \<open>Scheduling\<close>

text \<open>A search for admissible work reads the clock and marks expired waiters; nothing else changes.\<close>

definition searched :: "governor \<Rightarrow> governor \<Rightarrow> bool" where
  "searched g g' = (\<exists>t s m. g' = g\<lparr>gv_ticks := t, gv_states := s, gv_deadlineMisses := m\<rparr>)"

lemma governor_search_id: "g\<lparr>gv_ticks := gv_ticks g, gv_states := gv_states g, gv_deadlineMisses := gv_deadlineMisses g\<rparr> = g"
  by (cases g) simp

lemma searched_refl: "searched g g"
  unfolding searched_def using governor_search_id [of g] by metis

lemma searched_trans: "searched a b \<Longrightarrow> searched b c \<Longrightarrow> searched a c"
  unfolding searched_def by fastforce

lemma searched_deadline: "deadline_passed w g = (late, g') \<Longrightarrow> searched g g' \<and> gv_states g' = gv_states g"
proof -
  have "searched g (g\<lparr>gv_ticks := t\<rparr>)" for t
  proof -
    have "g\<lparr>gv_ticks := t\<rparr> = g\<lparr>gv_ticks := t, gv_states := gv_states g, gv_deadlineMisses := gv_deadlineMisses g\<rparr>"
      by (cases g) simp
    then show ?thesis unfolding searched_def by blast
  qed
  then show "deadline_passed w g = (late, g') \<Longrightarrow> ?thesis"
    by (auto simp: deadline_passed_def tick_def searched_refl split: option.splits)
qed

lemma searched_expire: "searched g (expire w g)"
proof -
  have "expire w g = g\<lparr>gv_ticks := gv_ticks g, gv_states := gv_states (expire w g), gv_deadlineMisses := gv_deadlineMisses g + 1\<rparr>"
    by (cases g) (simp add: expire_def set_state_def)
  then show ?thesis unfolding searched_def by blast
qed

lemma searched_frame:
  assumes "searched g g'"
  shows "gv_waiters g' = gv_waiters g" "gv_running g' = gv_running g" "gv_used g' = gv_used g"
    "gv_lowerUsed g' = gv_lowerUsed g" "gv_capacity g' = gv_capacity g" "gv_reserved g' = gv_reserved g"
    "gv_nextLeaseID g' = gv_nextLeaseID g" "gv_nextSequence g' = gv_nextSequence g" "gv_admitted g' = gv_admitted g"
    "gv_released g' = gv_released g" "gv_cancelled g' = gv_cancelled g" "gv_preemptions g' = gv_preemptions g"
  using assms by (auto simp: searched_def)

lemma first_loop_searched:
  "first_loop i ws g = (g', r) \<Longrightarrow>
     searched g g' \<and> (\<forall>j. r = Some j \<longrightarrow> i \<le> j \<and> j < i + length ws)"
proof (induction ws arbitrary: i g)
  case (Cons w ws)
  obtain late g1 where d: "deadline_passed w g = (late, g1)" by force
  note s = searched_deadline [OF d]
  show ?case
  proof (cases "state_of g (wt_sequence w) = Waiting")
    case False
    with Cons.prems have "first_loop (i + 1) ws g = (g', r)" by simp
    from Cons.IH [OF this] show ?thesis by auto
  next
    case True
    consider "late" | "\<not> late" "fits g1 (wt_request w)" | "\<not> late" "\<not> fits g1 (wt_request w)" by blast
    then show ?thesis
    proof cases
      case 1
      with Cons.prems True d have "first_loop (i + 1) ws (expire w g1) = (g', r)" by simp
      from Cons.IH [OF this] have ih: "searched (expire w g1) g'" "\<forall>j. r = Some j \<longrightarrow> i + 1 \<le> j \<and> j < i + 1 + length ws" by blast+
      have "searched g g'" using s searched_expire searched_trans ih(1) by metis
      with ih(2) show ?thesis by auto
    next
      case 2
      with Cons.prems True d s show ?thesis by auto
    next
      case 3
      with Cons.prems True d have "first_loop (i + 1) ws g1 = (g', r)" by simp
      from Cons.IH [OF this] have ih: "searched g1 g'" "\<forall>j. r = Some j \<longrightarrow> i + 1 \<le> j \<and> j < i + 1 + length ws" by blast+
      have "searched g g'" using s searched_trans ih(1) by metis
      with ih(2) show ?thesis by auto
    qed
  qed
qed (simp add: searched_refl)

lemma firstAdmissible_Some:
  assumes "firstAdmissible g = (g1, Some i)"
  shows "searched g g1" "i < length (gv_waiters g1)"
proof -
  have f: "first_loop 0 (gv_waiters g) g = (g1, Some i)"
    using assms by (auto simp: firstAdmissible_def split: prod.splits option.splits)
  from first_loop_searched [OF f] show "searched g g1" "i < length (gv_waiters g1)"
    using searched_frame(1) by auto
qed

lemma grant_waiters: "gv_waiters (grant i g) = take i (gv_waiters g) @ drop (i + 1) (gv_waiters g)"
  by (simp add: grant_def tick_def set_state_def update_timing_def Let_def)

function schedule_loop :: "governor \<Rightarrow> governor" where
  "schedule_loop g =
     (case firstAdmissible g of
        (g1, None) \<Rightarrow> requestPreemption g1
      | (g1, Some i) \<Rightarrow> schedule_loop (grant i g1))"
  by pat_completeness auto

termination
proof (relation "measure (\<lambda>g. length (gv_waiters g))")
  fix g g1 r i
  assume "(g1, r) = firstAdmissible g" "r = Some i"
  then have f: "firstAdmissible g = (g1, Some i)" by simp
  show "(grant i g1, g) \<in> measure (\<lambda>g. length (gv_waiters g))"
    using firstAdmissible_Some [OF f] searched_frame(1) by (fastforce simp: grant_waiters)
qed simp

declare schedule_loop.simps [simp del]

text \<open>For evaluation: the outcome is computed before the loop is entered again.\<close>

lemma schedule_loop_code [code]:
  "schedule_loop g =
     (let p = firstAdmissible g in
      case snd p of None \<Rightarrow> requestPreemption (fst p) | Some i \<Rightarrow> schedule_loop (grant i (fst p)))"
  by (subst schedule_loop.simps) (simp add: case_prod_beta Let_def)

definition schedule :: "governor \<Rightarrow> governor" where
  "schedule g = schedule_loop (g\<lparr>gv_waiters := sort_stable compareWaiters (gv_waiters g)\<rparr>)"

subsection \<open>Operations\<close>

text \<open>The locked section of \<^verbatim>\<open>Acquire\<close>. The result is the sequence number of the waiter to select on.\<close>

definition Acquire :: "request \<Rightarrow> governor \<Rightarrow> governor \<times> (governor_error, nat) result" where
  "Acquire r g =
     (case validateRequest g r of
        Some f \<Rightarrow> (g, Inl f)
      | None \<Rightarrow>
         (case (case rq_deadline r of None \<Rightarrow> (False, g) | Some d \<Rightarrow> (case tick g of (now, g') \<Rightarrow> (d \<le> now, g'))) of
            (late, g1) \<Rightarrow>
              if late then (g1\<lparr>gv_deadlineMisses := gv_deadlineMisses g1 + 1\<rparr>, Inl ErrAdmissionDeadline)
              else
                (let sq = gv_nextSequence g1 + 1;
                     (now, g2) = tick (g1\<lparr>gv_nextSequence := sq\<rparr>);
                     g3 = set_state sq Waiting g2;
                     g4 = g3\<lparr>gv_waiters := gv_waiters g3 @ [\<lparr>wt_sequence = sq, wt_request = r, wt_enqueued = now\<rparr>]\<rparr>
                 in (schedule g4, Inr sq))))"

definition release :: "nat \<Rightarrow> governor \<Rightarrow> governor" where
  "release i g =
     (case map_of (gv_running g) i of
        None \<Rightarrow> g
      | Some r \<Rightarrow>
          (let cost = rq_cost (rn_request r);
               g1 = g\<lparr>gv_running := AList.delete i (gv_running g), gv_used := gv_used g - cost,
                      gv_lowerUsed := (if rq_class (rn_request r) \<le> ClassSpeculative then gv_lowerUsed g - cost else gv_lowerUsed g),
                      gv_released := gv_released g + 1\<rparr>;
               (now, g2) = tick g1;
               service = elapsed now (rn_granted r);
               delay = (case rn_preempted r of None \<Rightarrow> 0 | Some t \<Rightarrow> elapsed now t);
               g3 = update_timing (rq_class (rn_request r)) (\<lambda>t. t\<lparr>ct_released := ct_released t + 1,
                      ct_serviceTotal := ct_serviceTotal t + service, ct_serviceMax := max (ct_serviceMax t) service,
                      ct_preemptTotal := ct_preemptTotal t + delay, ct_preemptMax := max (ct_preemptMax t) delay\<rparr>) g2
           in schedule (cancel_lease i ContextCanceled g3)))"

text \<open>The wait of \<^verbatim>\<open>Acquire\<close> ended by its context or its deadline timer.\<close>

definition cancelWaiter :: "nat \<Rightarrow> bool \<Rightarrow> governor \<Rightarrow> governor" where
  "cancelWaiter sq deadline g =
     (case state_of g sq of
        Granted lid \<Rightarrow> release lid g
      | Waiting \<Rightarrow>
          (let g1 = set_state sq Cancelled g;
               g2 = g1\<lparr>gv_waiters := filter (\<lambda>w. wt_sequence w \<noteq> sq) (gv_waiters g1)\<rparr>;
               g3 = (if deadline then g2\<lparr>gv_deadlineMisses := gv_deadlineMisses g2 + 1\<rparr>
                     else g2\<lparr>gv_cancelledWaiters := gv_cancelledWaiters g2 + 1\<rparr>)
           in schedule g3)
      | Cancelled \<Rightarrow> g)"

definition governor_counts :: "governor \<Rightarrow> admission_class \<Rightarrow> nat \<times> nat" where
  "governor_counts g k =
     (length (filter (\<lambda>r. rq_class (rn_request r) = k) (map snd (gv_running g))),
      length (filter (\<lambda>w. state_of g (wt_sequence w) = Waiting \<and> rq_class (wt_request w) = k) (gv_waiters g)))"

subsection \<open>The priority order\<close>

text \<open>Class first (greater is earlier), then deadlines before none and earlier before later, then arrival.\<close>

definition waiter_key :: "waiter \<Rightarrow> int \<times> bool \<times> nat \<times> nat" where
  "waiter_key w = (- int (rq_class (wt_request w)), rq_deadline (wt_request w) = None,
     (case rq_deadline (wt_request w) of None \<Rightarrow> 0 | Some d \<Rightarrow> d), wt_sequence w)"

lemma compare_key: "compareWaiters l r \<le> 0 \<longleftrightarrow> waiter_key l \<le> waiter_key r"
  by (auto simp: compareWaiters_def waiter_key_def split: option.splits)

lemma insert_by_key:
  assumes "\<And>x y. cmp x y \<le> 0 \<longleftrightarrow> key x \<le> (key y :: 'k :: linorder)"
  shows "insert_by cmp x xs = insort_key key x xs"
  using assms by (induction xs) auto

lemma sort_stable_key:
  assumes "\<And>x y. cmp x y \<le> 0 \<longleftrightarrow> key x \<le> (key y :: 'k :: linorder)"
  shows "sort_stable cmp xs = sort_key key xs"
  unfolding sort_stable_def sort_key_def
  by (induction xs) (simp_all add: insert_by_key [OF assms])

lemmas sort_waiters = sort_stable_key [of compareWaiters waiter_key, OF compare_key]

subsection \<open>The search\<close>

lemma searched_fits: "searched g g' \<Longrightarrow> fits g' r = fits g r"
  by (simp add: fits_def searched_frame)

lemma state_expire: "state_of (expire w g) s = (if s = wt_sequence w then Cancelled else state_of g s)"
  by (simp add: expire_def set_state_def state_of_def)

lemma state_deadline: "deadline_passed w g = (late, g') \<Longrightarrow> state_of g' s = state_of g s"
  using searched_deadline by (simp add: state_of_def)

lemma first_loop_states:
  "first_loop i ws g = (g', r) \<Longrightarrow>
     state_of g' s = state_of g s \<or> state_of g s = Waiting \<and> state_of g' s = Cancelled \<and> s \<in> wt_sequence ` set ws"
proof (induction ws arbitrary: i g)
  case (Cons w ws)
  obtain late g1 where d: "deadline_passed w g = (late, g1)" by force
  note st = state_deadline [OF d, of s]
  show ?case
  proof (cases "state_of g (wt_sequence w) = Waiting")
    case False
    with Cons.prems have "first_loop (i + 1) ws g = (g', r)" by simp
    from Cons.IH [OF this] show ?thesis by auto
  next
    case True
    consider "late" | "\<not> late" "fits g1 (wt_request w)" | "\<not> late" "\<not> fits g1 (wt_request w)" by blast
    then show ?thesis
    proof cases
      case 1
      with Cons.prems True d have "first_loop (i + 1) ws (expire w g1) = (g', r)" by simp
      from Cons.IH [OF this] show ?thesis using True st by (auto simp: state_expire split: if_splits)
    next
      case 2
      with Cons.prems True d st show ?thesis by auto
    next
      case 3
      with Cons.prems True d have "first_loop (i + 1) ws g1 = (g', r)" by simp
      from Cons.IH [OF this] show ?thesis using st by auto
    qed
  qed
qed simp

definition passed_over :: "governor \<Rightarrow> waiter \<Rightarrow> bool" where
  "passed_over g w = (state_of g (wt_sequence w) \<noteq> Waiting \<or> \<not> fits g (wt_request w))"

lemma passed_over_later: "first_loop i ws g = (g', r) \<Longrightarrow> passed_over g w \<Longrightarrow> passed_over g' w"
  using first_loop_states [of i ws g g' r "wt_sequence w"] searched_fits first_loop_searched [of i ws g g' r]
  by (auto simp: passed_over_def)

lemma first_loop_result:
  "first_loop i ws g = (g', r) \<Longrightarrow>
     (case r of
        None \<Rightarrow> \<forall>w\<in>set ws. passed_over g' w
      | Some j \<Rightarrow> (\<forall>w\<in>set (take (j - i) ws). passed_over g' w) \<and> \<not> passed_over g' (ws ! (j - i)))"
proof (induction ws arbitrary: i g)
  case (Cons w ws)
  obtain late g1 where d: "deadline_passed w g = (late, g1)" by force
  have step: ?case if f: "first_loop (i + 1) ws g2 = (g', r)" and o: "passed_over g2 w" for g2
  proof (cases r)
    case None
    with Cons.IH [OF f] passed_over_later [OF f o] show ?thesis by auto
  next
    case (Some j)
    have "i + 1 \<le> j" using first_loop_searched [OF f] Some by blast
    then have "j - i = Suc (j - (i + 1))" by simp
    with Some Cons.IH [OF f] passed_over_later [OF f o] show ?thesis by auto
  qed
  show ?case
  proof (cases "state_of g (wt_sequence w) = Waiting")
    case False
    with Cons.prems show ?thesis by (intro step [of g]) (simp_all add: passed_over_def)
  next
    case True
    then have w1: "state_of g1 (wt_sequence w) = Waiting" using state_deadline [OF d] by simp
    consider "late" | "\<not> late" "fits g1 (wt_request w)" | "\<not> late" "\<not> fits g1 (wt_request w)" by blast
    then show ?thesis
    proof cases
      case 1
      with Cons.prems True d show ?thesis by (intro step [of "expire w g1"]) (simp_all add: passed_over_def state_expire)
    next
      case 2
      with Cons.prems True d w1 show ?thesis by (auto simp: passed_over_def)
    next
      case 3
      with Cons.prems True d show ?thesis by (intro step [of g1]) (simp_all add: passed_over_def)
    qed
  qed
qed simp

subsection \<open>The books\<close>

definition total :: "('r \<Rightarrow> int) \<Rightarrow> (nat, 'r) gomap \<Rightarrow> int" where
  "total f m = sum_list (map (f \<circ> snd) m)"

lemma update_new: "k \<notin> fst ` set m \<Longrightarrow> AList.update k v m = m @ [(k, v)]"
  by (induction m) auto

lemma total_update_new: "k \<notin> fst ` set m \<Longrightarrow> total f (AList.update k v m) = total f m + f v"
  by (simp add: update_new total_def)

lemma total_update_same: "map_of m k = Some r \<Longrightarrow> f v = f r \<Longrightarrow> total f (AList.update k v m) = total f m"
  by (induction m) (auto simp: total_def split: if_splits)

lemma delete_absent: "k \<notin> fst ` set m \<Longrightarrow> AList.delete k m = m"
  by (induction m) (auto simp: AList.delete_eq)

lemma total_delete: "distinct (map fst m) \<Longrightarrow> map_of m k = Some r \<Longrightarrow> total f (AList.delete k m) = total f m - f r"
proof (induction m)
  case (Cons a m)
  obtain k' v where a: "a = (k', v)" by (cases a)
  show ?case
  proof (cases "k' = k")
    case True
    with Cons.prems a have "AList.delete k (a # m) = m" by (simp add: delete_absent)
    with Cons.prems a True show ?thesis by (simp add: total_def)
  next
    case False
    with Cons a show ?thesis by (simp add: total_def)
  qed
qed simp

definition low_cost :: "running \<Rightarrow> int" where
  "low_cost r = (if rq_class (rn_request r) \<le> ClassSpeculative then rq_cost (rn_request r) else 0)"

text \<open>The two usage counters are the sums over the running leases and within their limits.\<close>

definition usage_ok :: "int \<Rightarrow> int \<Rightarrow> int \<Rightarrow> int \<Rightarrow> (nat, running) gomap \<Rightarrow> bool" where
  "usage_ok cap res used low m = (used = total (rq_cost \<circ> rn_request) m \<and> low = total low_cost m
     \<and> used \<le> cap \<and> low \<le> cap - res)"

definition leases_ok :: "nat \<Rightarrow> (nat, running) gomap \<Rightarrow> bool" where
  "leases_ok next_id m = (distinct (map fst m)
     \<and> (\<forall>i r. map_of m i = Some r \<longrightarrow> rn_id r = i \<and> 0 < rq_cost (rn_request r) \<and> i \<le> next_id))"

definition books :: "governor \<Rightarrow> bool" where
  "books g = (usage_ok (gv_capacity g) (gv_reserved g) (gv_used g) (gv_lowerUsed g) (gv_running g)
     \<and> leases_ok (gv_nextLeaseID g) (gv_running g) \<and> gv_admitted g = gv_released g + length (gv_running g))"

lemma leases_new: "leases_ok n m \<Longrightarrow> n + 1 \<notin> fst ` set m"
proof
  assume ok: "leases_ok n m" and "n + 1 \<in> fst ` set m"
  then obtain r where "map_of m (n + 1) = Some r" by (metis map_of_eq_None_iff option.exhaust)
  with ok show False by (fastforce simp: leases_ok_def)
qed

lemma leases_add:
  assumes "leases_ok n m" and "rn_id r = n + 1" and "0 < rq_cost (rn_request r)"
  shows "leases_ok (n + 1) (AList.update (n + 1) r m)"
  using assms by (fastforce simp: leases_ok_def split: if_splits)

lemma leases_drop: "leases_ok n m \<Longrightarrow> leases_ok n (AList.delete i m)"
  by (auto simp: leases_ok_def split: if_splits)

lemma leases_mark:
  assumes "leases_ok n m" and "map_of m (rn_id r) = Some r" and "rn_id r' = rn_id r" "rn_request r' = rn_request r"
  shows "leases_ok n (AList.update (rn_id r) r' m)"
proof -
  have "rn_id s = i \<and> 0 < rq_cost (rn_request s) \<and> i \<le> n" if "map_of (AList.update (rn_id r) r' m) i = Some s" for i s
  proof (cases "i = rn_id r")
    case True
    with that have "s = r'" by simp
    moreover have "0 < rq_cost (rn_request r) \<and> rn_id r \<le> n" using assms(1,2) unfolding leases_ok_def by blast
    ultimately show ?thesis using True assms(3,4) by simp
  next
    case False
    with that have "map_of m i = Some s" by simp
    with assms(1) show ?thesis unfolding leases_ok_def by blast
  qed
  moreover have "distinct (map fst (AList.update (rn_id r) r' m))" using assms(1) by (simp add: leases_ok_def distinct_update)
  ultimately show ?thesis unfolding leases_ok_def by blast
qed

lemma usage_add:
  assumes "usage_ok cap res used low m" and "k \<notin> fst ` set m"
    and "used + rq_cost (rn_request r) \<le> cap" and "low + low_cost r \<le> cap - res"
  shows "usage_ok cap res (used + rq_cost (rn_request r)) (low + low_cost r) (AList.update k r m)"
  using assms by (simp add: usage_ok_def total_update_new)

lemma usage_mark:
  assumes "usage_ok cap res used low m" and "map_of m k = Some r" and "rn_request r' = rn_request r"
  shows "usage_ok cap res used low (AList.update k r' m)"
  using assms total_update_same [OF assms(2), of _ r'] by (simp add: usage_ok_def low_cost_def)

lemma usage_drop:
  assumes "usage_ok cap res used low m" and "distinct (map fst m)" and "map_of m k = Some r"
    and "0 < rq_cost (rn_request r)"
  shows "usage_ok cap res (used - rq_cost (rn_request r)) (low - low_cost r) (AList.delete k m)"
  using assms total_delete [OF assms(2,3)] by (auto simp: usage_ok_def low_cost_def)

lemma length_delete: "distinct (map fst (m :: (nat, 'b) gomap)) \<Longrightarrow> map_of m k = Some r \<Longrightarrow> length m = length (AList.delete k m) + 1"
  using total_delete [of m k r "\<lambda>_. 1"] by (simp add: total_def comp_def sum_list_triv)

definition queue_ok :: "governor \<Rightarrow> bool" where
  "queue_ok g = (distinct (map wt_sequence (gv_waiters g))
     \<and> (\<forall>w\<in>set (gv_waiters g). validateRequest g (wt_request w) = None \<and> wt_sequence w \<le> gv_nextSequence g
          \<and> state_of g (wt_sequence w) \<in> {Waiting, Cancelled}))"

lemma queue_cong:
  assumes "gv_waiters g' = gv_waiters g" and "gv_capacity g' = gv_capacity g" and "gv_reserved g' = gv_reserved g"
    and "gv_nextSequence g' = gv_nextSequence g" and "gv_states g' = gv_states g"
  shows "queue_ok g' = queue_ok g"
proof -
  have v: "validateRequest g' r = validateRequest g r" and s: "state_of g' q = state_of g q" for r q
    using assms by (simp_all add: validateRequest_def state_of_def)
  show ?thesis unfolding queue_ok_def v s assms(1,4) ..
qed

lemma books_searched: "searched g g' \<Longrightarrow> books g' = books g"
  by (simp add: books_def searched_frame)

lemma validateRequest_searched: "searched g g' \<Longrightarrow> validateRequest g' r = validateRequest g r"
  by (simp add: validateRequest_def searched_frame)

lemma queue_searched:
  assumes "first_loop i ws g = (g', r)" and "queue_ok g"
  shows "queue_ok g'"
proof -
  have s: "searched g g'" using first_loop_searched [OF assms(1)] by blast
  have "state_of g' q \<in> {Waiting, Cancelled}" if "state_of g q \<in> {Waiting, Cancelled}" for q
    using first_loop_states [OF assms(1), of q] that by auto
  with assms(2) show ?thesis
    by (simp add: queue_ok_def searched_frame [OF s] validateRequest_searched [OF s])
qed

subsection \<open>Grants keep the books\<close>

lemma update_timing_frame [simp]:
  "gv_waiters (update_timing k f g) = gv_waiters g" "gv_running (update_timing k f g) = gv_running g"
  "gv_used (update_timing k f g) = gv_used g" "gv_lowerUsed (update_timing k f g) = gv_lowerUsed g"
  "gv_capacity (update_timing k f g) = gv_capacity g" "gv_reserved (update_timing k f g) = gv_reserved g"
  "gv_nextLeaseID (update_timing k f g) = gv_nextLeaseID g" "gv_nextSequence (update_timing k f g) = gv_nextSequence g"
  "gv_admitted (update_timing k f g) = gv_admitted g" "gv_released (update_timing k f g) = gv_released g"
  "gv_states (update_timing k f g) = gv_states g" "gv_cancelled (update_timing k f g) = gv_cancelled g"
  "gv_preemptions (update_timing k f g) = gv_preemptions g"
  by (simp_all add: update_timing_def)

lemma grant_effect:
  fixes g i
  defines "w \<equiv> gv_waiters g ! i" and "lid \<equiv> gv_nextLeaseID g + 1"
  shows "\<exists>r. gv_running (grant i g) = AList.update lid r (gv_running g) \<and> rn_id r = lid \<and> rn_request r = wt_request w
       \<and> rn_sequence r = wt_sequence w \<and> \<not> rn_preempting r"
    "gv_used (grant i g) = gv_used g + rq_cost (wt_request w)"
    "gv_lowerUsed (grant i g) = (if rq_class (wt_request w) \<le> ClassSpeculative
       then gv_lowerUsed g + rq_cost (wt_request w) else gv_lowerUsed g)"
    "gv_nextLeaseID (grant i g) = lid" "gv_capacity (grant i g) = gv_capacity g" "gv_reserved (grant i g) = gv_reserved g"
    "gv_nextSequence (grant i g) = gv_nextSequence g" "gv_admitted (grant i g) = gv_admitted g + 1"
    "gv_released (grant i g) = gv_released g" "gv_cancelled (grant i g) = gv_cancelled g"
    "state_of (grant i g) s = (if s = wt_sequence w then Granted lid else state_of g s)"
  by (auto simp: grant_def tick_def set_state_def state_of_def Let_def w_def lid_def)

lemma grant_books:
  assumes "books g" and "fits g (wt_request (gv_waiters g ! i))" and "0 < rq_cost (wt_request (gv_waiters g ! i))"
  shows "books (grant i g)"
proof -
  let ?lid = "gv_nextLeaseID g + 1"
  obtain r where r: "gv_running (grant i g) = AList.update ?lid r (gv_running g)" "rn_id r = ?lid"
    "rn_request r = wt_request (gv_waiters g ! i)"
    using grant_effect(1) by blast
  have u: "usage_ok (gv_capacity g) (gv_reserved g) (gv_used g) (gv_lowerUsed g) (gv_running g)"
    and l: "leases_ok (gv_nextLeaseID g) (gv_running g)" and n: "gv_admitted g = gv_released g + length (gv_running g)"
    using assms(1) by (simp_all add: books_def)
  note new = leases_new [OF l]
  have "usage_ok (gv_capacity g) (gv_reserved g) (gv_used g + rq_cost (rn_request r)) (gv_lowerUsed g + low_cost r)
      (AList.update ?lid r (gv_running g))"
    using assms(2) u by (intro usage_add [OF u new]) (auto simp: fits_def r(3) low_cost_def usage_ok_def)
  moreover have "gv_used (grant i g) = gv_used g + rq_cost (rn_request r)" "gv_lowerUsed (grant i g) = gv_lowerUsed g + low_cost r"
    by (simp_all add: grant_effect r(3) low_cost_def)
  moreover have "leases_ok ?lid (AList.update ?lid r (gv_running g))"
    by (rule leases_add [OF l r(2)]) (simp add: r(3) assms(3))
  moreover have "length (AList.update ?lid r (gv_running g)) = length (gv_running g) + 1" unfolding update_new [OF new] by simp
  ultimately show ?thesis using n unfolding books_def r(1) grant_effect(4-6,8,9) by simp
qed

lemma grant_queue:
  assumes "queue_ok g" and "i < length (gv_waiters g)"
  shows "queue_ok (grant i g)"
proof -
  have m: "gv_waiters g = take i (gv_waiters g) @ gv_waiters g ! i # drop (i + 1) (gv_waiters g)"
    using assms(2) by (simp add: id_take_nth_drop)
  have d: "distinct (map wt_sequence (take i (gv_waiters g) @ gv_waiters g ! i # drop (i + 1) (gv_waiters g)))"
    using assms(1) m by (metis queue_ok_def)
  have sub: "set (take i (gv_waiters g) @ drop (i + 1) (gv_waiters g)) \<subseteq> set (gv_waiters g)"
    by (auto dest: in_set_takeD in_set_dropD)
  have ne: "wt_sequence w \<noteq> wt_sequence (gv_waiters g ! i)"
    if "w \<in> set (take i (gv_waiters g) @ drop (i + 1) (gv_waiters g))" for w
    using d that by (auto simp: image_iff)
  have v: "validateRequest (grant i g) rq = validateRequest g rq" for rq
    by (simp add: validateRequest_def grant_effect)
  show ?thesis
    unfolding queue_ok_def grant_waiters grant_effect(7,11) v
    using d sub ne assms(1) by (auto simp: queue_ok_def)
qed

subsection \<open>Preemption keeps the books\<close>

lemma cancel_lease_frame [simp]:
  "gv_waiters (cancel_lease i c g) = gv_waiters g" "gv_running (cancel_lease i c g) = gv_running g"
  "gv_used (cancel_lease i c g) = gv_used g" "gv_lowerUsed (cancel_lease i c g) = gv_lowerUsed g"
  "gv_capacity (cancel_lease i c g) = gv_capacity g" "gv_reserved (cancel_lease i c g) = gv_reserved g"
  "gv_nextLeaseID (cancel_lease i c g) = gv_nextLeaseID g" "gv_nextSequence (cancel_lease i c g) = gv_nextSequence g"
  "gv_admitted (cancel_lease i c g) = gv_admitted g" "gv_released (cancel_lease i c g) = gv_released g"
  "gv_states (cancel_lease i c g) = gv_states g" "gv_preemptions (cancel_lease i c g) = gv_preemptions g"
  by (simp_all add: cancel_lease_def)

lemma preempt_effect:
  "\<exists>now. gv_running (preempt r g) = AList.update (rn_id r) (r\<lparr>rn_preempting := True, rn_preempted := Some now\<rparr>) (gv_running g)"
  "gv_waiters (preempt r g) = gv_waiters g" "gv_used (preempt r g) = gv_used g" "gv_lowerUsed (preempt r g) = gv_lowerUsed g"
  "gv_capacity (preempt r g) = gv_capacity g" "gv_reserved (preempt r g) = gv_reserved g"
  "gv_nextLeaseID (preempt r g) = gv_nextLeaseID g" "gv_nextSequence (preempt r g) = gv_nextSequence g"
  "gv_admitted (preempt r g) = gv_admitted g" "gv_released (preempt r g) = gv_released g"
  "state_of (preempt r g) s = state_of g s" "gv_preemptions (preempt r g) = gv_preemptions g + 1"
  "gm_has (gv_cancelled (preempt r g)) (rn_id r)"
  by (auto simp: preempt_def tick_def Let_def state_of_def cancel_lease_def update_timing_def)

lemma update_length_same: "map_of m k = Some v \<Longrightarrow> length (AList.update k v' m) = length m"
  by (induction m) (auto split: if_splits)

lemma preempt_books:
  assumes "books g" and "map_of (gv_running g) (rn_id r) = Some r"
  shows "books (preempt r g)"
proof -
  obtain now where now: "gv_running (preempt r g) =
      AList.update (rn_id r) (r\<lparr>rn_preempting := True, rn_preempted := Some now\<rparr>) (gv_running g)" (is "_ = AList.update _ ?r _")
    using preempt_effect(1) by blast
  have "usage_ok (gv_capacity g) (gv_reserved g) (gv_used g) (gv_lowerUsed g) (AList.update (rn_id r) ?r (gv_running g))"
    using assms by (intro usage_mark [of _ _ _ _ _ _ r]) (simp_all add: books_def)
  moreover have "leases_ok (gv_nextLeaseID g) (AList.update (rn_id r) ?r (gv_running g))"
    using assms by (intro leases_mark) (simp_all add: books_def)
  ultimately show ?thesis
    using assms(1) unfolding books_def now preempt_effect(3-10) update_length_same [OF assms(2)] by simp
qed

lemma preempt_loop_frame [simp]:
  "gv_waiters (preempt_loop needed rs g) = gv_waiters g" "gv_used (preempt_loop needed rs g) = gv_used g"
  "gv_lowerUsed (preempt_loop needed rs g) = gv_lowerUsed g" "gv_capacity (preempt_loop needed rs g) = gv_capacity g"
  "gv_reserved (preempt_loop needed rs g) = gv_reserved g" "gv_nextSequence (preempt_loop needed rs g) = gv_nextSequence g"
  "state_of (preempt_loop needed rs g) s = state_of g s"
  by (induction needed rs g rule: preempt_loop.induct) (simp_all add: preempt_effect Let_def)

lemma preempt_loop_books:
  "distinct (map rn_id rs) \<Longrightarrow> (\<forall>r\<in>set rs. map_of (gv_running g) (rn_id r) = Some r) \<Longrightarrow> books g \<Longrightarrow>
   books (preempt_loop needed rs g)"
proof (induction needed rs g rule: preempt_loop.induct)
  case (2 needed r rs g)
  have b: "books (preempt r g)" using 2(3,4) preempt_books by simp
  have m: "\<forall>r'\<in>set rs. map_of (gv_running (preempt r g)) (rn_id r') = Some r'"
  proof
    fix r' assume r': "r' \<in> set rs"
    then have "rn_id r' \<noteq> rn_id r" using 2(2) by (auto simp: image_iff)
    with r' 2(3) preempt_effect(1) [of r g] show "map_of (gv_running (preempt r g)) (rn_id r') = Some r'" by auto
  qed
  show ?case using 2(1) [OF refl refl] b m 2(2) by (simp add: Let_def)
qed simp

text \<open>The leases asked to stop: the shortest prefix of the candidates that frees what is needed.\<close>

fun asked :: "int \<Rightarrow> running list \<Rightarrow> running list" where
  "asked needed [] = []"
| "asked needed (r # rs) =
     (if needed - rq_cost (rn_request r) \<le> 0 then [r] else r # asked (needed - rq_cost (rn_request r)) rs)"

lemma asked_prefix:
  "0 < needed \<Longrightarrow> \<exists>n \<le> length rs. asked needed rs = take n rs
     \<and> (n < length rs \<longrightarrow> needed \<le> (\<Sum>r\<leftarrow>take n rs. rq_cost (rn_request r)))
     \<and> (\<forall>m<n. (\<Sum>r\<leftarrow>take m rs. rq_cost (rn_request r)) < needed)"
proof (induction needed rs rule: asked.induct)
  case (2 needed r rs)
  show ?case
  proof (cases "needed - rq_cost (rn_request r) \<le> 0")
    case True
    with 2(2) show ?thesis by (intro exI [of _ 1]) auto
  next
    case False
    with 2(1) obtain n where n: "n \<le> length rs" "asked (needed - rq_cost (rn_request r)) rs = take n rs"
      "n < length rs \<longrightarrow> needed - rq_cost (rn_request r) \<le> (\<Sum>r\<leftarrow>take n rs. rq_cost (rn_request r))"
      "\<forall>m<n. (\<Sum>r\<leftarrow>take m rs. rq_cost (rn_request r)) < needed - rq_cost (rn_request r)" by auto
    have "(\<Sum>r'\<leftarrow>take m (r # rs). rq_cost (rn_request r')) < needed" if "m < Suc n" for m
      using that n(4) 2(2) by (cases m) auto
    with n False show ?thesis by (intro exI [of _ "Suc n"]) auto
  qed
qed simp

text \<open>The leases whose context is cancelled.\<close>

definition stopped :: "governor \<Rightarrow> nat set" where
  "stopped g = dom (map_of (gv_cancelled g))"

lemma stopped_cancel: "stopped (cancel_lease i c g) = insert i (stopped g)"
  by (auto simp: stopped_def cancel_lease_def)

lemma stopped_preempt: "stopped (preempt r g) = insert (rn_id r) (stopped g)"
proof -
  have "gv_cancelled (preempt r g) = gv_cancelled (cancel_lease (rn_id r) ErrPreempted g)"
    by (simp add: preempt_def tick_def Let_def cancel_lease_def update_timing_def)
  then show ?thesis using stopped_cancel by (simp add: stopped_def)
qed

lemma preempt_loop_stops: "stopped (preempt_loop needed rs g) = rn_id ` set (asked needed rs) \<union> stopped g"
  by (induction needed rs g rule: preempt_loop.induct) (simp_all add: Let_def stopped_preempt)

lemma preempt_loop_running:
  "\<forall>r\<in>set rs. rn_id r \<in> dom (map_of (gv_running g)) \<Longrightarrow>
   dom (map_of (gv_running (preempt_loop needed rs g))) = dom (map_of (gv_running g))"
proof (induction needed rs g rule: preempt_loop.induct)
  case (2 needed r rs g)
  have d: "dom (map_of (gv_running (preempt r g))) = dom (map_of (gv_running g))"
    using preempt_effect(1) [of r g] 2(2) by (auto simp: update_conv' split: if_splits)
  with 2 show ?case by (simp add: Let_def)
qed simp

lemma books_candidates:
  assumes "books g"
  shows "distinct (map rn_id (candidates g k))" "\<forall>r\<in>set (candidates g k). map_of (gv_running g) (rn_id r) = Some r"
proof -
  let ?f = "\<lambda>r. \<not> rn_preempting r \<and> rq_preemptible (rn_request r) \<and> rq_class (rn_request r) < k"
  have e: "map_of (gv_running g) i = Some r" if "(i, r) \<in> set (gv_running g)" for i r
    using that assms by (simp add: books_def leases_ok_def)
  then have i: "rn_id r = i" if "(i, r) \<in> set (gv_running g)" for i r using that assms by (simp add: books_def leases_ok_def)
  have "map rn_id (map snd (gv_running g)) = map fst (gv_running g)" using i by (simp add: comp_def)
  then have d: "distinct (map rn_id (map snd (gv_running g)))" using assms by (simp only: books_def leases_ok_def)
  have "distinct (map rn_id (filter ?f (map snd (gv_running g))))" by (rule distinct_map_filter [OF d])
  then show "distinct (map rn_id (candidates g k))"
    unfolding candidates_def distinct_map by simp
  show "\<forall>r\<in>set (candidates g k). map_of (gv_running g) (rn_id r) = Some r"
    using e i by (auto simp: candidates_def)
qed

lemma requestPreemption_frame [simp]:
  "gv_waiters (requestPreemption g) = gv_waiters g" "gv_used (requestPreemption g) = gv_used g"
  "gv_lowerUsed (requestPreemption g) = gv_lowerUsed g" "gv_capacity (requestPreemption g) = gv_capacity g"
  "gv_reserved (requestPreemption g) = gv_reserved g" "gv_nextSequence (requestPreemption g) = gv_nextSequence g"
  "state_of (requestPreemption g) s = state_of g s"
  by (simp_all add: requestPreemption_def Let_def split: list.split)

lemma requestPreemption_books: "books g \<Longrightarrow> books (requestPreemption g)"
  using preempt_loop_books books_candidates by (simp add: requestPreemption_def Let_def split: list.split)

lemma requestPreemption_running:
  assumes "books g"
  shows "dom (map_of (gv_running (requestPreemption g))) = dom (map_of (gv_running g))"
proof -
  have "\<forall>r\<in>set (candidates g k). rn_id r \<in> dom (map_of (gv_running g))" for k
    using books_candidates(2) [OF assms, of k] by blast
  then show ?thesis using preempt_loop_running by (simp add: requestPreemption_def Let_def split: list.split)
qed

subsection \<open>Scheduling\<close>

text \<open>
  After scheduling the books are in order, and every waiter left in the queue is waiting and does
  not fit: capacity that could be used is not left idle.
\<close>

definition settled :: "governor \<Rightarrow> bool" where
  "settled g = (\<forall>w\<in>set (gv_waiters g). state_of g (wt_sequence w) = Waiting \<and> \<not> fits g (wt_request w))"

definition governor_ok :: "governor \<Rightarrow> bool" where
  "governor_ok g = (books g \<and> queue_ok g \<and> 0 \<le> gv_reserved g \<and> gv_reserved g \<le> gv_capacity g)"

lemma requestPreemption_ok: "governor_ok g \<Longrightarrow> governor_ok (requestPreemption g)"
proof -
  have v: "validateRequest (requestPreemption g) r = validateRequest g r" for r by (simp add: validateRequest_def)
  assume "governor_ok g"
  then show ?thesis unfolding governor_ok_def queue_ok_def v by (simp add: requestPreemption_books)
qed

lemma settled_requestPreemption: "settled g \<Longrightarrow> settled (requestPreemption g)"
  by (simp add: settled_def fits_def)

lemma firstAdmissible_ok:
  assumes "firstAdmissible g = (g1, r)" and "governor_ok g"
  shows "governor_ok g1"
    "case r of None \<Rightarrow> settled g1
     | Some i \<Rightarrow> searched g g1 \<and> i < length (gv_waiters g1) \<and> fits g1 (wt_request (gv_waiters g1 ! i))
         \<and> (\<forall>w\<in>set (take i (gv_waiters g1)). passed_over g1 w)"
proof -
  obtain g' r' where f: "first_loop 0 (gv_waiters g) g = (g', r')" by force
  have s: "searched g g'" using first_loop_searched [OF f] by blast
  have q: "queue_ok g'" using queue_searched [OF f] assms(2) by (simp add: governor_ok_def)
  have b: "books g'" using books_searched [OF s] assms(2) by (simp add: governor_ok_def)
  have ok: "governor_ok g'" using q b assms(2) by (simp add: governor_ok_def searched_frame [OF s])
  note res = first_loop_result [OF f]
  have "governor_ok g1 \<and> (case r of None \<Rightarrow> settled g1
     | Some i \<Rightarrow> searched g g1 \<and> i < length (gv_waiters g1) \<and> fits g1 (wt_request (gv_waiters g1 ! i))
         \<and> (\<forall>w\<in>set (take i (gv_waiters g1)). passed_over g1 w))"
  proof (cases r')
    case None
    let ?g = "g'\<lparr>gv_waiters := filter (\<lambda>w. state_of g' (wt_sequence w) \<noteq> Cancelled) (gv_waiters g')\<rparr>"
    have g1: "g1 = ?g" "r = None" using assms(1) f None by (auto simp: firstAdmissible_def)
    have st: "state_of ?g n = state_of g' n" for n by (simp add: state_of_def)
    have v: "validateRequest ?g rq = validateRequest g' rq" "fits ?g rq = fits g' rq" for rq
      by (simp_all add: validateRequest_def fits_def)
    have "queue_ok ?g" using q unfolding queue_ok_def st v by (auto simp: distinct_map_filter)
    moreover have "books ?g" using b by (simp add: books_def)
    moreover have "settled ?g"
      using res None q unfolding settled_def st v
      by (auto simp: passed_over_def queue_ok_def searched_frame(1) [OF s])
    ultimately show ?thesis using g1 ok by (simp add: governor_ok_def)
  next
    case (Some i)
    have g1: "g1 = g'" "r = Some i" using assms(1) f Some by (auto simp: firstAdmissible_def)
    have "i < length (gv_waiters g')" using first_loop_searched [OF f] Some searched_frame(1) [OF s] by auto
    with g1 ok s res Some show ?thesis by (auto simp: passed_over_def searched_frame(1) [OF s])
  qed
  then show "governor_ok g1" "case r of None \<Rightarrow> settled g1
     | Some i \<Rightarrow> searched g g1 \<and> i < length (gv_waiters g1) \<and> fits g1 (wt_request (gv_waiters g1 ! i))
         \<and> (\<forall>w\<in>set (take i (gv_waiters g1)). passed_over g1 w)"
    by blast+
qed

lemma grant_ok:
  assumes "governor_ok g" and "i < length (gv_waiters g)" and "fits g (wt_request (gv_waiters g ! i))"
  shows "governor_ok (grant i g)"
proof -
  have "validateRequest g (wt_request (gv_waiters g ! i)) = None"
    using assms(1,2) by (simp add: governor_ok_def queue_ok_def)
  then have "0 < rq_cost (wt_request (gv_waiters g ! i))" by (auto simp: validateRequest_def split: if_splits)
  with assms show ?thesis by (simp add: governor_ok_def grant_books grant_queue grant_effect)
qed

lemma schedule_loop_ok: "governor_ok g \<Longrightarrow> governor_ok (schedule_loop g) \<and> settled (schedule_loop g)"
proof (induction g rule: schedule_loop.induct)
  case (1 g)
  obtain g1 r where f: "firstAdmissible g = (g1, r)" by force
  note fa = firstAdmissible_ok [OF f 1(2)]
  show ?case
  proof (cases r)
    case None
    then have "schedule_loop g = requestPreemption g1" using f by (subst schedule_loop.simps) simp
    with fa None show ?thesis by (simp add: requestPreemption_ok settled_requestPreemption)
  next
    case (Some i)
    then have "schedule_loop g = schedule_loop (grant i g1)" using f by (subst schedule_loop.simps) simp
    moreover have "governor_ok (grant i g1)" using fa Some by (intro grant_ok) simp_all
    ultimately show ?thesis using 1(1) [OF f [symmetric] Some] by simp
  qed
qed

lemma sorted_queue_ok:
  assumes "governor_ok g"
  shows "governor_ok (g\<lparr>gv_waiters := sort_stable compareWaiters (gv_waiters g)\<rparr>)"
proof -
  let ?g = "g\<lparr>gv_waiters := sort_stable compareWaiters (gv_waiters g)\<rparr>"
  have st: "state_of ?g n = state_of g n" "validateRequest ?g rq = validateRequest g rq" for n rq
    by (simp_all add: state_of_def validateRequest_def)
  have "distinct (map wt_sequence (sort_key waiter_key (gv_waiters g)))"
    using assms by (simp add: governor_ok_def queue_ok_def distinct_map)
  with assms show ?thesis
    unfolding governor_ok_def queue_ok_def st by (simp add: sort_waiters books_def)
qed

lemma schedule_ok: "governor_ok g \<Longrightarrow> governor_ok (schedule g) \<and> settled (schedule g)"
  unfolding schedule_def by (rule schedule_loop_ok [OF sorted_queue_ok])

subsection \<open>Operations keep the invariant\<close>

text \<open>An operation either leaves the queue and its capacity as they are or schedules.\<close>

definition unscheduled :: "governor \<Rightarrow> governor \<Rightarrow> bool" where
  "unscheduled g g' = (gv_waiters g' = gv_waiters g \<and> gv_used g' = gv_used g \<and> gv_lowerUsed g' = gv_lowerUsed g
     \<and> gv_capacity g' = gv_capacity g \<and> gv_reserved g' = gv_reserved g \<and> gv_states g' = gv_states g)"

lemma settled_unscheduled: "unscheduled g g' \<Longrightarrow> settled g \<Longrightarrow> settled g'"
  by (simp add: unscheduled_def settled_def fits_def state_of_def)

lemma tick_ok [simp]: "governor_ok (snd (tick g)) = governor_ok g"
  using queue_cong [of "snd (tick g)" g] by (simp add: governor_ok_def tick_def books_def)

text \<open>
  The state an operation schedules from: no lease is in it that was not running, and every queued request
  is in its queue or has been cancelled.
\<close>

definition schedules_from :: "governor \<Rightarrow> governor \<Rightarrow> bool" where
  "schedules_from g h \<longleftrightarrow> governor_ok h \<and> (\<forall>k. map_of (gv_running g) k = None \<longrightarrow> map_of (gv_running h) k = None)
     \<and> (\<forall>w\<in>set (gv_waiters g). w \<in> set (gv_waiters h) \<or> state_of h (wt_sequence w) = Cancelled)"

definition operated :: "governor \<Rightarrow> governor \<Rightarrow> bool" where
  "operated g g' \<longleftrightarrow> governor_ok g' \<and> unscheduled g g' \<and> gv_running g' = gv_running g
     \<or> (\<exists>h. g' = schedule h \<and> schedules_from g h)"

lemma operated_refl: "governor_ok g \<Longrightarrow> operated g g"
  by (simp add: operated_def unscheduled_def)

lemma operated_ok: "operated g g' \<Longrightarrow> governor_ok g' \<and> (settled g \<longrightarrow> settled g')"
  using schedule_ok settled_unscheduled by (auto simp: operated_def schedules_from_def)

lemma Acquire_operated:
  assumes "governor_ok g"
  shows "operated g (fst (Acquire r g))"
proof (cases "validateRequest g r")
  case None
  obtain late g1 where d: "(case rq_deadline r of None \<Rightarrow> (False, g) | Some d \<Rightarrow> (case tick g of (now, g') \<Rightarrow> (d \<le> now, g'))) = (late, g1)"
    by force
  have g1: "g1 = g \<or> g1 = snd (tick g)" using d by (auto split: option.splits prod.splits)
  then have ok: "governor_ok g1" using assms by auto
  have v1: "validateRequest g1 rq = validateRequest g rq" for rq using g1 by (auto simp: tick_def validateRequest_def)
  show ?thesis
  proof (cases late)
    case True
    let ?g = "g1\<lparr>gv_deadlineMisses := gv_deadlineMisses g1 + 1\<rparr>"
    have e: "fst (Acquire r g) = ?g" using None d True by (simp add: Acquire_def)
    have "unscheduled g ?g" using g1 by (auto simp: unscheduled_def tick_def)
    moreover have "governor_ok ?g" using ok queue_cong [of ?g g1] by (simp add: governor_ok_def books_def)
    moreover have "gv_running ?g = gv_running g" using g1 by (auto simp: tick_def)
    ultimately show ?thesis using e by (simp add: operated_def)
  next
    case False
    let ?sq = "gv_nextSequence g1 + 1"
    let ?w = "\<lparr>wt_sequence = ?sq, wt_request = r, wt_enqueued = gv_clock g1 (gv_ticks g1)\<rparr>"
    let ?g = "(set_state ?sq Waiting (g1\<lparr>gv_nextSequence := ?sq, gv_ticks := gv_ticks g1 + 1\<rparr>))
        \<lparr>gv_waiters := gv_waiters g1 @ [?w]\<rparr>"
    have e: "fst (Acquire r g) = schedule ?g" using None d False by (simp add: Acquire_def tick_def Let_def set_state_def)
    have fresh: "?sq \<notin> wt_sequence ` set (gv_waiters g1)" using ok by (auto simp: governor_ok_def queue_ok_def)
    have st: "state_of ?g n = (if n = ?sq then Waiting else state_of g1 n)" for n by (simp add: state_of_def set_state_def)
    have v: "validateRequest ?g rq = validateRequest g1 rq" for rq by (simp add: validateRequest_def set_state_def)
    have q: "queue_ok g1" using ok by (simp add: governor_ok_def)
    have "queue_ok ?g"
      unfolding queue_ok_def st v using q fresh None v1 [of r]
      by (auto simp: queue_ok_def set_state_def)
    moreover have "books ?g" using ok by (simp add: governor_ok_def books_def set_state_def)
    ultimately have "governor_ok ?g" using ok by (simp add: governor_ok_def set_state_def)
    moreover have "gv_running ?g = gv_running g" "set (gv_waiters g) \<subseteq> set (gv_waiters ?g)"
      using g1 by (auto simp: tick_def set_state_def)
    ultimately have "schedules_from g ?g" by (auto simp: schedules_from_def)
    then show ?thesis using e unfolding operated_def by blast
  qed
qed (use assms in \<open>simp add: Acquire_def operated_refl\<close>)

text \<open>A release takes the lease off the books and schedules.\<close>

lemma release_schedules:
  assumes "governor_ok g" and Some: "map_of (gv_running g) i = Some r"
  shows "\<exists>h. release i g = schedule h \<and> schedules_from g h \<and> governor_ok h \<and> map_of (gv_running h) i = None
    \<and> gv_nextLeaseID h = gv_nextLeaseID g \<and> i \<le> gv_nextLeaseID g"
proof -
  have u: "usage_ok (gv_capacity g) (gv_reserved g) (gv_used g) (gv_lowerUsed g) (gv_running g)"
    and l: "leases_ok (gv_nextLeaseID g) (gv_running g)" and n: "gv_admitted g = gv_released g + length (gv_running g)"
    using assms by (simp_all add: governor_ok_def books_def)
  have dr: "distinct (map fst (gv_running g))" "0 < rq_cost (rn_request r)" using l Some by (simp_all add: leases_ok_def)
  have fresh: "i \<le> gv_nextLeaseID g" using l Some unfolding leases_ok_def by blast
  have low: "(if rq_class (rn_request r) \<le> ClassSpeculative then gv_lowerUsed g - rq_cost (rn_request r) else gv_lowerUsed g)
      = gv_lowerUsed g - low_cost r" by (simp add: low_cost_def)
  let ?g1 = "g\<lparr>gv_running := AList.delete i (gv_running g), gv_used := gv_used g - rq_cost (rn_request r),
      gv_lowerUsed := gv_lowerUsed g - low_cost r, gv_released := gv_released g + 1\<rparr>"
  have "books ?g1"
    using usage_drop [OF u dr(1) Some dr(2)] leases_drop [OF l] n length_delete [OF dr(1) Some] by (simp add: books_def)
  moreover have "queue_ok ?g1"
    using assms queue_cong [of ?g1 g] by (simp add: governor_ok_def)
  ultimately have g1: "governor_ok ?g1" using assms by (simp add: governor_ok_def)
  obtain g3 where e: "release i g = schedule (cancel_lease i ContextCanceled (update_timing (rq_class (rn_request r)) g3 (snd (tick ?g1))))"
    using Some low by (simp add: release_def tick_def Let_def)
  have ok: "governor_ok (cancel_lease i ContextCanceled (update_timing k f (snd (tick ?g1))))" for k f
  proof -
    let ?g = "snd (tick ?g1)"
    have "governor_ok ?g" using g1 by simp
    with queue_cong [of "cancel_lease i ContextCanceled (update_timing k f ?g)" ?g] show ?thesis
      by (simp add: governor_ok_def books_def)
  qed
  have nolease: "map_of (gv_running (cancel_lease i ContextCanceled (update_timing k f (snd (tick ?g1))))) i = None
      \<and> gv_nextLeaseID (cancel_lease i ContextCanceled (update_timing k f (snd (tick ?g1)))) = gv_nextLeaseID g" for k f
    by (simp add: tick_def)
  have "gv_running (cancel_lease i ContextCanceled (update_timing k f (snd (tick ?g1)))) = AList.delete i (gv_running g)"
      "gv_waiters (cancel_lease i ContextCanceled (update_timing k f (snd (tick ?g1)))) = gv_waiters g" for k f
    by (simp_all add: tick_def)
  then have "schedules_from g (cancel_lease i ContextCanceled (update_timing k f (snd (tick ?g1))))" for k f
    using ok by (simp add: schedules_from_def delete_conv')
  with e fresh nolease ok show ?thesis by blast
qed

lemma release_operated:
  assumes "governor_ok g"
  shows "operated g (release i g)"
proof (cases "map_of (gv_running g) i")
  case (Some r)
  from release_schedules [OF assms Some] show ?thesis unfolding operated_def by blast
qed (simp add: release_def assms operated_refl)

lemma cancelWaiter_operated:
  assumes "governor_ok g"
  shows "operated g (cancelWaiter sq deadline g)"
proof (cases "state_of g sq")
  case Waiting
  let ?g2 = "(set_state sq Cancelled g)\<lparr>gv_waiters := filter (\<lambda>w. wt_sequence w \<noteq> sq) (gv_waiters g)\<rparr>"
  let ?g3 = "if deadline then ?g2\<lparr>gv_deadlineMisses := gv_deadlineMisses ?g2 + 1\<rparr> else ?g2\<lparr>gv_cancelledWaiters := gv_cancelledWaiters ?g2 + 1\<rparr>"
  have e: "cancelWaiter sq deadline g = schedule ?g3" using Waiting by (simp add: cancelWaiter_def Let_def set_state_def)
  have st: "state_of ?g3 n = (if n = sq then Cancelled else state_of g n)" "validateRequest ?g3 rq = validateRequest g rq" for n rq
    by (simp_all add: state_of_def set_state_def validateRequest_def)
  have "queue_ok ?g3"
    unfolding queue_ok_def st using assms by (auto simp: governor_ok_def queue_ok_def set_state_def distinct_map_filter)
  moreover have "books ?g3" using assms by (simp add: governor_ok_def books_def set_state_def)
  ultimately have "governor_ok ?g3" using assms by (simp add: governor_ok_def set_state_def)
  then have "schedules_from g ?g3" by (auto simp: schedules_from_def st(1) set_state_def)
  then show ?thesis using e unfolding operated_def by blast
qed (use assms release_operated operated_refl in \<open>simp_all add: cancelWaiter_def\<close>)

subsection \<open>The machine\<close>

text \<open>
  Any caller may ask, give up waiting, be overtaken by its deadline timer, or release a lease at
  any time; releasing an identifier that is not running changes nothing.
\<close>

inductive governor_step :: "governor \<Rightarrow> governor \<Rightarrow> bool" where
  acquired: "governor_step g (fst (Acquire r g))"
| gave_up: "governor_step g (cancelWaiter sq deadline g)"
| released: "governor_step g (release i g)"

lemma governor_step_operated: "governor_step g g' \<Longrightarrow> governor_ok g \<Longrightarrow> operated g g'"
  by (elim governor_step.cases) (simp_all add: Acquire_operated cancelWaiter_operated release_operated)

interpretation governor_runs: stable governor_step "\<lambda>g. governor_ok g \<and> settled g"
  by unfold_locales (use governor_step_operated operated_ok in blast)

lemma new_governor_ok: "NewGovernor cap res clock = Inr g \<Longrightarrow> governor_ok g \<and> settled g"
  by (auto simp: NewGovernor_def governor_ok_def settled_def books_def usage_ok_def leases_ok_def queue_ok_def total_def split: if_splits)

end
