(* ===== verification/Governor_Properties.thy ===== *)
theory Governor_Properties
  imports Governor
begin

section \<open>What admission promises\<close>

text \<open>
  The properties of \<^verbatim>\<open>admission/governor.go\<close> over every sequence of acquisitions, withdrawals and
  releases: exact accounting within the capacity and the interactive reservation, no idle capacity
  that a queued request could use, grants in priority order, and preemption that asks a shortest
  sufficient sequence of lower-class leases and keeps their capacity until they let go.
\<close>

subsection \<open>Capacity is fixed, and the queue is always settled\<close>

lemma firstAdmissible_limits:
  assumes "firstAdmissible g = (g1, r)"
  shows "gv_capacity g1 = gv_capacity g" "gv_reserved g1 = gv_reserved g"
proof -
  obtain g' r' where f: "first_loop 0 (gv_waiters g) g = (g', r')" by force
  have "searched g g'" using first_loop_searched [OF f] by blast
  then show "gv_capacity g1 = gv_capacity g" "gv_reserved g1 = gv_reserved g"
    using assms f by (auto simp: firstAdmissible_def searched_frame split: option.splits)
qed

lemma schedule_loop_limits: "gv_capacity (schedule_loop g) = gv_capacity g \<and> gv_reserved (schedule_loop g) = gv_reserved g"
proof (induction g rule: schedule_loop.induct)
  case (1 g)
  obtain g1 r where f: "firstAdmissible g = (g1, r)" by force
  show ?case
  proof (cases r)
    case None
    then show ?thesis using f firstAdmissible_limits [OF f] by (subst (1 2) schedule_loop.simps) simp
  next
    case (Some i)
    have "schedule_loop g = schedule_loop (grant i g1)" using f Some by (subst schedule_loop.simps) simp
    with 1 [OF f [symmetric] Some] show ?thesis by (simp add: grant_effect firstAdmissible_limits [OF f])
  qed
qed

lemma schedule_limits [simp]: "gv_capacity (schedule g) = gv_capacity g" "gv_reserved (schedule g) = gv_reserved g"
  by (simp_all add: schedule_def schedule_loop_limits)

lemma governor_step_limits: "governor_step g g' \<Longrightarrow> gv_capacity g' = gv_capacity g \<and> gv_reserved g' = gv_reserved g"
  by (elim governor_step.cases)
    (auto simp: Acquire_def release_def cancelWaiter_def tick_def set_state_def Let_def split: option.splits waiter_state.splits)

lemma governor_run:
  assumes "NewGovernor cap res clock = Inr g0" and "governor_step\<^sup>*\<^sup>* g0 g"
  shows "governor_ok g" "settled g" "gv_capacity g = cap" "gv_reserved g = res"
proof -
  show "governor_ok g" "settled g" using governor_runs.run_keeps [OF assms(2)] new_governor_ok [OF assms(1)] by auto
  have "gv_capacity g0 = cap" "gv_reserved g0 = res" using assms(1) by (auto simp: NewGovernor_def split: if_splits)
  with assms(2) show "gv_capacity g = cap" "gv_reserved g = res"
    by (induction rule: rtranclp_induct) (auto simp: governor_step_limits)
qed

subsection \<open>A run at a concrete resource\<close>

text \<open>Three units, one reserved. Background work holds two; urgent work needs all three and asks it to stop.\<close>

definition background_work :: request where
  "background_work = \<lparr>rq_class = ClassBackground, rq_cost = 1, rq_preemptible = True, rq_deadline = None, rq_label = ''b''\<rparr>"

definition urgent_work :: request where
  "urgent_work = \<lparr>rq_class = ClassUrgent, rq_cost = 2, rq_preemptible = False, rq_deadline = None, rq_label = ''u''\<rparr>"

definition governor_example_start :: governor where
  "governor_example_start = projr (NewGovernor 3 1 (\<lambda>n. n))"

definition governor_example_busy :: governor where
  "governor_example_busy = fst (Acquire background_work (fst (Acquire background_work governor_example_start)))"

definition governor_example_wanted :: governor where
  "governor_example_wanted = fst (Acquire urgent_work governor_example_busy)"

lemma governor_example_evaluated:
  "NewGovernor 3 1 (\<lambda>n. n) = Inr governor_example_start" "gv_used governor_example_busy = 2" "length (gv_running governor_example_busy) = 2"
  by (simp_all add: governor_example_start_def NewGovernor_def) (code_simp+)

lemma governor_example_run: "governor_step\<^sup>*\<^sup>* governor_example_start governor_example_busy" "governor_step\<^sup>*\<^sup>* governor_example_start governor_example_wanted"
  unfolding governor_example_busy_def governor_example_wanted_def
  by (meson governor_step.acquired rtranclp.intros)+

subsection \<open>Accounting\<close>

text \<open>
  C5. In every run of the governor the used capacity is exactly the sum of the costs of the leases
  still running, preempted ones included, and the lower-priority use the sum over the background
  and speculative ones; the first never exceeds the capacity and the second never enters the
  interactive reservation; and the number of admissions is the number of releases plus the leases
  running.
\<close>

theorem admission_stays_within_capacity:
  assumes "NewGovernor cap res clock = Inr g0" and "governor_step\<^sup>*\<^sup>* g0 g"
  shows "gv_used g = (\<Sum>r\<leftarrow>map snd (gv_running g). rq_cost (rn_request r)) \<and> gv_used g \<le> cap
    \<and> gv_lowerUsed g = (\<Sum>r\<leftarrow>map snd (gv_running g). if rq_class (rn_request r) \<le> ClassSpeculative then rq_cost (rn_request r) else 0)
    \<and> gv_lowerUsed g \<le> cap - res \<and> gv_admitted g = gv_released g + length (gv_running g)"
  using governor_run [OF assms]
  by (simp add: governor_ok_def books_def usage_ok_def total_def low_cost_def comp_def case_prod_beta)

theorem admission_stays_within_capacity_witness:
  "gv_used governor_example_wanted \<le> 3 \<and> gv_lowerUsed governor_example_wanted \<le> 2
    \<and> gv_admitted governor_example_wanted = gv_released governor_example_wanted + length (gv_running governor_example_wanted)"
  using admission_stays_within_capacity [OF governor_example_evaluated(1) governor_example_run(2)] by simp

subsection \<open>No idle capacity\<close>

text \<open>
  In every run each request still in the queue is waiting and does not fit: either it exceeds
  the free capacity, or it is background or speculative work that would enter the interactive
  reservation. Every operation that frees capacity or changes the queue has granted whatever fits
  before it returns.
\<close>

theorem queued_work_does_not_fit:
  assumes "NewGovernor cap res clock = Inr g0" and "governor_step\<^sup>*\<^sup>* g0 g" and "w \<in> set (gv_waiters g)"
  shows "state_of g (wt_sequence w) = Waiting \<and> validateRequest g (wt_request w) = None
    \<and> (cap < gv_used g + rq_cost (wt_request w)
       \<or> rq_class (wt_request w) \<le> ClassSpeculative \<and> cap - res < gv_lowerUsed g + rq_cost (wt_request w))"
  using governor_run [OF assms(1,2)] assms(3)
  by (auto simp: governor_ok_def queue_ok_def settled_def fits_def)

theorem queued_work_does_not_fit_witness:
  "3 < gv_used governor_example_wanted + rq_cost (wt_request (hd (gv_waiters governor_example_wanted)))"
proof -
  have e: "hd (gv_waiters governor_example_wanted) \<in> set (gv_waiters governor_example_wanted)"
    "rq_class (wt_request (hd (gv_waiters governor_example_wanted))) = ClassUrgent" by code_simp+
  show ?thesis using queued_work_does_not_fit [OF governor_example_evaluated(1) governor_example_run(2) e(1)] e(2) by simp
qed

subsection \<open>Priority\<close>

lemma compare_key_less: "compareWaiters l r < 0 \<longleftrightarrow> waiter_key l < waiter_key r"
  by (auto simp: compareWaiters_def waiter_key_def split: option.splits)

lemma sorted_earlier:
  assumes "sorted (map key xs)" and "x \<in> set xs" and "i < length xs" and "key x < (key (xs ! i) :: 'k :: linorder)"
  shows "x \<in> set (take i xs)"
proof -
  obtain j where j: "j < length xs" "xs ! j = x" using assms(2) by (auto simp: in_set_conv_nth)
  have "j < i"
  proof (rule ccontr)
    assume "\<not> j < i"
    then have "key (xs ! i) \<le> key (xs ! j)" using sorted_nth_mono [OF assms(1), of i j] j assms(3) by simp
    with assms(4) j show False by simp
  qed
  with j assms(3) show ?thesis by (auto simp: in_set_conv_nth intro!: exI [of _ j])
qed

text \<open>In the order of the queue no request comes before one of higher priority.\<close>

definition in_priority_order :: "waiter list \<Rightarrow> bool" where
  "in_priority_order = sorted_wrt (\<lambda>v w. compareWaiters v w \<le> 0)"

lemma in_priority_order_key: "in_priority_order ws = sorted (map waiter_key ws)"
  by (simp add: in_priority_order_def compare_key sorted_map)

text \<open>
  Grants respect priority. Sorting puts the queue in the order that \<^verbatim>\<open>compareWaiters\<close> denotes
  (greater class first, then a deadline before none, earlier deadlines first, arrival order
  last) without losing or repeating a request. In each round of the loop the request chosen from
  a queue in that order is still waiting and fits, every queued request of strictly higher
  priority has expired or does not fit, and the queue the next round sees is again in order.
\<close>

theorem grant_respects_priority:
  assumes "in_priority_order (gv_waiters g)" and "firstAdmissible g = (g1, Some i)"
  shows "in_priority_order (sort_stable compareWaiters ws) \<and> mset (sort_stable compareWaiters ws) = mset ws
    \<and> i < length (gv_waiters g1) \<and> state_of g1 (wt_sequence (gv_waiters g1 ! i)) = Waiting
    \<and> fits g1 (wt_request (gv_waiters g1 ! i))
    \<and> (\<forall>v\<in>set (gv_waiters g1). compareWaiters v (gv_waiters g1 ! i) < 0
         \<longrightarrow> state_of g1 (wt_sequence v) \<noteq> Waiting \<or> \<not> fits g1 (wt_request v))
    \<and> in_priority_order (gv_waiters (grant i g1))"
proof -
  have f: "first_loop 0 (gv_waiters g) g = (g1, Some i)"
    using assms(2) by (auto simp: firstAdmissible_def split: prod.splits option.splits)
  have ws: "gv_waiters g1 = gv_waiters g" and i: "i < length (gv_waiters g)"
    using searched_frame(1) first_loop_searched [OF f] by auto
  have res: "\<forall>v\<in>set (take i (gv_waiters g)). passed_over g1 v" "\<not> passed_over g1 (gv_waiters g ! i)"
    using first_loop_result [OF f] by simp_all
  have "passed_over g1 v" if "v \<in> set (gv_waiters g)" "compareWaiters v (gv_waiters g ! i) < 0" for v
    using sorted_earlier [of waiter_key "gv_waiters g" v i] that i res(1) assms(1)
    by (simp add: compare_key_less in_priority_order_key)
  moreover have "in_priority_order (gv_waiters (grant i g1))"
  proof -
    have m: "gv_waiters g = take i (gv_waiters g) @ gv_waiters g ! i # drop (i + 1) (gv_waiters g)"
      using i by (simp add: id_take_nth_drop)
    have "in_priority_order (take i (gv_waiters g) @ gv_waiters g ! i # drop (i + 1) (gv_waiters g))"
      using assms(1) m by metis
    then show ?thesis by (simp add: grant_waiters ws in_priority_order_def sorted_wrt_append)
  qed
  ultimately show ?thesis
    using ws i res(2) by (simp add: passed_over_def in_priority_order_key sort_waiters)
qed

theorem grant_respects_priority_witness:
  "(let g = governor_example_start\<lparr>gv_waiters := sort_stable compareWaiters
        [\<lparr>wt_sequence = 1, wt_request = background_work, wt_enqueued = 0\<rparr>, \<lparr>wt_sequence = 2, wt_request = urgent_work, wt_enqueued = 0\<rparr>]\<rparr>;
        g1 = fst (firstAdmissible g)
    in fits g1 (wt_request (gv_waiters g1 ! 0)) \<and> rq_class (wt_request (gv_waiters g1 ! 0)) = ClassUrgent
       \<and> in_priority_order (gv_waiters (grant 0 g1)))" (is "let g = ?g; g1 = fst (firstAdmissible g) in _ g1")
proof -
  have e: "in_priority_order (gv_waiters ?g)" "snd (firstAdmissible ?g) = Some 0"
    "rq_class (wt_request (gv_waiters (fst (firstAdmissible ?g)) ! 0)) = ClassUrgent"
    by (simp add: in_priority_order_key sort_waiters) code_simp+
  have "firstAdmissible ?g = (fst (firstAdmissible ?g), Some 0)" using e(2) by (metis prod.collapse)
  from grant_respects_priority [OF e(1) this, of "[]"] e(3) show ?thesis by (simp add: Let_def)
qed

subsection \<open>Preemption\<close>

text \<open>
  Preemption takes no more than it must at the moment it is asked. When the first queued
  request lacks capacity, the leases asked to stop are a prefix of the running leases of strictly
  lower class that declared themselves preemptible and have not been asked before, ordered by
  class, then larger, then younger; no shorter prefix frees what is needed, and the prefix frees it
  unless all candidates together do not. Each has its context cancelled, and none of their capacity
  is returned: the used capacity, the queue and the set of running leases are unchanged.
\<close>

theorem preemption_asks_a_minimal_prefix:
  assumes "NewGovernor cap res clock = Inr g0" and "governor_step\<^sup>*\<^sup>* g0 g"
    and "gv_waiters g = wanted # rest"
  shows "\<exists>n \<le> length (candidates g (rq_class (wt_request wanted))).
      stopped (requestPreemption g) = rn_id ` set (take n (candidates g (rq_class (wt_request wanted)))) \<union> stopped g
    \<and> (n < length (candidates g (rq_class (wt_request wanted)))
         \<longrightarrow> capacity_needed g (wt_request wanted)
              \<le> (\<Sum>r\<leftarrow>take n (candidates g (rq_class (wt_request wanted))). rq_cost (rn_request r)))
    \<and> (\<forall>m<n. (\<Sum>r\<leftarrow>take m (candidates g (rq_class (wt_request wanted))). rq_cost (rn_request r))
         < capacity_needed g (wt_request wanted))
    \<and> (\<forall>r\<in>set (candidates g (rq_class (wt_request wanted))). map_of (gv_running g) (rn_id r) = Some r
         \<and> rq_preemptible (rn_request r) \<and> rq_class (rn_request r) < rq_class (wt_request wanted) \<and> \<not> rn_preempting r)
    \<and> gv_used (requestPreemption g) = gv_used g \<and> gv_waiters (requestPreemption g) = gv_waiters g
    \<and> dom (map_of (gv_running (requestPreemption g))) = dom (map_of (gv_running g))"
proof -
  let ?k = "rq_class (wt_request wanted)" and ?n = "capacity_needed g (wt_request wanted)"
  note run = governor_run [OF assms(1,2)]
  have b: "books g" using run(1) by (simp add: governor_ok_def)
  have w: "state_of g (wt_sequence wanted) = Waiting" "\<not> fits g (wt_request wanted)"
    using run(2) assms(3) by (simp_all add: settled_def)
  then have n: "0 < ?n" by (auto simp: fits_def capacity_needed_def Let_def)
  then have e: "requestPreemption g = preempt_loop ?n (candidates g ?k) g"
    using assms(3) w by (simp add: requestPreemption_def Let_def)
  have c: "\<forall>r\<in>set (candidates g ?k). map_of (gv_running g) (rn_id r) = Some r
      \<and> rq_preemptible (rn_request r) \<and> rq_class (rn_request r) < ?k \<and> \<not> rn_preempting r"
    using books_candidates(2) [OF b, of ?k] by (auto simp: candidates_def)
  have d: "dom (map_of (gv_running (preempt_loop ?n (candidates g ?k) g))) = dom (map_of (gv_running g))"
    using preempt_loop_running c by blast
  obtain n where n: "n \<le> length (candidates g ?k)" "asked ?n (candidates g ?k) = take n (candidates g ?k)"
    "n < length (candidates g ?k) \<longrightarrow> ?n \<le> (\<Sum>r\<leftarrow>take n (candidates g ?k). rq_cost (rn_request r))"
    "\<forall>m<n. (\<Sum>r\<leftarrow>take m (candidates g ?k). rq_cost (rn_request r)) < ?n"
    using asked_prefix [OF n, of "candidates g ?k"] by blast
  show ?thesis
    by (rule exI [of _ n]) (use n c d preempt_loop_stops [of ?n "candidates g ?k" g] in \<open>simp add: e\<close>)
qed

theorem preemption_asks_a_minimal_prefix_witness:
  "stopped (requestPreemption governor_example_wanted) \<subseteq> {1, 2} \<and> gv_used (requestPreemption governor_example_wanted) = 2"
proof -
  have e: "gv_waiters governor_example_wanted = hd (gv_waiters governor_example_wanted) # tl (gv_waiters governor_example_wanted)"
    "gv_used governor_example_wanted = 2" "map fst (gv_running governor_example_wanted) = [1, 2]" "map fst (gv_cancelled governor_example_wanted) = [2]"
    by code_simp+
  have d: "dom (map_of (gv_running governor_example_wanted)) = {1, 2}" "stopped governor_example_wanted = {2}"
    using e(3,4) by (simp_all add: stopped_def dom_map_of_conv_image_fst flip: set_map)
  from preemption_asks_a_minimal_prefix [OF governor_example_evaluated(1) governor_example_run(2) e(1)] obtain n where
    s: "stopped (requestPreemption governor_example_wanted) =
      rn_id ` set (take n (candidates governor_example_wanted (rq_class (wt_request (hd (gv_waiters governor_example_wanted)))))) \<union> stopped governor_example_wanted"
    and c: "\<forall>r\<in>set (candidates governor_example_wanted (rq_class (wt_request (hd (gv_waiters governor_example_wanted))))).
      map_of (gv_running governor_example_wanted) (rn_id r) = Some r"
    and u: "gv_used (requestPreemption governor_example_wanted) = gv_used governor_example_wanted" by blast
  have "rn_id r \<in> {1, 2}" if "r \<in> set (candidates governor_example_wanted (rq_class (wt_request (hd (gv_waiters governor_example_wanted)))))" for r
    using c that d(1) by (metis domI)
  with s d(2) u e(2) show ?thesis by (auto dest!: in_set_takeD)
qed

text \<open>
  What a later operation makes of a pending preemption: capacity already on its way back does not
  count against what the waiting request needs. With capacity for the urgent request but for one
  unit, one background lease is asked to stop; when an unrelated request then joins the queue, the
  second background lease is asked to stop as well, although the first one frees enough.
\<close>

theorem pending_preemption_is_not_counted:
  "gv_preemptions governor_example_wanted = 1 \<and> capacity_needed governor_example_wanted urgent_work = 1
    \<and> gv_preemptions (fst (Acquire background_work governor_example_wanted)) = 2
    \<and> capacity_needed (fst (Acquire background_work governor_example_wanted)) urgent_work = 1"
  by code_simp

subsection \<open>Release\<close>

lemma schedule_loop_fresh:
  "map_of (gv_running g) i = None \<Longrightarrow> i \<le> gv_nextLeaseID g \<Longrightarrow> governor_ok g \<Longrightarrow> map_of (gv_running (schedule_loop g)) i = None"
proof (induction g rule: schedule_loop.induct)
  case (1 g)
  obtain g1 r where f: "firstAdmissible g = (g1, r)" by force
  obtain g' r' where f': "first_loop 0 (gv_waiters g) g = (g', r')" by force
  have s: "searched g g'" using first_loop_searched [OF f'] by blast
  have g1: "gv_running g1 = gv_running g" "gv_nextLeaseID g1 = gv_nextLeaseID g"
    using f f' s by (auto simp: firstAdmissible_def searched_frame split: option.splits)
  note fa = firstAdmissible_ok [OF f 1(4)]
  show ?case
  proof (cases r)
    case None
    have "dom (map_of (gv_running (requestPreemption g1))) = dom (map_of (gv_running g1))"
      using requestPreemption_running fa(1) by (simp add: governor_ok_def)
    with 1(2) g1(1) have "map_of (gv_running (requestPreemption g1)) i = None" by (metis domIff)
    with None f show ?thesis by (subst schedule_loop.simps) simp
  next
    case (Some j)
    have e: "schedule_loop g = schedule_loop (grant j g1)" using f Some by (subst schedule_loop.simps) simp
    have "map_of (gv_running (grant j g1)) i = None"
      using grant_effect(1) [of j g1] g1 1(2,3) by (auto simp: update_conv')
    moreover have "governor_ok (grant j g1)" using fa Some by (intro grant_ok) simp_all
    ultimately show ?thesis using 1(1) [OF f [symmetric] Some] e g1(2) 1(3) by (simp add: grant_effect)
  qed
qed

lemma schedule_fresh:
  assumes "map_of (gv_running g) i = None" and "i \<le> gv_nextLeaseID g" and "governor_ok g"
  shows "map_of (gv_running (schedule g)) i = None"
  unfolding schedule_def using assms sorted_queue_ok [OF assms(3)] by (intro schedule_loop_fresh) simp_all

text \<open>
  Release is idempotent and final. In every run, once a lease is released it is not running,
  no scheduling inside the release runs it again, and releasing it once more changes nothing;
  releasing an identifier that is not running changes nothing at all.
\<close>

theorem release_is_idempotent:
  assumes "NewGovernor cap res clock = Inr g0" and "governor_step\<^sup>*\<^sup>* g0 g"
  shows "map_of (gv_running (release i g)) i = None \<and> release i (release i g) = release i g
    \<and> (map_of (gv_running g) i = None \<longrightarrow> release i g = g)"
proof -
  have ok: "governor_ok g" using governor_run [OF assms] by blast
  have "map_of (gv_running (release i g)) i = None"
  proof (cases "map_of (gv_running g) i")
    case (Some r)
    with release_schedules [OF ok Some] schedule_fresh show ?thesis by auto
  qed (simp add: release_def)
  then show ?thesis by (simp add: release_def split: option.split)
qed

theorem release_is_idempotent_witness:
  "map_of (gv_running governor_example_wanted) 2 \<noteq> None \<and> map_of (gv_running (release 2 governor_example_wanted)) 2 = None
    \<and> release 2 (release 2 governor_example_wanted) = release 2 governor_example_wanted"
proof -
  have "map_of (gv_running governor_example_wanted) 2 \<noteq> None" by code_simp
  with release_is_idempotent [OF governor_example_evaluated(1) governor_example_run(2), of 2] show ?thesis by simp
qed

end
