(* ===== verification/Governor_Priority.thy ===== *)
theory Governor_Priority
  imports Governor_Properties
begin

section \<open>Grants in order of priority\<close>

text \<open>
  What a single round of the search guarantees is carried through the scheduling loop and then through every
  operation of the governor. The leases an operation starts have ascending identifiers, so the state after
  it shows in which order they were granted, and the leases older than one are those it had to fit beside.
\<close>

subsection \<open>What a lease had to fit beside\<close>

text \<open>The waiter a lease was granted to, as far as the order of the queue looks at it.\<close>

definition lease_waiter :: "running \<Rightarrow> waiter" where
  "lease_waiter r = \<lparr>wt_sequence = rn_sequence r, wt_request = rn_request r, wt_enqueued = 0\<rparr>"

definition older :: "nat \<Rightarrow> (nat, running) gomap \<Rightarrow> (nat, running) gomap" where
  "older k m = filter (\<lambda>p. fst p < k) m"

definition new_lease :: "governor \<Rightarrow> governor \<Rightarrow> nat \<Rightarrow> running \<Rightarrow> bool" where
  "new_lease g g' k r \<longleftrightarrow> map_of (gv_running g') k = Some r \<and> map_of (gv_running g) k = None"

text \<open>Beside the leases older than \<^verbatim>\<open>k\<close> the request exceeds the capacity or enters the reservation.\<close>

definition crowded_out :: "governor \<Rightarrow> nat \<Rightarrow> request \<Rightarrow> bool" where
  "crowded_out g k r \<longleftrightarrow>
     gv_capacity g < total (rq_cost \<circ> rn_request) (older k (gv_running g)) + rq_cost r
     \<or> rq_class r \<le> ClassSpeculative \<and> gv_capacity g - gv_reserved g < total low_cost (older k (gv_running g)) + rq_cost r"

lemma older_all: "(\<And>i r. map_of m i = Some r \<Longrightarrow> i < k) \<Longrightarrow> distinct (map fst m) \<Longrightarrow> older k m = m"
  unfolding older_def by (rule filter_True) (auto simp: map_of_eq_Some_iff)

lemma older_add: "k \<le> i \<Longrightarrow> older k (AList.update i r m) = older k m"
  by (induction m) (auto simp: older_def)

lemma older_mark:
  "map_of m i = Some r \<Longrightarrow> f r' = f r \<Longrightarrow> total f (older k (AList.update i r' m)) = total f (older k m)"
  by (induction m) (auto simp: older_def total_def split: if_splits)

lemma preempt_loop_older:
  assumes "\<And>r r'. rn_request r' = rn_request r \<Longrightarrow> f r' = (f r :: int)"
  shows "distinct (map rn_id rs) \<Longrightarrow> (\<forall>r\<in>set rs. map_of (gv_running g) (rn_id r) = Some r)
    \<Longrightarrow> total f (older k (gv_running (preempt_loop needed rs g))) = total f (older k (gv_running g))"
proof (induction needed rs g rule: preempt_loop.induct)
  case (2 needed r rs g)
  obtain now where now: "gv_running (preempt r g) =
      AList.update (rn_id r) (r\<lparr>rn_preempting := True, rn_preempted := Some now\<rparr>) (gv_running g)" (is "_ = AList.update _ ?r _")
    using preempt_effect(1) by blast
  have t: "total f (older k (gv_running (preempt r g))) = total f (older k (gv_running g))"
    unfolding now by (rule older_mark [of _ _ r]) (use 2(3) assms [of ?r r] in auto)
  have "\<forall>r'\<in>set rs. map_of (gv_running (preempt r g)) (rn_id r') = Some r'"
    using 2(2,3) by (auto simp: now image_iff)
  with 2(1) [OF refl refl] 2(2) t show ?case by (simp add: Let_def)
qed simp

lemma requestPreemption_older:
  assumes "\<And>r r'. rn_request r' = rn_request r \<Longrightarrow> f r' = (f r :: int)" and "books g"
  shows "total f (older k (gv_running (requestPreemption g))) = total f (older k (gv_running g))"
  using preempt_loop_older [OF assms(1)] books_candidates [OF assms(2)]
  by (simp add: requestPreemption_def Let_def split: list.split)

subsection \<open>The loop\<close>

lemma round_states:
  assumes "firstAdmissible g = (g1, r)"
  shows "state_of g1 s = state_of g s \<or> state_of g s = Waiting \<and> state_of g1 s = Cancelled"
proof -
  obtain g' r' where f: "first_loop 0 (gv_waiters g) g = (g', r')" by force
  have "state_of g1 s = state_of g' s" using assms f by (auto simp: firstAdmissible_def state_of_def split: option.splits)
  with first_loop_states [OF f] show ?thesis by auto
qed

text \<open>A round of the loop that grants, with what it is known to keep.\<close>

lemma granting_round:
  assumes "firstAdmissible g = (g1, Some i)" and "governor_ok g"
  obtains u where "u = gv_waiters g1 ! i" "i < length (gv_waiters g)" "gv_waiters g1 = gv_waiters g"
    "u \<in> set (gv_waiters g)" "state_of g1 (wt_sequence u) = Waiting" "fits g1 (wt_request u)"
    "\<forall>w\<in>set (take i (gv_waiters g)). passed_over g1 w"
    "governor_ok g1" "governor_ok (grant i g1)" "schedule_loop g = schedule_loop (grant i g1)"
    "set (gv_waiters g) = insert u (set (gv_waiters (grant i g1)))" "set (gv_waiters (grant i g1)) = set (gv_waiters g) - {u}"
    "gv_running g1 = gv_running g" "gv_nextLeaseID g1 = gv_nextLeaseID g" "gv_capacity g1 = gv_capacity g"
    "gv_reserved g1 = gv_reserved g" "0 < rq_cost (wt_request u)"
proof -
  have f: "first_loop 0 (gv_waiters g) g = (g1, Some i)"
    using assms(1) by (auto simp: firstAdmissible_def split: prod.splits option.splits)
  note s = searched_frame [OF conjunct1 [OF first_loop_searched [OF f]]]
  have i: "i < length (gv_waiters g)" using first_loop_searched [OF f] by simp
  note fa = firstAdmissible_ok [OF assms]
  have p: "\<forall>w\<in>set (take i (gv_waiters g)). passed_over g1 w" "\<not> passed_over g1 (gv_waiters g ! i)"
    using first_loop_result [OF f] by simp_all
  have ok: "governor_ok (grant i g1)" using fa by (intro grant_ok) simp_all
  have u: "gv_waiters g1 ! i \<in> set (gv_waiters g)" using i s(1) by simp
  have m: "gv_waiters g = take i (gv_waiters g) @ gv_waiters g ! i # drop (i + 1) (gv_waiters g)"
    using i by (simp add: id_take_nth_drop)
  have w: "set (gv_waiters (grant i g1)) = set (take i (gv_waiters g)) \<union> set (drop (i + 1) (gv_waiters g))"
    by (simp add: grant_waiters s(1))
  have e: "set (gv_waiters g) = insert (gv_waiters g1 ! i) (set (gv_waiters (grant i g1)))"
    unfolding w s(1) by (subst m) auto
  have "distinct (gv_waiters g)" using assms(2) by (simp add: governor_ok_def queue_ok_def distinct_map)
  then have "gv_waiters g ! i \<notin> set (take i (gv_waiters g)) \<union> set (drop (i + 1) (gv_waiters g))"
    using m by (metis Un_iff distinct.simps(2) distinct_append disjoint_iff list.set_intros(1))
  then have d: "set (gv_waiters (grant i g1)) = set (gv_waiters g) - {gv_waiters g1 ! i}" using e w s(1) by auto
  have l: "schedule_loop g = schedule_loop (grant i g1)" using assms(1) by (subst schedule_loop.simps) simp
  have "validateRequest g (wt_request (gv_waiters g ! i)) = None"
    using assms(2) i by (simp add: governor_ok_def queue_ok_def)
  then have c: "0 < rq_cost (wt_request (gv_waiters g1 ! i))"
    using s(1) by (auto simp: validateRequest_def split: if_splits)
  show thesis
    by (rule that [OF refl i s(1) u _ _ p(1) fa(1) ok l e d s(2,7,5,6) c]) (use p(2) s(1) in \<open>simp_all add: passed_over_def\<close>)
qed

lemma ending_round:
  assumes "firstAdmissible g = (g1, None)" and "governor_ok g"
  shows "schedule_loop g = requestPreemption g1" "governor_ok g1" "gv_running g1 = gv_running g"
    "set (gv_waiters g1) \<subseteq> set (gv_waiters g)"
    "w \<in> set (gv_waiters g) \<Longrightarrow> w \<in> set (gv_waiters g1) \<or> state_of g1 (wt_sequence w) = Cancelled"
proof -
  obtain g' r' where f: "first_loop 0 (gv_waiters g) g = (g', r')" by force
  note s = searched_frame [OF conjunct1 [OF first_loop_searched [OF f]]]
  have g1: "g1 = g'\<lparr>gv_waiters := filter (\<lambda>w. state_of g' (wt_sequence w) \<noteq> Cancelled) (gv_waiters g')\<rparr>"
    using assms(1) f by (auto simp: firstAdmissible_def split: option.splits)
  show "schedule_loop g = requestPreemption g1" using assms(1) by (subst schedule_loop.simps) simp
  show "governor_ok g1" by (rule firstAdmissible_ok(1) [OF assms])
  show "gv_running g1 = gv_running g" "set (gv_waiters g1) \<subseteq> set (gv_waiters g)"
    "w \<in> set (gv_waiters g) \<Longrightarrow> w \<in> set (gv_waiters g1) \<or> state_of g1 (wt_sequence w) = Cancelled"
    using g1 s(1,2) by (auto simp: state_of_def)
qed

lemma loop_induct [consumes 1, case_names ending granting]:
  assumes "governor_ok g"
    and "\<And>g g1. firstAdmissible g = (g1, None) \<Longrightarrow> governor_ok g \<Longrightarrow> P g"
    and "\<And>g g1 i. firstAdmissible g = (g1, Some i) \<Longrightarrow> governor_ok g \<Longrightarrow> P (grant i g1) \<Longrightarrow> P g"
  shows "P g"
  using assms(1)
proof (induction g rule: schedule_loop.induct)
  case (1 g)
  obtain g1 r where f: "firstAdmissible g = (g1, r)" by force
  show ?case
  proof (cases r)
    case None
    with f 1(2) assms(2) show ?thesis by blast
  next
    case (Some i)
    with f have fi: "firstAdmissible g = (g1, Some i)" by simp
    obtain u where "u = gv_waiters g1 ! i" "governor_ok (grant i g1)" using granting_round [OF fi 1(2)] by metis
    then show ?thesis using assms(3) [OF fi 1(2)] 1(1) [OF f [symmetric] Some] by blast
  qed
qed

text \<open>What was decided before the loop stays; what the loop grants has a new lease.\<close>

lemma loop_decided:
  assumes "governor_ok g" and "state_of g s \<noteq> Waiting"
  shows "state_of (schedule_loop g) s = state_of g s"
  using assms
proof (induction g rule: loop_induct)
  case (ending g g1)
  then show ?case using ending_round(1) [OF ending(1,2)] round_states [OF ending(1), of s] by auto
next
  case (granting g g1 i)
  obtain u where u: "u = gv_waiters g1 ! i" "state_of g1 (wt_sequence u) = Waiting" "schedule_loop g = schedule_loop (grant i g1)"
    using granting_round [OF granting(1,2)] by metis
  have s1: "state_of g1 s = state_of g s" using round_states [OF granting(1), of s] granting(4) by auto
  then have "state_of (grant i g1) s = state_of g s" using u(1,2) granting(4) by (auto simp: grant_effect(11))
  with granting(3,4) u(3) show ?case by simp
qed

lemma loop_new_lease:
  assumes "governor_ok g" and "state_of g s = Waiting" and "state_of (schedule_loop g) s = Granted k"
  shows "gv_nextLeaseID g < k"
  using assms
proof (induction g rule: loop_induct)
  case (ending g g1)
  then show ?case using ending_round(1) [OF ending(1,2)] round_states [OF ending(1), of s] by auto
next
  case (granting g g1 i)
  obtain u where u: "u = gv_waiters g1 ! i" "governor_ok (grant i g1)" "schedule_loop g = schedule_loop (grant i g1)"
    "gv_nextLeaseID g1 = gv_nextLeaseID g"
    using granting_round [OF granting(1,2)] by metis
  show ?case
  proof (cases "state_of (grant i g1) s = Waiting")
    case True
    with granting(3,5) u(3,4) show ?thesis by (simp add: grant_effect(4))
  next
    case False
    with loop_decided [OF u(2)] granting(5) u(3) have d: "state_of (grant i g1) s = Granted k" by simp
    have "state_of g1 s \<noteq> Granted k" using round_states [OF granting(1), of s] granting(4) by auto
    with d u(4) show ?thesis by (auto simp: grant_effect(11) split: if_splits)
  qed
qed

lemma grant_fits: "0 < rq_cost (wt_request (gv_waiters g ! i)) \<Longrightarrow> fits (grant i g) r \<Longrightarrow> fits g r"
  by (auto simp: fits_def grant_effect(2,3,5,6) split: if_splits)

lemma loop_never_grants:
  assumes "governor_ok g" and "v \<in> set (gv_waiters g)" and "\<not> fits g (wt_request v)"
  shows "state_of (schedule_loop g) (wt_sequence v) \<noteq> Granted k"
  using assms
proof (induction g rule: loop_induct)
  case (ending g g1)
  have "state_of g (wt_sequence v) \<noteq> Granted k" using ending(2,3) by (auto simp: governor_ok_def queue_ok_def)
  then show ?case using ending_round(1) [OF ending(1,2)] round_states [OF ending(1), of "wt_sequence v"] by auto
next
  case (granting g g1 i)
  obtain u where u: "u = gv_waiters g1 ! i" "fits g1 (wt_request u)" "schedule_loop g = schedule_loop (grant i g1)"
    "set (gv_waiters (grant i g1)) = set (gv_waiters g) - {u}" "0 < rq_cost (wt_request u)"
    using granting_round [OF granting(1,2)] by metis
  have f: "fits g1 = fits g" using searched_fits [OF firstAdmissible_Some(1) [OF granting(1)]] by blast
  then have "\<not> fits (grant i g1) (wt_request v)" using granting(5) grant_fits [of g1 i] u(1,5) by auto
  moreover have "v \<noteq> u" using granting(5) u(2) f by auto
  ultimately show ?case using granting(3,4) u(3,4) by auto
qed

text \<open>What a lease had to fit beside can be read off the state after the loop.\<close>

lemma loop_older:
  assumes "governor_ok g" and "k \<le> gv_nextLeaseID g + 1" and r: "\<And>r r'. rn_request r' = rn_request r \<Longrightarrow> f r' = (f r :: int)"
  shows "total f (older k (gv_running (schedule_loop g))) = total f (older k (gv_running g))"
  using assms(1,2)
proof (induction g rule: loop_induct)
  case (ending g g1)
  note e = ending_round [OF ending(1,2)]
  then show ?case using requestPreemption_older [of f g1 k, OF r] by (simp add: governor_ok_def)
next
  case (granting g g1 i)
  obtain u where u: "u = gv_waiters g1 ! i" "schedule_loop g = schedule_loop (grant i g1)" "gv_running g1 = gv_running g"
    "gv_nextLeaseID g1 = gv_nextLeaseID g"
    using granting_round [OF granting(1,2)] by metis
  obtain rn where "gv_running (grant i g1) = AList.update (gv_nextLeaseID g1 + 1) rn (gv_running g1)"
    using grant_effect(1) by blast
  then have "older k (gv_running (grant i g1)) = older k (gv_running g)" using granting(4) u(3,4) by (simp add: older_add)
  with granting(3,4) u(2,4) show ?case by (simp add: grant_effect(4))
qed

lemma loop_limits: "gv_capacity (schedule_loop g) = gv_capacity g" "gv_reserved (schedule_loop g) = gv_reserved g"
  using schedule_loop_limits by simp_all

lemma refused_crowded:
  assumes "governor_ok g" and "\<not> fits g r"
  shows "gv_capacity g < total (rq_cost \<circ> rn_request) (older (gv_nextLeaseID g + 1) (gv_running g)) + rq_cost r
     \<or> rq_class r \<le> ClassSpeculative
       \<and> gv_capacity g - gv_reserved g < total low_cost (older (gv_nextLeaseID g + 1) (gv_running g)) + rq_cost r"
proof -
  have b: "leases_ok (gv_nextLeaseID g) (gv_running g)" "gv_used g = total (rq_cost \<circ> rn_request) (gv_running g)"
    "gv_lowerUsed g = total low_cost (gv_running g)"
    using assms(1) by (simp_all add: governor_ok_def books_def usage_ok_def)
  have "older (gv_nextLeaseID g + 1) (gv_running g) = gv_running g"
    using b(1) by (intro older_all) (fastforce simp: leases_ok_def)+
  with assms(2) b show ?thesis by (auto simp: fits_def)
qed

lemma loop_priority:
  assumes "governor_ok g" and "in_priority_order (gv_waiters g)" and "v \<in> set (gv_waiters g)" "w \<in> set (gv_waiters g)"
    and "compareWaiters v w < 0" and "state_of (schedule_loop g) (wt_sequence w) = Granted k"
  shows "state_of (schedule_loop g) (wt_sequence v) = Cancelled
    \<or> (\<exists>j<k. state_of (schedule_loop g) (wt_sequence v) = Granted j)
    \<or> state_of (schedule_loop g) (wt_sequence v) = Waiting \<and> crowded_out (schedule_loop g) k (wt_request v)"
  using assms
proof (induction g rule: loop_induct)
  case (ending g g1)
  have "state_of g (wt_sequence w) \<noteq> Granted k" using ending(2,5) by (auto simp: governor_ok_def queue_ok_def)
  with ending(7) show ?case using ending_round(1) [OF ending(1,2)] round_states [OF ending(1), of "wt_sequence w"] by auto
next
  case (granting g g1 i)
  obtain u where u: "u = gv_waiters g1 ! i" "i < length (gv_waiters g)" "gv_waiters g1 = gv_waiters g"
    "u \<in> set (gv_waiters g)" "state_of g1 (wt_sequence u) = Waiting"
    "\<forall>w\<in>set (take i (gv_waiters g)). passed_over g1 w" "governor_ok g1" "governor_ok (grant i g1)"
    "schedule_loop g = schedule_loop (grant i g1)" "set (gv_waiters (grant i g1)) = set (gv_waiters g) - {u}"
    "gv_running g1 = gv_running g" "gv_nextLeaseID g1 = gv_nextLeaseID g" "0 < rq_cost (wt_request u)"
    "gv_capacity g1 = gv_capacity g" "gv_reserved g1 = gv_reserved g"
    using granting_round [OF granting(1,2)] by metis
  let ?h = "grant i g1" and ?l = "gv_nextLeaseID g1 + 1"
  have seq: "wt_sequence a = wt_sequence b \<longleftrightarrow> a = b" if "a \<in> set (gv_waiters g)" "b \<in> set (gv_waiters g)" for a b
    using granting(2) that by (auto simp: governor_ok_def queue_ok_def distinct_map dest: inj_onD)
  have ne: "v \<noteq> w" using granting(7) compare_key_less [of v v] by auto
  have su: "state_of ?h (wt_sequence u) = Granted ?l" using u(1) by (simp add: grant_effect(11))
  then have fu: "state_of (schedule_loop g) (wt_sequence u) = Granted ?l" using loop_decided [OF u(8)] u(9) by simp
  have o: "in_priority_order (gv_waiters ?h)"
  proof -
    have "gv_waiters g = take i (gv_waiters g) @ gv_waiters g ! i # drop (i + 1) (gv_waiters g)"
      using u(2) by (simp add: id_take_nth_drop)
    then have "in_priority_order (take i (gv_waiters g) @ gv_waiters g ! i # drop (i + 1) (gv_waiters g))"
      using granting(4) by metis
    then show ?thesis by (simp add: grant_waiters u(3) in_priority_order_def sorted_wrt_append)
  qed
  consider (w) "w = u" | (v) "v = u" | (other) "w \<noteq> u" "v \<noteq> u" by blast
  then show ?case
  proof cases
    case w
    then have k: "k = ?l" using fu granting(8) by simp
    have "v \<in> set (take i (gv_waiters g))"
      using sorted_earlier [of waiter_key "gv_waiters g" v i] granting(4,5,7) u(1,2,3) w
      by (simp add: compare_key_less in_priority_order_key)
    then have "passed_over g1 v" using u(6) by blast
    then consider (gone) "state_of g1 (wt_sequence v) \<noteq> Waiting" | (big) "\<not> fits g1 (wt_request v)"
      by (auto simp: passed_over_def)
    then show ?thesis
    proof cases
      case gone
      moreover have "state_of g1 (wt_sequence v) \<in> {Waiting, Cancelled}"
        using u(3,7) granting(5) by (auto simp: governor_ok_def queue_ok_def)
      ultimately have "state_of ?h (wt_sequence v) = Cancelled"
        using ne w seq [OF granting(5) u(4)] u(1) by (auto simp: grant_effect(11))
      then show ?thesis using loop_decided [OF u(8), of "wt_sequence v"] u(9) by simp
    next
      case big
      have "\<not> fits ?h (wt_request v)" using big grant_fits [of g1 i] u(1,13) by auto
      moreover have "v \<in> set (gv_waiters ?h)" using u(10) granting(5) ne w by simp
      ultimately have "state_of (schedule_loop g) (wt_sequence v) \<noteq> Granted j" for j
        using loop_never_grants [OF u(8)] u(9) by simp
      moreover have "crowded_out (schedule_loop g) k (wt_request v)"
      proof -
        have "total f (older ?l (gv_running (schedule_loop g))) = total f (older ?l (gv_running g1))"
          if "\<And>r r'. rn_request r' = rn_request r \<Longrightarrow> f r' = (f r :: int)" for f
          unfolding u(11) by (rule loop_older [of g ?l f]) (simp add: granting(2), simp add: u(12), rule that)
        note t = this
        have t1: "total (rq_cost \<circ> rn_request) (older ?l (gv_running (schedule_loop g))) = total (rq_cost \<circ> rn_request) (older ?l (gv_running g1))"
          by (rule t) simp
        have t2: "total low_cost (older ?l (gv_running (schedule_loop g))) = total low_cost (older ?l (gv_running g1))"
          by (rule t) (simp add: low_cost_def)
        show ?thesis
          unfolding crowded_out_def k t1 t2 loop_limits u(14,15) [symmetric] by (rule refused_crowded [OF u(7) big])
      qed
      ultimately show ?thesis by (cases "state_of (schedule_loop g) (wt_sequence v)") auto
    qed
  next
    case v
    have "state_of g1 (wt_sequence w) \<in> {Waiting, Cancelled}"
      using u(3,7) granting(6) by (auto simp: governor_ok_def queue_ok_def)
    then have "state_of ?h (wt_sequence w) \<in> {Waiting, Cancelled}"
      using ne v seq [OF granting(6) u(4)] u(1) by (auto simp: grant_effect(11))
    moreover have "state_of ?h (wt_sequence w) \<noteq> Cancelled"
      using loop_decided [OF u(8), of "wt_sequence w"] granting(8) u(9) by auto
    ultimately have "gv_nextLeaseID ?h < k" using loop_new_lease [OF u(8)] granting(8) u(9) by simp
    then show ?thesis using fu v by (simp add: grant_effect(4))
  next
    case other
    then have "v \<in> set (gv_waiters ?h)" "w \<in> set (gv_waiters ?h)" using granting(5,6) u(10) by simp_all
    from granting(3) [OF o this granting(7)] granting(8) u(9) show ?thesis by simp
  qed
qed

text \<open>A lease keeps its request and its place in the order of arrival while it runs.\<close>

definition keeps_leases :: "governor \<Rightarrow> governor \<Rightarrow> bool" where
  "keeps_leases g g' \<longleftrightarrow> (\<forall>k r. map_of (gv_running g) k = Some r \<longrightarrow>
     (\<exists>r'. map_of (gv_running g') k = Some r' \<and> rn_request r' = rn_request r \<and> rn_sequence r' = rn_sequence r))"

lemma keeps_leases_trans: "keeps_leases a b \<Longrightarrow> keeps_leases b c \<Longrightarrow> keeps_leases a c"
  unfolding keeps_leases_def by metis

lemma keeps_leases_same: "gv_running g' = gv_running g \<Longrightarrow> keeps_leases g g'"
  by (simp add: keeps_leases_def)

lemma preempt_loop_keeps:
  "distinct (map rn_id rs) \<Longrightarrow> (\<forall>r\<in>set rs. map_of (gv_running g) (rn_id r) = Some r) \<Longrightarrow> keeps_leases g (preempt_loop needed rs g)"
proof (induction needed rs g rule: preempt_loop.induct)
  case (2 needed r rs g)
  obtain now where now: "gv_running (preempt r g) =
      AList.update (rn_id r) (r\<lparr>rn_preempting := True, rn_preempted := Some now\<rparr>) (gv_running g)"
    using preempt_effect(1) by blast
  have k: "keeps_leases g (preempt r g)" using 2(3) by (auto simp: keeps_leases_def now update_conv')
  have "\<forall>r'\<in>set rs. map_of (gv_running (preempt r g)) (rn_id r') = Some r'"
    using 2(2,3) by (auto simp: now update_conv' image_iff)
  with 2(1) [OF refl refl] 2(2) k show ?case by (auto simp: Let_def intro: keeps_leases_trans)
qed (simp add: keeps_leases_same)

lemma requestPreemption_keeps: "books g \<Longrightarrow> keeps_leases g (requestPreemption g)"
  using preempt_loop_keeps books_candidates [of g]
  by (simp add: requestPreemption_def keeps_leases_same Let_def split: list.split)

lemma grant_keeps: "leases_ok (gv_nextLeaseID g) (gv_running g) \<Longrightarrow> keeps_leases g (grant i g)"
  using grant_effect(1) [of i g] by (fastforce simp: keeps_leases_def leases_ok_def update_conv')

lemma loop_keeps: "governor_ok g \<Longrightarrow> keeps_leases g (schedule_loop g)"
proof (induction g rule: loop_induct)
  case (ending g g1)
  note e = ending_round [OF ending]
  then show ?case
    using requestPreemption_keeps [of g1] keeps_leases_same [OF e(3)] by (auto simp: governor_ok_def intro: keeps_leases_trans)
next
  case (granting g g1 i)
  obtain u where u: "u = gv_waiters g1 ! i" "governor_ok g1" "schedule_loop g = schedule_loop (grant i g1)" "gv_running g1 = gv_running g"
    using granting_round [OF granting(1,2)] by metis
  have "keeps_leases g1 (grant i g1)" using u(2) by (intro grant_keeps) (simp add: governor_ok_def books_def)
  with granting(3) u(3) keeps_leases_same [OF u(4)] show ?case by (auto intro: keeps_leases_trans)
qed

text \<open>Every lease the loop starts is that of a queued request, and no request leaves the queue unanswered.\<close>

lemma loop_leases:
  assumes "governor_ok g" and "map_of (gv_running (schedule_loop g)) k = Some r" and "map_of (gv_running g) k = None"
  shows "\<exists>w\<in>set (gv_waiters g). wt_request w = rn_request r \<and> wt_sequence w = rn_sequence r
    \<and> state_of (schedule_loop g) (wt_sequence w) = Granted k"
  using assms
proof (induction g rule: loop_induct)
  case (ending g g1)
  note e = ending_round [OF ending(1,2)]
  have "dom (map_of (gv_running (requestPreemption g1))) = dom (map_of (gv_running g))"
    using requestPreemption_running [of g1] e(2,3) by (simp add: governor_ok_def)
  with ending(3,4) e(1) show ?case by (metis domI domIff)
next
  case (granting g g1 i)
  obtain u where u: "u = gv_waiters g1 ! i" "u \<in> set (gv_waiters g)" "governor_ok (grant i g1)"
    "schedule_loop g = schedule_loop (grant i g1)" "set (gv_waiters (grant i g1)) = set (gv_waiters g) - {u}"
    "gv_running g1 = gv_running g"
    using granting_round [OF granting(1,2)] by metis
  let ?l = "gv_nextLeaseID g1 + 1"
  show ?case
  proof (cases "k = ?l")
    case False
    obtain rn where "gv_running (grant i g1) = AList.update ?l rn (gv_running g1)" using grant_effect(1) by blast
    then have "map_of (gv_running (grant i g1)) k = None" using False granting(5) u(6) by simp
    with granting(3,4) u(4,5) show ?thesis by auto
  next
    case True
    have s: "state_of (schedule_loop g) (wt_sequence u) = Granted k"
      using loop_decided [OF u(3), of "wt_sequence u"] True u(1,4) by (simp add: grant_effect(11))
    obtain rn where rn: "gv_running (grant i g1) = AList.update ?l rn (gv_running g1)" "rn_request rn = wt_request u" "rn_sequence rn = wt_sequence u"
      using grant_effect(1) [of i g1] u(1) by blast
    then have "map_of (gv_running (grant i g1)) k = Some rn" using True by (simp add: update_conv')
    with loop_keeps [OF u(3)] obtain r' where "map_of (gv_running (schedule_loop (grant i g1))) k = Some r'"
      "rn_request r' = rn_request rn" "rn_sequence r' = rn_sequence rn"
      unfolding keeps_leases_def by blast
    then have "rn_request r = wt_request u \<and> rn_sequence r = wt_sequence u" using granting(4) u(4) rn by simp
    with s u(2) show ?thesis by auto
  qed
qed

lemma loop_answers:
  assumes "governor_ok g" and "w \<in> set (gv_waiters g)"
  shows "w \<in> set (gv_waiters (schedule_loop g)) \<or> state_of (schedule_loop g) (wt_sequence w) \<noteq> Waiting"
  using assms
proof (induction g rule: loop_induct)
  case (ending g g1)
  note e = ending_round(1,5) [OF ending(1,2)]
  from e(2) [OF ending(3)] show ?case unfolding e(1) by auto
next
  case (granting g g1 i)
  obtain u where u: "u = gv_waiters g1 ! i" "governor_ok (grant i g1)" "schedule_loop g = schedule_loop (grant i g1)"
    "set (gv_waiters (grant i g1)) = set (gv_waiters g) - {u}"
    using granting_round [OF granting(1,2)] by metis
  show ?case
  proof (cases "w = u")
    case True
    then have "state_of (grant i g1) (wt_sequence w) = Granted (gv_nextLeaseID g1 + 1)" using u(1) by (simp add: grant_effect(11))
    with loop_decided [OF u(2), of "wt_sequence w"] u(3) show ?thesis by simp
  qed (use granting(3,4) u(3,4) in simp)
qed

lemma loop_queue: "governor_ok g \<Longrightarrow> set (gv_waiters (schedule_loop g)) \<subseteq> set (gv_waiters g)"
proof (induction g rule: loop_induct)
  case (ending g g1)
  then show ?case using ending_round [OF ending(1,2)] by auto
next
  case (granting g g1 i)
  obtain u where "schedule_loop g = schedule_loop (grant i g1)" "set (gv_waiters (grant i g1)) = set (gv_waiters g) - {u}"
    using granting_round [OF granting(1,2)] by metis
  with granting(3) show ?case by auto
qed

subsection \<open>Operations\<close>

text \<open>Scheduling sorts the queue first, so the order the loop needs is there whatever the queue was.\<close>

lemma schedule_sorted:
  fixes h :: governor
  defines "s \<equiv> h\<lparr>gv_waiters := sort_stable compareWaiters (gv_waiters h)\<rparr>"
  shows "schedule h = schedule_loop s" "in_priority_order (gv_waiters s)" "set (gv_waiters s) = set (gv_waiters h)"
    "gv_running s = gv_running h" "state_of s n = state_of h n"
  by (simp_all add: s_def schedule_def in_priority_order_key sort_waiters state_of_def)

lemma schedule_leases:
  assumes "governor_ok h" and "map_of (gv_running (schedule h)) k = Some r" and "map_of (gv_running h) k = None"
  obtains w where "w \<in> set (gv_waiters h)" "wt_request w = rn_request r" "wt_sequence w = rn_sequence r"
    "state_of (schedule h) (wt_sequence w) = Granted k"
  using loop_leases [OF sorted_queue_ok [OF assms(1)], of k r] assms(2,3) schedule_sorted(1,3,4) [of h] by auto

lemma schedule_priority:
  assumes "governor_ok h" and "v \<in> set (gv_waiters h)" "w \<in> set (gv_waiters h)"
    and "compareWaiters v w < 0" and "state_of (schedule h) (wt_sequence w) = Granted k"
  shows "state_of (schedule h) (wt_sequence v) = Cancelled
    \<or> (\<exists>j<k. state_of (schedule h) (wt_sequence v) = Granted j)
    \<or> state_of (schedule h) (wt_sequence v) = Waiting \<and> crowded_out (schedule h) k (wt_request v)"
  using loop_priority [OF sorted_queue_ok [OF assms(1)], of v w k] assms(2-5) schedule_sorted(1,2,3) [of h] by simp

lemma schedule_queue: "governor_ok h \<Longrightarrow> set (gv_waiters (schedule h)) \<subseteq> set (gv_waiters h)"
  using loop_queue [OF sorted_queue_ok, of h] schedule_sorted(1,3) [of h] by simp

lemma schedule_answers:
  "governor_ok h \<Longrightarrow> w \<in> set (gv_waiters h) \<Longrightarrow>
     w \<in> set (gv_waiters (schedule h)) \<or> state_of (schedule h) (wt_sequence w) \<noteq> Waiting"
  using loop_answers [OF sorted_queue_ok, of h w] schedule_sorted(1,3) [of h] by simp

lemma schedule_decided: "governor_ok h \<Longrightarrow> state_of h n \<noteq> Waiting \<Longrightarrow> state_of (schedule h) n = state_of h n"
  using loop_decided [OF sorted_queue_ok, of h n] schedule_sorted(1,5) [of h] by simp

lemma lease_waiter_compares:
  assumes "wt_request w = rn_request r" and "wt_sequence w = rn_sequence r"
  shows "compareWaiters (lease_waiter r) = compareWaiters w" "compareWaiters v (lease_waiter r) = compareWaiters v w"
  using assms by (auto simp: fun_eq_iff compareWaiters_def lease_waiter_def)

text \<open>Of two leases the same scheduling starts, the first goes to the request of higher priority.\<close>

lemma schedule_grants_ordered:
  assumes ok: "governor_ok h" and j: "map_of (gv_running (schedule h)) j = Some rj" "map_of (gv_running h) j = None"
    and k: "map_of (gv_running (schedule h)) k = Some rk" "map_of (gv_running h) k = None" and less: "j < k"
  shows "compareWaiters (lease_waiter rj) (lease_waiter rk) \<le> 0"
proof (rule ccontr)
  obtain v where v: "v \<in> set (gv_waiters h)" "wt_request v = rn_request rj" "wt_sequence v = rn_sequence rj"
    "state_of (schedule h) (wt_sequence v) = Granted j" using schedule_leases [OF ok j] .
  obtain w where w: "w \<in> set (gv_waiters h)" "wt_request w = rn_request rk" "wt_sequence w = rn_sequence rk"
    "state_of (schedule h) (wt_sequence w) = Granted k" using schedule_leases [OF ok k] .
  assume "\<not> ?thesis"
  then have "\<not> compareWaiters v w \<le> 0" using lease_waiter_compares [OF v(2,3)] lease_waiter_compares [OF w(2,3)] by simp
  then have "compareWaiters w v < 0" by (simp add: compare_key compare_key_less)
  from schedule_priority [OF ok w(1) v(1) this v(4)] w(4) less show False by auto
qed

lemma schedule_passes_over:
  assumes ok: "governor_ok h" and k: "map_of (gv_running (schedule h)) k = Some rk" "map_of (gv_running h) k = None"
    and v: "v \<in> set (gv_waiters (schedule h))" "compareWaiters v (lease_waiter rk) < 0"
  shows "crowded_out (schedule h) k (wt_request v)"
proof -
  obtain w where w: "w \<in> set (gv_waiters h)" "wt_request w = rn_request rk" "wt_sequence w = rn_sequence rk"
    "state_of (schedule h) (wt_sequence w) = Granted k" using schedule_leases [OF ok k] .
  have "state_of (schedule h) (wt_sequence v) = Waiting" using schedule_ok [OF ok] v(1) by (simp add: settled_def)
  with schedule_priority [OF ok _ w(1) _ w(4), of v] schedule_queue [OF ok] v lease_waiter_compares(2) [OF w(2,3), of v]
  show ?thesis by auto
qed

text \<open>
  C32. Grants respect priority (greater class first, then a deadline before none, earlier deadlines
  first, arrival order last), in every operation of every run. Of two leases the operation starts, the one granted
  first belongs to the request that comes first. A request still queued afterwards although it comes
  before one that was granted a lease was crowded out: beside the leases older than the granted one it
  exceeded the capacity or, background or speculative, would have entered the reservation. And no
  request is lost: each one queued before is queued still, has been granted a lease, or is cancelled.
\<close>

theorem grants_follow_priority:
  assumes "NewGovernor cap res clock = Inr g0" and "governor_step\<^sup>*\<^sup>* g0 g" and "governor_step g g'"
  shows "(\<forall>j k rj rk. new_lease g g' j rj \<and> new_lease g g' k rk \<and> j < k
        \<longrightarrow> compareWaiters (lease_waiter rj) (lease_waiter rk) \<le> 0)
    \<and> (\<forall>k rk v. new_lease g g' k rk \<and> v \<in> set (gv_waiters g') \<and> compareWaiters v (lease_waiter rk) < 0
        \<longrightarrow> crowded_out g' k (wt_request v))
    \<and> (\<forall>w\<in>set (gv_waiters g). w \<in> set (gv_waiters g') \<or> (\<exists>k. state_of g' (wt_sequence w) = Granted k)
        \<or> state_of g' (wt_sequence w) = Cancelled)"
proof -
  have "operated g g'" using governor_step_operated [OF assms(3)] governor_run(1) [OF assms(1,2)] .
  then consider (same) "gv_running g' = gv_running g" "gv_waiters g' = gv_waiters g"
    | (scheduled) h where "g' = schedule h" "governor_ok h"
      "\<And>k. map_of (gv_running g) k = None \<Longrightarrow> map_of (gv_running h) k = None"
      "\<And>w. w \<in> set (gv_waiters g) \<Longrightarrow> w \<in> set (gv_waiters h) \<or> state_of h (wt_sequence w) = Cancelled"
    unfolding operated_def schedules_from_def unscheduled_def by blast
  then show ?thesis
  proof cases
    case same
    have "\<not> new_lease g g' k r" for k r by (simp add: new_lease_def same(1))
    then show ?thesis by (simp add: same(2))
  next
    case scheduled
    note ok = scheduled(2)
    have new: "map_of (gv_running (schedule h)) k = Some r \<and> map_of (gv_running h) k = None" if "new_lease g g' k r" for k r
      using that scheduled(3) by (simp add: new_lease_def scheduled(1))
    have "compareWaiters (lease_waiter rj) (lease_waiter rk) \<le> 0"
      if "new_lease g g' j rj" "new_lease g g' k rk" "j < k" for j k rj rk
      using schedule_grants_ordered [OF ok] new [OF that(1)] new [OF that(2)] that(3) by blast
    moreover have "crowded_out g' k (wt_request v)"
      if "new_lease g g' k rk" "v \<in> set (gv_waiters g')" "compareWaiters v (lease_waiter rk) < 0" for k rk v
      using schedule_passes_over [OF ok] new [OF that(1)] that(2,3) unfolding scheduled(1) by blast
    moreover
    have "w \<in> set (gv_waiters g') \<or> (\<exists>k. state_of g' (wt_sequence w) = Granted k) \<or> state_of g' (wt_sequence w) = Cancelled"
      if "w \<in> set (gv_waiters g)" for w
      using scheduled(4) [OF that] schedule_answers [OF scheduled(2), of w] schedule_decided [OF scheduled(2), of "wt_sequence w"]
      unfolding scheduled(1) by (cases "state_of (schedule h) (wt_sequence w)") auto
    ultimately show ?thesis by blast
  qed
qed

text \<open>Background work runs, urgent work needs everything and waits, and later urgent work fits beside it.\<close>

definition whole_resource :: request where
  "whole_resource = urgent_work\<lparr>rq_cost := 3\<rparr>"

definition governor_example_full :: governor where
  "governor_example_full = fst (Acquire whole_resource (fst (Acquire background_work governor_example_start)))"

definition governor_example_passed :: governor where
  "governor_example_passed = fst (Acquire urgent_work governor_example_full)"

theorem grants_follow_priority_witness:
  "crowded_out governor_example_passed 2 (wt_request (hd (gv_waiters governor_example_passed)))
    \<and> rq_cost (wt_request (hd (gv_waiters governor_example_passed))) = 3
    \<and> map_option (rq_cost \<circ> rn_request) (map_of (gv_running governor_example_passed) 2) = Some 2"
proof -
  let ?v = "hd (gv_waiters governor_example_passed)"
  have run: "governor_step\<^sup>*\<^sup>* governor_example_start governor_example_full"
    "governor_step governor_example_full governor_example_passed"
    unfolding governor_example_full_def governor_example_passed_def by (meson governor_step.acquired rtranclp.intros)+
  have e: "map_option (\<lambda>r. compareWaiters ?v (lease_waiter r) < 0 \<and> rq_cost (rn_request r) = 2)
      (map_of (gv_running governor_example_passed) 2) = Some True"
    "map_of (gv_running governor_example_full) 2 = None" "gv_waiters governor_example_passed \<noteq> []" "rq_cost (wt_request ?v) = 3"
    by code_simp+
  from e(1) obtain r where r: "map_of (gv_running governor_example_passed) 2 = Some r" "compareWaiters ?v (lease_waiter r) < 0"
    "rq_cost (rn_request r) = 2" by auto
  have "new_lease governor_example_full governor_example_passed 2 r" using r(1) e(2) by (simp add: new_lease_def)
  moreover have "?v \<in> set (gv_waiters governor_example_passed)" using e(3) by simp
  ultimately have "crowded_out governor_example_passed 2 (wt_request ?v)"
    using grants_follow_priority [OF governor_example_evaluated(1) run] r(2) by blast
  with e(4) r(1,3) show ?thesis by simp
qed

end
