(* ===== verification/Elements.thy ===== *)
theory Elements
  imports Go_Strings
begin

section \<open>Element contracts\<close>

text \<open>
  \<^verbatim>\<open>element/type.go\<close> and \<^verbatim>\<open>element/descriptor.go\<close>: the types of graph ports and the descriptors of
  elements. The types that Go declares over \<^verbatim>\<open>string\<close> (directions, cardinalities) stay strings, since
  the code checks that they have one of the declared values. The regular expressions are the
  predicates on bytes that they denote.
\<close>

subsection \<open>Names\<close>

definition upper :: "char \<Rightarrow> bool" where
  "upper c \<longleftrightarrow> 65 \<le> byte c \<and> byte c \<le> 90"

definition lower :: "char \<Rightarrow> bool" where
  "lower c \<longleftrightarrow> 97 \<le> byte c \<and> byte c \<le> 122"

definition digit :: "char \<Rightarrow> bool" where
  "digit c \<longleftrightarrow> 48 \<le> byte c \<and> byte c \<le> 57"

abbreviation letter :: "char \<Rightarrow> bool" where
  "letter c \<equiv> upper c \<or> lower c"

text \<open>A first byte and a class for the rest, the shape of all the patterns.\<close>

fun matches :: "(char \<Rightarrow> bool) \<Rightarrow> (char \<Rightarrow> bool) \<Rightarrow> string \<Rightarrow> bool" where
  "matches first rest [] = False"
| "matches first rest (c # s) = (first c \<and> list_all rest s)"

definition typeNamePattern :: "string \<Rightarrow> bool" where
  "typeNamePattern = matches letter (\<lambda>c. letter c \<or> digit c \<or> c \<in> set ''_.-'')"

definition variablePattern :: "string \<Rightarrow> bool" where
  "variablePattern = matches upper (\<lambda>c. letter c \<or> digit c \<or> c = CHR ''_'')"

definition portNamePattern :: "string \<Rightarrow> bool" where
  "portNamePattern = matches lower (\<lambda>c. lower c \<or> digit c \<or> c \<in> set ''_-'')"

definition contractNamePattern :: "string \<Rightarrow> bool" where
  "contractNamePattern = matches letter (\<lambda>c. letter c \<or> digit c \<or> c \<in> set ''_.:/-'')"

fun split_dots :: "string \<Rightarrow> string list" where
  "split_dots [] = [[]]"
| "split_dots (c # s) =
     (if c = CHR ''.'' then [] # split_dots s
      else case split_dots s of p # ps \<Rightarrow> (c # p) # ps | [] \<Rightarrow> [[c]])"

definition elementNamePattern :: "string \<Rightarrow> bool" where
  "elementNamePattern s \<longleftrightarrow>
     2 \<le> length (split_dots s)
     \<and> list_all (matches letter (\<lambda>c. letter c \<or> digit c \<or> c \<in> set ''_-'')) (split_dots s)"

text \<open>The test of a recorded digest, \<^verbatim>\<open>sha256:\<close> and 64 hexadecimal digits.\<close>

definition hex_byte :: "char \<Rightarrow> bool" where
  "hex_byte c \<longleftrightarrow> digit c \<or> 97 \<le> byte c \<and> byte c \<le> 102 \<or> 65 \<le> byte c \<and> byte c \<le> 70"

definition is_digest :: "string \<Rightarrow> bool" where
  "is_digest s \<longleftrightarrow> take 7 s = ''sha256:'' \<and> length s = 7 + 32 * 2 \<and> list_all hex_byte (drop 7 s)"

subsection \<open>Types\<close>

datatype ty = Type (ty_Name: string) (ty_Arguments: "ty list") (ty_Variable: string)

datatype type_fault =
  VariableWithName | InvalidVariable string | UndeclaredVariable string | TypeNeedsName | InvalidTypeName string
| TypeArgument string nat type_fault | StillGeneric | NotAProtocol string | ProtocolArity string nat nat

definition protocolArity :: "(string, nat) gomap" where
  "protocolArity = [(''Event'', 1), (''Stream'', 1), (''Segmented'', 2), (''Revisions'', 2), (''State'', 1),
     (''Trigger'', 1), (''Interrupt'', 1), (''Request'', 2), (''Reply'', 2)]"

fun type_Validate :: "string goset \<Rightarrow> ty \<Rightarrow> type_fault option"
  and arguments_Validate :: "string goset \<Rightarrow> string \<Rightarrow> nat \<Rightarrow> ty list \<Rightarrow> type_fault option" where
  "type_Validate generics (Type name arguments variable) =
     (if variable \<noteq> [] then
        (if name \<noteq> [] \<or> arguments \<noteq> [] then Some VariableWithName
         else if \<not> variablePattern variable then Some (InvalidVariable variable)
         else if \<not> gm_has generics variable then Some (UndeclaredVariable variable)
         else None)
      else if name = [] then Some TypeNeedsName
      else if \<not> typeNamePattern name then Some (InvalidTypeName name)
      else arguments_Validate generics name 0 arguments)"
| "arguments_Validate generics name i [] = None"
| "arguments_Validate generics name i (a # as) =
     (case type_Validate generics a of
        Some e \<Rightarrow> Some (TypeArgument name i e)
      | None \<Rightarrow> arguments_Validate generics name (Suc i) as)"

definition ValidatePort :: "string goset \<Rightarrow> ty \<Rightarrow> type_fault option" where
  "ValidatePort generics t =
     (case type_Validate generics t of
        Some e \<Rightarrow> Some e
      | None \<Rightarrow>
          if ty_Variable t \<noteq> [] then None
          else case map_of protocolArity (ty_Name t) of
            None \<Rightarrow> Some (NotAProtocol (ty_Name t))
          | Some want \<Rightarrow>
              if length (ty_Arguments t) \<noteq> want
              then Some (ProtocolArity (ty_Name t) (length (ty_Arguments t)) want) else None)"

fun ContainsVariable :: "ty \<Rightarrow> bool" where
  "ContainsVariable (Type name arguments variable) = (variable \<noteq> [] \<or> list_ex ContainsVariable arguments)"

definition ValidateConcretePort :: "ty \<Rightarrow> type_fault option" where
  "ValidateConcretePort t = (if ContainsVariable t then Some StillGeneric else ValidatePort [] t)"

fun type_Equal :: "ty \<Rightarrow> ty \<Rightarrow> bool" and arguments_Equal :: "ty list \<Rightarrow> ty list \<Rightarrow> bool" where
  "type_Equal (Type n as v) (Type n' bs v') =
     (if n \<noteq> n' \<or> v \<noteq> v' \<or> length as \<noteq> length bs then False else arguments_Equal as bs)"
| "arguments_Equal (a # as) (b # bs) = (if \<not> type_Equal a b then False else arguments_Equal as bs)"
| "arguments_Equal _ _ = True"

subsection \<open>Descriptors\<close>

definition Input :: string where "Input = ''input''"
definition Output :: string where "Output = ''output''"
definition One :: string where "One = ''one''"
definition Variadic :: string where "Variadic = ''variadic''"

record port =
  po_Name :: string
  po_Direction :: string
  po_Type :: ty
  po_Cardinality :: string
  po_Required :: bool
  po_MinConnections :: int
  po_LossAllowed :: bool
  po_DefaultDepth :: int

record reaction =
  rx_Triggers :: "string list"
  rx_SampledState :: "string list"
  rx_Interrupts :: "string list"
  rx_Outcomes :: "string list"
  rx_MaxConcurrency :: int
  rx_BreaksCycles :: bool

record dependency =
  dp_Name :: string
  dp_Optional :: bool

record effect =
  ef_Name :: string
  ef_External :: bool
  ef_Authority :: string
  ef_Reversible :: bool

record state_transfer =
  tf_Snapshot :: bool
  tf_Restore :: bool
  tf_Quiesce :: bool

record descriptor =
  ds_FormatVersion :: nat
  ds_Name :: string
  ds_Revision :: nat
  ds_Generics :: "string list"
  ds_Ports :: "port list"
  ds_Reaction :: reaction
  ds_StateSchema :: string
  ds_StateTransfer :: "state_transfer option"
  ds_ConfigSchema :: string
  ds_Dependencies :: "dependency list"
  ds_Effects :: "effect list"
  ds_CompositeFingerprint :: string

record identity =
  id_Name :: string
  id_Revision :: nat
  id_Digest :: string

datatype identity_fault = LockedName string | LockedRevision string | LockedDigest string string

datatype transfer_fault = NoTransferCapability | QuiesceNeedsSnapshot | TransferNeedsSchema

datatype contract_fault =
  NegativeConcurrency | ReactionUnknownPort string string | ReactionDirection string string string
| ReactionTwice string string string | InvalidDependency string | RepeatedDependency string | InvalidEffect string
| RepeatedEffect string | ReversibleExternal string | ExternalNeedsAuthority string | InvalidAuthority string string

datatype element_fault =
  DescriptorFormat nat | InvalidElementName string | RevisionNotPositive | InvalidGeneric string | RepeatedGeneric string
| InvalidPortName string | RepeatedPort string | InvalidDirection string string | SingularMinimum string int
| NegativeMinimum string | InvalidCardinality string string | NegativeDepth string | PortType string type_fault | NoPorts
| InContract contract_fault | InTransfer transfer_fault | InvalidCompositeFingerprint string

definition transfer_Validate :: "state_transfer \<Rightarrow> transfer_fault option" where
  "transfer_Validate c =
     (if \<not> tf_Snapshot c \<and> \<not> tf_Restore c \<and> \<not> tf_Quiesce c then Some NoTransferCapability
      else if tf_Quiesce c \<and> \<not> tf_Snapshot c then Some QuiesceNeedsSnapshot else None)"

fun generics_loop :: "string list \<Rightarrow> string goset \<Rightarrow> (element_fault, string goset) result" where
  "generics_loop [] seen = Inr seen"
| "generics_loop (g # gs) seen =
     (if \<not> variablePattern g then Inl (InvalidGeneric g)
      else if gm_has seen g then Inl (RepeatedGeneric g)
      else generics_loop gs (gs_add g seen))"

definition port_fault :: "string goset \<Rightarrow> port \<Rightarrow> element_fault option" where
  "port_fault generics p =
     (if po_Direction p \<noteq> Input \<and> po_Direction p \<noteq> Output then Some (InvalidDirection (po_Name p) (po_Direction p))
      else if po_Cardinality p = One \<and> 1 < po_MinConnections p then Some (SingularMinimum (po_Name p) (po_MinConnections p))
      else if po_Cardinality p = Variadic \<and> po_MinConnections p < 0 then Some (NegativeMinimum (po_Name p))
      else if po_Cardinality p \<noteq> One \<and> po_Cardinality p \<noteq> Variadic
      then Some (InvalidCardinality (po_Name p) (po_Cardinality p))
      else if po_DefaultDepth p < 0 then Some (NegativeDepth (po_Name p))
      else map_option (PortType (po_Name p)) (ValidatePort generics (po_Type p)))"

fun ports_loop :: "string goset \<Rightarrow> port list \<Rightarrow> (string, port) gomap \<Rightarrow> (element_fault, (string, port) gomap) result" where
  "ports_loop generics [] ports = Inr ports"
| "ports_loop generics (p # ps) ports =
     (if \<not> portNamePattern (po_Name p) then Inl (InvalidPortName (po_Name p))
      else if gm_has ports (po_Name p) then Inl (RepeatedPort (po_Name p))
      else case port_fault generics p of
        Some e \<Rightarrow> Inl e
      | None \<Rightarrow> ports_loop generics ps (AList.update (po_Name p) p ports))"

text \<open>The groups of a reaction, flattened: label, port name, wanted direction.\<close>

definition reaction_names :: "reaction \<Rightarrow> (string \<times> string \<times> string) list" where
  "reaction_names r =
     map (\<lambda>n. (''trigger'', n, Input)) (rx_Triggers r) @ map (\<lambda>n. (''sampled state'', n, Input)) (rx_SampledState r)
     @ map (\<lambda>n. (''interrupt'', n, Input)) (rx_Interrupts r) @ map (\<lambda>n. (''outcome'', n, Output)) (rx_Outcomes r)"

fun reaction_loop ::
  "(string, port) gomap \<Rightarrow> (string \<times> string \<times> string) list \<Rightarrow> (string, string) gomap \<Rightarrow> contract_fault option" where
  "reaction_loop ports [] seen = None"
| "reaction_loop ports ((label, name, want) # rest) seen =
     (case map_of ports name of
        None \<Rightarrow> Some (ReactionUnknownPort label name)
      | Some p \<Rightarrow>
          if po_Direction p \<noteq> want then Some (ReactionDirection label name (po_Direction p))
          else case map_of seen name of
            Some previous \<Rightarrow> Some (ReactionTwice name previous label)
          | None \<Rightarrow> reaction_loop ports rest (AList.update name label seen))"

definition validateReaction :: "reaction \<Rightarrow> (string, port) gomap \<Rightarrow> contract_fault option" where
  "validateReaction r ports =
     (if rx_MaxConcurrency r < 0 then Some NegativeConcurrency else reaction_loop ports (reaction_names r) [])"

fun dependencies_loop :: "dependency list \<Rightarrow> string goset \<Rightarrow> contract_fault option" where
  "dependencies_loop [] seen = None"
| "dependencies_loop (d # ds) seen =
     (if \<not> contractNamePattern (dp_Name d) then Some (InvalidDependency (dp_Name d))
      else if gm_has seen (dp_Name d) then Some (RepeatedDependency (dp_Name d))
      else dependencies_loop ds (gs_add (dp_Name d) seen))"

fun effects_loop :: "effect list \<Rightarrow> string goset \<Rightarrow> contract_fault option" where
  "effects_loop [] seen = None"
| "effects_loop (e # es) seen =
     (if \<not> contractNamePattern (ef_Name e) then Some (InvalidEffect (ef_Name e))
      else if gm_has seen (ef_Name e) then Some (RepeatedEffect (ef_Name e))
      else if ef_Reversible e \<and> ef_External e then Some (ReversibleExternal (ef_Name e))
      else if ef_External e \<and> ef_Authority e = [] then Some (ExternalNeedsAuthority (ef_Name e))
      else if ef_Authority e \<noteq> [] \<and> \<not> contractNamePattern (ef_Authority e)
      then Some (InvalidAuthority (ef_Name e) (ef_Authority e))
      else effects_loop es (gs_add (ef_Name e) seen))"

definition validateNamedContracts :: "dependency list \<Rightarrow> effect list \<Rightarrow> contract_fault option" where
  "validateNamedContracts dependencies effects =
     (case dependencies_loop dependencies [] of Some e \<Rightarrow> Some e | None \<Rightarrow> effects_loop effects [])"

definition descriptor_Validate :: "descriptor \<Rightarrow> element_fault option" where
  "descriptor_Validate d =
     (if ds_FormatVersion d \<noteq> 1 then Some (DescriptorFormat (ds_FormatVersion d))
      else if \<not> elementNamePattern (ds_Name d) then Some (InvalidElementName (ds_Name d))
      else if ds_Revision d = 0 then Some RevisionNotPositive
      else case generics_loop (ds_Generics d) [] of
        Inl e \<Rightarrow> Some e
      | Inr generics \<Rightarrow>
     (case ports_loop generics (ds_Ports d) [] of
        Inl e \<Rightarrow> Some e
      | Inr ports \<Rightarrow>
          if ports = [] then Some NoPorts
          else case validateReaction (ds_Reaction d) ports of Some e \<Rightarrow> Some (InContract e) | None \<Rightarrow>
         (case validateNamedContracts (ds_Dependencies d) (ds_Effects d) of Some e \<Rightarrow> Some (InContract e) | None \<Rightarrow>
         (case ds_StateTransfer d of
            Some c \<Rightarrow>
              (case transfer_Validate c of
                 Some e \<Rightarrow> Some (InTransfer e)
               | None \<Rightarrow>
                   if ds_StateSchema d = [] then Some (InTransfer TransferNeedsSchema)
                   else if ds_CompositeFingerprint d \<noteq> [] \<and> \<not> is_digest (ds_CompositeFingerprint d)
                   then Some (InvalidCompositeFingerprint (ds_CompositeFingerprint d)) else None)
          | None \<Rightarrow>
              if ds_CompositeFingerprint d \<noteq> [] \<and> \<not> is_digest (ds_CompositeFingerprint d)
              then Some (InvalidCompositeFingerprint (ds_CompositeFingerprint d)) else None))))"

definition ValidateIdentity :: "identity \<Rightarrow> identity_fault option" where
  "ValidateIdentity i =
     (if \<not> elementNamePattern (id_Name i) then Some (LockedName (id_Name i))
      else if id_Revision i = 0 then Some (LockedRevision (id_Name i))
      else if \<not> is_digest (id_Digest i) then Some (LockedDigest (id_Name i) (id_Digest i))
      else None)"

subsection \<open>Facts\<close>

lemma type_Equal_iff: "type_Equal a b \<longleftrightarrow> a = b"
  and arguments_Equal_iff: "length as = length bs \<Longrightarrow> arguments_Equal as bs \<longleftrightarrow> as = bs"
  by (induction a b and as bs rule: type_Equal_arguments_Equal.induct) auto

lemma matches_rest: "matches first rest s \<Longrightarrow> (\<And>c. first c \<Longrightarrow> rest c) \<Longrightarrow> list_all rest s"
  by (cases s) auto

text \<open>No port name of a descriptor contains the dot that joins node and port.\<close>

lemma port_name_without_dot: "portNamePattern s \<Longrightarrow> CHR ''.'' \<notin> set s"
proof
  assume "portNamePattern s" "CHR ''.'' \<in> set s"
  then have "list_all (\<lambda>c. lower c \<or> digit c \<or> c \<in> set ''_-'') s" and "CHR ''.'' \<in> set s"
    unfolding portNamePattern_def by (auto dest: matches_rest)
  then show False by (auto simp: list_all_iff lower_def digit_def)
qed

end
