(* ===== verification/Graph_IR.thy ===== *)
theory Graph_IR
  imports Elements
begin

section \<open>Graph IR\<close>

text \<open>
  \<^verbatim>\<open>graph/ir/ir.go\<close>: the elaborated graph and its structural validation. Source locations, which are
  provenance and not looked at, are left out of the records. The loops are functions of the same
  name as what they walk over, the maps the code builds are their accumulators, and the first
  fault met is the result. The check of required connections ranges over a map: which of several
  faults it reports is open in Go, and the order of declaration here.
\<close>

subsection \<open>Data\<close>

record ir_port = port +
  po_Lanes :: "string list"

record endpoint =
  ep_Node :: string
  ep_Port :: string
  ep_Lane :: string

record ir_edge =
  eg_ID :: string
  eg_From :: endpoint
  eg_To :: endpoint
  eg_Type :: ty
  eg_Delivery :: string
  eg_Ordering :: string
  eg_Depth :: int

record boundary =
  bd_Name :: string
  bd_Direction :: string
  bd_Endpoint :: endpoint
  bd_Type :: ty

record scope =
  sc_ID :: string
  sc_Parent :: string
  sc_Composite :: identity
  sc_Nodes :: "string list"
  sc_Boundaries :: "boundary list"

record node =
  nd_ID :: string
  nd_Element :: identity
  nd_Implementation :: string
  nd_ConfigReference :: string
  nd_ConfigDigest :: string
  nd_DeploymentReference :: string
  nd_DeploymentDigest :: string
  nd_Ports :: "ir_port list"
  nd_Reaction :: reaction
  nd_StateSchema :: string
  nd_StateTransfer :: "state_transfer option"
  nd_ConfigSchema :: string
  nd_Dependencies :: "dependency list"
  nd_Effects :: "effect list"

record graph =
  gr_FormatVersion :: nat
  gr_ID :: string
  gr_Revision :: nat
  gr_Fingerprint :: string
  gr_Lineage :: "string list"
  gr_Nodes :: "node list"
  gr_Edges :: "ir_edge list"
  gr_Boundaries :: "boundary list"
  gr_Scopes :: "scope list"

definition FormatVersion :: nat where "FormatVersion = 1"
definition BoundaryQueuePrefix :: string where "BoundaryQueuePrefix = ''boundary:''"
definition Lossless :: string where "Lossless = ''lossless''"
definition Lossy :: string where "Lossy = ''lossy''"
definition InputBoundary :: string where "InputBoundary = ''input''"
definition OutputBoundary :: string where "OutputBoundary = ''output''"

definition endpoint_String :: "endpoint \<Rightarrow> string" where
  "endpoint_String ep =
     ep_Node ep @ ''.'' @ ep_Port ep @ (if ep_Lane ep \<noteq> [] then ''['' @ ep_Lane ep @ '']'' else [])"

type_synonym port_key = "string \<times> string"
type_synonym port_map = "(port_key, ir_port) gomap"

datatype node_error =
  EmptyNodeID | RepeatedNode string | NodeElement string identity_fault | ReferenceAndDigest string | ReferenceWhitespace string
| InvalidDigest string string | NodeTransfer string transfer_fault | NodeNoPorts string
| RepeatedNodePort string string | NodePortType string string type_fault | NodePortDirection string string string
| SingularLanes string string | EmptyLane string string | RepeatedLane string string string | NodePortCardinality string string string
| NodeReactionUnknown string string string | NodeReactionDirection string string string

datatype wiring_error =
  UnknownPort string endpoint | WrongDirection string endpoint | LaneOnSingular string endpoint | UnknownLane string endpoint
| LaneUsedTwice string string string
| EmptyEdgeID | ReservedEdgeID string | RepeatedEdge string | EdgeType string | LossForbidden string | InvalidDelivery string string
| UnsupportedOrdering string string | InvalidDepth string int
| EmptyBoundaryName | RepeatedBoundary string | BoundaryDirection string string | BoundaryType string
| TooFewConnections string string int nat

datatype scope_error =
  ScopeNoNodes string | EmptyScopeID | RepeatedScope string | ScopeComposite string identity_fault | ScopeUnknownNode string string
| ScopeRepeatedNode string string | ScopeBoundaryName string string | ScopeUnknownEndpoint string string
| ScopeBoundaryDirection string string string | ScopeBoundaryDisagrees string string | ScopeLane string string
| UnknownParent string string | ScopeOwnParent string | ParentCycle string | AbsentFromParent string string

datatype ir_fault =
  UnsupportedFormat nat | EmptyGraphID | GraphRevision | NoNodes
| InNodes node_error | InWiring wiring_error | InScopes scope_error

subsection \<open>Nodes\<close>

text \<open>A reference and its digest, of the configuration and of the deployment alike.\<close>

definition reference_fault :: "string \<Rightarrow> string \<Rightarrow> string \<Rightarrow> node_error option" where
  "reference_fault n reference digest =
     (if (reference = []) \<noteq> (digest = []) then Some (ReferenceAndDigest n)
      else if digest = [] then None
      else if TrimSpace reference \<noteq> reference then Some (ReferenceWhitespace n)
      else if \<not> is_digest digest then Some (InvalidDigest n digest)
      else None)"

fun lanes_loop :: "string \<Rightarrow> string \<Rightarrow> string list \<Rightarrow> string goset \<Rightarrow> node_error option" where
  "lanes_loop n p [] seen = None"
| "lanes_loop n p (l # ls) seen =
     (if l = [] then Some (EmptyLane n p)
      else if gm_has seen l then Some (RepeatedLane n p l)
      else lanes_loop n p ls (gs_add l seen))"

definition node_port_fault :: "string \<Rightarrow> ir_port \<Rightarrow> node_error option" where
  "node_port_fault n p =
     (case ValidateConcretePort (po_Type p) of
        Some e \<Rightarrow> Some (NodePortType n (po_Name p) e)
      | None \<Rightarrow>
          if po_Direction p \<noteq> Input \<and> po_Direction p \<noteq> Output then Some (NodePortDirection n (po_Name p) (po_Direction p))
          else if po_Cardinality p = One
          then if po_Lanes p \<noteq> [] then Some (SingularLanes n (po_Name p)) else None
          else if po_Cardinality p = Variadic then lanes_loop n (po_Name p) (po_Lanes p) []
          else Some (NodePortCardinality n (po_Name p) (po_Cardinality p)))"

fun node_ports_loop :: "string \<Rightarrow> ir_port list \<Rightarrow> port_map \<Rightarrow> (node_error, port_map) result" where
  "node_ports_loop n [] ports = Inr ports"
| "node_ports_loop n (p # ps) ports =
     (if gm_has ports (n, po_Name p) then Inl (RepeatedNodePort n (po_Name p))
      else case node_port_fault n p of
        Some e \<Rightarrow> Inl e
      | None \<Rightarrow> node_ports_loop n ps (AList.update (n, po_Name p) p ports))"

fun node_reaction_loop :: "string \<Rightarrow> (string, ir_port) gomap \<Rightarrow> (string \<times> string \<times> string) list \<Rightarrow> node_error option" where
  "node_reaction_loop n portByName [] = None"
| "node_reaction_loop n portByName ((label, name, want) # rest) =
     (case map_of portByName name of
        None \<Rightarrow> Some (NodeReactionUnknown n label name)
      | Some p \<Rightarrow>
          if po_Direction p \<noteq> want then Some (NodeReactionDirection n label name)
          else node_reaction_loop n portByName rest)"

definition node_fault :: "node \<Rightarrow> node_error option" where
  "node_fault n =
     (case ValidateIdentity (nd_Element n) of
        Some e \<Rightarrow> Some (NodeElement (nd_ID n) e)
      | None \<Rightarrow>
     (case reference_fault (nd_ID n) (nd_ConfigReference n) (nd_ConfigDigest n) of
        Some e \<Rightarrow> Some e
      | None \<Rightarrow>
     (case reference_fault (nd_ID n) (nd_DeploymentReference n) (nd_DeploymentDigest n) of
        Some e \<Rightarrow> Some e
      | None \<Rightarrow>
     (case nd_StateTransfer n of
        None \<Rightarrow> None
      | Some c \<Rightarrow>
          (case transfer_Validate c of
             Some e \<Rightarrow> Some (NodeTransfer (nd_ID n) e)
           | None \<Rightarrow> if nd_StateSchema n = [] then Some (NodeTransfer (nd_ID n) TransferNeedsSchema) else None)))))"

fun nodes_loop ::
  "node list \<Rightarrow> (string, node) gomap \<Rightarrow> port_map \<Rightarrow> (node_error, (string, node) gomap \<times> port_map) result" where
  "nodes_loop [] nodes ports = Inr (nodes, ports)"
| "nodes_loop (n # ns) nodes ports =
     (if nd_ID n = [] then Inl EmptyNodeID
      else if gm_has nodes (nd_ID n) then Inl (RepeatedNode (nd_ID n))
      else case node_fault n of
        Some e \<Rightarrow> Inl e
      | None \<Rightarrow>
          if nd_Ports n = [] then Inl (NodeNoPorts (nd_ID n))
          else bind_result (node_ports_loop (nd_ID n) (nd_Ports n) ports) (\<lambda>ports'.
            let portByName = fold (\<lambda>p. AList.update (po_Name p) p) (nd_Ports n) []
            in case node_reaction_loop (nd_ID n) portByName (reaction_names (nd_Reaction n)) of
              Some e \<Rightarrow> Inl e
            | None \<Rightarrow> nodes_loop ns (AList.update (nd_ID n) n nodes) ports'))"

subsection \<open>Connections\<close>

text \<open>The lanes in use, by the spelling of their endpoint, and the number of uses of each port.\<close>

type_synonym wiring = "(string, string) gomap \<times> (port_key, nat) gomap"

definition count_of :: "(port_key, nat) gomap \<Rightarrow> port_key \<Rightarrow> nat" where
  "count_of counts k = (case map_of counts k of None \<Rightarrow> 0 | Some c \<Rightarrow> c)"

definition validateEndpoint ::
  "port_map \<Rightarrow> endpoint \<Rightarrow> string \<Rightarrow> string \<Rightarrow> wiring \<Rightarrow> (wiring_error, ir_port \<times> wiring) result" where
  "validateEndpoint ports ep want owner w =
     (let (connections, counts) = w; group = (ep_Node ep, ep_Port ep); key = endpoint_String ep
      in case map_of ports group of
           None \<Rightarrow> Inl (UnknownPort owner ep)
         | Some p \<Rightarrow>
             if po_Direction p \<noteq> want then Inl (WrongDirection owner ep)
             else if po_Cardinality p = One \<and> ep_Lane ep \<noteq> [] then Inl (LaneOnSingular owner ep)
             else if po_Cardinality p = Variadic \<and> ep_Lane ep \<notin> set (po_Lanes p) then Inl (UnknownLane owner ep)
             else case map_of connections key of
               Some previous \<Rightarrow> Inl (LaneUsedTwice key previous owner)
             | None \<Rightarrow> Inr (p, (AList.update key owner connections, AList.update group (count_of counts group + 1) counts)))"

definition edge_fault :: "ir_edge \<Rightarrow> ir_port \<Rightarrow> ir_port \<Rightarrow> wiring_error option" where
  "edge_fault e from to =
     (if \<not> type_Equal (eg_Type e) (po_Type from) \<or> \<not> type_Equal (eg_Type e) (po_Type to) then Some (EdgeType (eg_ID e))
      else if eg_Delivery e \<noteq> Lossless \<and> eg_Delivery e \<noteq> Lossy then Some (InvalidDelivery (eg_ID e) (eg_Delivery e))
      else if eg_Delivery e = Lossy \<and> (\<not> po_LossAllowed from \<or> \<not> po_LossAllowed to) then Some (LossForbidden (eg_ID e))
      else if eg_Ordering e \<noteq> ''fifo'' then Some (UnsupportedOrdering (eg_ID e) (eg_Ordering e))
      else if eg_Depth e \<le> 0 then Some (InvalidDepth (eg_ID e) (eg_Depth e))
      else None)"

fun edges_loop :: "port_map \<Rightarrow> ir_edge list \<Rightarrow> string goset \<Rightarrow> wiring \<Rightarrow> (wiring_error, wiring) result" where
  "edges_loop ports [] edgeIDs w = Inr w"
| "edges_loop ports (e # es) edgeIDs w =
     (if eg_ID e = [] then Inl EmptyEdgeID
      else if take (length BoundaryQueuePrefix) (eg_ID e) = BoundaryQueuePrefix then Inl (ReservedEdgeID (eg_ID e))
      else if gm_has edgeIDs (eg_ID e) then Inl (RepeatedEdge (eg_ID e))
      else bind_result (validateEndpoint ports (eg_From e) Output (''edge '' @ eg_ID e) w) (\<lambda>(from, w1).
           bind_result (validateEndpoint ports (eg_To e) Input (''edge '' @ eg_ID e) w1) (\<lambda>(to, w2).
             case edge_fault e from to of
               Some f \<Rightarrow> Inl f
             | None \<Rightarrow> edges_loop ports es (gs_add (eg_ID e) edgeIDs) w2)))"

fun boundaries_loop :: "port_map \<Rightarrow> boundary list \<Rightarrow> string goset \<Rightarrow> wiring \<Rightarrow> (wiring_error, wiring) result" where
  "boundaries_loop ports [] boundaryNames w = Inr w"
| "boundaries_loop ports (b # bs) boundaryNames w =
     (if bd_Name b = [] then Inl EmptyBoundaryName
      else if gm_has boundaryNames (bd_Name b) then Inl (RepeatedBoundary (bd_Name b))
      else if bd_Direction b \<noteq> InputBoundary \<and> bd_Direction b \<noteq> OutputBoundary
      then Inl (BoundaryDirection (bd_Name b) (bd_Direction b))
      else bind_result (validateEndpoint ports (bd_Endpoint b) (if bd_Direction b = InputBoundary then Input else Output)
                          (''boundary '' @ bd_Name b) w) (\<lambda>(p, w1).
             if \<not> type_Equal (bd_Type b) (po_Type p) then Inl (BoundaryType (bd_Name b))
             else boundaries_loop ports bs (gs_add (bd_Name b) boundaryNames) w1))"

definition minimum :: "ir_port \<Rightarrow> int" where
  "minimum p = (if po_Required p \<and> po_MinConnections p < 1 then 1 else po_MinConnections p)"

fun minimum_loop :: "(port_key, nat) gomap \<Rightarrow> port_map \<Rightarrow> wiring_error option" where
  "minimum_loop counts [] = None"
| "minimum_loop counts ((key, p) # ports) =
     (if int (count_of counts key) < minimum p
      then Some (TooFewConnections (fst key) (snd key) (minimum p) (count_of counts key))
      else minimum_loop counts ports)"

subsection \<open>Scopes\<close>

fun scope_nodes_loop :: "(string, node) gomap \<Rightarrow> string \<Rightarrow> string list \<Rightarrow> string goset \<Rightarrow> scope_error option" where
  "scope_nodes_loop nodes s [] seenNodes = None"
| "scope_nodes_loop nodes s (n # ns) seenNodes =
     (if \<not> gm_has nodes n then Some (ScopeUnknownNode s n)
      else if gm_has seenNodes n then Some (ScopeRepeatedNode s n)
      else scope_nodes_loop nodes s ns (gs_add n seenNodes))"

fun scope_boundaries_loop :: "port_map \<Rightarrow> string \<Rightarrow> boundary list \<Rightarrow> string goset \<Rightarrow> scope_error option" where
  "scope_boundaries_loop ports s [] boundaryNames = None"
| "scope_boundaries_loop ports s (b # bs) boundaryNames =
     (if gm_has boundaryNames (bd_Name b) \<or> bd_Name b = [] then Some (ScopeBoundaryName s (bd_Name b))
      else case map_of ports (ep_Node (bd_Endpoint b), ep_Port (bd_Endpoint b)) of
        None \<Rightarrow> Some (ScopeUnknownEndpoint s (bd_Name b))
      | Some p \<Rightarrow>
          if bd_Direction b \<noteq> OutputBoundary \<and> bd_Direction b \<noteq> InputBoundary
          then Some (ScopeBoundaryDirection s (bd_Name b) (bd_Direction b))
          else if po_Direction p \<noteq> (if bd_Direction b = OutputBoundary then Output else Input)
                  \<or> \<not> type_Equal (po_Type p) (bd_Type b)
          then Some (ScopeBoundaryDisagrees s (bd_Name b))
          else if po_Cardinality p = One \<and> ep_Lane (bd_Endpoint b) \<noteq> [] then Some (ScopeLane s (bd_Name b))
          else if po_Cardinality p = Variadic \<and> ep_Lane (bd_Endpoint b) \<noteq> [] \<and> ep_Lane (bd_Endpoint b) \<notin> set (po_Lanes p)
          then Some (ScopeLane s (bd_Name b))
          else scope_boundaries_loop ports s bs (gs_add (bd_Name b) boundaryNames))"

fun scopes_loop ::
  "(string, node) gomap \<Rightarrow> port_map \<Rightarrow> scope list \<Rightarrow> (string, scope) gomap \<Rightarrow> (scope_error, (string, scope) gomap) result" where
  "scopes_loop nodes ports [] scopes = Inr scopes"
| "scopes_loop nodes ports (s # ss) scopes =
     (if sc_Nodes s = [] then Inl (ScopeNoNodes (sc_ID s))
      else if sc_ID s = [] then Inl EmptyScopeID
      else if gm_has scopes (sc_ID s) then Inl (RepeatedScope (sc_ID s))
      else case ValidateIdentity (sc_Composite s) of
        Some e \<Rightarrow> Inl (ScopeComposite (sc_ID s) e)
      | None \<Rightarrow>
     (case scope_nodes_loop nodes (sc_ID s) (sc_Nodes s) [] of
        Some e \<Rightarrow> Inl e
      | None \<Rightarrow>
     (case scope_boundaries_loop ports (sc_ID s) (sc_Boundaries s) [] of
        Some e \<Rightarrow> Inl e
      | None \<Rightarrow> scopes_loop nodes ports ss (AList.update (sc_ID s) s scopes))))"

fun parents_loop :: "(string, scope) gomap \<Rightarrow> scope list \<Rightarrow> scope_error option" where
  "parents_loop scopes [] = None"
| "parents_loop scopes (s # ss) =
     (if sc_Parent s \<noteq> [] \<and> \<not> gm_has scopes (sc_Parent s) then Some (UnknownParent (sc_ID s) (sc_Parent s))
      else if sc_Parent s \<noteq> [] \<and> sc_Parent s = sc_ID s then Some (ScopeOwnParent (sc_ID s))
      else parents_loop scopes ss)"

text \<open>
  The walk to the root. A name that is not in the map has the zero scope, without a parent. The walk
  ends because every round adds a name of the map to those seen, or leaves the map.
\<close>

definition parent_of :: "(string, scope) gomap \<Rightarrow> string \<Rightarrow> string" where
  "parent_of scopes s = (case map_of scopes s of None \<Rightarrow> [] | Some sc \<Rightarrow> sc_Parent sc)"

function parent_walk :: "(string, scope) gomap \<Rightarrow> string goset \<Rightarrow> string \<Rightarrow> scope_error option" where
  "parent_walk scopes seenParents parent =
     (if parent = [] then None
      else if gm_has seenParents parent then Some (ParentCycle parent)
      else parent_walk scopes (gs_add parent seenParents) (parent_of scopes parent))"
  by pat_completeness auto
termination
proof (relation "measure (\<lambda>(scopes, seen, parent).
    if parent = [] then 0 else 1 + 2 * card (fst ` set scopes - fst ` set seen) + (if gm_has scopes parent then 0 else 1))", simp)
  fix scopes :: "(string, scope) gomap" and seen :: "string goset" and parent
  assume p: "parent \<noteq> []" "\<not> gm_has seen parent"
  let ?rest = "fst ` set scopes - fst ` set seen"
  have keys: "fst ` set (gs_add parent seen) = insert parent (fst ` set seen)"
    using AList.dom_update [of parent "()" seen] by (simp add: dom_map_of_conv_image_fst)
  show "((scopes, gs_add parent seen, parent_of scopes parent), (scopes, seen, parent)) \<in> measure (\<lambda>(scopes, seen, parent).
    if parent = [] then 0 else 1 + 2 * card (fst ` set scopes - fst ` set seen) + (if gm_has scopes parent then 0 else 1))"
  proof (cases "gm_has scopes parent")
    case True
    then have "parent \<in> ?rest" using p(2) by (auto simp: map_of_eq_None_iff)
    then have "card (?rest - {parent}) < card ?rest" by (intro card_Diff1_less) auto
    moreover have "fst ` set scopes - fst ` set (gs_add parent seen) = ?rest - {parent}" unfolding keys by auto
    ultimately show ?thesis using p True by auto
  next
    case False
    then show ?thesis using p by (simp add: parent_of_def)
  qed
qed

definition contained :: "string list \<Rightarrow> string list \<Rightarrow> string option" where
  "contained ns parentNodes = find (\<lambda>n. n \<notin> set parentNodes) ns"

fun containment_loop :: "(string, scope) gomap \<Rightarrow> scope list \<Rightarrow> scope_error option" where
  "containment_loop scopes [] = None"
| "containment_loop scopes (s # ss) =
     (case parent_walk scopes [(sc_ID s, ())] (sc_Parent s) of
        Some e \<Rightarrow> Some e
      | None \<Rightarrow>
          if sc_Parent s = [] then containment_loop scopes ss
          else case contained (sc_Nodes s) (case map_of scopes (sc_Parent s) of Some p \<Rightarrow> sc_Nodes p | None \<Rightarrow> []) of
            Some n \<Rightarrow> Some (AbsentFromParent (sc_ID s) n)
          | None \<Rightarrow> containment_loop scopes ss)"

subsection \<open>The whole\<close>

definition validateStructure :: "graph \<Rightarrow> ir_fault option" where
  "validateStructure g =
     (if gr_FormatVersion g \<noteq> FormatVersion then Some (UnsupportedFormat (gr_FormatVersion g))
      else if blank (gr_ID g) then Some EmptyGraphID
      else if gr_Revision g = 0 then Some GraphRevision
      else if gr_Nodes g = [] then Some NoNodes
      else case nodes_loop (gr_Nodes g) [] [] of
        Inl e \<Rightarrow> Some (InNodes e)
      | Inr (nodes, ports) \<Rightarrow>
     (case edges_loop ports (gr_Edges g) [] ([], []) of
        Inl e \<Rightarrow> Some (InWiring e)
      | Inr w \<Rightarrow>
     (case boundaries_loop ports (gr_Boundaries g) [] w of
        Inl e \<Rightarrow> Some (InWiring e)
      | Inr (connections, counts) \<Rightarrow>
     (case minimum_loop counts ports of
        Some e \<Rightarrow> Some (InWiring e)
      | None \<Rightarrow>
     (case scopes_loop nodes ports (gr_Scopes g) [] of
        Inl e \<Rightarrow> Some (InScopes e)
      | Inr scopes \<Rightarrow>
     (case parents_loop scopes (gr_Scopes g) of
        Some e \<Rightarrow> Some (InScopes e)
      | None \<Rightarrow> map_option InScopes (containment_loop scopes (gr_Scopes g))))))))"

declare parent_walk.simps [simp del]

end
