(* ===== verification/Graph_Wiring.thy ===== *)
theory Graph_Wiring
  imports Graph_IR
begin

section \<open>What an accepted graph guarantees\<close>

text \<open>
  The structural validation of \<^verbatim>\<open>Graph_IR\<close> as a specification: nodes, ports and edges are declared once,
  every edge and boundary joins declared lanes of its type, no lane is used twice, minimum
  connection counts are met, and scopes nest.
\<close>

subsection \<open>Nodes and ports\<close>

definition declared :: "graph \<Rightarrow> string \<Rightarrow> string \<Rightarrow> ir_port \<Rightarrow> bool" where
  "declared g n p pt \<longleftrightarrow> (\<exists>nd\<in>set (gr_Nodes g). nd_ID nd = n \<and> pt \<in> set (nd_Ports nd) \<and> po_Name pt = p)"

lemma fresh_update:
  "(\<forall>x\<in>A. \<not> gm_has (AList.update k v m) (f x)) \<longleftrightarrow> (\<forall>x\<in>A. f x \<noteq> k \<and> \<not> gm_has m (f x))"
  by auto

lemma node_ports_declared:
  assumes "node_ports_loop n ps ports = Inr ports'"
  shows "(\<forall>pt\<in>set ps. node_port_fault n pt = None) \<and> (\<forall>pt\<in>set ps. \<not> gm_has ports (n, po_Name pt))
    \<and> (\<forall>k p pt. map_of ports' (k, p) = Some pt \<longleftrightarrow> k = n \<and> pt \<in> set ps \<and> po_Name pt = p \<or> map_of ports (k, p) = Some pt)
    \<and> (distinct (map fst ports) \<longrightarrow> distinct (map fst ports'))"
  using assms
proof (induction ps arbitrary: ports)
  case (Cons pt ps)
  then have r: "node_ports_loop n ps (AList.update (n, po_Name pt) pt ports) = Inr ports'"
    and f: "\<not> gm_has ports (n, po_Name pt)" "node_port_fault n pt = None"
    by (auto split: if_splits option.splits)
  note IH = Cons(1) [OF r, unfolded fresh_update]
  have "map_of ports' (k, p) = Some q \<longleftrightarrow> k = n \<and> q \<in> set (pt # ps) \<and> po_Name q = p \<or> map_of ports (k, p) = Some q" for k p q
    using IH f(1) by auto
  then show ?case using IH f by simp
qed simp

lemma nodes_declared:
  assumes "nodes_loop ns nodes ports = Inr (nodes', ports')"
  shows "distinct (map nd_ID ns) \<and> (\<forall>n\<in>set ns. \<not> gm_has nodes (nd_ID n))
    \<and> (\<forall>k n. map_of nodes' k = Some n \<longleftrightarrow> n \<in> set ns \<and> nd_ID n = k \<or> map_of nodes k = Some n)
    \<and> (\<forall>k p pt. map_of ports' (k, p) = Some pt \<longleftrightarrow>
          (\<exists>n\<in>set ns. nd_ID n = k \<and> pt \<in> set (nd_Ports n) \<and> po_Name pt = p) \<or> map_of ports (k, p) = Some pt)
    \<and> (\<forall>n\<in>set ns. \<forall>pt\<in>set (nd_Ports n). node_port_fault (nd_ID n) pt = None)
    \<and> (distinct (map fst ports) \<longrightarrow> distinct (map fst ports'))"
  using assms
proof (induction ns arbitrary: nodes ports)
  case (Cons n ns)
  then obtain ports1 where p: "node_ports_loop (nd_ID n) (nd_Ports n) ports = Inr ports1" "\<not> gm_has nodes (nd_ID n)"
    and r: "nodes_loop ns (AList.update (nd_ID n) n nodes) ports1 = Inr (nodes', ports')"
    by (auto simp: bind_result_eq_Inr Let_def split: if_splits option.splits)
  note IH = Cons(1) [OF r, unfolded fresh_update] and P = node_ports_declared [OF p(1)]
  have "distinct (map nd_ID (n # ns))" "\<forall>m\<in>set (n # ns). \<not> gm_has nodes (nd_ID m)"
    using IH p(2) by auto
  moreover have "\<forall>k m. map_of nodes' k = Some m \<longleftrightarrow> m \<in> set (n # ns) \<and> nd_ID m = k \<or> map_of nodes k = Some m"
    using IH p(2) by auto
  moreover have "\<forall>k p pt. map_of ports' (k, p) = Some pt \<longleftrightarrow>
          (\<exists>m\<in>set (n # ns). nd_ID m = k \<and> pt \<in> set (nd_Ports m) \<and> po_Name pt = p) \<or> map_of ports (k, p) = Some pt"
    using IH P by auto
  moreover have "\<forall>m\<in>set (n # ns). \<forall>pt\<in>set (nd_Ports m). node_port_fault (nd_ID m) pt = None"
    using IH P by auto
  moreover have "distinct (map fst ports) \<longrightarrow> distinct (map fst ports')" using IH P by simp
  ultimately show ?case by (intro conjI)
qed simp

subsection \<open>Connections\<close>

text \<open>An endpoint that names a declared lane in the given direction, whose port has the given type.\<close>

definition joins :: "graph \<Rightarrow> string \<Rightarrow> endpoint \<Rightarrow> ty \<Rightarrow> bool" where
  "joins g want ep t \<longleftrightarrow> (\<exists>pt. declared g (ep_Node ep) (ep_Port ep) pt \<and> po_Direction pt = want \<and> po_Type pt = t
     \<and> \<not> ContainsVariable t
     \<and> (po_Cardinality pt = One \<and> ep_Lane ep = [] \<or> po_Cardinality pt = Variadic \<and> ep_Lane ep \<in> set (po_Lanes pt)))"

definition edge_ends :: "ir_edge list \<Rightarrow> endpoint list" where
  "edge_ends es = concat (map (\<lambda>e. [eg_From e, eg_To e]) es)"

definition uses :: "graph \<Rightarrow> endpoint list" where
  "uses g = edge_ends (gr_Edges g) @ map bd_Endpoint (gr_Boundaries g)"

definition uses_of :: "endpoint list \<Rightarrow> string \<Rightarrow> string \<Rightarrow> nat" where
  "uses_of us n p = length (filter (\<lambda>ep. ep_Node ep = n \<and> ep_Port ep = p) us)"

definition tracks :: "wiring \<Rightarrow> endpoint list \<Rightarrow> bool" where
  "tracks w us \<longleftrightarrow> (\<forall>k. gm_has (fst w) k \<longleftrightarrow> k \<in> endpoint_String ` set us) \<and> distinct us
     \<and> (\<forall>n p. count_of (snd w) (n, p) = uses_of us n p)"

text \<open>What \<open>validateEndpoint\<close> checks of the port it returns.\<close>

definition port_fits :: "port_map \<Rightarrow> string \<Rightarrow> endpoint \<Rightarrow> ir_port \<Rightarrow> bool" where
  "port_fits ports want ep p \<longleftrightarrow> map_of ports (ep_Node ep, ep_Port ep) = Some p \<and> po_Direction p = want
     \<and> (po_Cardinality p = One \<longrightarrow> ep_Lane ep = []) \<and> (po_Cardinality p = Variadic \<longrightarrow> ep_Lane ep \<in> set (po_Lanes p))"

lemma endpoint_tracked:
  assumes "validateEndpoint ports ep want owner w = Inr (p, w')" "tracks w us"
  shows "port_fits ports want ep p \<and> tracks w' (us @ [ep])"
proof -
  obtain connections counts where w: "w = (connections, counts)" by force
  have fresh: "\<not> gm_has connections (endpoint_String ep)" "port_fits ports want ep p"
    and w': "w' = (AList.update (endpoint_String ep) owner connections,
      AList.update (ep_Node ep, ep_Port ep) (count_of counts (ep_Node ep, ep_Port ep) + 1) counts)"
    using assms(1) by (auto simp: validateEndpoint_def w Let_def port_fits_def split: if_splits option.splits)
  have "endpoint_String ep \<notin> endpoint_String ` set us"
    using fresh(1) assms(2) unfolding tracks_def w fst_conv by blast
  then have "ep \<notin> set us" by blast
  with fresh assms(2) show ?thesis unfolding w'
    by (auto simp: tracks_def w count_of_def uses_of_def)
qed

definition edge_wired :: "port_map \<Rightarrow> ir_edge \<Rightarrow> bool" where
  "edge_wired ports e \<longleftrightarrow> (\<exists>p q. port_fits ports Output (eg_From e) p \<and> port_fits ports Input (eg_To e) q
     \<and> eg_Type e = po_Type p \<and> eg_Type e = po_Type q \<and> 0 < eg_Depth e
     \<and> (eg_Delivery e = Lossless \<or> eg_Delivery e = Lossy \<and> po_LossAllowed p \<and> po_LossAllowed q))"

lemma edges_tracked:
  assumes "edges_loop ports es ids w = Inr w'" "tracks w us"
  shows "tracks w' (us @ edge_ends es) \<and> (\<forall>e\<in>set es. edge_wired ports e) \<and> distinct (map eg_ID es)
    \<and> (\<forall>e\<in>set es. \<not> gm_has ids (eg_ID e))"
  using assms
proof (induction es arbitrary: ids w us)
  case (Cons e es)
  then obtain p q w1 w2 where
    v: "validateEndpoint ports (eg_From e) Output (''edge '' @ eg_ID e) w = Inr (p, w1)"
      "validateEndpoint ports (eg_To e) Input (''edge '' @ eg_ID e) w1 = Inr (q, w2)"
    and f: "edge_fault e p q = None" "\<not> gm_has ids (eg_ID e)"
    and r: "edges_loop ports es (gs_add (eg_ID e) ids) w2 = Inr w'"
    by (auto simp: bind_result_eq_Inr split: if_splits option.splits)
  have t: "port_fits ports Output (eg_From e) p" "port_fits ports Input (eg_To e) q" "tracks w2 ((us @ [eg_From e]) @ [eg_To e])"
    using endpoint_tracked [OF v(1) Cons(3)] endpoint_tracked [OF v(2)] by blast+
  have "edge_wired ports e"
    using f(1) t(1,2) unfolding edge_wired_def
    by (intro exI [of _ p] exI [of _ q]) (auto simp: edge_fault_def type_Equal_iff split: if_splits)
  with Cons(1) [OF r t(3), unfolded fresh_update] f(2) show ?case by (auto simp: edge_ends_def)
qed (simp add: edge_ends_def)

definition boundary_wired :: "port_map \<Rightarrow> boundary \<Rightarrow> bool" where
  "boundary_wired ports b \<longleftrightarrow>
     (\<exists>p. port_fits ports (if bd_Direction b = InputBoundary then Input else Output) (bd_Endpoint b) p \<and> bd_Type b = po_Type p)"

lemma boundaries_tracked:
  assumes "boundaries_loop ports bs ids w = Inr w'" "tracks w us"
  shows "tracks w' (us @ map bd_Endpoint bs) \<and> (\<forall>b\<in>set bs. boundary_wired ports b)"
  using assms
proof (induction bs arbitrary: ids w us)
  case (Cons b bs)
  let ?want = "if bd_Direction b = InputBoundary then Input else Output"
  obtain p w1 where v: "validateEndpoint ports (bd_Endpoint b) ?want (''boundary '' @ bd_Name b) w = Inr (p, w1)"
    and t: "type_Equal (bd_Type b) (po_Type p)" and r: "boundaries_loop ports bs (gs_add (bd_Name b) ids) w1 = Inr w'"
    using Cons(2) by (auto simp: bind_result_eq_Inr split: if_splits)
  note e = endpoint_tracked [OF v Cons(3)]
  have "boundary_wired ports b" using e t by (auto simp: boundary_wired_def type_Equal_iff)
  with Cons(1) [OF r conjunct2 [OF e]] show ?case by simp
qed simp

lemma minimum_met: "minimum_loop counts ports = None \<Longrightarrow> (k, p) \<in> set ports \<Longrightarrow> minimum p \<le> int (count_of counts k)"
  by (induction ports) (auto split: if_splits)

lemma fits_joins:
  assumes "port_fits ports want ep p" "\<forall>n q pt. map_of ports (n, q) = Some pt \<longleftrightarrow> declared g n q pt"
    and "\<forall>nd\<in>set (gr_Nodes g). \<forall>pt\<in>set (nd_Ports nd). node_port_fault (nd_ID nd) pt = None"
  shows "joins g want ep (po_Type p)"
proof -
  have d: "declared g (ep_Node ep) (ep_Port ep) p" using assms(1,2) by (auto simp: port_fits_def)
  then obtain n where "node_port_fault n p = None" using assms(3) by (auto simp: declared_def)
  then have "\<not> ContainsVariable (po_Type p)" "po_Cardinality p = One \<or> po_Cardinality p = Variadic"
    by (auto simp: node_port_fault_def ValidateConcretePort_def split: option.splits if_splits)
  with d assms(1) show ?thesis by (auto simp: joins_def port_fits_def)
qed

subsection \<open>Scopes\<close>

lemma scopes_declared:
  assumes "scopes_loop nodes ports ss scopes = Inr scopes'"
  shows "(\<forall>k s. map_of scopes' k = Some s \<longleftrightarrow> s \<in> set ss \<and> sc_ID s = k \<or> map_of scopes k = Some s)
    \<and> distinct (map sc_ID ss) \<and> (\<forall>s\<in>set ss. \<not> gm_has scopes (sc_ID s))"
  using assms
proof (induction ss arbitrary: scopes)
  case (Cons s ss)
  then have r: "scopes_loop nodes ports ss (AList.update (sc_ID s) s scopes) = Inr scopes'"
    and f: "\<not> gm_has scopes (sc_ID s)" "sc_ID s \<noteq> []"
    by (auto split: if_splits option.splits)
  note IH = Cons(1) [OF r, unfolded fresh_update]
  have "map_of scopes' k = Some q \<longleftrightarrow> q \<in> set (s # ss) \<and> sc_ID q = k \<or> map_of scopes k = Some q" for k q
    using IH f(1) by auto
  then show ?case using IH f by auto
qed simp

lemma parents_known: "parents_loop scopes ss = None \<Longrightarrow> s \<in> set ss \<Longrightarrow> sc_Parent s \<noteq> [] \<Longrightarrow> gm_has scopes (sc_Parent s)"
  by (induction ss) (auto split: if_splits)

definition parent_edges :: "(string, scope) gomap \<Rightarrow> (string \<times> string) set" where
  "parent_edges scopes = {(s, parent_of scopes s) |s. parent_of scopes s \<noteq> []}"

lemma parent_walk_avoids:
  "parent_walk scopes seen p = None \<Longrightarrow> p \<noteq> [] \<Longrightarrow> (p, q) \<in> (parent_edges scopes)\<^sup>* \<Longrightarrow> \<not> gm_has seen q"
proof (induction scopes seen p rule: parent_walk.induct)
  case (1 scopes seen p)
  have p: "\<not> gm_has seen p" "parent_walk scopes (gs_add p seen) (parent_of scopes p) = None"
    using 1(2,3) by (auto simp: parent_walk.simps [of scopes seen p] split: if_splits)
  from 1(4) show ?case
  proof (cases rule: converse_rtranclE)
    case base
    then show ?thesis using p by simp
  next
    case (step r)
    then have "r = parent_of scopes p" "r \<noteq> []" by (auto simp: parent_edges_def)
    then have "\<not> gm_has (gs_add p seen) q" using 1(1) [OF 1(3) p(1) p(2)] step(2) by simp
    then show ?thesis by (auto split: if_splits)
  qed
qed

lemma containment:
  "containment_loop scopes ss = None \<Longrightarrow> s \<in> set ss \<Longrightarrow>
    parent_walk scopes [(sc_ID s, ())] (sc_Parent s) = None
    \<and> (sc_Parent s \<noteq> [] \<longrightarrow> map_of scopes (sc_Parent s) = Some p \<longrightarrow> set (sc_Nodes s) \<subseteq> set (sc_Nodes p))"
  by (induction ss) (auto simp: contained_def find_None_iff split: if_splits option.splits)

subsection \<open>The guarantees\<close>

lemma accepted:
  assumes "validateStructure g = None"
  obtains nodes ports w connections counts scopes where
    "nodes_loop (gr_Nodes g) [] [] = Inr (nodes, ports)" "edges_loop ports (gr_Edges g) [] ([], []) = Inr w"
    "boundaries_loop ports (gr_Boundaries g) [] w = Inr (connections, counts)" "minimum_loop counts ports = None"
    "scopes_loop nodes ports (gr_Scopes g) [] = Inr scopes" "parents_loop scopes (gr_Scopes g) = None"
    "containment_loop scopes (gr_Scopes g) = None"
  using assms by (auto simp: validateStructure_def split: if_splits sum.splits prod.splits option.splits)

lemma accepted_nodes: "validateStructure g = None \<Longrightarrow> distinct (map nd_ID (gr_Nodes g))"
  by (erule accepted) (drule nodes_declared, blast)

lemma accepted_wiring:
  assumes "validateStructure g = None"
  shows "distinct (map nd_ID (gr_Nodes g))" "distinct (map eg_ID (gr_Edges g))"
    "\<And>e. e \<in> set (gr_Edges g) \<Longrightarrow> joins g Output (eg_From e) (eg_Type e) \<and> joins g Input (eg_To e) (eg_Type e)
         \<and> 0 < eg_Depth e \<and> (eg_Delivery e = Lossless \<or> eg_Delivery e = Lossy)"
    "\<And>b. b \<in> set (gr_Boundaries g) \<Longrightarrow>
         joins g (if bd_Direction b = InputBoundary then Input else Output) (bd_Endpoint b) (bd_Type b)"
    "distinct (uses g)" "\<And>n p pt. declared g n p pt \<Longrightarrow> minimum pt \<le> int (uses_of (uses g) n p)"
proof -
  obtain nodes ports w connections counts scopes where
    n: "nodes_loop (gr_Nodes g) [] [] = Inr (nodes, ports)" and e: "edges_loop ports (gr_Edges g) [] ([], []) = Inr w"
    and b: "boundaries_loop ports (gr_Boundaries g) [] w = Inr (connections, counts)" and m: "minimum_loop counts ports = None"
    and "scopes_loop nodes ports (gr_Scopes g) [] = Inr scopes" "parents_loop scopes (gr_Scopes g) = None"
    "containment_loop scopes (gr_Scopes g) = None"
    by (rule accepted [OF assms])
  note N = nodes_declared [OF n]
  have d: "\<forall>n p pt. map_of ports (n, p) = Some pt \<longleftrightarrow> declared g n p pt" using N by (auto simp: declared_def)
  have f: "\<forall>nd\<in>set (gr_Nodes g). \<forall>pt\<in>set (nd_Ports nd). node_port_fault (nd_ID nd) pt = None" using N by blast
  have "tracks ([], []) []" by (simp add: tracks_def count_of_def uses_of_def)
  note E = edges_tracked [OF e this]
  have "tracks w (edge_ends (gr_Edges g))" using E by simp
  note B = boundaries_tracked [OF b this]
  have t: "tracks (connections, counts) (uses g)" using B by (simp add: uses_def)
  show "joins g Output (eg_From e) (eg_Type e) \<and> joins g Input (eg_To e) (eg_Type e)
      \<and> 0 < eg_Depth e \<and> (eg_Delivery e = Lossless \<or> eg_Delivery e = Lossy)" if "e \<in> set (gr_Edges g)" for e
    using E that fits_joins [OF _ d f] by (metis edge_wired_def)
  show "joins g (if bd_Direction b = InputBoundary then Input else Output) (bd_Endpoint b) (bd_Type b)"
    if "b \<in> set (gr_Boundaries g)" for b
    using B that fits_joins [OF _ d f] by (metis boundary_wired_def)
  show "minimum pt \<le> int (uses_of (uses g) n p)" if "declared g n p pt" for n p pt
  proof -
    have "((n, p), pt) \<in> set ports" using d that by (blast dest: map_of_SomeD)
    from minimum_met [OF m this] t show ?thesis by (simp add: tracks_def)
  qed
  show "distinct (map nd_ID (gr_Nodes g))" "distinct (map eg_ID (gr_Edges g))" "distinct (uses g)"
    using N E t by (simp_all add: tracks_def)
qed

text \<open>
  C18. A graph that passes the structural validation is soundly wired. Nodes and edges have distinct
  identifiers. Every edge runs from a lane of a declared output to a lane of a declared input, all of
  one concrete type, with a positive bound on its depth, and loses messages only where both
  ends allow it; every boundary exports a declared lane in its own direction and type. No lane is
  used by two edges or boundaries, and every port has as many connections as it requires.
\<close>

theorem accepted_graphs_are_wired:
  assumes "validateStructure g = None"
  shows "distinct (map nd_ID (gr_Nodes g)) \<and> distinct (map eg_ID (gr_Edges g))
    \<and> (\<forall>e\<in>set (gr_Edges g). joins g Output (eg_From e) (eg_Type e) \<and> joins g Input (eg_To e) (eg_Type e)
         \<and> 0 < eg_Depth e \<and> (eg_Delivery e = Lossless \<or> eg_Delivery e = Lossy))
    \<and> (\<forall>b\<in>set (gr_Boundaries g).
         joins g (if bd_Direction b = InputBoundary then Input else Output) (bd_Endpoint b) (bd_Type b))
    \<and> distinct (uses g)
    \<and> (\<forall>n p pt. declared g n p pt \<longrightarrow> minimum pt \<le> int (uses_of (uses g) n p))"
  using accepted_wiring [OF assms] by blast

text \<open>
  C20. In a graph that passes the structural validation the scopes form a forest: identifiers are
  distinct, every parent is a scope of the graph, no chain of parents returns to its start, and a
  scope only contains nodes of its parent.
\<close>

theorem accepted_scopes_nest:
  assumes "validateStructure g = None"
  shows "distinct (map sc_ID (gr_Scopes g))
    \<and> acyclic {(sc_ID s, sc_Parent s) |s. s \<in> set (gr_Scopes g) \<and> sc_Parent s \<noteq> []}
    \<and> (\<forall>s\<in>set (gr_Scopes g). sc_Parent s \<noteq> [] \<longrightarrow>
         (\<exists>p\<in>set (gr_Scopes g). sc_ID p = sc_Parent s \<and> set (sc_Nodes s) \<subseteq> set (sc_Nodes p)))"
proof -
  obtain nodes ports w connections counts scopes where
    "nodes_loop (gr_Nodes g) [] [] = Inr (nodes, ports)" "edges_loop ports (gr_Edges g) [] ([], []) = Inr w"
    "boundaries_loop ports (gr_Boundaries g) [] w = Inr (connections, counts)" "minimum_loop counts ports = None"
    and s: "scopes_loop nodes ports (gr_Scopes g) [] = Inr scopes" and p: "parents_loop scopes (gr_Scopes g) = None"
    and c: "containment_loop scopes (gr_Scopes g) = None"
    by (rule accepted [OF assms])
  have S: "map_of scopes k = Some sc \<longleftrightarrow> sc \<in> set (gr_Scopes g) \<and> sc_ID sc = k" for k sc
    using scopes_declared [OF s] by auto
  have parent: "parent_of scopes (sc_ID sc) = sc_Parent sc" if "sc \<in> set (gr_Scopes g)" for sc
    using S [of "sc_ID sc" sc] that by (simp add: parent_of_def)
  have R: "{(sc_ID s, sc_Parent s) |s. s \<in> set (gr_Scopes g) \<and> sc_Parent s \<noteq> []} = parent_edges scopes"
  proof (intro set_eqI iffI)
    fix e assume "e \<in> {(sc_ID s, sc_Parent s) |s. s \<in> set (gr_Scopes g) \<and> sc_Parent s \<noteq> []}"
    then show "e \<in> parent_edges scopes" using parent by (auto simp: parent_edges_def)
  next
    fix e assume "e \<in> parent_edges scopes"
    then obtain k where k: "e = (k, parent_of scopes k)" "parent_of scopes k \<noteq> []" by (auto simp: parent_edges_def)
    then obtain sc where "map_of scopes k = Some sc" by (auto simp: parent_of_def split: option.splits)
    with S [of k sc] parent [of sc] k show "e \<in> {(sc_ID s, sc_Parent s) |s. s \<in> set (gr_Scopes g) \<and> sc_Parent s \<noteq> []}" by auto
  qed
  have "acyclic (parent_edges scopes)"
  proof (unfold acyclic_def, intro allI notI)
    fix x assume "(x, x) \<in> (parent_edges scopes)\<^sup>+"
    then obtain y where y: "(x, y) \<in> parent_edges scopes" "(y, x) \<in> (parent_edges scopes)\<^sup>*" by (blast dest: tranclD)
    then obtain sc where sc: "sc \<in> set (gr_Scopes g)" "sc_ID sc = x" "sc_Parent sc = y" "y \<noteq> []"
      unfolding R [symmetric] by auto
    have "parent_walk scopes [(x, ())] y = None" using containment [OF c sc(1)] sc by simp
    from parent_walk_avoids [OF this sc(4) y(2)] show False by simp
  qed
  moreover have "\<exists>p\<in>set (gr_Scopes g). sc_ID p = sc_Parent sc \<and> set (sc_Nodes sc) \<subseteq> set (sc_Nodes p)"
    if sc: "sc \<in> set (gr_Scopes g)" "sc_Parent sc \<noteq> []" for sc
  proof -
    obtain q where q: "map_of scopes (sc_Parent sc) = Some q" using parents_known [OF p sc] by auto
    with containment [OF c sc(1), of q] S sc(2) show ?thesis by blast
  qed
  ultimately show ?thesis using scopes_declared [OF s] unfolding R by blast
qed

end
