(* ===== verification/Graph_Cycles.thy ===== *)
theory Graph_Cycles
  imports Graph_Wiring
begin

section \<open>Causal cycles\<close>

text \<open>
  \<^verbatim>\<open>cycleFindings\<close> of \<^verbatim>\<open>graph/validate/validate.go\<close>: Tarjan's strongly connected components on the
  nodes that do not break cycles. The maps from nodes to numbers and flags are never ranged over, so
  they are functions with Go's zero value for a missing key. The recursion of \<^verbatim>\<open>visit\<close> follows the
  state, not the data, and runs on fuel, as much as there are names in the graph; a pop from the empty stack, which would panic, and running
  out of fuel are both \<^const>\<open>None\<close>, and neither happens.
\<close>

record finding =
  fi_Severity :: string
  fi_Code :: string
  fi_Node :: string
  fi_Edge :: string
  fi_Boundary :: string

definition Error :: string where "Error = ''error''"
definition Warning :: string where "Warning = ''warning''"

subsection \<open>The search\<close>

record tarjan =
  ta_index :: nat
  ta_indices :: "string \<Rightarrow> nat"
  ta_lowlink :: "string \<Rightarrow> nat"
  ta_onStack :: "string \<Rightarrow> bool"
  ta_stack :: "string list"
  ta_components :: "string list list"

definition enter :: "string \<Rightarrow> tarjan \<Rightarrow> tarjan" where
  "enter v s = s\<lparr>ta_index := ta_index s + 1, ta_indices := (ta_indices s)(v := ta_index s + 1),
                 ta_lowlink := (ta_lowlink s)(v := ta_index s + 1), ta_stack := v # ta_stack s,
                 ta_onStack := (ta_onStack s)(v := True)\<rparr>"

definition lower_to :: "string \<Rightarrow> nat \<Rightarrow> tarjan \<Rightarrow> tarjan" where
  "lower_to v k s = s\<lparr>ta_lowlink := (ta_lowlink s)(v := min (ta_lowlink s v) k)\<rparr>"

fun pop_loop :: "string \<Rightarrow> string list \<Rightarrow> (string \<Rightarrow> bool) \<Rightarrow> string list
    \<Rightarrow> (string list \<times> (string \<Rightarrow> bool) \<times> string list) option" where
  "pop_loop v [] onStack component = None"
| "pop_loop v (member # stack) onStack component =
     (if member = v then Some (stack, onStack(member := False), component @ [member])
      else pop_loop v stack (onStack(member := False)) (component @ [member]))"

definition leave_component :: "string \<Rightarrow> tarjan \<Rightarrow> tarjan option" where
  "leave_component v s =
     (if ta_lowlink s v \<noteq> ta_indices s v then Some s
      else case pop_loop v (ta_stack s) (ta_onStack s) [] of
        None \<Rightarrow> None
      | Some (stack, onStack, component) \<Rightarrow>
          Some (s\<lparr>ta_stack := stack, ta_onStack := onStack, ta_components := ta_components s @ [sort_strings component]\<rparr>))"

fun visit :: "nat \<Rightarrow> (string \<Rightarrow> string list) \<Rightarrow> string \<Rightarrow> tarjan \<Rightarrow> tarjan option"
  and visit_each :: "nat \<Rightarrow> (string \<Rightarrow> string list) \<Rightarrow> string \<Rightarrow> string list \<Rightarrow> tarjan \<Rightarrow> tarjan option" where
  "visit 0 adjacency v s = None"
| "visit (Suc fuel) adjacency v s =
     Option.bind (visit_each fuel adjacency v (adjacency v) (enter v s)) (leave_component v)"
| "visit_each fuel adjacency v [] s = Some s"
| "visit_each fuel adjacency v (w # ws) s =
     (if ta_indices s w = 0
      then Option.bind (visit fuel adjacency w s) (\<lambda>s'. visit_each fuel adjacency v ws (lower_to v (ta_lowlink s' w) s'))
      else if ta_onStack s w then visit_each fuel adjacency v ws (lower_to v (ta_indices s w) s)
      else visit_each fuel adjacency v ws s)"

fun visit_names :: "nat \<Rightarrow> (string \<Rightarrow> string list) \<Rightarrow> string list \<Rightarrow> tarjan \<Rightarrow> tarjan option" where
  "visit_names fuel adjacency [] s = Some s"
| "visit_names fuel adjacency (n # ns) s =
     (if ta_indices s n = 0 then Option.bind (visit fuel adjacency n s) (visit_names fuel adjacency ns)
      else visit_names fuel adjacency ns s)"

definition tarjan_start :: tarjan where
  "tarjan_start = \<lparr>ta_index = 0, ta_indices = (\<lambda>_. 0), ta_lowlink = (\<lambda>_. 0), ta_onStack = (\<lambda>_. False), ta_stack = [],
     ta_components = []\<rparr>"

subsection \<open>The findings\<close>

definition breaks_of :: "node list \<Rightarrow> (string, bool) gomap" where
  "breaks_of nodes = fold (\<lambda>n. AList.update (nd_ID n) (rx_BreaksCycles (nd_Reaction n))) nodes []"

definition breaks :: "graph \<Rightarrow> string \<Rightarrow> bool" where
  "breaks g n \<longleftrightarrow> map_of (breaks_of (gr_Nodes g)) n = Some True"

definition successors :: "(string, string list) gomap \<Rightarrow> string \<Rightarrow> string list" where
  "successors m n = (case map_of m n of None \<Rightarrow> [] | Some ws \<Rightarrow> ws)"

definition add_edge :: "graph \<Rightarrow> ir_edge \<Rightarrow> (string, string list) gomap \<Rightarrow> (string, string list) gomap" where
  "add_edge g e m =
     (if \<not> breaks g (ep_Node (eg_From e)) \<and> \<not> breaks g (ep_Node (eg_To e))
      then AList.update (ep_Node (eg_From e)) (successors m (ep_Node (eg_From e)) @ [ep_Node (eg_To e)]) m else m)"

definition adjacency_of :: "graph \<Rightarrow> (string, string list) gomap" where
  "adjacency_of g =
     (let nodes = fold (\<lambda>n m. if \<not> rx_BreaksCycles (nd_Reaction n) then AList.update (nd_ID n) [] m else m) (gr_Nodes g) []
      in map (\<lambda>(n, ws). (n, sort_strings ws)) (fold (add_edge g) (gr_Edges g) nodes))"

definition cyclic :: "(string \<Rightarrow> string list) \<Rightarrow> string list \<Rightarrow> bool" where
  "cyclic adjacency component \<longleftrightarrow>
     (if length component = 1 then hd component \<in> set (adjacency (hd component)) else 1 < length component)"

definition cycle_finding :: "string list \<Rightarrow> finding" where
  "cycle_finding component =
     \<lparr>fi_Severity = Error, fi_Code = ''E_CAUSAL_CYCLE'',
      fi_Node = hd component, fi_Edge = [], fi_Boundary = []\<rparr>"

definition cycleFindings :: "graph \<Rightarrow> finding list option" where
  "cycleFindings g =
     (let m = adjacency_of g; names = sort_strings (map fst m); fuel = length names + length (concat (map snd m))
      in map_option (\<lambda>s. map cycle_finding (filter (cyclic (successors m)) (ta_components s)))
           (visit_names fuel (successors m) names tarjan_start))"

subsection \<open>Invariants of the search\<close>

abbreviation edges_of :: "(string \<Rightarrow> string list) \<Rightarrow> (string \<times> string) set" where
  "edges_of adj \<equiv> {(u, w). w \<in> set (adj u)}"

abbreviation members :: "string list list \<Rightarrow> string set" where
  "members cs \<equiv> \<Union> (set ` set cs)"

text \<open>The successors of a component of one node are that node or in components found before.\<close>

inductive sealed :: "(string \<Rightarrow> string list) \<Rightarrow> string list list \<Rightarrow> bool" for adj where
  none: "sealed adj []"
| more: "sealed adj cs \<Longrightarrow> (\<And>n. set c = {n} \<Longrightarrow> set (adj n) \<subseteq> insert n (members cs)) \<Longrightarrow> sealed adj (cs @ [c])"

definition good :: "(string \<Rightarrow> string list) \<Rightarrow> tarjan \<Rightarrow> bool" where
  "good adj s \<longleftrightarrow>
     (\<forall>n. ta_indices s n \<noteq> 0 \<longleftrightarrow> n \<in> set (ta_stack s) \<union> members (ta_components s))
     \<and> (\<forall>n. ta_onStack s n \<longleftrightarrow> n \<in> set (ta_stack s))
     \<and> (\<forall>n. ta_indices s n \<le> ta_index s)
     \<and> sorted_wrt (\<lambda>a b. ta_indices s b < ta_indices s a) (ta_stack s)
     \<and> set (ta_stack s) \<inter> members (ta_components s) = {}
     \<and> sealed adj (ta_components s)
     \<and> (\<forall>c\<in>set (ta_components s). c \<noteq> [] \<and> distinct c \<and> (\<forall>x\<in>set c. \<forall>y\<in>set c. (x, y) \<in> (edges_of adj)\<^sup>*))"

lemma falling_distinct: "sorted_wrt (\<lambda>a b. f b < (f a :: nat)) xs \<Longrightarrow> distinct xs"
  by (induction xs) auto

lemma good_start: "good adj tarjan_start"
  by (simp add: good_def tarjan_start_def sealed.none)

text \<open>What a part of the search leaves alone: nodes reached before keep their numbers.\<close>

definition grows_to :: "string set \<Rightarrow> tarjan \<Rightarrow> tarjan \<Rightarrow> bool" where
  "grows_to A s t \<longleftrightarrow>
     (\<forall>n. ta_indices s n \<noteq> 0 \<longrightarrow> ta_indices t n = ta_indices s n)
     \<and> (\<forall>n. ta_indices s n \<noteq> 0 \<longrightarrow> n \<notin> A \<longrightarrow> ta_lowlink t n = ta_lowlink s n)
     \<and> members (ta_components s) \<subseteq> members (ta_components t) \<and> ta_index s \<le> ta_index t"

lemma search_grows_refl: "grows_to A s s"
  by (simp add: grows_to_def)

lemma search_grows_trans: "grows_to A s t \<Longrightarrow> grows_to B t u \<Longrightarrow> A \<subseteq> C \<Longrightarrow> B \<subseteq> C \<Longrightarrow> grows_to C s u"
  unfolding grows_to_def by (metis (no_types, lifting) order_trans subset_iff)

lemma grows_fresh: "grows_to {v} s t \<Longrightarrow> ta_indices s v = 0 \<Longrightarrow> grows_to {} s t"
  unfolding grows_to_def by (metis singletonD)

definition unvisited :: "string set \<Rightarrow> tarjan \<Rightarrow> nat" where
  "unvisited U s = card {n \<in> U. ta_indices s n = 0}"

lemma unvisited_mono: "finite U \<Longrightarrow> grows_to A s t \<Longrightarrow> unvisited U t \<le> unvisited U s"
  unfolding unvisited_def grows_to_def by (intro card_mono) auto

lemma unvisited_enter:
  assumes "finite U" "v \<in> U" "ta_indices s v = 0"
  shows "unvisited U (enter v s) < unvisited U s"
proof -
  have "{n \<in> U. ta_indices (enter v s) n = 0} = {n \<in> U. ta_indices s n = 0} - {v}"
    by (auto simp: enter_def)
  with assms show ?thesis unfolding unvisited_def by (simp only:) (intro card_Diff1_less; simp)
qed

text \<open>
  While the successors of \<open>v\<close> are being walked, over the stack \<open>S\<close> that \<open>v\<close> was pushed on: the nodes
  above \<open>v\<close> are in a cycle with it, its low link is the number of a node at or below it that it
  reaches, and a successor already walked is in a component, above, or accounted for by the low link.
\<close>

definition walking :: "(string \<Rightarrow> string list) \<Rightarrow> string \<Rightarrow> string list \<Rightarrow> string set \<Rightarrow> tarjan \<Rightarrow> bool" where
  "walking adj v S walked s \<longleftrightarrow> good adj s
     \<and> (\<exists>ys. ta_stack s = ys @ v # S \<and> (\<forall>x\<in>set ys. (x, v) \<in> (edges_of adj)\<^sup>* \<and> (v, x) \<in> (edges_of adj)\<^sup>*)
         \<and> (\<forall>w\<in>walked. w \<in> members (ta_components s) \<or> w \<in> insert v (set ys)
               \<or> w \<in> set S \<and> ta_lowlink s v \<le> ta_indices s w))
     \<and> (\<forall>x\<in>set S. (x, v) \<in> (edges_of adj)\<^sup>*)
     \<and> ta_lowlink s v \<le> ta_indices s v
     \<and> (\<exists>u\<in>set (v # S). ta_indices s u = ta_lowlink s v \<and> (v, u) \<in> (edges_of adj)\<^sup>*)"

text \<open>What the visit of a node has done when it returns.\<close>

definition visited :: "(string \<Rightarrow> string list) \<Rightarrow> string \<Rightarrow> tarjan \<Rightarrow> tarjan \<Rightarrow> bool" where
  "visited adj v s t \<longleftrightarrow> good adj t \<and> grows_to {} s t \<and> ta_indices t v = ta_index s + 1
     \<and> (\<exists>new. ta_stack t = new @ ta_stack s
         \<and> (\<forall>x\<in>set new. (v, x) \<in> (edges_of adj)\<^sup>* \<and> (\<exists>u\<in>set (ta_stack s). (x, u) \<in> (edges_of adj)\<^sup>*))
         \<and> (v \<in> set new \<or> v \<in> members (ta_components t)))
     \<and> ta_lowlink t v \<le> ta_indices t v
     \<and> (\<exists>u\<in>set (v # ta_stack s). ta_indices t u = ta_lowlink t v \<and> (v, u) \<in> (edges_of adj)\<^sup>*)"

subsection \<open>The search keeps them\<close>

lemma enter_walking:
  assumes "good adj s" "ta_indices s v = 0" "\<forall>x\<in>set (ta_stack s). (x, v) \<in> (edges_of adj)\<^sup>*"
  shows "walking adj v (ta_stack s) {} (enter v s) \<and> grows_to {v} s (enter v s)"
proof
  have v: "v \<notin> set (ta_stack s)" "v \<notin> members (ta_components s)" using assms(1,2) unfolding good_def by blast+
  have lt: "ta_indices s n < Suc (ta_index s)" for n using assms(1) by (simp add: good_def less_Suc_eq_le)
  have "sorted_wrt (\<lambda>a b. ta_indices s b < ta_indices s a) (ta_stack s)" using assms(1) by (simp add: good_def)
  then have "sorted_wrt (\<lambda>a b. ta_indices (enter v s) b < ta_indices (enter v s) a) (ta_stack s)"
    by (rule sorted_wrt_mono_rel [rotated]) (use v(1) in \<open>auto simp: enter_def\<close>)
  moreover have "\<forall>b\<in>set (ta_stack s). ta_indices (enter v s) b < ta_indices (enter v s) v"
    using v(1) lt by (auto simp: enter_def)
  ultimately have "sorted_wrt (\<lambda>a b. ta_indices (enter v s) b < ta_indices (enter v s) a) (ta_stack (enter v s))"
    by (simp add: enter_def)
  then have "good adj (enter v s)"
    using assms(1) v lt unfolding good_def by (auto simp: enter_def le_Suc_eq)
  with assms(3) show "walking adj v (ta_stack s) {} (enter v s)" by (auto simp: walking_def enter_def)
  show "grows_to {v} s (enter v s)" using assms(2) by (auto simp: grows_to_def enter_def)
qed

lemma pop_loop_to:
  "v \<notin> set ys \<Longrightarrow> pop_loop v (ys @ v # S) st c = Some (S, (\<lambda>n. if n \<in> insert v (set ys) then False else st n), c @ ys @ [v])"
  by (induction ys arbitrary: st c) (auto simp: fun_eq_iff)

lemma leave_visited:
  assumes w: "walking adj v S (set (adj v)) s" and v: "ta_indices s v \<noteq> 0"
  shows "\<exists>t. leave_component v s = Some t \<and> good adj t \<and> grows_to {} s t
     \<and> (\<exists>new. ta_stack t = new @ S
         \<and> (\<forall>x\<in>set new. (v, x) \<in> (edges_of adj)\<^sup>* \<and> (\<exists>u\<in>set S. (x, u) \<in> (edges_of adj)\<^sup>*))
         \<and> (v \<in> set new \<or> v \<in> members (ta_components t)))
     \<and> ta_indices t = ta_indices s \<and> ta_lowlink t = ta_lowlink s"
proof -
  obtain ys u where s: "good adj s" "ta_stack s = ys @ v # S"
    and ys: "\<forall>x\<in>set ys. (x, v) \<in> (edges_of adj)\<^sup>* \<and> (v, x) \<in> (edges_of adj)\<^sup>*"
    and walked: "\<And>w. w \<in> set (adj v) \<Longrightarrow> w \<in> members (ta_components s) \<or> w \<in> insert v (set ys)
               \<or> w \<in> set S \<and> ta_lowlink s v \<le> ta_indices s w"
    and u: "u \<in> set (v # S)" "ta_indices s u = ta_lowlink s v" "(v, u) \<in> (edges_of adj)\<^sup>*"
    using w unfolding walking_def by blast
  show ?thesis
  proof (cases "ta_lowlink s v = ta_indices s v")
    case False
    then have "u \<in> set S" using u by auto
    with ys u(3) have "\<forall>x\<in>set (ys @ [v]). (v, x) \<in> (edges_of adj)\<^sup>* \<and> (\<exists>u\<in>set S. (x, u) \<in> (edges_of adj)\<^sup>*)"
      by (auto intro: rtrancl_trans)
    with False s show ?thesis by (intro exI [of _ s]) (auto simp: leave_component_def search_grows_refl intro!: exI [of _ "ys @ [v]"])
  next
    case True
    have ord: "sorted_wrt (\<lambda>a b. ta_indices s b < ta_indices s a) (ys @ v # S)" using s by (simp add: good_def)
    then have vys: "v \<notin> set ys" and dist: "distinct (ys @ [v])" and low: "\<And>w. w \<in> set S \<Longrightarrow> ta_indices s w < ta_indices s v"
      using falling_distinct [OF ord] by (auto simp: sorted_wrt_append)
    let ?c = "sort_strings (ys @ [v])"
    let ?t = "s\<lparr>ta_stack := S, ta_onStack := (\<lambda>n. if n \<in> insert v (set ys) then False else ta_onStack s n),
                ta_components := ta_components s @ [?c]\<rparr>"
    have t: "leave_component v s = Some ?t"
      using True s(2) pop_loop_to [OF vys] by (simp add: leave_component_def)
    have "sealed adj (ta_components s @ [?c])"
    proof (rule sealed.more)
      show "sealed adj (ta_components s)" using s by (simp add: good_def)
      fix n assume "set ?c = {n}"
      then have "n = v" "ys = []" using vys by (cases ys; auto)+
      then show "set (adj n) \<subseteq> insert n (members (ta_components s))"
        using walked low True by (fastforce simp: not_le)
    qed
    moreover have "\<forall>x\<in>set ?c. \<forall>y\<in>set ?c. (x, y) \<in> (edges_of adj)\<^sup>*"
      using ys by (auto intro: rtrancl_trans)
    moreover have "?c \<noteq> []" by (metis length_sort_strings length_0_conv snoc_eq_iff_butlast)
    moreover have "set S \<inter> insert v (set ys) = {}" using low ord by (fastforce simp: sorted_wrt_append)
    ultimately have "good adj ?t"
      using s dist ord unfolding good_def by (auto simp: sorted_wrt_append)
    with t show ?thesis by (intro exI [of _ ?t]) (auto simp: grows_to_def)
  qed
qed

lemma good_lower [simp]: "good adj (lower_to v k s) = good adj s"
  by (simp add: good_def lower_to_def)

lemma grows_lower: "grows_to {v} s (lower_to v k s)"
  by (simp add: grows_to_def lower_to_def)

lemma lower_simps [simp]:
  "ta_stack (lower_to v k s) = ta_stack s" "ta_indices (lower_to v k s) = ta_indices s"
  "ta_components (lower_to v k s) = ta_components s" "ta_lowlink (lower_to v k s) v = min (ta_lowlink s v) k"
  by (simp_all add: lower_to_def)

lemma good_stack_order:
  assumes "good adj s" "ta_stack s = ys @ v # S"
  shows "x \<in> set ys \<Longrightarrow> ta_indices s v < ta_indices s x" and "x \<in> set S \<Longrightarrow> ta_indices s x < ta_indices s v"
    and "x \<in> set (ys @ v # S) \<Longrightarrow> ta_indices s x \<noteq> 0"
proof -
  have "sorted_wrt (\<lambda>a b. ta_indices s b < ta_indices s a) (ys @ v # S)" using assms by (simp add: good_def)
  then show "x \<in> set ys \<Longrightarrow> ta_indices s v < ta_indices s x" "x \<in> set S \<Longrightarrow> ta_indices s x < ta_indices s v"
    by (auto simp: sorted_wrt_append)
  show "x \<in> set (ys @ v # S) \<Longrightarrow> ta_indices s x \<noteq> 0" using assms by (auto simp: good_def)
qed

lemma walking_reaches: "walking adj v S D s \<Longrightarrow> x \<in> set (ta_stack s) \<Longrightarrow> (x, v) \<in> (edges_of adj)\<^sup>*"
  unfolding walking_def by (elim conjE exE) (simp only: set_append list.set Un_iff insert_iff, blast)

lemma walk_child:
  assumes wk: "walking adj v S D s" and e: "w \<in> set (adj v)" and c: "visited adj w s t"
  shows "walking adj v S (insert w D) (lower_to v (ta_lowlink t w) t) \<and> grows_to {v} s (lower_to v (ta_lowlink t w) t)"
proof
  obtain ys u where s: "good adj s" "ta_stack s = ys @ v # S"
    and ys: "\<And>x. x \<in> set ys \<Longrightarrow> (x, v) \<in> (edges_of adj)\<^sup>* \<and> (v, x) \<in> (edges_of adj)\<^sup>*"
    and walked: "\<And>x. x \<in> D \<Longrightarrow> x \<in> members (ta_components s) \<or> x \<in> insert v (set ys)
               \<or> x \<in> set S \<and> ta_lowlink s v \<le> ta_indices s x"
    and S: "\<And>x. x \<in> set S \<Longrightarrow> (x, v) \<in> (edges_of adj)\<^sup>*"
    and low: "ta_lowlink s v \<le> ta_indices s v"
    and u: "u \<in> set (v # S)" "ta_indices s u = ta_lowlink s v" "(v, u) \<in> (edges_of adj)\<^sup>*"
    using wk unfolding walking_def by blast
  obtain new u' where t: "good adj t" "grows_to {} s t" "ta_indices t w = ta_index s + 1" "ta_stack t = new @ ta_stack s"
    and new: "\<And>x. x \<in> set new \<Longrightarrow> (w, x) \<in> (edges_of adj)\<^sup>* \<and> (\<exists>z\<in>set (ta_stack s). (x, z) \<in> (edges_of adj)\<^sup>*)"
    and w: "w \<in> set new \<or> w \<in> members (ta_components t)"
    and u': "u' \<in> set (w # ta_stack s)" "ta_indices t u' = ta_lowlink t w" "(w, u') \<in> (edges_of adj)\<^sup>*"
    using c unfolding visited_def by blast
  note order = good_stack_order [OF s]
  have vw: "(v, w) \<in> (edges_of adj)\<^sup>*" using e by auto
  have same: "ta_indices t x = ta_indices s x" if "x \<in> set (ys @ v # S)" for x
    using order(3) [OF that] t(2) by (simp add: grows_to_def)
  have lowv: "ta_lowlink t v = ta_lowlink s v" using order(3) [of v] t(2) by (simp add: grows_to_def)
  have home: "(x, v) \<in> (edges_of adj)\<^sup>*" if "x \<in> set (ys @ v # S)" for x
    using that ys S by auto
  have "\<forall>x\<in>set (new @ ys). (x, v) \<in> (edges_of adj)\<^sup>* \<and> (v, x) \<in> (edges_of adj)\<^sup>*"
  proof
    fix x assume "x \<in> set (new @ ys)"
    then consider "x \<in> set new" | "x \<in> set ys" by auto
    then show "(x, v) \<in> (edges_of adj)\<^sup>* \<and> (v, x) \<in> (edges_of adj)\<^sup>*"
    proof cases
      case 1
      then obtain z where z: "z \<in> set (ys @ v # S)" "(x, z) \<in> (edges_of adj)\<^sup>*" "(w, x) \<in> (edges_of adj)\<^sup>*"
        using new unfolding s(2) by blast
      from rtrancl_trans [OF z(2) home [OF z(1)]] rtrancl_trans [OF vw z(3)] show ?thesis ..
    qed (rule ys)
  qed
  moreover have "\<forall>x\<in>insert w D. x \<in> members (ta_components t) \<or> x \<in> insert v (set (new @ ys))
      \<or> x \<in> set S \<and> min (ta_lowlink t v) (ta_lowlink t w) \<le> ta_indices t x"
  proof
    fix x assume "x \<in> insert w D"
    then consider "x = w" | "x \<in> members (ta_components s)" | "x \<in> insert v (set ys)"
      | "x \<in> set S" "ta_lowlink s v \<le> ta_indices s x" using walked by blast
    then show "x \<in> members (ta_components t) \<or> x \<in> insert v (set (new @ ys))
      \<or> x \<in> set S \<and> min (ta_lowlink t v) (ta_lowlink t w) \<le> ta_indices t x"
    proof cases
      case 1 then show ?thesis using w by auto
    next
      case 2 then show ?thesis using t(2) unfolding grows_to_def by blast
    next
      case 3 then show ?thesis by auto
    next
      case 4 then show ?thesis using same [of x] lowv by (simp add: min.coboundedI1)
    qed
  qed
  moreover have "\<exists>u\<in>set (v # S). ta_indices t u = min (ta_lowlink t v) (ta_lowlink t w) \<and> (v, u) \<in> (edges_of adj)\<^sup>*"
  proof (cases "ta_lowlink s v \<le> ta_lowlink t w")
    case True
    have "ta_indices t u = ta_lowlink s v" using same [of u] u by auto
    with True u lowv show ?thesis by (intro bexI [of _ u]) (simp_all add: min_def)
  next
    case False
    have "ta_indices s v \<le> ta_index s" using s(1) by (simp add: good_def)
    with False low u' t(3) have "u' \<noteq> w" by auto
    then have m: "u' \<in> set (ys @ v # S)" using u'(1) unfolding s(2) by simp
    have "ta_indices s u' < ta_indices s v" using False low u'(2) same [OF m] by simp
    then have "u' \<in> set S" using m order(1) by (auto dest: less_not_sym)
    moreover have "(v, u') \<in> (edges_of adj)\<^sup>*" using vw u'(3) by (rule rtrancl_trans)
    ultimately show ?thesis using False u'(2) lowv by (intro bexI [of _ u']) (simp_all add: min_def)
  qed
  moreover have "min (ta_lowlink t v) (ta_lowlink t w) \<le> ta_indices t v" using low same [of v] lowv by simp
  ultimately show "walking adj v S (insert w D) (lower_to v (ta_lowlink t w) t)"
    using t(1,4) S unfolding walking_def s(2) by (intro conjI exI [of _ "new @ ys"]) simp_all
  show "grows_to {v} s (lower_to v (ta_lowlink t w) t)"
    using t(2) grows_lower by (rule search_grows_trans) auto
qed

lemma walk_back:
  assumes wk: "walking adj v S D s" and e: "w \<in> set (adj v)" and c: "ta_onStack s w"
  shows "walking adj v S (insert w D) (lower_to v (ta_indices s w) s)"
proof -
  obtain ys u where s: "good adj s" "ta_stack s = ys @ v # S"
    and ys: "\<forall>x\<in>set ys. (x, v) \<in> (edges_of adj)\<^sup>* \<and> (v, x) \<in> (edges_of adj)\<^sup>*"
    and walked: "\<And>x. x \<in> D \<Longrightarrow> x \<in> members (ta_components s) \<or> x \<in> insert v (set ys)
               \<or> x \<in> set S \<and> ta_lowlink s v \<le> ta_indices s x"
    and S: "\<forall>x\<in>set S. (x, v) \<in> (edges_of adj)\<^sup>*"
    and low: "ta_lowlink s v \<le> ta_indices s v"
    and u: "u \<in> set (v # S)" "ta_indices s u = ta_lowlink s v" "(v, u) \<in> (edges_of adj)\<^sup>*"
    using wk unfolding walking_def by blast
  have w: "w \<in> set (ys @ v # S)" using s c by (auto simp: good_def)
  have "\<exists>u\<in>set (v # S). ta_indices s u = min (ta_lowlink s v) (ta_indices s w) \<and> (v, u) \<in> (edges_of adj)\<^sup>*"
  proof (cases "ta_lowlink s v \<le> ta_indices s w")
    case True
    with u show ?thesis by (intro bexI [of _ u]) (simp_all add: min_def)
  next
    case False
    then have "w \<in> set S" using w low good_stack_order(1) [OF s, of w] by auto
    with False e show ?thesis by (intro bexI [of _ w]) (auto simp: min_def)
  qed
  moreover have "\<forall>x\<in>insert w D. x \<in> members (ta_components s) \<or> x \<in> insert v (set ys)
      \<or> x \<in> set S \<and> min (ta_lowlink s v) (ta_indices s w) \<le> ta_indices s x"
    using walked w by (fastforce intro: min.coboundedI1)
  ultimately show ?thesis
    using s S ys low unfolding walking_def by (intro conjI exI [of _ ys]) simp_all
qed

lemma walk_forward:
  assumes wk: "walking adj v S D s" and c: "ta_indices s w \<noteq> 0" "\<not> ta_onStack s w"
  shows "walking adj v S (insert w D) s"
proof -
  have "w \<in> members (ta_components s)" using wk c unfolding walking_def good_def by auto
  with wk show ?thesis unfolding walking_def by blast
qed

lemma visit_each_correct:
  assumes U: "finite U" "edges_of adj `` U \<subseteq> U" "v \<in> U"
    and child: "\<And>w s. good adj s \<Longrightarrow> ta_indices s w = 0 \<Longrightarrow> w \<in> U \<Longrightarrow> \<forall>x\<in>set (ta_stack s). (x, w) \<in> (edges_of adj)\<^sup>*
      \<Longrightarrow> unvisited U s \<le> fuel \<Longrightarrow> \<exists>t. visit fuel adj w s = Some t \<and> visited adj w s t"
    and "walking adj v S D s" "set ws \<subseteq> set (adj v)" "unvisited U s \<le> fuel"
  shows "\<exists>t. visit_each fuel adj v ws s = Some t \<and> walking adj v S (D \<union> set ws) t \<and> grows_to {v} s t"
  using assms(5-7)
proof (induction ws arbitrary: D s)
  case Nil
  then show ?case by (simp add: search_grows_refl)
next
  case (Cons w ws)
  have e: "w \<in> set (adj v)" using Cons(3) by simp
  have go: ?case if s': "walking adj v S (insert w D) s'" "grows_to {v} s s'"
      "visit_each fuel adj v (w # ws) s = visit_each fuel adj v ws s'" for s'
  proof -
    have "unvisited U s' \<le> fuel" using unvisited_mono [OF U(1) s'(2)] Cons(4) by simp
    then obtain t where "visit_each fuel adj v ws s' = Some t" "walking adj v S (insert w D \<union> set ws) t" "grows_to {v} s' t"
      using Cons(1) [OF s'(1)] Cons(3) by auto
    with s'(3) search_grows_trans [OF s'(2)] show ?thesis by auto
  qed
  show ?case
  proof (cases "ta_indices s w = 0")
    case True
    have "\<forall>x\<in>set (ta_stack s). (x, w) \<in> (edges_of adj)\<^sup>*"
      using walking_reaches [OF Cons(2)] e by (auto intro: rtrancl_into_rtrancl)
    moreover have "w \<in> U" using U(2,3) e by auto
    moreover have "good adj s" using Cons(2) by (simp add: walking_def)
    ultimately obtain t where t: "visit fuel adj w s = Some t" "visited adj w s t" using child True Cons(4) by blast
    then show ?thesis using walk_child [OF Cons(2) e t(2)] True by (intro go) auto
  next
    case False
    show ?thesis
    proof (cases "ta_onStack s w")
      case True
      show ?thesis by (rule go [OF walk_back [OF Cons(2) e True] grows_lower]) (use True False in simp)
    next
      case no: False
      show ?thesis by (rule go [OF walk_forward [OF Cons(2) False no] search_grows_refl]) (use no False in simp)
    qed
  qed
qed

lemma visit_correct:
  assumes U: "finite U" "edges_of adj `` U \<subseteq> U"
  shows "good adj s \<Longrightarrow> ta_indices s v = 0 \<Longrightarrow> v \<in> U \<Longrightarrow> \<forall>x\<in>set (ta_stack s). (x, v) \<in> (edges_of adj)\<^sup>*
    \<Longrightarrow> unvisited U s \<le> fuel \<Longrightarrow> \<exists>t. visit fuel adj v s = Some t \<and> visited adj v s t"
proof (induction fuel arbitrary: v s)
  case 0
  then have "{n \<in> U. ta_indices s n = 0} = {}" using U(1) by (simp add: unvisited_def)
  with 0 show ?case by blast
next
  case (Suc fuel)
  note e = enter_walking [OF Suc(2,3,5)]
  have "unvisited U (enter v s) \<le> fuel" using unvisited_enter [OF U(1) Suc(4,3)] Suc(6) by simp
  then obtain t1 where t1: "visit_each fuel adj v (adj v) (enter v s) = Some t1"
      "walking adj v (ta_stack s) (set (adj v)) t1" "grows_to {v} (enter v s) t1"
    using visit_each_correct [OF U Suc(4) Suc(1) conjunct1 [OF e] subset_refl] unfolding Un_empty_left by blast
  have i: "ta_indices t1 v = ta_index s + 1" using t1(3) by (auto simp: grows_to_def enter_def)
  then obtain t where t: "leave_component v t1 = Some t" "good adj t" "grows_to {} t1 t"
      "ta_indices t = ta_indices t1" "ta_lowlink t = ta_lowlink t1"
    and new: "\<exists>new. ta_stack t = new @ ta_stack s
         \<and> (\<forall>x\<in>set new. (v, x) \<in> (edges_of adj)\<^sup>* \<and> (\<exists>u\<in>set (ta_stack s). (x, u) \<in> (edges_of adj)\<^sup>*))
         \<and> (v \<in> set new \<or> v \<in> members (ta_components t))"
    using leave_visited [OF t1(2)] by auto
  have "grows_to {v} s t" using search_grows_trans [OF search_grows_trans [OF conjunct2 [OF e] t1(3)] t(3), of "{v}" "{v}"] by simp
  then have "grows_to {} s t" using Suc(3) by (rule grows_fresh)
  moreover have "ta_lowlink t1 v \<le> ta_indices t1 v"
      "\<exists>u\<in>set (v # ta_stack s). ta_indices t1 u = ta_lowlink t1 v \<and> (v, u) \<in> (edges_of adj)\<^sup>*"
    using t1(2) unfolding walking_def by blast+
  ultimately have "visited adj v s t" using t(2,4,5) i new unfolding visited_def by simp
  with t1(1) t(1) show ?case by simp
qed

lemma visit_names_correct:
  assumes U: "finite U" "edges_of adj `` U \<subseteq> U"
  shows "good adj s \<Longrightarrow> ta_stack s = [] \<Longrightarrow> set ns \<subseteq> U \<Longrightarrow> unvisited U s \<le> fuel
    \<Longrightarrow> \<exists>t. visit_names fuel adj ns s = Some t \<and> good adj t \<and> ta_stack t = [] \<and> grows_to {} s t
          \<and> set ns \<subseteq> members (ta_components t)"
proof (induction ns arbitrary: s)
  case Nil
  then show ?case by (simp add: search_grows_refl)
next
  case (Cons n ns)
  have go: ?case if s': "good adj s'" "ta_stack s' = []" "grows_to {} s s'" "n \<in> members (ta_components s')"
      "visit_names fuel adj (n # ns) s = visit_names fuel adj ns s'" for s'
  proof -
    have "unvisited U s' \<le> fuel" using unvisited_mono [OF U(1) s'(3)] Cons(5) by simp
    then obtain t where t: "visit_names fuel adj ns s' = Some t" "good adj t" "ta_stack t = []" "grows_to {} s' t"
        "set ns \<subseteq> members (ta_components t)"
      using Cons(1) [OF s'(1,2)] Cons(4) by auto
    moreover have "n \<in> members (ta_components t)" using t(4) s'(4) unfolding grows_to_def by blast
    ultimately show ?thesis using s'(5) search_grows_trans [OF s'(3) t(4)] by auto
  qed
  show ?case
  proof (cases "ta_indices s n = 0")
    case True
    have "n \<in> U" "\<forall>x\<in>set (ta_stack s). (x, n) \<in> (edges_of adj)\<^sup>*" using Cons(3,4) by simp_all
    from visit_correct [OF U Cons(2) True this Cons(5)] obtain t where t: "visit fuel adj n s = Some t" "visited adj n s t" by blast
    then have "ta_stack t = []" "n \<in> members (ta_components t)" using Cons(3) unfolding visited_def by auto
    then show ?thesis using t True by (intro go [of t]) (auto simp: visited_def)
  next
    case False
    then have "n \<in> members (ta_components s)" using Cons(2,3) by (auto simp: good_def)
    then show ?thesis using Cons(2,3) False by (intro go [of s]) (simp_all add: search_grows_refl)
  qed
qed

subsection \<open>Components and cycles\<close>

lemma sealed_acyclic:
  assumes "sealed adj cs" "\<forall>c\<in>set cs. \<exists>n. c = [n] \<and> n \<notin> set (adj n)"
  shows "edges_of adj `` members cs \<subseteq> members cs \<and> (\<forall>n\<in>members cs. (n, n) \<notin> (edges_of adj)\<^sup>+)"
  using assms
proof (induction rule: sealed.induct)
  case (more cs c)
  then obtain n where c: "c = [n]" "n \<notin> set (adj n)" by auto
  have IH: "edges_of adj `` members cs \<subseteq> members cs" "\<And>n. n \<in> members cs \<Longrightarrow> (n, n) \<notin> (edges_of adj)\<^sup>+"
    using more by auto
  have out: "set (adj n) \<subseteq> members cs" using more(2) [of n] c by auto
  have "(n, n) \<notin> (edges_of adj)\<^sup>+"
  proof
    assume "(n, n) \<in> (edges_of adj)\<^sup>+"
    then obtain w where "(n, w) \<in> edges_of adj" "(w, n) \<in> (edges_of adj)\<^sup>*" by (blast dest: tranclD)
    then have "n \<in> members cs" using out Image_closed_trancl [OF IH(1)] by blast
    with IH(2) \<open>(n, n) \<in> (edges_of adj)\<^sup>+\<close> show False by blast
  qed
  with IH out c(1) show ?case by auto
qed simp

lemma cyclic_component:
  assumes "good adj s" "c \<in> set (ta_components s)" "cyclic adj c" "x \<in> set c"
  shows "(x, x) \<in> (edges_of adj)\<^sup>+"
proof (cases "length c = 1")
  case True
  then have "c = [x]" using assms(4) by (cases c) auto
  with assms(3) have "x \<in> set (adj x)" by (simp add: cyclic_def)
  then show ?thesis by auto
next
  case False
  have c: "distinct c" "\<And>x y. x \<in> set c \<Longrightarrow> y \<in> set c \<Longrightarrow> (x, y) \<in> (edges_of adj)\<^sup>*"
    using assms(1,2) by (auto simp: good_def)
  have "1 < card (set c)" using False assms(3) distinct_card [OF c(1)] by (simp add: cyclic_def)
  then obtain y where y: "y \<in> set c" "y \<noteq> x" by (metis assms(4) card_le_Suc0_iff_eq finite_set not_less One_nat_def)
  then have "(x, y) \<in> (edges_of adj)\<^sup>+" "(y, x) \<in> (edges_of adj)\<^sup>*" using c(2) assms(4) by (auto simp: rtrancl_eq_or_trancl)
  then show ?thesis by simp
qed

lemma search_exact:
  assumes U: "finite U" "edges_of adj `` U \<subseteq> U" "set ns \<subseteq> U" "card U \<le> fuel" and out: "\<And>n. adj n \<noteq> [] \<Longrightarrow> n \<in> set ns"
  shows "\<exists>t. visit_names fuel adj ns tarjan_start = Some t
    \<and> (\<forall>c\<in>set (ta_components t). c \<noteq> [] \<and> (cyclic adj c \<longrightarrow> (\<forall>x\<in>set c. (x, x) \<in> (edges_of adj)\<^sup>+)))
    \<and> ((\<forall>c\<in>set (ta_components t). \<not> cyclic adj c) \<longrightarrow> acyclic (edges_of adj))"
proof -
  have "unvisited U tarjan_start \<le> fuel" using U(4) by (simp add: unvisited_def tarjan_start_def)
  moreover have "ta_stack tarjan_start = []" by (simp add: tarjan_start_def)
  ultimately obtain t where t: "visit_names fuel adj ns tarjan_start = Some t" "good adj t" "set ns \<subseteq> members (ta_components t)"
    using visit_names_correct [OF U(1,2) good_start _ U(3)] by blast
  have ne: "c \<noteq> []" if "c \<in> set (ta_components t)" for c using t(2) that by (simp add: good_def)
  have "acyclic (edges_of adj)" if no: "\<forall>c\<in>set (ta_components t). \<not> cyclic adj c"
  proof -
    have "\<exists>n. c = [n] \<and> n \<notin> set (adj n)" if "c \<in> set (ta_components t)" for c
    proof -
      have "length c = 1" using no ne that by (cases c) (auto simp: cyclic_def split: if_splits)
      with no that show ?thesis by (cases c) (auto simp: cyclic_def)
    qed
    then have "\<forall>n\<in>members (ta_components t). (n, n) \<notin> (edges_of adj)\<^sup>+"
      using sealed_acyclic [of adj "ta_components t"] t(2) by (auto simp: good_def)
    moreover have "n \<in> members (ta_components t)" if "(n, n) \<in> (edges_of adj)\<^sup>+" for n
    proof -
      have "adj n \<noteq> []" using tranclD [OF that] by auto
      with out t(3) show ?thesis by blast
    qed
    ultimately show ?thesis unfolding acyclic_def by blast
  qed
  with t ne cyclic_component [OF t(2)] show ?thesis by blast
qed

text \<open>The adjacency lists hold the edges of the graph between nodes that do not break cycles.\<close>

definition causal :: "graph \<Rightarrow> (string \<times> string) set" where
  "causal g = {(ep_Node (eg_From e), ep_Node (eg_To e)) |e. e \<in> set (gr_Edges g)
     \<and> (\<forall>n\<in>set (gr_Nodes g). nd_ID n = ep_Node (eg_From e) \<or> nd_ID n = ep_Node (eg_To e)
          \<longrightarrow> \<not> rx_BreaksCycles (nd_Reaction n))}"

lemma map_of_fold_update:
  "distinct (map f ns) \<Longrightarrow> map_of (fold (\<lambda>n. AList.update (f n) (h n)) ns m) k = Some b
    \<longleftrightarrow> (\<exists>n\<in>set ns. f n = k \<and> h n = b) \<or> k \<notin> f ` set ns \<and> map_of m k = Some b"
  by (induction ns arbitrary: m) auto

lemma breaks_iff:
  assumes "distinct (map nd_ID (gr_Nodes g))"
  shows "breaks g k \<longleftrightarrow> (\<exists>n\<in>set (gr_Nodes g). nd_ID n = k \<and> rx_BreaksCycles (nd_Reaction n))"
  unfolding breaks_def breaks_of_def map_of_fold_update [OF assms] by simp

lemma add_edges:
  "w \<in> set (successors (fold (add_edge g) es m) u) \<longleftrightarrow> w \<in> set (successors m u)
    \<or> (\<exists>e\<in>set es. ep_Node (eg_From e) = u \<and> ep_Node (eg_To e) = w \<and> \<not> breaks g u \<and> \<not> breaks g w)"
  by (induction es arbitrary: m) (auto simp: add_edge_def successors_def split: option.splits)

lemma no_edges_yet:
  "\<forall>u. successors m u = [] \<Longrightarrow>
    successors (fold (\<lambda>n m. if \<not> rx_BreaksCycles (nd_Reaction n) then AList.update (nd_ID n) [] m else m) ns m) u = []"
proof (induction ns arbitrary: m)
  case (Cons n ns)
  then show ?case by (auto simp: successors_def intro!: Cons(1))
qed simp

lemma successors_sorted: "set (successors (map (\<lambda>(n, ws). (n, sort_strings ws)) m) u) = set (successors m u)"
  by (auto simp: successors_def map_of_map split: option.splits)

lemma set_successors: "set (successors m u) \<subseteq> set (concat (map snd m))"
proof (cases "map_of m u")
  case (Some ws)
  then have "(u, ws) \<in> set m" by (rule map_of_SomeD)
  with Some show ?thesis by (force simp: successors_def)
qed (simp add: successors_def)

lemma edges_of_graph:
  assumes "distinct (map nd_ID (gr_Nodes g))"
  shows "edges_of (successors (adjacency_of g)) = causal g"
proof -
  have "w \<in> set (successors (adjacency_of g) u) \<longleftrightarrow>
      (\<exists>e\<in>set (gr_Edges g). ep_Node (eg_From e) = u \<and> ep_Node (eg_To e) = w \<and> \<not> breaks g u \<and> \<not> breaks g w)" for u w
  proof -
    have "successors (fold (\<lambda>n m. if \<not> rx_BreaksCycles (nd_Reaction n) then AList.update (nd_ID n) [] m else m) (gr_Nodes g) []) u = []"
      by (rule no_edges_yet) (simp add: successors_def)
    then show ?thesis unfolding adjacency_of_def Let_def successors_sorted add_edges by simp
  qed
  moreover have "(u, w) \<in> causal g \<longleftrightarrow>
      (\<exists>e\<in>set (gr_Edges g). ep_Node (eg_From e) = u \<and> ep_Node (eg_To e) = w \<and> \<not> breaks g u \<and> \<not> breaks g w)" for u w
    by (auto simp: causal_def breaks_iff [OF assms])
  ultimately show ?thesis by auto
qed

lemma cycle_search_exact:
  assumes "distinct (map nd_ID (gr_Nodes g))"
  shows "\<exists>fs. cycleFindings g = Some fs \<and> (fs = [] \<longleftrightarrow> acyclic (causal g))
    \<and> (\<forall>f\<in>set fs. fi_Severity f = Error \<and> (fi_Node f, fi_Node f) \<in> (causal g)\<^sup>+)"
proof -
  define m where "m = adjacency_of g"
  define names where "names = sort_strings (map fst m)"
  define U where "U = set (names @ concat (map snd m))"
  have nodes: "successors m n \<noteq> [] \<Longrightarrow> n \<in> set names" for n
    by (auto simp: successors_def names_def image_iff split: option.splits dest!: map_of_SomeD intro!: bexI)
  have closed: "edges_of (successors m) `` U \<subseteq> U"
    using set_successors [of m] unfolding U_def by auto
  have size: "card U \<le> length names + length (concat (map snd m))"
    unfolding U_def using card_length [of "names @ concat (map snd m)"] by simp
  have U: "finite U" "set names \<subseteq> U" by (auto simp: U_def)
  obtain t where t: "visit_names (length names + length (concat (map snd m))) (successors m) names tarjan_start = Some t"
    and c: "\<And>c. c \<in> set (ta_components t) \<Longrightarrow> c \<noteq> []"
      "\<And>c x. c \<in> set (ta_components t) \<Longrightarrow> cyclic (successors m) c \<Longrightarrow> x \<in> set c \<Longrightarrow> (x, x) \<in> (edges_of (successors m))\<^sup>+"
      "(\<forall>c\<in>set (ta_components t). \<not> cyclic (successors m) c) \<Longrightarrow> acyclic (edges_of (successors m))"
    using search_exact [OF U(1) closed U(2) size nodes] by blast
  define fs where "fs = map cycle_finding (filter (cyclic (successors m)) (ta_components t))"
  have "cycleFindings g = Some fs"
    unfolding cycleFindings_def Let_def m_def [symmetric] names_def [symmetric] t by (simp add: fs_def)
  moreover have E: "edges_of (successors m) = causal g" using edges_of_graph [OF assms] by (simp add: m_def)
  moreover have f: "fi_Severity f = Error \<and> (fi_Node f, fi_Node f) \<in> (causal g)\<^sup>+" if "f \<in> set fs" for f
    using that c(1,2) unfolding E by (auto simp: fs_def cycle_finding_def)
  moreover have "fs = [] \<longleftrightarrow> acyclic (causal g)"
  proof
    assume "fs = []"
    then show "acyclic (causal g)" using c(3) unfolding E by (auto simp: fs_def filter_empty_conv)
  next
    assume "acyclic (causal g)"
    then show "fs = []" using f by (cases fs) (auto simp: acyclic_def)
  qed
  ultimately show ?thesis by blast
qed


text \<open>
  C16. The search for causal cycles is exact. On every structurally valid graph it returns (it neither
  runs out of stack nor revisits for ever), and it reports nothing exactly when no cycle of edges runs
  through nodes of which none breaks cycles; each finding is an error that names a node on such a cycle.
\<close>

theorem causal_cycles_are_found_exactly:
  assumes "validateStructure g = None"
  shows "\<exists>fs. cycleFindings g = Some fs \<and> (fs = [] \<longleftrightarrow> acyclic (causal g))
    \<and> (\<forall>f\<in>set fs. fi_Severity f = Error \<and> (fi_Node f, fi_Node f) \<in> (causal g)\<^sup>+)"
  by (rule cycle_search_exact [OF accepted_nodes [OF assms]])

end
