(* ===== verification/Graph_Check.thy ===== *)
theory Graph_Check
  imports Graph_Cycles
begin

section \<open>Graph checks\<close>

text \<open>
  The rest of \<^verbatim>\<open>graph/validate/validate.go\<close>: external effects need a connected authority input, and the
  completeness rules of the profiles. A set of strings that the code builds as a map is the list of
  its members. The order of the findings, which the code sorts by a key that includes their text, is
  that of their discovery.
\<close>

record profile =
  pf_Name :: string
  pf_RequireExportedBoundary :: bool
  pf_RequireTerminalOutcome :: bool
  pf_RequireInterruptDecision :: bool
  pf_RequireConsumedOutcomes :: bool
  pf_WarnLargeLosslessQueueDepth :: int

definition Core :: profile where
  "Core = \<lparr>pf_Name = ''core'', pf_RequireExportedBoundary = False, pf_RequireTerminalOutcome = False,
     pf_RequireInterruptDecision = False, pf_RequireConsumedOutcomes = False, pf_WarnLargeLosslessQueueDepth = 0\<rparr>"

definition demanding :: "string \<Rightarrow> int \<Rightarrow> profile" where
  "demanding n depth = \<lparr>pf_Name = n, pf_RequireExportedBoundary = True, pf_RequireTerminalOutcome = True,
     pf_RequireInterruptDecision = True, pf_RequireConsumedOutcomes = True, pf_WarnLargeLosslessQueueDepth = depth\<rparr>"

definition RealtimeAgent :: profile where "RealtimeAgent = demanding ''realtime-agent'' 128"
definition ConversationalVoice :: profile where "ConversationalVoice = demanding ''conversational-voice'' 64"
definition ComputerUse :: profile where "ComputerUse = demanding ''computer-use'' 64"

definition endpointGroup :: "endpoint \<Rightarrow> string" where
  "endpointGroup ep = ep_Node ep @ ''.'' @ ep_Port ep"

fun containsNamedType :: "ty \<Rightarrow> string \<Rightarrow> bool" where
  "containsNamedType (Type n as v) name = (n = name \<or> list_ex (\<lambda>a. containsNamedType a name) as)"

subsection \<open>Authority\<close>

definition connectedInputs :: "graph \<Rightarrow> string list" where
  "connectedInputs g = map (\<lambda>e. endpointGroup (eg_To e)) (gr_Edges g)
     @ map (\<lambda>b. endpointGroup (bd_Endpoint b)) (filter (\<lambda>b. bd_Direction b = InputBoundary) (gr_Boundaries g))"

definition authorityPorts :: "node \<Rightarrow> effect \<Rightarrow> string list" where
  "authorityPorts n e =
     map po_Name (filter (\<lambda>p. po_Direction p = Input \<and> containsNamedType (po_Type p) (ef_Authority e)) (nd_Ports n))"

definition node_finding :: "string \<Rightarrow> string \<Rightarrow> node \<Rightarrow> finding" where
  "node_finding severity code n = \<lparr>fi_Severity = severity, fi_Code = code, fi_Node = nd_ID n, fi_Edge = [], fi_Boundary = []\<rparr>"

definition effect_findings :: "string list \<Rightarrow> node \<Rightarrow> effect \<Rightarrow> finding list" where
  "effect_findings connected n e =
     (if \<not> ef_External e then []
      else if authorityPorts n e = [] then [node_finding Error ''E_AUTHORITY_PORT'' n]
      else if \<not> list_ex (\<lambda>p. nd_ID n @ ''.'' @ p \<in> set connected) (authorityPorts n e)
      then [node_finding Error ''E_AUTHORITY_UNCONNECTED'' n]
      else [])"

definition authorityFindings :: "graph \<Rightarrow> finding list" where
  "authorityFindings g =
     concat (map (\<lambda>n. concat (map (effect_findings (connectedInputs g) n) (nd_Effects n))) (gr_Nodes g))"

subsection \<open>Profiles\<close>

definition explicitTerminalSink :: "node \<Rightarrow> bool" where
  "explicitTerminalSink n \<longleftrightarrow> id_Name (nd_Element n) = ''flow.Drop'' \<or> id_Name (nd_Element n) = ''flow.IgnoreInterrupt''"

definition usedOutputs :: "graph \<Rightarrow> string list" where
  "usedOutputs g = map (\<lambda>e. endpointGroup (eg_From e)) (gr_Edges g)
     @ map (\<lambda>b. endpointGroup (bd_Endpoint b)) (filter (\<lambda>b. bd_Direction b \<noteq> InputBoundary) (gr_Boundaries g))"

definition edge_findings :: "profile \<Rightarrow> ir_edge \<Rightarrow> finding list" where
  "edge_findings pf e =
     (if 0 < pf_WarnLargeLosslessQueueDepth pf \<and> eg_Delivery e = Lossless \<and> pf_WarnLargeLosslessQueueDepth pf < eg_Depth e
      then [\<lparr>fi_Severity = Warning, fi_Code = ''W_DEEP_QUEUE'', fi_Node = [], fi_Edge = eg_ID e, fi_Boundary = []\<rparr>] else [])"

definition reaction_findings :: "profile \<Rightarrow> string list \<Rightarrow> string list \<Rightarrow> node \<Rightarrow> finding list" where
  "reaction_findings pf outputs inputs n =
     (if pf_RequireTerminalOutcome pf \<and> rx_Triggers (nd_Reaction n) \<noteq> [] \<and> rx_Outcomes (nd_Reaction n) = []
         \<and> \<not> explicitTerminalSink n
      then [node_finding Warning ''W_NO_TERMINAL_OUTCOME'' n] else [])
     @ (if pf_RequireInterruptDecision pf \<and> rx_Triggers (nd_Reaction n) \<noteq> []
        then map (\<lambda>_. node_finding Warning ''W_INTERRUPT_UNCONNECTED'' n)
               (filter (\<lambda>i. nd_ID n @ ''.'' @ i \<notin> set inputs) (rx_Interrupts (nd_Reaction n))) else [])
     @ (if pf_RequireConsumedOutcomes pf
        then map (\<lambda>_. node_finding Warning ''W_OUTCOME_UNCONSUMED'' n)
               (filter (\<lambda>out. nd_ID n @ ''.'' @ out \<notin> set outputs) (rx_Outcomes (nd_Reaction n))) else [])"

definition profileFindings :: "graph \<Rightarrow> profile \<Rightarrow> finding list" where
  "profileFindings g pf =
     (if pf_Name pf = [] \<or> pf_Name pf = pf_Name Core then []
      else (if pf_RequireExportedBoundary pf \<and> gr_Boundaries g = []
            then [\<lparr>fi_Severity = Warning, fi_Code = ''W_NO_BOUNDARY'', fi_Node = [], fi_Edge = [], fi_Boundary = []\<rparr>] else [])
        @ concat (map (edge_findings pf) (gr_Edges g))
        @ concat (map (reaction_findings pf (usedOutputs g) (connectedInputs g)) (gr_Nodes g)))"

subsection \<open>All findings of a valid graph\<close>

definition valid_findings :: "graph \<Rightarrow> profile \<Rightarrow> finding list option" where
  "valid_findings g pf =
     map_option (\<lambda>cycles. cycles @ authorityFindings g @ profileFindings g pf) (cycleFindings g)"

definition Errors :: "finding list \<Rightarrow> finding list" where
  "Errors fs = filter (\<lambda>f. fi_Severity f = Error) fs"

text \<open>A node that may act on the world has an input that carries the authority, and something is connected to it.\<close>

definition guarded :: "graph \<Rightarrow> bool" where
  "guarded g \<longleftrightarrow> (\<forall>n\<in>set (gr_Nodes g). \<forall>e\<in>set (nd_Effects n). ef_External e \<longrightarrow>
     (\<exists>p\<in>set (nd_Ports n). po_Direction p = Input \<and> containsNamedType (po_Type p) (ef_Authority e)
        \<and> 0 < uses_of (uses g) (nd_ID n) (po_Name p)))"

definition dotless :: "graph \<Rightarrow> bool" where
  "dotless g \<longleftrightarrow> (\<forall>n\<in>set (gr_Nodes g). \<forall>p\<in>set (nd_Ports n). CHR ''.'' \<notin> set (po_Name p))"

lemma append_sep_inject:
  assumes "c \<notin> set p" "c \<notin> set q"
  shows "a @ c # p = b @ c # q \<longleftrightarrow> a = b \<and> p = q"
proof
  assume e: "a @ c # p = b @ c # q"
  have "takeWhile (\<lambda>x. x \<noteq> c) (rev (a @ c # p)) = rev p" "takeWhile (\<lambda>x. x \<noteq> c) (rev (b @ c # q)) = rev q"
    using assms by (simp_all add: takeWhile_append)
  with e have "p = q" by simp
  with e show "a = b \<and> p = q" by simp
qed simp

lemma declared_once:
  assumes "validateStructure g = None" "declared g n p a" "declared g n p b"
  shows "a = b"
proof -
  obtain nodes ports w connections counts scopes where
    n: "nodes_loop (gr_Nodes g) [] [] = Inr (nodes, ports)" and "edges_loop ports (gr_Edges g) [] ([], []) = Inr w"
    "boundaries_loop ports (gr_Boundaries g) [] w = Inr (connections, counts)" "minimum_loop counts ports = None"
    "scopes_loop nodes ports (gr_Scopes g) [] = Inr scopes" "parents_loop scopes (gr_Scopes g) = None"
    "containment_loop scopes (gr_Scopes g) = None"
    by (rule accepted [OF assms(1)])
  have "map_of ports (n, p) = Some a" "map_of ports (n, p) = Some b"
    using nodes_declared [OF n] assms(2,3) by (auto simp: declared_def)
  then show ?thesis by simp
qed

lemma connected_iff:
  assumes v: "validateStructure g = None" and d: "dotless g" and n: "n \<in> set (gr_Nodes g)"
    and p: "p \<in> set (nd_Ports n)" "po_Direction p = Input"
  shows "nd_ID n @ ''.'' @ po_Name p \<in> set (connectedInputs g) \<longleftrightarrow> 0 < uses_of (uses g) (nd_ID n) (po_Name p)"
proof -
  have w: "\<And>e. e \<in> set (gr_Edges g) \<Longrightarrow> joins g Output (eg_From e) (eg_Type e) \<and> joins g Input (eg_To e) (eg_Type e)"
    "\<And>b. b \<in> set (gr_Boundaries g) \<Longrightarrow>
       joins g (if bd_Direction b = InputBoundary then Input else Output) (bd_Endpoint b) (bd_Type b)"
    using accepted_wiring [OF v] by blast+
  have dec: "declared g (nd_ID n) (po_Name p) p" using n p by (auto simp: declared_def)
  have port: "CHR ''.'' \<notin> set (ep_Port ep)" if j: "joins g want ep t" for want ep t
  proof -
    obtain nd pt where "nd \<in> set (gr_Nodes g)" "pt \<in> set (nd_Ports nd)" "po_Name pt = ep_Port ep"
      using j by (auto simp: joins_def declared_def)
    with d show ?thesis unfolding dotless_def by metis
  qed
  have group: "endpointGroup ep = nd_ID n @ ''.'' @ po_Name p \<longleftrightarrow> ep_Node ep = nd_ID n \<and> ep_Port ep = po_Name p"
    if "joins g want ep t" for want ep t
    using append_sep_inject [OF port [OF that], of "po_Name p"] d n p(1) by (auto simp: endpointGroup_def dotless_def)
  have no_output: "\<not> (ep_Node ep = nd_ID n \<and> ep_Port ep = po_Name p)" if j: "joins g Output ep t" for ep t
  proof
    assume e: "ep_Node ep = nd_ID n \<and> ep_Port ep = po_Name p"
    obtain pt where "declared g (ep_Node ep) (ep_Port ep) pt" "po_Direction pt = Output" using j unfolding joins_def by blast
    with e declared_once [OF v dec, of pt] p(2) show False by (simp add: Input_def Output_def)
  qed
  have "nd_ID n @ ''.'' @ po_Name p \<in> set (connectedInputs g) \<longleftrightarrow>
      (\<exists>e\<in>set (gr_Edges g). endpointGroup (eg_To e) = nd_ID n @ ''.'' @ po_Name p)
      \<or> (\<exists>b\<in>set (gr_Boundaries g). bd_Direction b = InputBoundary \<and> endpointGroup (bd_Endpoint b) = nd_ID n @ ''.'' @ po_Name p)"
    unfolding connectedInputs_def by (simp add: image_iff) metis
  also have "\<dots> \<longleftrightarrow> (\<exists>ep\<in>set (uses g). ep_Node ep = nd_ID n \<and> ep_Port ep = po_Name p)"
  proof
    assume "(\<exists>e\<in>set (gr_Edges g). endpointGroup (eg_To e) = nd_ID n @ ''.'' @ po_Name p)
      \<or> (\<exists>b\<in>set (gr_Boundaries g). bd_Direction b = InputBoundary \<and> endpointGroup (bd_Endpoint b) = nd_ID n @ ''.'' @ po_Name p)"
    then consider e where "e \<in> set (gr_Edges g)" "endpointGroup (eg_To e) = nd_ID n @ ''.'' @ po_Name p"
      | b where "b \<in> set (gr_Boundaries g)" "endpointGroup (bd_Endpoint b) = nd_ID n @ ''.'' @ po_Name p" by blast
    then show "\<exists>ep\<in>set (uses g). ep_Node ep = nd_ID n \<and> ep_Port ep = po_Name p"
    proof cases
      case 1
      then have "ep_Node (eg_To e) = nd_ID n \<and> ep_Port (eg_To e) = po_Name p" using group w(1) by blast
      with 1(1) show ?thesis by (intro bexI [of _ "eg_To e"]) (auto simp: uses_def edge_ends_def)
    next
      case 2
      then have "ep_Node (bd_Endpoint b) = nd_ID n \<and> ep_Port (bd_Endpoint b) = po_Name p" using group w(2) by blast
      with 2(1) show ?thesis by (intro bexI [of _ "bd_Endpoint b"]) (auto simp: uses_def)
    qed
  next
    assume "\<exists>ep\<in>set (uses g). ep_Node ep = nd_ID n \<and> ep_Port ep = po_Name p"
    then obtain ep where ep: "ep \<in> set (uses g)" "ep_Node ep = nd_ID n \<and> ep_Port ep = po_Name p" by blast
    have spelled: "endpointGroup ep = nd_ID n @ ''.'' @ po_Name p" using ep(2) by (simp add: endpointGroup_def)
    from ep(1) consider e where "e \<in> set (gr_Edges g)" "ep = eg_From e" | e where "e \<in> set (gr_Edges g)" "ep = eg_To e"
      | b where "b \<in> set (gr_Boundaries g)" "ep = bd_Endpoint b" by (auto simp: uses_def edge_ends_def)
    then show "(\<exists>e\<in>set (gr_Edges g). endpointGroup (eg_To e) = nd_ID n @ ''.'' @ po_Name p)
      \<or> (\<exists>b\<in>set (gr_Boundaries g). bd_Direction b = InputBoundary \<and> endpointGroup (bd_Endpoint b) = nd_ID n @ ''.'' @ po_Name p)"
    proof cases
      case 1
      then show ?thesis using no_output w(1) ep(2) by blast
    next
      case 2
      then show ?thesis using spelled by blast
    next
      case 3
      show ?thesis
      proof (cases "bd_Direction b = InputBoundary")
        case True
        then show ?thesis using 3 spelled by blast
      next
        case False
        then show ?thesis using no_output w(2) [OF 3(1)] ep(2) unfolding 3(2) by auto
      qed
    qed
  qed
  also have "\<dots> \<longleftrightarrow> 0 < uses_of (uses g) (nd_ID n) (po_Name p)"
    by (auto simp: uses_of_def filter_empty_conv)
  finally show ?thesis .
qed

lemma effect_quiet:
  "effect_findings connected n e = [] \<longleftrightarrow> (ef_External e \<longrightarrow>
     (\<exists>p\<in>set (nd_Ports n). po_Direction p = Input \<and> containsNamedType (po_Type p) (ef_Authority e)
        \<and> nd_ID n @ ''.'' @ po_Name p \<in> set connected))"
  by (auto simp: effect_findings_def authorityPorts_def list_ex_iff filter_empty_conv)

lemma authority_exact:
  assumes "validateStructure g = None" "dotless g"
  shows "authorityFindings g = [] \<longleftrightarrow> guarded g"
proof -
  have "authorityFindings g = [] \<longleftrightarrow>
      (\<forall>n\<in>set (gr_Nodes g). \<forall>e\<in>set (nd_Effects n). effect_findings (connectedInputs g) n e = [])"
    by (auto simp: authorityFindings_def)
  also have "\<dots> \<longleftrightarrow> guarded g"
    unfolding effect_quiet guarded_def using connected_iff [OF assms] by (intro ball_cong refl imp_cong bex_cong) blast
  finally show ?thesis .
qed

lemma authority_errors: "Errors (authorityFindings g) = authorityFindings g"
  by (auto simp: Errors_def authorityFindings_def effect_findings_def node_finding_def filter_id_conv)

lemma profile_errors: "Errors (profileFindings g pf) = []"
  by (auto simp: Errors_def profileFindings_def edge_findings_def reaction_findings_def node_finding_def filter_empty_conv
      Error_def Warning_def split: if_splits)

text \<open>
  C17. A structurally valid graph has no errors, under any profile, exactly when it can be mounted
  safely: no cycle runs through nodes of which none breaks cycles, and every node with an external
  effect has an input port that carries the authority the effect names, with an edge or boundary
  connected to it. Profiles only ever add warnings. (Port names contain no dot, as descriptors demand.)
\<close>

theorem no_errors_means_sound:
  assumes "validateStructure g = None" and "dotless g"
  shows "\<exists>fs. valid_findings g pf = Some fs \<and> (Errors fs = [] \<longleftrightarrow> acyclic (causal g) \<and> guarded g)"
proof -
  obtain cs where cs: "cycleFindings g = Some cs" "cs = [] \<longleftrightarrow> acyclic (causal g)" "\<forall>f\<in>set cs. fi_Severity f = Error"
    using cycle_search_exact [OF accepted_nodes [OF assms(1)]] by blast
  have "Errors cs = cs" using cs(3) by (simp add: Errors_def)
  then have "Errors (cs @ authorityFindings g @ profileFindings g pf) = cs @ authorityFindings g"
    using authority_errors [of g] profile_errors [of g pf] by (simp add: Errors_def)
  with cs authority_exact [OF assms] show ?thesis by (simp add: valid_findings_def)
qed

subsection \<open>Examples\<close>

text \<open>
  Three nodes: a source of events, a policy that grants authority, and a tool with an external effect,
  wired source to policy to tool, with a trigger from the tool back to the source, which breaks the cycle.
\<close>

definition example_digest :: string where
  "example_digest = ''sha256:'' @ replicate 64 (CHR ''0'')"

definition example_identity :: identity where
  "example_identity = \<lparr>id_Name = ''flow.Node'', id_Revision = 1, id_Digest = example_digest\<rparr>"

definition event_type :: "string \<Rightarrow> ty" where
  "event_type payload = Type ''Event'' [Type payload [] []] []"

definition example_port :: "string \<Rightarrow> string \<Rightarrow> string \<Rightarrow> ir_port" where
  "example_port n direction payload = \<lparr>po_Name = n, po_Direction = direction, po_Type = event_type payload,
     po_Cardinality = One, po_Required = True, po_MinConnections = 0, po_LossAllowed = False, po_DefaultDepth = 0, po_Lanes = []\<rparr>"

definition example_node :: "string \<Rightarrow> ir_port list \<Rightarrow> effect list \<Rightarrow> bool \<Rightarrow> node" where
  "example_node n ports effects brk = \<lparr>nd_ID = n, nd_Element = example_identity, nd_Implementation = [],
     nd_ConfigReference = [], nd_ConfigDigest = [], nd_DeploymentReference = [], nd_DeploymentDigest = [], nd_Ports = ports,
     nd_Reaction = \<lparr>rx_Triggers = [], rx_SampledState = [], rx_Interrupts = [], rx_Outcomes = [], rx_MaxConcurrency = 0,
       rx_BreaksCycles = brk\<rparr>, nd_StateSchema = [], nd_StateTransfer = None, nd_ConfigSchema = [], nd_Dependencies = [],
     nd_Effects = effects\<rparr>"

definition example_edge :: "string \<Rightarrow> string \<Rightarrow> string \<Rightarrow> string \<Rightarrow> string \<Rightarrow> string \<Rightarrow> ir_edge" where
  "example_edge e n p m q payload = \<lparr>eg_ID = e, eg_From = \<lparr>ep_Node = n, ep_Port = p, ep_Lane = []\<rparr>,
     eg_To = \<lparr>ep_Node = m, ep_Port = q, ep_Lane = []\<rparr>, eg_Type = event_type payload, eg_Delivery = Lossless,
     eg_Ordering = ''fifo'', eg_Depth = 8\<rparr>"

definition example_effect :: effect where
  "example_effect = \<lparr>ef_Name = ''screen'', ef_External = True, ef_Authority = ''ui.Grant'', ef_Reversible = False\<rparr>"

definition example_graph :: "node list \<Rightarrow> ir_edge list \<Rightarrow> boundary list \<Rightarrow> graph" where
  "example_graph nodes edges boundaries = \<lparr>gr_FormatVersion = 1, gr_ID = ''demo'', gr_Revision = 1, gr_Fingerprint = [], gr_Lineage = [],
     gr_Nodes = nodes, gr_Edges = edges, gr_Boundaries = boundaries,
     gr_Scopes = [\<lparr>sc_ID = ''top'', sc_Parent = [], sc_Composite = example_identity, sc_Nodes = map nd_ID nodes, sc_Boundaries = []\<rparr>,
                  \<lparr>sc_ID = ''in'', sc_Parent = ''top'', sc_Composite = example_identity, sc_Nodes = [nd_ID (hd nodes)], sc_Boundaries = []\<rparr>]\<rparr>"

definition loop_graph :: "bool \<Rightarrow> graph" where
  "loop_graph brk = example_graph
     [example_node ''source'' [example_port ''out'' Output ''e'', example_port ''back'' Input ''e''] [] brk,
      example_node ''policy'' [example_port ''in'' Input ''e'', example_port ''grant'' Output ''ui.Grant''] [] False,
      example_node ''tool'' [example_port ''grant'' Input ''ui.Grant'', example_port ''did'' Output ''e''] [example_effect] False]
     [example_edge ''e1'' ''source'' ''out'' ''policy'' ''in'' ''e'', example_edge ''e2'' ''policy'' ''grant'' ''tool'' ''grant'' ''ui.Grant'',
      example_edge ''e3'' ''tool'' ''did'' ''source'' ''back'' ''e''] []"

lemma loop_graph_valid: "validateStructure (loop_graph brk) = None"
  by (cases brk) code_simp+

theorem accepted_graphs_are_wired_witness:
  "distinct (uses (loop_graph True)) \<and> length (uses (loop_graph True)) = 6
    \<and> joins (loop_graph True) Output \<lparr>ep_Node = ''policy'', ep_Port = ''grant'', ep_Lane = []\<rparr> (event_type ''ui.Grant'')"
  using accepted_graphs_are_wired [OF loop_graph_valid, of True]
  by (auto simp: loop_graph_def example_graph_def example_edge_def uses_def edge_ends_def)

theorem accepted_scopes_nest_witness:
  "acyclic {(sc_ID s, sc_Parent s) |s. s \<in> set (gr_Scopes (loop_graph True)) \<and> sc_Parent s \<noteq> []}
    \<and> length (filter (\<lambda>s. sc_Parent s \<noteq> []) (gr_Scopes (loop_graph True))) = 1"
  using accepted_scopes_nest [OF loop_graph_valid, of True] by (simp add: loop_graph_def example_graph_def)

theorem causal_cycles_are_found_exactly_witness:
  "\<exists>f fs. cycleFindings (loop_graph True) = Some [] \<and> acyclic (causal (loop_graph True))
    \<and> cycleFindings (loop_graph False) = Some (f # fs) \<and> (''policy'', ''policy'') \<in> (causal (loop_graph False))\<^sup>+"
proof -
  have c: "cycleFindings (loop_graph True) = Some []" by code_simp
  have d: "cycleFindings (loop_graph False) = Some [cycle_finding [''policy'', ''source'', ''tool'']]" by code_simp
  from causal_cycles_are_found_exactly [OF loop_graph_valid, of True] c
    causal_cycles_are_found_exactly [OF loop_graph_valid, of False] d
  show ?thesis by (simp add: cycle_finding_def)
qed

theorem no_errors_means_sound_witness:
  "acyclic (causal (loop_graph True)) \<and> guarded (loop_graph True) \<and> \<not> acyclic (causal (loop_graph False))"
proof -
  have d: "dotless (loop_graph brk)" for brk
    by (simp add: dotless_def loop_graph_def example_graph_def example_node_def example_port_def)
  have c: "map_option Errors (valid_findings (loop_graph True) RealtimeAgent) = Some []" by code_simp
  have e: "map_option (length \<circ> Errors) (valid_findings (loop_graph False) Core) = Some 1" by code_simp
  from no_errors_means_sound [OF loop_graph_valid d, of True RealtimeAgent] c
    no_errors_means_sound [OF loop_graph_valid d, of False Core] e
  have "acyclic (causal (loop_graph True)) \<and> guarded (loop_graph True)"
    and "\<not> (acyclic (causal (loop_graph False)) \<and> guarded (loop_graph False))" by auto
  moreover have "guarded (loop_graph False)"
    by (simp add: guarded_def loop_graph_def example_graph_def example_node_def example_port_def event_type_def example_effect_def
        uses_of_def uses_def edge_ends_def example_edge_def)
  ultimately show ?thesis by blast
qed

text \<open>
  With dots in port names the spelling of an endpoint is ambiguous, and the check can be fooled: here
  nothing is connected to the authority port \<open>c\<close> of node \<open>a.b\<close>, but an input of port \<open>b.c\<close> of
  node \<open>a\<close> is spelled the same. The graph passes every check; nothing in the IR forbids such names.
\<close>

definition dotted_graph :: graph where
  "dotted_graph = example_graph
     [example_node ''a'' [example_port ''b.c'' Input ''e''] [] False,
      example_node ''a.b'' [(example_port ''c'' Input ''ui.Grant'')\<lparr>po_Required := False\<rparr>] [example_effect] False] []
     [\<lparr>bd_Name = ''x'', bd_Direction = InputBoundary, bd_Endpoint = \<lparr>ep_Node = ''a'', ep_Port = ''b.c'', ep_Lane = []\<rparr>,
       bd_Type = event_type ''e''\<rparr>]"

lemma dotted_names_bypass_authority:
  "validateStructure dotted_graph = None \<and> valid_findings dotted_graph Core = Some [] \<and> \<not> guarded dotted_graph"
proof -
  have "validateStructure dotted_graph = None" "valid_findings dotted_graph Core = Some []" by code_simp+
  moreover have "\<not> guarded dotted_graph"
    by (simp add: guarded_def dotted_graph_def example_graph_def example_node_def example_port_def example_effect_def
        uses_of_def uses_def edge_ends_def)
  ultimately show ?thesis by blast
qed

end
