(* ===== verification/Unify.thy ===== *)
theory Unify
  imports Elements
begin

section \<open>Type inference of port types\<close>

text \<open>
  \<^verbatim>\<open>graph/unify.go\<close>: the unifier that infers generic port types from connections. Bindings are
  triangular: a variable is bound to a term whose variables may be bound in turn, and terms are
  dereferenced as they are met. The recursions on dereferenced terms follow the bindings and not the
  data, so they run on fuel, \<^const>\<open>None\<close> being that it was used up; that enough fuel exists is proved from
  bindings that the occurs check keeps free of cycles. What the unifier computes is stated by its
  solutions: the assignments of types to variables under which every bound variable equals its term.
\<close>

subsection \<open>Terms and bindings\<close>

datatype type_term = Term (tt_name: string) (tt_arguments: "type_term list") (tt_variable: string) (tt_label: string)

type_synonym bindings = "(string, type_term) gomap"

datatype unify_error = RecursiveType type_term type_term | NotAssignable type_term type_term

fun scopedType :: "string \<Rightarrow> ty \<Rightarrow> type_term" where
  "scopedType scope (Type name arguments variable) =
     (if variable \<noteq> [] then Term [] [] (scope @ CHR 0x00 # variable) variable
      else Term name (map (scopedType scope) arguments) [] [])"

function dereference_loop :: "bindings \<Rightarrow> string goset \<Rightarrow> type_term \<Rightarrow> type_term" where
  "dereference_loop b seen t =
     (if tt_variable t = [] then t
      else if gm_has seen (tt_variable t) then t
      else case map_of b (tt_variable t) of
        None \<Rightarrow> t
      | Some bound \<Rightarrow> dereference_loop b (gs_add (tt_variable t) seen) bound)"
  by pat_completeness auto
termination
proof (relation "measure (\<lambda>(b, seen, t). card (fst ` set b - fst ` set seen))", simp)
  fix b :: bindings and seen :: "string goset" and t bound
  assume v: "\<not> gm_has seen (tt_variable t)" and k: "map_of b (tt_variable t) = Some bound"
  let ?rest = "fst ` set b - fst ` set seen"
  have "fst ` set (gs_add (tt_variable t) seen) = insert (tt_variable t) (fst ` set seen)"
    using AList.dom_update [of "tt_variable t" "()" seen] by (simp add: dom_map_of_conv_image_fst)
  then have "fst ` set b - fst ` set (gs_add (tt_variable t) seen) = ?rest - {tt_variable t}" by auto
  moreover have "map_of seen (tt_variable t) = None" using v by blast
  then have "tt_variable t \<in> ?rest" using map_of_SomeD [OF k] by (force simp: map_of_eq_None_iff)
  ultimately show "((b, gs_add (tt_variable t) seen, bound), (b, seen, t)) \<in> measure (\<lambda>(b, seen, t). card (fst ` set b - fst ` set seen))"
    using card_Diff1_less [of ?rest "tt_variable t"] by simp
qed

declare dereference_loop.simps [simp del]

definition dereference :: "bindings \<Rightarrow> type_term \<Rightarrow> type_term" where
  "dereference b t = dereference_loop b [] t"

fun occurs :: "nat \<Rightarrow> bindings \<Rightarrow> string \<Rightarrow> type_term \<Rightarrow> bool option"
  and occurs_any :: "nat \<Rightarrow> bindings \<Rightarrow> string \<Rightarrow> type_term list \<Rightarrow> bool option" where
  "occurs 0 b x t = None"
| "occurs (Suc fuel) b x t =
     (let t' = dereference b t
      in if tt_variable t' \<noteq> [] then Some (tt_variable t' = x) else occurs_any fuel b x (tt_arguments t'))"
| "occurs_any fuel b x [] = Some False"
| "occurs_any fuel b x (a # as) =
     (case occurs fuel b x a of
        None \<Rightarrow> None
      | Some True \<Rightarrow> Some True
      | Some False \<Rightarrow> occurs_any fuel b x as)"

text \<open>
  Binding a variable that stands for itself; \<^verbatim>\<open>left\<close> is a variable. When only the
  right side is a variable \<open>unify\<close> swaps its arguments and calls itself, as the code does.
\<close>

definition bind_variable :: "nat \<Rightarrow> bindings \<Rightarrow> type_term \<Rightarrow> type_term \<Rightarrow> (unify_error, bindings) result option" where
  "bind_variable fuel b left right =
     (if tt_variable right = tt_variable left then Some (Inr b)
      else case occurs fuel b (tt_variable left) right of
        None \<Rightarrow> None
      | Some True \<Rightarrow> Some (Inl (RecursiveType left right))
      | Some False \<Rightarrow> Some (Inr (AList.update (tt_variable left) right b)))"

fun unify :: "nat \<Rightarrow> bindings \<Rightarrow> type_term \<Rightarrow> type_term \<Rightarrow> (unify_error, bindings) result option"
  and unify_all :: "nat \<Rightarrow> bindings \<Rightarrow> type_term list \<Rightarrow> type_term list \<Rightarrow> (unify_error, bindings) result option" where
  "unify 0 b left right = None"
| "unify (Suc fuel) b left right =
     (let l = dereference b left; r = dereference b right
      in if tt_variable l \<noteq> [] then bind_variable fuel b l r
         else if tt_variable r \<noteq> [] then unify fuel b r l
         else if tt_name l \<noteq> tt_name r \<or> length (tt_arguments l) \<noteq> length (tt_arguments r)
         then Some (Inl (NotAssignable l r))
         else unify_all fuel b (tt_arguments l) (tt_arguments r))"
| "unify_all fuel b (l # ls) (r # rs) =
     (case unify fuel b l r of
        None \<Rightarrow> None
      | Some (Inl e) \<Rightarrow> Some (Inl e)
      | Some (Inr b') \<Rightarrow> unify_all fuel b' ls rs)"
| "unify_all fuel b _ _ = Some (Inr b)"

text \<open>A failed attempt leaves the bindings as they were.\<close>

definition tryUnify :: "nat \<Rightarrow> bindings \<Rightarrow> type_term \<Rightarrow> type_term \<Rightarrow> (bindings \<times> unify_error option) option" where
  "tryUnify fuel b left right =
     (case unify fuel b left right of
        None \<Rightarrow> None
      | Some (Inl e) \<Rightarrow> Some (b, Some e)
      | Some (Inr b') \<Rightarrow> Some (b', None))"

fun resolve :: "nat \<Rightarrow> bindings \<Rightarrow> type_term \<Rightarrow> ty option"
  and resolve_all :: "nat \<Rightarrow> bindings \<Rightarrow> type_term list \<Rightarrow> ty list option" where
  "resolve 0 b t = None"
| "resolve (Suc fuel) b t =
     (let t' = dereference b t
      in if tt_variable t' \<noteq> [] then Some (Type [] [] (tt_label t'))
         else map_option (\<lambda>as. Type (tt_name t') as []) (resolve_all fuel b (tt_arguments t')))"
| "resolve_all fuel b [] = Some []"
| "resolve_all fuel b (a # as) =
     (case resolve fuel b a of
        None \<Rightarrow> None
      | Some r \<Rightarrow> map_option ((#) r) (resolve_all fuel b as))"

subsection \<open>Solutions\<close>

fun eval :: "(string \<Rightarrow> ty) \<Rightarrow> type_term \<Rightarrow> ty" where
  "eval \<theta> (Term n as v l) = (if v \<noteq> [] then \<theta> v else Type n (map (eval \<theta>) as) [])"

definition solves :: "(string \<Rightarrow> ty) \<Rightarrow> bindings \<Rightarrow> bool" where
  "solves \<theta> b \<longleftrightarrow> (\<forall>k t. map_of b k = Some t \<longrightarrow> \<theta> k = eval \<theta> t)"

fun tvars :: "type_term \<Rightarrow> string set" where
  "tvars (Term n as v l) = (if v \<noteq> [] then {v} else \<Union> (tvars ` set as))"

text \<open>\<open>v\<close> is a variable of the term that \<open>k\<close> is bound to.\<close>

definition deps :: "bindings \<Rightarrow> (string \<times> string) set" where
  "deps b = {(v, k). \<exists>t. map_of b k = Some t \<and> v \<in> tvars t}"

definition well_bound :: "bindings \<Rightarrow> bool" where
  "well_bound b \<longleftrightarrow> wf (deps b)"

lemma eval_cong: "(\<And>v. v \<in> tvars t \<Longrightarrow> \<theta> v = \<theta>' v) \<Longrightarrow> eval \<theta> t = eval \<theta>' t"
proof (induction t)
  case (Term n as v l)
  have "map (eval \<theta>) as = map (eval \<theta>') as" if "v = []"
    using Term that by (intro map_cong refl) auto
  with Term(2) [of v] show ?case by simp
qed

lemma tvars_variable [simp]: "tt_variable t \<noteq> [] \<Longrightarrow> tvars t = {tt_variable t}"
  by (cases t) simp

lemma eval_variable [simp]: "tt_variable t \<noteq> [] \<Longrightarrow> eval \<theta> t = \<theta> (tt_variable t)"
  by (cases t) simp

lemma eval_compound [simp]: "tt_variable t = [] \<Longrightarrow> eval \<theta> t = Type (tt_name t) (map (eval \<theta>) (tt_arguments t)) []"
  by (cases t) simp

text \<open>Well-founded bindings have a solution for every choice of the unbound variables.\<close>

definition canonical :: "(string \<Rightarrow> ty) \<Rightarrow> bindings \<Rightarrow> string \<Rightarrow> ty" where
  "canonical free b = wfrec (deps b) (\<lambda>\<theta> k. case map_of b k of None \<Rightarrow> free k | Some t \<Rightarrow> eval \<theta> t)"

lemma canonical_eq:
  assumes "well_bound b"
  shows "canonical free b k = (case map_of b k of None \<Rightarrow> free k | Some t \<Rightarrow> eval (canonical free b) t)"
proof -
  have unfold: "canonical free b k
      = (case map_of b k of None \<Rightarrow> free k | Some t \<Rightarrow> eval (Wfrec.cut (canonical free b) (deps b) k) t)"
    unfolding canonical_def by (subst wfrec [OF assms [unfolded well_bound_def]]) (rule refl)
  show ?thesis
proof (cases "map_of b k")
  case None
  then show ?thesis unfolding unfold by simp
next
  case (Some t)
  have "eval (Wfrec.cut (canonical free b) (deps b) k) t = eval (canonical free b) t"
    using Some by (intro eval_cong) (auto simp: Wfrec.cut_def deps_def)
  with Some show ?thesis unfolding unfold by simp
qed
qed

lemma canonical_solves: "well_bound b \<Longrightarrow> solves (canonical free b) b"
  using canonical_eq [of b free] by (simp add: solves_def)

subsection \<open>Dereferencing\<close>

lemma dereference_loop_eval: "solves \<theta> b \<Longrightarrow> eval \<theta> (dereference_loop b seen t) = eval \<theta> t"
proof (induction b seen t rule: dereference_loop.induct)
  case (1 b seen t)
  then show ?case by (subst dereference_loop.simps) (auto simp: solves_def split: option.splits)
qed

lemma dereference_eval [simp]: "solves \<theta> b \<Longrightarrow> eval \<theta> (dereference b t) = eval \<theta> t"
  by (simp add: dereference_def dereference_loop_eval)

lemma dereference_loop_ends:
  "well_bound b \<Longrightarrow> (\<And>k. gm_has seen k \<Longrightarrow> tt_variable t \<noteq> [] \<Longrightarrow> (tt_variable t, k) \<in> (deps b)\<^sup>+)
    \<Longrightarrow> tt_variable (dereference_loop b seen t) = [] \<or> map_of b (tt_variable (dereference_loop b seen t)) = None"
proof (induction b seen t rule: dereference_loop.induct)
  case (1 b seen t)
  show ?case
  proof (cases "tt_variable t = []")
    case False
    have new: "\<not> gm_has seen (tt_variable t)"
    proof
      assume "gm_has seen (tt_variable t)"
      then have "(tt_variable t, tt_variable t) \<in> (deps b)\<^sup>+" using 1(3) False by blast
      with wf_not_refl [OF wf_trancl [OF 1(2) [unfolded well_bound_def]]] show False by (rule notE)
    qed
    show ?thesis
    proof (cases "map_of b (tt_variable t)")
      case None
      with False new show ?thesis by (simp add: dereference_loop.simps [of b seen t])
    next
      case (Some u)
      have "(tt_variable u, k) \<in> (deps b)\<^sup>+" if "gm_has (gs_add (tt_variable t) seen) k" "tt_variable u \<noteq> []" for k
      proof -
        have d: "(tt_variable u, tt_variable t) \<in> deps b" using Some that(2) by (auto simp: deps_def)
        show ?thesis
        proof (cases "k = tt_variable t")
          case False
          then have "gm_has seen k" using that(1) by simp
          from trancl_into_trancl2 [OF d 1(3) [OF this \<open>tt_variable t \<noteq> []\<close>]] show ?thesis .
        qed (use d in auto)
      qed
      have e: "dereference_loop b seen t = dereference_loop b (gs_add (tt_variable t) seen) u"
        unfolding dereference_loop.simps [of b seen t] by (simp only: False new Some if_False option.case)
      show ?thesis unfolding e by (rule 1(1) [OF False new Some 1(2)]) fact
    qed
  qed (simp add: dereference_loop.simps)
qed

lemma dereference_ends:
  "well_bound b \<Longrightarrow> tt_variable (dereference b t) = [] \<or> map_of b (tt_variable (dereference b t)) = None"
  unfolding dereference_def by (rule dereference_loop_ends) auto

lemma dereference_compound [simp]: "tt_variable t = [] \<Longrightarrow> dereference b t = t"
  by (simp add: dereference_def dereference_loop.simps)

lemma dereference_unbound [simp]: "map_of b (tt_variable t) = None \<Longrightarrow> dereference b t = t"
  by (simp add: dereference_def dereference_loop.simps)

text \<open>From a variable that is unbound, what leads to the variables of a term leads to those of the dereferenced term.\<close>

lemma dereference_loop_reaches:
  "map_of b x = None \<Longrightarrow> v \<in> tvars t \<Longrightarrow> (x, v) \<in> (deps b)\<^sup>*
    \<Longrightarrow> \<exists>w\<in>tvars (dereference_loop b seen t). (x, w) \<in> (deps b)\<^sup>*"
proof (induction b seen t arbitrary: v rule: dereference_loop.induct)
  case (1 b seen t)
  show ?case
  proof (cases "tt_variable t = [] \<or> gm_has seen (tt_variable t) \<or> map_of b (tt_variable t) = None")
    case True
    then have "dereference_loop b seen t = t" by (subst dereference_loop.simps) auto
    then show ?thesis using 1(3,4) by auto
  next
    case False
    then obtain u where u: "map_of b (tt_variable t) = Some u" by blast
    have e: "dereference_loop b seen t = dereference_loop b (gs_add (tt_variable t) seen) u"
      unfolding dereference_loop.simps [of b seen t] using False u by (simp only: if_False option.case) auto
    have v: "v = tt_variable t" using 1(3) False by simp
    have "x \<noteq> v" using 1(2) u v by auto
    with 1(4) obtain w where w: "(x, w) \<in> (deps b)\<^sup>*" "(w, v) \<in> deps b" by (blast elim: rtranclE)
    then have "w \<in> tvars u" using u v by (auto simp: deps_def)
    then show ?thesis unfolding e using False w(1) by (intro 1(1) [OF _ _ u 1(2)]) auto
  qed
qed

lemma dereference_reaches:
  "map_of b x = None \<Longrightarrow> v \<in> tvars t \<Longrightarrow> (x, v) \<in> (deps b)\<^sup>* \<Longrightarrow> \<exists>w\<in>tvars (dereference b t). (x, w) \<in> (deps b)\<^sup>*"
  unfolding dereference_def by (rule dereference_loop_reaches)

lemma unbound_unreachable: "(x, w) \<in> (deps b)\<^sup>* \<Longrightarrow> map_of b w = None \<Longrightarrow> x = w"
  by (erule rtranclE) (auto simp: deps_def)

subsection \<open>The occurs check\<close>

lemma size_argument:
  "tt_variable t = [] \<Longrightarrow> a \<in> set (tt_arguments t) \<Longrightarrow> size (eval \<theta> a) < size (eval \<theta> t)"
  using size_list_estimation' [of a "tt_arguments t" "size (eval \<theta> a)" "size \<circ> eval \<theta>"] by (simp add: less_Suc_eq_le)

lemma occurs_grows:
  "occurs f b x t = Some True \<Longrightarrow> solves \<theta> b \<Longrightarrow> size (\<theta> x) \<le> size (eval \<theta> t)"
  "occurs_any f b x as = Some True \<Longrightarrow> solves \<theta> b \<Longrightarrow> \<exists>a\<in>set as. size (\<theta> x) \<le> size (eval \<theta> a)"
proof (induction f b x t and f b x as rule: occurs_occurs_any.induct)
  case (2 f b x t)
  let ?t = "dereference b t"
  have e: "eval \<theta> ?t = eval \<theta> t" using 2(3) by simp
  show ?case
  proof (cases "tt_variable ?t = []")
    case True
    with 2(2) have "occurs_any f b x (tt_arguments ?t) = Some True" by (simp add: Let_def)
    from 2(1) [OF refl _ this 2(3)] True obtain a where a: "a \<in> set (tt_arguments ?t)" "size (\<theta> x) \<le> size (eval \<theta> a)" by auto
    have "size (eval \<theta> a) < size (eval \<theta> ?t)" using a(1) True by (rule size_argument [rotated])
    with a(2) e show ?thesis by simp
  next
    case False
    with 2(2) have "tt_variable ?t = x" by (simp add: Let_def)
    with False e show ?thesis by simp
  qed
qed (auto split: option.splits bool.splits)

lemma occurs_avoids:
  "occurs f b x t = Some False \<Longrightarrow> well_bound b \<Longrightarrow> map_of b x = None \<Longrightarrow> v \<in> tvars t \<Longrightarrow> (x, v) \<notin> (deps b)\<^sup>*"
  "occurs_any f b x as = Some False \<Longrightarrow> well_bound b \<Longrightarrow> map_of b x = None \<Longrightarrow> a \<in> set as \<Longrightarrow> v \<in> tvars a
    \<Longrightarrow> (x, v) \<notin> (deps b)\<^sup>*"
proof (induction f b x t and f b x as arbitrary: v and v a rule: occurs_occurs_any.induct)
  case (2 f b x t)
  let ?t = "dereference b t"
  show ?case
  proof
    assume "(x, v) \<in> (deps b)\<^sup>*"
    then obtain w where w: "w \<in> tvars ?t" "(x, w) \<in> (deps b)\<^sup>*" using dereference_reaches [OF 2(4,5)] by blast
    show False
    proof (cases "tt_variable ?t = []")
      case True
      with 2(2) have "occurs_any f b x (tt_arguments ?t) = Some False" by (simp add: Let_def)
      moreover obtain a where "a \<in> set (tt_arguments ?t)" "w \<in> tvars a" using True w(1) by (cases ?t) auto
      ultimately show False using 2(1) [OF refl _ _ 2(3,4)] True w(2) by blast
    next
      case False
      then have "w = tt_variable ?t" "map_of b w = None" using w(1) dereference_ends [OF 2(3), of t] by auto
      with w(2) have "x = tt_variable ?t" using unbound_unreachable by blast
      with False 2(2) show False by (simp add: Let_def)
    qed
  qed
qed (auto split: option.splits bool.splits)

lemma occurs_returns:
  "size (eval (canonical free b) t) < f \<Longrightarrow> well_bound b \<Longrightarrow> occurs f b x t \<noteq> None"
  "\<forall>a\<in>set as. size (eval (canonical free b) a) < f \<Longrightarrow> well_bound b \<Longrightarrow> occurs_any f b x as \<noteq> None"
proof (induction f b x t and f b x as rule: occurs_occurs_any.induct)
  case (2 f b x t)
  let ?t = "dereference b t" and ?c = "canonical free b"
  have e: "eval ?c ?t = eval ?c t" using canonical_solves [OF 2(3)] by simp
  show ?case
  proof (cases "tt_variable ?t = []")
    case True
    have "\<forall>a\<in>set (tt_arguments ?t). size (eval ?c a) < f"
    proof
      fix a assume "a \<in> set (tt_arguments ?t)"
      then have "size (eval ?c a) < size (eval ?c ?t)" using True by (intro size_argument)
      with e 2(2) show "size (eval ?c a) < f" by simp
    qed
    from 2(1) [OF refl _ this 2(3)] True show ?thesis by (auto simp: Let_def)
  qed (auto simp: Let_def)
qed (auto split: option.splits bool.splits)

lemma occurs_mono:
  "occurs f b x t = Some r \<Longrightarrow> f \<le> f' \<Longrightarrow> occurs f' b x t = Some r"
  "occurs_any f b x as = Some r \<Longrightarrow> f \<le> f' \<Longrightarrow> occurs_any f' b x as = Some r"
proof (induction f b x t and f b x as arbitrary: f' r and f' r rule: occurs_occurs_any.induct)
  case (2 f b x t)
  obtain g where g: "f' = Suc g" "f \<le> g" using 2(3) by (cases f') auto
  show ?case
  proof (cases "tt_variable (dereference b t) = []")
    case True
    with 2(2) have "occurs_any f b x (tt_arguments (dereference b t)) = Some r" by (simp add: Let_def)
    from 2(1) [OF refl _ this g(2)] True show ?thesis unfolding g(1) by (simp add: Let_def)
  next
    case False
    with 2(2) show ?thesis unfolding g(1) by (simp add: Let_def)
  qed
next
  case (4 f b x a as)
  then obtain q where q: "occurs f b x a = Some q" by (cases "occurs f b x a") auto
  from 4(1) [OF q 4(4)] have q': "occurs f' b x a = Some q" .
  show ?case
  proof (cases q)
    case True
    with q q' 4(3) show ?thesis by simp
  next
    case False
    then have "occurs_any f b x as = Some r" using 4(3) q by simp
    with 4(2) q False 4(4) have "occurs_any f' b x as = Some r" by blast
    with q' False show ?thesis by simp
  qed
qed auto

subsection \<open>Binding a variable\<close>

lemma finite_tvars: "finite (tvars t)"
  by (induction t) auto

lemma finite_deps: "finite (deps b)"
proof (rule finite_subset)
  show "deps b \<subseteq> (\<Union>(k, t)\<in>set b. tvars t \<times> {k})" by (force simp: deps_def dest: map_of_SomeD)
qed (auto simp: finite_tvars)

lemma acyclic_into:
  assumes "acyclic r" "\<And>a. a \<in> A \<Longrightarrow> (x, a) \<notin> r\<^sup>*"
  shows "acyclic (r \<union> A \<times> {x})"
proof -
  have "(p, q) \<in> r\<^sup>+ \<or> (\<exists>a\<in>A. (p, a) \<in> r\<^sup>* \<and> (x, q) \<in> r\<^sup>*)" if "(p, q) \<in> (r \<union> A \<times> {x})\<^sup>+" for p q
    using that
  proof (induction rule: trancl_induct)
    case (step y z)
    then show ?case
      by (auto intro: trancl_into_trancl rtrancl_into_rtrancl dest: trancl_into_rtrancl)
  qed auto
  with assms show ?thesis unfolding acyclic_def by (meson rtrancl_trans)
qed

lemma deps_update:
  "map_of b x = None \<Longrightarrow> deps (AList.update x t b) = deps b \<union> tvars t \<times> {x}"
  by (auto simp: deps_def split: if_splits)

lemma well_bound_update:
  assumes "well_bound b" "map_of b x = None" "\<And>v. v \<in> tvars t \<Longrightarrow> (x, v) \<notin> (deps b)\<^sup>*"
  shows "well_bound (AList.update x t b)"
proof -
  have "acyclic (deps b \<union> tvars t \<times> {x})"
    using assms by (intro acyclic_into) (auto simp: well_bound_def wf_acyclic)
  then show ?thesis
    unfolding well_bound_def deps_update [OF assms(2)] by (intro finite_acyclic_wf) (simp_all add: finite_deps finite_tvars)
qed

lemma solves_update:
  "map_of b x = None \<Longrightarrow> solves \<theta> (AList.update x t b) \<longleftrightarrow> solves \<theta> b \<and> \<theta> x = eval \<theta> t"
proof
  assume n: "map_of b x = None" and s: "solves \<theta> (AList.update x t b)"
  have "\<theta> k = eval \<theta> u" if "map_of b k = Some u" for k u
    using s that n by (cases "k = x") (auto simp: solves_def)
  with s show "solves \<theta> b \<and> \<theta> x = eval \<theta> t" by (simp add: solves_def)
qed (auto simp: solves_def)

text \<open>What a result says of the solutions, for a list of equations.\<close>

definition decides :: "bindings \<Rightarrow> ((string \<Rightarrow> ty) \<Rightarrow> bool) \<Rightarrow> (unify_error, bindings) result \<Rightarrow> bool" where
  "decides b equal res \<longleftrightarrow>
     (case res of
        Inl e \<Rightarrow> (\<forall>\<theta>. solves \<theta> b \<longrightarrow> \<not> equal \<theta>)
      | Inr b' \<Rightarrow> well_bound b' \<and> (\<forall>\<theta>. solves \<theta> b' \<longleftrightarrow> solves \<theta> b \<and> equal \<theta>))"

lemma decides_cong: "(\<And>\<theta>. solves \<theta> b \<Longrightarrow> P \<theta> \<longleftrightarrow> Q \<theta>) \<Longrightarrow> decides b P res \<Longrightarrow> decides b Q res"
  by (auto simp: decides_def split: sum.splits)

lemma bind_variable_decides:
  assumes "bind_variable f b l r = Some res" "well_bound b" "tt_variable l \<noteq> []" "map_of b (tt_variable l) = None"
    "tt_variable r = [] \<or> map_of b (tt_variable r) = None"
  shows "decides b (\<lambda>\<theta>. eval \<theta> l = eval \<theta> r) res"
proof (cases "tt_variable r = tt_variable l")
  case True
  with assms show ?thesis by (auto simp: bind_variable_def decides_def)
next
  case False
  then consider "occurs f b (tt_variable l) r = Some True" "res = Inl (RecursiveType l r)"
    | "occurs f b (tt_variable l) r = Some False" "res = Inr (AList.update (tt_variable l) r b)"
    using assms(1) by (auto simp: bind_variable_def split: option.splits bool.splits)
  then show ?thesis
  proof cases
    case 1
    have "eval \<theta> l \<noteq> eval \<theta> r" if s: "solves \<theta> b" for \<theta>
    proof -
      obtain n where n: "f = Suc n" using 1(1) by (cases f) auto
      have "dereference b r = r" using assms(5) by auto
      with 1(1) False have c: "tt_variable r = []" "occurs_any n b (tt_variable l) (tt_arguments r) = Some True"
        unfolding n by (auto simp: Let_def split: if_splits)
      from occurs_grows(2) [OF c(2) s] obtain a where "a \<in> set (tt_arguments r)" "size (\<theta> (tt_variable l)) \<le> size (eval \<theta> a)" by blast
      moreover from this(1) have "size (eval \<theta> a) < size (eval \<theta> r)" using c(1) by (intro size_argument)
      ultimately show ?thesis using assms(3) by auto
    qed
    with 1(2) show ?thesis by (simp add: decides_def)
  next
    case 2
    have "well_bound (AList.update (tt_variable l) r b)"
      using occurs_avoids(1) [OF 2(1) assms(2,4)] by (intro well_bound_update assms)
    with 2(2) assms(3) show ?thesis by (simp add: decides_def solves_update [OF assms(4)])
  qed
qed

lemma unify_decides:
  "unify f b l r = Some res \<Longrightarrow> well_bound b \<Longrightarrow> decides b (\<lambda>\<theta>. eval \<theta> l = eval \<theta> r) res"
  "unify_all f b ls rs = Some res \<Longrightarrow> well_bound b \<Longrightarrow> length ls = length rs
    \<Longrightarrow> decides b (\<lambda>\<theta>. map (eval \<theta>) ls = map (eval \<theta>) rs) res"
proof (induction f b l r and f b ls rs arbitrary: res and res rule: unify_unify_all.induct)
  case (2 f b left right)
  let ?l = "dereference b left" and ?r = "dereference b right"
  have same: "decides b (\<lambda>\<theta>. eval \<theta> ?l = eval \<theta> ?r) res \<Longrightarrow> decides b (\<lambda>\<theta>. eval \<theta> left = eval \<theta> right) res"
    by (erule decides_cong [rotated]) simp
  note ends = dereference_ends [OF 2(4)]
  show ?case
  proof (cases "tt_variable ?l = []")
    case False
    with 2(3) have bound: "bind_variable f b ?l ?r = Some res" by (simp add: Let_def)
    have free: "map_of b (tt_variable ?l) = None" using ends [of left] False by simp
    show ?thesis by (rule same [OF bind_variable_decides [OF bound 2(4) False free ends [of right]]])
  next
    case l: True
    show ?thesis
    proof (cases "tt_variable ?r = []")
      case False
      with 2(3) l have "unify f b ?r ?l = Some res" by (simp add: Let_def)
      then have "decides b (\<lambda>\<theta>. eval \<theta> ?r = eval \<theta> ?l) res"
        using 2(1) [OF refl refl _ False _ 2(4)] l by blast
      then have "decides b (\<lambda>\<theta>. eval \<theta> ?l = eval \<theta> ?r) res" by (rule decides_cong [rotated]) (rule eq_commute)
      then show ?thesis by (rule same)
    next
      case r: True
      show ?thesis
      proof (cases "tt_name ?l \<noteq> tt_name ?r \<or> length (tt_arguments ?l) \<noteq> length (tt_arguments ?r)")
        case True
        with 2(3) l r have "res = Inl (NotAssignable ?l ?r)" by (auto simp: Let_def)
        with True l r show ?thesis by (intro same) (auto simp: decides_def dest: map_eq_imp_length_eq)
      next
        case False
        with 2(3) l r have "unify_all f b (tt_arguments ?l) (tt_arguments ?r) = Some res" by (simp add: Let_def)
        from 2(2) [OF refl refl _ _ False this 2(4)] l r False
        have "decides b (\<lambda>\<theta>. map (eval \<theta>) (tt_arguments ?l) = map (eval \<theta>) (tt_arguments ?r)) res" by simp
        with l r False show ?thesis by (intro same) simp
      qed
    qed
  qed
next
  case (3 f b l ls r rs)
  show ?case
  proof (cases "unify f b l r")
    case None
    with 3(3) show ?thesis by simp
  next
    case (Some s)
    note d = 3(1) [OF Some 3(4)]
    show ?thesis
    proof (cases s)
      case (Inl e)
      with 3(3) Some d show ?thesis by (auto simp: decides_def)
    next
      case (Inr b')
      then have "well_bound b'" "unify_all f b' ls rs = Some res" using d 3(3) Some by (auto simp: decides_def)
      from 3(2) [OF Some [unfolded Inr] _ this(2,1)] 3(5) Inr d show ?thesis by (auto simp: decides_def split: sum.splits)
    qed
  qed
qed (auto simp: decides_def)

subsection \<open>The unifier returns\<close>

lemma bind_variable_mono: "bind_variable f b l r = Some res \<Longrightarrow> f \<le> f' \<Longrightarrow> bind_variable f' b l r = Some res"
  unfolding bind_variable_def by (auto dest: occurs_mono(1) split: if_splits option.splits)

lemma unify_mono:
  "unify f b l r = Some res \<Longrightarrow> f \<le> f' \<Longrightarrow> unify f' b l r = Some res"
  "unify_all f b ls rs = Some res \<Longrightarrow> f \<le> f' \<Longrightarrow> unify_all f' b ls rs = Some res"
proof (induction f b l r and f b ls rs arbitrary: f' res and f' res rule: unify_unify_all.induct)
  case (2 f b left right)
  let ?l = "dereference b left" and ?r = "dereference b right"
  obtain g where g: "f' = Suc g" "f \<le> g" using 2(4) by (cases f') auto
  show ?case
  proof (cases "tt_variable ?l = []")
    case False
    with 2(3) bind_variable_mono [OF _ g(2)] show ?thesis unfolding g(1) by (simp add: Let_def)
  next
    case l: True
    show ?thesis
    proof (cases "tt_variable ?r = []")
      case False
      with 2(3) l have "unify f b ?r ?l = Some res" by (simp add: Let_def)
      from 2(1) [OF refl refl _ False this g(2)] l False show ?thesis unfolding g(1) by (simp add: Let_def)
    next
      case r: True
      show ?thesis
      proof (cases "tt_name ?l \<noteq> tt_name ?r \<or> length (tt_arguments ?l) \<noteq> length (tt_arguments ?r)")
        case True
        with 2(3) l r show ?thesis unfolding g(1) by (auto simp: Let_def)
      next
        case False
        with 2(3) l r have "unify_all f b (tt_arguments ?l) (tt_arguments ?r) = Some res" by (simp add: Let_def)
        from 2(2) [OF refl refl _ _ False this g(2)] l r False show ?thesis unfolding g(1) by (simp add: Let_def)
      qed
    qed
  qed
next
  case (3 f b l ls r rs)
  then obtain s where s: "unify f b l r = Some s" by (cases "unify f b l r") auto
  from 3(1) [OF s 3(4)] have s': "unify f' b l r = Some s" .
  show ?case
  proof (cases s)
    case (Inl e)
    then have "res = Inl e" using s 3(3) by simp
    with s' Inl show ?thesis by simp
  next
    case (Inr b')
    then have "unify_all f b' ls rs = Some res" using 3(3) s by simp
    with 3(2) s Inr 3(4) have "unify_all f' b' ls rs = Some res" by blast
    with s' Inr show ?thesis by simp
  qed
qed auto

text \<open>All variables are in a finite set, and every binding made leaves fewer of them unbound.\<close>

definition over :: "string set \<Rightarrow> bindings \<Rightarrow> bool" where
  "over V b \<longleftrightarrow> (\<forall>k t. map_of b k = Some t \<longrightarrow> tvars t \<subseteq> V)"

definition unbound :: "string set \<Rightarrow> bindings \<Rightarrow> nat" where
  "unbound V b = card {v \<in> V. map_of b v = None}"

lemma dereference_loop_over: "over V b \<Longrightarrow> tvars t \<subseteq> V \<Longrightarrow> tvars (dereference_loop b seen t) \<subseteq> V"
proof (induction b seen t rule: dereference_loop.induct)
  case (1 b seen t)
  show ?case
  proof (cases "tt_variable t = [] \<or> gm_has seen (tt_variable t) \<or> map_of b (tt_variable t) = None")
    case True
    then have "dereference_loop b seen t = t" by (subst dereference_loop.simps) auto
    then show ?thesis using 1(3) by simp
  next
    case False
    then obtain u where u: "map_of b (tt_variable t) = Some u" by blast
    have e: "dereference_loop b seen t = dereference_loop b (gs_add (tt_variable t) seen) u"
      unfolding dereference_loop.simps [of b seen t] using False u by (simp only: if_False option.case) auto
    show ?thesis unfolding e using False u 1(2) by (intro 1(1) [OF _ _ u 1(2)]) (auto simp: over_def)
  qed
qed

lemma dereference_over: "over V b \<Longrightarrow> tvars t \<subseteq> V \<Longrightarrow> tvars (dereference b t) \<subseteq> V"
  unfolding dereference_def by (rule dereference_loop_over)

lemma arguments_over: "tt_variable t = [] \<Longrightarrow> tvars t \<subseteq> V \<Longrightarrow> \<forall>a\<in>set (tt_arguments t). tvars a \<subseteq> V"
  by (cases t) auto

text \<open>
  What every binding made keeps, of the bindings and of the terms in play, the unifier keeps.
\<close>

locale binding_invariant =
  fixes inv :: "bindings \<Rightarrow> bool" and ok :: "type_term \<Rightarrow> bool"
  assumes ok_dereference: "inv b \<Longrightarrow> ok t \<Longrightarrow> ok (dereference b t)"
    and ok_arguments: "tt_variable t = [] \<Longrightarrow> ok t \<Longrightarrow> a \<in> set (tt_arguments t) \<Longrightarrow> ok a"
    and inv_update: "inv b \<Longrightarrow> ok l \<Longrightarrow> ok r \<Longrightarrow> tt_variable l \<noteq> [] \<Longrightarrow> map_of b (tt_variable l) = None
      \<Longrightarrow> inv (AList.update (tt_variable l) r b)"
begin

lemma bind_keeps:
  assumes "bind_variable f b l r = Some (Inr b')" "inv b" "ok l" "ok r" "tt_variable l \<noteq> []" "map_of b (tt_variable l) = None"
  shows "inv b'"
  using assms inv_update by (auto simp: bind_variable_def split: if_splits option.splits bool.splits)

lemma unify_keeps:
  "unify f b l r = Some (Inr b') \<Longrightarrow> well_bound b \<Longrightarrow> inv b \<Longrightarrow> ok l \<Longrightarrow> ok r \<Longrightarrow> inv b'"
  "unify_all f b ls rs = Some (Inr b') \<Longrightarrow> well_bound b \<Longrightarrow> inv b \<Longrightarrow> \<forall>a\<in>set ls. ok a \<Longrightarrow> \<forall>a\<in>set rs. ok a \<Longrightarrow> inv b'"
proof (induction f b l r and f b ls rs arbitrary: b' and b' rule: unify_unify_all.induct)
  case (2 f b left right)
  let ?l = "dereference b left" and ?r = "dereference b right"
  have v: "ok ?l" "ok ?r" using ok_dereference 2(5-7) by blast+
  show ?case
  proof (cases "tt_variable ?l = []")
    case False
    with 2(3) have "bind_variable f b ?l ?r = Some (Inr b')" by (simp add: Let_def)
    then show ?thesis using bind_keeps 2(5) v False dereference_ends [OF 2(4), of left] by blast
  next
    case l: True
    show ?thesis
    proof (cases "tt_variable ?r = []")
      case False
      with 2(3) l have "unify f b ?r ?l = Some (Inr b')" by (simp add: Let_def)
      from 2(1) [OF refl refl _ False this 2(4,5) v(2,1)] l show ?thesis by simp
    next
      case r: True
      show ?thesis
      proof (cases "tt_name ?l \<noteq> tt_name ?r \<or> length (tt_arguments ?l) \<noteq> length (tt_arguments ?r)")
        case True
        with 2(3) l r show ?thesis by (auto simp: Let_def)
      next
        case False
        with 2(3) l r have "unify_all f b (tt_arguments ?l) (tt_arguments ?r) = Some (Inr b')" by (simp add: Let_def)
        from 2(2) [OF refl refl _ _ False this 2(4,5)] ok_arguments l r v show ?thesis by blast
      qed
    qed
  qed
next
  case (3 f b l ls r rs)
  then obtain s where s: "unify f b l r = Some (Inr s)" "unify_all f s ls rs = Some (Inr b')"
    by (auto split: option.splits sum.splits)
  have "inv s" using 3(1) [OF s(1) 3(4,5)] 3(6,7) by simp
  moreover have "well_bound s" using unify_decides(1) [OF s(1) 3(4)] by (simp add: decides_def)
  ultimately show ?case using 3(2) [OF s(1) refl s(2)] 3(6,7) by simp
qed simp_all

end

text \<open>The bindings after a success are the same, or bind more.\<close>

definition advances :: "string set \<Rightarrow> bindings \<Rightarrow> bindings \<Rightarrow> bool" where
  "advances V b b' \<longleftrightarrow> over V b' \<and> (finite V \<longrightarrow> b' = b \<or> unbound V b' < unbound V b)"

lemma unbound_update:
  "finite V \<Longrightarrow> x \<in> V \<Longrightarrow> map_of b x = None \<Longrightarrow> unbound V (AList.update x t b) < unbound V b"
proof -
  assume "finite V" "x \<in> V" "map_of b x = None"
  moreover have "{v \<in> V. map_of (AList.update x t b) v = None} = {v \<in> V. map_of b v = None} - {x}" by auto
  ultimately show ?thesis unfolding unbound_def by (simp only:) (intro card_Diff1_less; simp)
qed

interpretation progress: binding_invariant "advances V b\<^sub>0" "\<lambda>t. tvars t \<subseteq> V" for V b\<^sub>0
proof
  show "advances V b\<^sub>0 b \<Longrightarrow> tvars t \<subseteq> V \<Longrightarrow> tvars (dereference b t) \<subseteq> V" for b t
    by (auto simp: advances_def dest: dereference_over)
  show "tt_variable t = [] \<Longrightarrow> tvars t \<subseteq> V \<Longrightarrow> a \<in> set (tt_arguments t) \<Longrightarrow> tvars a \<subseteq> V" for t a
    using arguments_over by blast
  show "advances V b\<^sub>0 (AList.update (tt_variable l) r b)"
    if "advances V b\<^sub>0 b" "tvars l \<subseteq> V" "tvars r \<subseteq> V" "tt_variable l \<noteq> []" "map_of b (tt_variable l) = None" for b l r
  proof -
    have "over V (AList.update (tt_variable l) r b)" using that(1,3) by (auto simp: advances_def over_def)
    moreover have "unbound V (AList.update (tt_variable l) r b) < unbound V b\<^sub>0" if "finite V"
      using unbound_update [OF that, of "tt_variable l" b r] \<open>advances V b\<^sub>0 b\<close> \<open>tvars l \<subseteq> V\<close> \<open>tt_variable l \<noteq> []\<close>
        \<open>map_of b (tt_variable l) = None\<close> that by (auto simp: advances_def)
    ultimately show ?thesis by (simp add: advances_def)
  qed
qed

lemma unify_advances:
  assumes "unify f b l r = Some (Inr b')" "well_bound b" "over V b" "tvars l \<subseteq> V" "tvars r \<subseteq> V"
  shows "advances V b b'"
  using progress.unify_keeps(1) [OF assms(1,2) _ assms(4,5), of b] assms(3) by (simp add: advances_def)

text \<open>Terms that carry the label of each variable, as \<open>scopedType\<close> makes them.\<close>

fun labelled :: "(string \<Rightarrow> string) \<Rightarrow> type_term \<Rightarrow> bool" where
  "labelled lab (Term n as v l) = (if v \<noteq> [] then l = lab v else list_all (labelled lab) as)"

definition all_labelled :: "(string \<Rightarrow> string) \<Rightarrow> bindings \<Rightarrow> bool" where
  "all_labelled lab b \<longleftrightarrow> (\<forall>k t. map_of b k = Some t \<longrightarrow> labelled lab t)"

lemma dereference_loop_labelled: "all_labelled lab b \<Longrightarrow> labelled lab t \<Longrightarrow> labelled lab (dereference_loop b seen t)"
proof (induction b seen t rule: dereference_loop.induct)
  case (1 b seen t)
  then show ?case by (subst dereference_loop.simps) (auto simp: all_labelled_def split: option.splits)
qed

lemma labelled_arguments: "tt_variable t = [] \<Longrightarrow> labelled lab t \<Longrightarrow> a \<in> set (tt_arguments t) \<Longrightarrow> labelled lab a"
  by (cases t) (auto simp: list_all_iff)

lemma labelled_variable: "tt_variable t \<noteq> [] \<Longrightarrow> labelled lab t \<Longrightarrow> tt_label t = lab (tt_variable t)"
  by (cases t) auto

interpretation labels: binding_invariant "all_labelled lab" "labelled lab" for lab
proof
  show "all_labelled lab b \<Longrightarrow> labelled lab t \<Longrightarrow> labelled lab (dereference b t)" for b t
    unfolding dereference_def by (rule dereference_loop_labelled)
  show "tt_variable t = [] \<Longrightarrow> labelled lab t \<Longrightarrow> a \<in> set (tt_arguments t) \<Longrightarrow> labelled lab a" for t a
    by (rule labelled_arguments)
qed (auto simp: all_labelled_def)

definition returns :: "bindings \<Rightarrow> type_term \<Rightarrow> type_term \<Rightarrow> bool" where
  "returns b l r \<longleftrightarrow> (\<exists>n res. unify n b l r = Some res)"

definition returns_all :: "bindings \<Rightarrow> type_term list \<Rightarrow> type_term list \<Rightarrow> bool" where
  "returns_all b ls rs \<longleftrightarrow> (\<exists>n res. unify_all n b ls rs = Some res)"

lemma bind_variable_returns: "well_bound b \<Longrightarrow> \<exists>n res. bind_variable n b l r = Some res"
  using occurs_returns(1) [of undefined b r "Suc (size (eval (canonical undefined b) r))" "tt_variable l"]
  by (intro exI [of _ "Suc (size (eval (canonical undefined b) r))"]) (auto simp: bind_variable_def split: option.splits bool.splits)

lemma returns_all_Cons:
  assumes "returns b l r" "\<And>n b'. unify n b l r = Some (Inr b') \<Longrightarrow> returns_all b' ls rs"
  shows "returns_all b (l # ls) (r # rs)"
proof -
  obtain n res where n: "unify n b l r = Some res" using assms(1) by (auto simp: returns_def)
  show ?thesis
  proof (cases res)
    case (Inl e)
    with n show ?thesis unfolding returns_all_def by (intro exI [of _ n] exI [of _ "Inl e"]) simp
  next
    case (Inr b')
    then obtain m res' where m: "unify_all m b' ls rs = Some res'" 
      using assms(2) [OF n [unfolded Inr]] unfolding returns_all_def by blast
    have "unify (max n m) b l r = Some (Inr b')" "unify_all (max n m) b' ls rs = Some res'"
      using unify_mono(1) [OF n [unfolded Inr]] unify_mono(2) [OF m] by simp_all
    then show ?thesis unfolding returns_all_def by (intro exI [of _ "max n m"] exI [of _ res']) simp
  qed
qed

text \<open>The order in which the unifier descends: fewer unbound variables, then a smaller left side.\<close>

lemma all_return:
  assumes V: "finite V" and "\<forall>a\<in>set ls. tvars a \<subseteq> V" "\<forall>a\<in>set rs. tvars a \<subseteq> V" "well_bound b" "over V b"
    and less: "\<And>b' l r. unbound V b' < unbound V b \<Longrightarrow> well_bound b' \<Longrightarrow> over V b' \<Longrightarrow> tvars l \<subseteq> V \<Longrightarrow> tvars r \<subseteq> V \<Longrightarrow> returns b' l r"
    and same: "\<And>l r. l \<in> set ls \<Longrightarrow> tvars r \<subseteq> V \<Longrightarrow> returns b l r"
  shows "returns_all b ls rs"
  using assms(2-)
proof (induction ls arbitrary: rs b)
  case Nil
  then show ?case by (auto simp: returns_all_def)
next
  case (Cons l ls)
  show ?case
  proof (cases rs)
    case Nil
    then show ?thesis by (auto simp: returns_all_def)
  next
    case rs: (Cons r rs')
    have "returns b l r" using Cons(7) [of l r] Cons(3) rs by simp
    moreover have "returns_all b' ls rs'" if u: "unify n b l r = Some (Inr b')" for n b'
    proof -
      have w: "well_bound b'" using unify_decides(1) [OF u Cons(4)] by (simp add: decides_def)
      have a: "advances V b b'" using unify_advances [OF u Cons(4,5)] Cons(2,3) rs by simp
      show ?thesis
      proof (cases "b' = b")
        case True
        then show ?thesis using Cons(1) [of rs' b] Cons(2-7) rs by simp
      next
        case False
        with a V have lt: "unbound V b' < unbound V b" "over V b'" by (simp_all add: advances_def)
        have "returns b2 l r" if "unbound V b2 \<le> unbound V b'" "well_bound b2" "over V b2" "tvars l \<subseteq> V" "tvars r \<subseteq> V" for b2 l r
          using Cons(6) that lt(1) by simp
        then show ?thesis using Cons(1) [of rs' b'] Cons(2,3) rs w lt(2) by simp
      qed
    qed
    ultimately show ?thesis unfolding rs by (rule returns_all_Cons)
  qed
qed

lemma unify_returns_over:
  assumes "finite V"
  shows "well_bound b \<Longrightarrow> over V b \<Longrightarrow> tvars l \<subseteq> V \<Longrightarrow> tvars r \<subseteq> V \<Longrightarrow> returns b l r"
proof (induction "(unbound V b, size (eval (canonical undefined b) l))" arbitrary: b l r
    rule: wf_induct_rule [OF wf_lex_prod [OF wf_less wf_less]])
  case (1 b l r)
  let ?c = "canonical undefined b" and ?l = "dereference b l" and ?r = "dereference b r"
  have v: "tvars ?l \<subseteq> V" "tvars ?r \<subseteq> V" using dereference_over 1(3-5) by blast+
  obtain n res where n: "bind_variable n b ?l ?r = Some res" using bind_variable_returns [OF 1(2)] by blast
  obtain m res' where m: "bind_variable m b ?r ?l = Some res'" using bind_variable_returns [OF 1(2)] by blast
  show ?case
  proof (cases "tt_variable ?l = []")
    case False
    with n have "unify (Suc n) b l r = Some res" by (simp add: Let_def)
    then show ?thesis unfolding returns_def by blast
  next
    case l: True
    show ?thesis
    proof (cases "tt_variable ?r = []")
      case False
      have "dereference b ?r = ?r" using dereference_ends [OF 1(2), of r] False by simp
      with m l False have "unify (Suc (Suc m)) b l r = Some res'" by (simp add: Let_def)
      then show ?thesis unfolding returns_def by blast
    next
      case r: True
      show ?thesis
      proof (cases "tt_name ?l \<noteq> tt_name ?r \<or> length (tt_arguments ?l) \<noteq> length (tt_arguments ?r)")
        case True
        with l r have "unify (Suc 0) b l r = Some (Inl (NotAssignable ?l ?r))" by (auto simp: Let_def)
        then show ?thesis unfolding returns_def by blast
      next
        case False
        have e: "eval ?c ?l = eval ?c l" using canonical_solves [OF 1(2)] by simp
        have "returns_all b (tt_arguments ?l) (tt_arguments ?r)"
        proof (rule all_return [OF assms arguments_over [OF l v(1)] arguments_over [OF r v(2)] 1(2,3)])
          fix b' l' r' assume "unbound V b' < unbound V b" "well_bound b'" "over V b'" "tvars l' \<subseteq> V" "tvars r' \<subseteq> V"
          then show "returns b' l' r'" by (intro 1(1)) (auto simp: )
        next
          fix l' r' assume a: "l' \<in> set (tt_arguments ?l)" "tvars r' \<subseteq> V"
          have "size (eval ?c l') < size (eval ?c l)" using size_argument [OF l a(1), of ?c] e by simp
          moreover have "tvars l' \<subseteq> V" using arguments_over [OF l v(1)] a(1) by blast
          ultimately show "returns b l' r'" using 1(2,3) a(2) by (intro 1(1)) auto
        qed
        then obtain k res'' where "unify_all k b (tt_arguments ?l) (tt_arguments ?r) = Some res''" by (auto simp: returns_all_def)
        with l r False have "unify (Suc k) b l r = Some res''" by (simp add: Let_def)
        then show ?thesis unfolding returns_def by blast
      qed
    qed
  qed
qed

lemma unify_returns: "well_bound b \<Longrightarrow> returns b l r"
proof -
  assume w: "well_bound b"
  let ?V = "tvars l \<union> tvars r \<union> fst ` deps b"
  have "over ?V b" by (force simp: over_def deps_def)
  then show ?thesis by (intro unify_returns_over [of ?V]) (auto simp: w finite_tvars finite_deps)
qed

subsection \<open>Resolution\<close>

lemma resolve_canonical:
  "size (eval (canonical (\<lambda>k. Type [] [] (lab k)) b) t) < f \<Longrightarrow> well_bound b \<Longrightarrow> all_labelled lab b \<Longrightarrow> labelled lab t
    \<Longrightarrow> resolve f b t = Some (eval (canonical (\<lambda>k. Type [] [] (lab k)) b) t)"
  "\<forall>a\<in>set as. size (eval (canonical (\<lambda>k. Type [] [] (lab k)) b) a) < f \<Longrightarrow> well_bound b \<Longrightarrow> all_labelled lab b
    \<Longrightarrow> \<forall>a\<in>set as. labelled lab a \<Longrightarrow> resolve_all f b as = Some (map (eval (canonical (\<lambda>k. Type [] [] (lab k)) b)) as)"
proof (induction f b t and f b as rule: resolve_resolve_all.induct)
  case (2 f b t)
  let ?t = "dereference b t" and ?c = "canonical (\<lambda>k. Type [] [] (lab k)) b"
  have e: "eval ?c ?t = eval ?c t" using canonical_solves [OF 2(3)] by simp
  have l: "labelled lab ?t" using labels.ok_dereference [OF 2(4,5)] .
  show ?case
  proof (cases "tt_variable ?t = []")
    case True
    have "\<forall>a\<in>set (tt_arguments ?t). size (eval ?c a) < f"
      using size_argument [OF True, of _ ?c] e 2(2) by fastforce
    from 2(1) [OF refl _ this 2(3,4)] labelled_arguments [OF True l] True
    have "resolve_all f b (tt_arguments ?t) = Some (map (eval ?c) (tt_arguments ?t))" by blast
    with True have "resolve (Suc f) b t = Some (eval ?c ?t)" by (simp add: Let_def)
    with e show ?thesis by simp
  next
    case False
    then have "map_of b (tt_variable ?t) = None" using dereference_ends [OF 2(3), of t] by simp
    then have "eval ?c ?t = Type [] [] (tt_label ?t)"
      using canonical_eq [OF 2(3)] False labelled_variable [OF False l] by simp
    with False have "resolve (Suc f) b t = Some (eval ?c ?t)" by (simp add: Let_def)
    with e show ?thesis by simp
  qed
qed simp_all

subsection \<open>The guarantees\<close>

text \<open>
  C19. Inference of port types is complete. From any bindings without a cycle, in particular from none,
  every attempt to unify two types returns. If it succeeds, the new bindings have no cycle either and
  their solutions are exactly the old solutions under which both sides are the same type, so nothing
  is lost or invented; if it fails, the bindings are unchanged and no assignment of
  types to the variables that agrees with them makes the sides equal.
\<close>

theorem unification_is_complete:
  assumes "well_bound b"
  shows "\<exists>n. \<forall>fuel\<ge>n. \<exists>b' e. tryUnify fuel b left right = Some (b', e) \<and> well_bound b'
    \<and> (\<forall>\<theta>. solves \<theta> b' \<longleftrightarrow> solves \<theta> b \<and> (e = None \<longrightarrow> eval \<theta> left = eval \<theta> right))
    \<and> (e \<noteq> None \<longrightarrow> b' = b \<and> \<not> (\<exists>\<theta>. solves \<theta> b \<and> eval \<theta> left = eval \<theta> right))"
proof -
  obtain n res where n: "unify n b left right = Some res" using unify_returns [OF assms] unfolding returns_def by blast
  note d = unify_decides(1) [OF n assms]
  have "\<exists>b' e. tryUnify fuel b left right = Some (b', e) \<and> well_bound b'
    \<and> (\<forall>\<theta>. solves \<theta> b' \<longleftrightarrow> solves \<theta> b \<and> (e = None \<longrightarrow> eval \<theta> left = eval \<theta> right))
    \<and> (e \<noteq> None \<longrightarrow> b' = b \<and> \<not> (\<exists>\<theta>. solves \<theta> b \<and> eval \<theta> left = eval \<theta> right))" if "n \<le> fuel" for fuel
    using unify_mono(1) [OF n that] d assms by (cases res) (auto simp: tryUnify_def decides_def)
  then show ?thesis by blast
qed

text \<open>
  C21. After a successful unification both sides resolve to the same type, and resolving returns. (The
  terms carry the labels of their variables, as those made from port types do.)
\<close>

theorem unified_types_resolve_alike:
  assumes "tryUnify fuel b left right = Some (b', None)" and "well_bound b"
    and "all_labelled lab b" and "labelled lab left" and "labelled lab right"
  shows "\<exists>n t. \<forall>m\<ge>n. resolve m b' left = Some t \<and> resolve m b' right = Some t"
proof -
  have u: "unify fuel b left right = Some (Inr b')" using assms(1) by (auto simp: tryUnify_def split: option.splits sum.splits)
  have w: "well_bound b'" and s: "\<And>\<theta>. solves \<theta> b' \<Longrightarrow> eval \<theta> left = eval \<theta> right"
    using unify_decides(1) [OF u assms(2)] by (auto simp: decides_def)
  have l: "all_labelled lab b'" by (rule labels.unify_keeps(1) [OF u assms(2-5)])
  let ?c = "canonical (\<lambda>k. Type [] [] (lab k)) b'"
  have "eval ?c left = eval ?c right" using s canonical_solves [OF w] by blast
  then have "\<forall>m\<ge>Suc (size (eval ?c left)). resolve m b' left = Some (eval ?c left) \<and> resolve m b' right = Some (eval ?c left)"
    using resolve_canonical(1) [OF _ w l assms(4)] resolve_canonical(1) [OF _ w l assms(5)] by auto
  then show ?thesis by blast
qed

text \<open>A port of \<open>Event<$T>\<close> against one of \<open>Event<text>\<close>, and a variable against a type that contains it.\<close>

definition generic_port :: type_term where
  "generic_port = scopedType ''n'' (Type ''Event'' [Type [] [] ''T''] [])"

definition text_port :: type_term where
  "text_port = scopedType ''m'' (Type ''Event'' [Type ''text'' [] []] [])"

lemma no_bindings: "well_bound []"
  by (simp add: well_bound_def deps_def)

lemma outcome_is_unique:
  assumes "\<exists>n. \<forall>fuel\<ge>n. \<exists>b' e. tryUnify fuel b l r = Some (b', e) \<and> Q b' e"
    and "tryUnify m b l r = Some (x, y)"
  shows "Q x y"
proof -
  obtain n where "\<And>fuel. n \<le> fuel \<Longrightarrow> \<exists>b' e. tryUnify fuel b l r = Some (b', e) \<and> Q b' e" using assms(1) by blast
  then obtain b' e where 1: "tryUnify (max n m) b l r = Some (b', e)" "Q b' e" using max.cobounded1 by blast
  have "tryUnify (max n m) b l r = Some (x, y)"
    using assms(2) unify_mono(1) [of m b l r _ "max n m"] by (auto simp: tryUnify_def split: option.splits sum.splits)
  with 1 show ?thesis by simp
qed

theorem unification_is_complete_witness:
  "(\<exists>b' \<theta>. tryUnify 3 [] generic_port text_port = Some (b', None) \<and> solves \<theta> b' \<and> eval \<theta> generic_port = eval \<theta> text_port)
    \<and> tryUnify 3 [] (hd (tt_arguments generic_port)) generic_port
      = Some ([], Some (RecursiveType (hd (tt_arguments generic_port)) generic_port))
    \<and> \<not> (\<exists>\<theta>. eval \<theta> (hd (tt_arguments generic_port)) = eval \<theta> generic_port)"
proof -
  let ?v = "hd (tt_arguments generic_port)" and ?b = "[(''n'' @ CHR 0x00 # ''T'', scopedType ''m'' (Type ''text'' [] []))]"
  have x: "tryUnify 3 [] generic_port text_port = Some (?b, None)" by code_simp
  note 1 = outcome_is_unique [OF unification_is_complete [OF no_bindings] x]
  then have "solves (canonical undefined ?b) ?b" using canonical_solves by blast
  with 1 have "solves (canonical undefined ?b) ?b \<and> eval (canonical undefined ?b) generic_port = eval (canonical undefined ?b) text_port"
    by blast
  moreover have y: "tryUnify 3 [] ?v generic_port = Some ([], Some (RecursiveType ?v generic_port))" by code_simp
  moreover have "\<not> (\<exists>\<theta>. eval \<theta> ?v = eval \<theta> generic_port)"
    using outcome_is_unique [OF unification_is_complete [OF no_bindings] y] by (auto simp: solves_def)
  ultimately show ?thesis using x by blast
qed

theorem unified_types_resolve_alike_witness:
  "\<exists>b' n t. tryUnify 3 [] generic_port text_port = Some (b', None)
    \<and> resolve n b' generic_port = Some t \<and> resolve n b' text_port = Some t"
proof -
  have x: "tryUnify 3 [] generic_port text_port = Some ([(''n'' @ CHR 0x00 # ''T'', scopedType ''m'' (Type ''text'' [] []))], None)"
    by code_simp
  have "all_labelled (\<lambda>_. ''T'') []" "labelled (\<lambda>_. ''T'') generic_port" "labelled (\<lambda>_. ''T'') text_port"
    by (simp_all add: all_labelled_def generic_port_def text_port_def)
  from unified_types_resolve_alike [OF x no_bindings this] x show ?thesis by blast
qed

end
