(* ===== verification/Spec2Isabelle.thy ===== *)
theory Spec2Isabelle
  imports Trajectory_Projections ToolArgs Tools_Examples Media Resampler Speech_Properties Coordinator_Properties Deferral Governor_Priority Graph_Check Unify
begin

text \<open>
  The session core of OpenRealtime, a runtime for spoken agents. A session keeps one append-only
  log, the trajectory; everything that happens outside (speech, tool results, playback) is an event
  that a coordinator commits to the log; what is committed is acted upon when a deferral policy
  admits it, which depends on who is speaking; what the agent says is queued, streamed and cancelled by
  a speech planner against a ledger of what reached the user; the tools it calls are dispatched through one boundary
  over log and ledger; policies decide when a turn has ended,
  what interrupts and how much to say; and scarce model capacity is leased by a governor. Sessions can also be
  composed as graphs of typed elements, which are inferred, validated and checked before they run.
  The development models that core and proves the invariants its comments promise.

  \<^bold>\<open>Parts, theories and sources\<close> (paths are below \<^verbatim>\<open>src/\<close>).

  \<^item> \<^verbatim>\<open>Prelude\<close>: results as sums, Go maps and sets as association lists, the locale \<open>stable\<close> (an
    invariant of a step relation) and list lemmas. \<^verbatim>\<open>Go_Strings\<close> and \<^verbatim>\<open>Go_Json\<close>: the parts of
    Go's strings, UTF-8 and \<^verbatim>\<open>encoding/json\<close> the source uses.
  \<^item> \<^verbatim>\<open>StrictJson\<close>: \<^verbatim>\<open>internal/strictjson/strictjson.go\<close>, the bounded validator with its explicit
    container stack. Accepted inputs are consumed whole within their budgets, the loop terminates
    because every step consumes input or pops a container, and the lazy set of keys is exact.
  \<^item> \<^verbatim>\<open>ToolArgs\<close>: \<^verbatim>\<open>internal/toolargs/normalization.go\<close>, argument normalisation that splices
    bytes. Bytes outside the named values survive unchanged.
  \<^item> \<^verbatim>\<open>Sha256\<close>: the digest of \<^verbatim>\<open>crypto/sha256\<close> on 32-bit words, for derivation records.
  \<^item> \<^verbatim>\<open>Trajectory\<close>, \<^verbatim>\<open>Trajectory_Store\<close>, \<^verbatim>\<open>Trajectory_Log\<close>, \<^verbatim>\<open>Trajectory_Projections\<close>:
    \<^verbatim>\<open>trajectory/trajectory.go\<close>, \<^verbatim>\<open>observation.go\<close>, \<^verbatim>\<open>tool_call_derivation.go\<close>,
    \<^verbatim>\<open>proposal_disposition.go\<close>. The store is a record of the items and all indexes; an append is a
    function from store and item to a fault or a new store, so a batch that fails leaves no trace.
    Reachable stores are an inductive set; the indexes are shown to be functions of the log, and
    the projections that read only a snapshot are shown to agree with the indexes.
  \<^item> \<^verbatim>\<open>Ledger\<close>: \<^verbatim>\<open>action/ledger.go\<close>, what has been promised to the user and how far it went. A
    commitment that has begun to reach the user is never taken back.
  \<^item> \<^verbatim>\<open>Registry\<close>, \<^verbatim>\<open>Tools\<close>, \<^verbatim>\<open>Tools_Properties\<close>, \<^verbatim>\<open>Tools_Examples\<close>: \<^verbatim>\<open>action/tools.go\<close>. The declared
    tools with the schema check of their argument normalisers; then the dispatch boundary, where every call in
    progress is a thread with a program counter and \<open>tools_step\<close> interleaves threads with each other, with
    appends to the log, redeclarations and other uses of the ledger. The locale \<open>dispatch_guarantee\<close> is the rule
    for such runs. Only authorised calls run, each identifier at most once, and a batch is answered in order.
  \<^item> \<^verbatim>\<open>Duplex\<close>: \<^verbatim>\<open>session/duplex.go\<close>, who is speaking. Each locked section is a step; the playout
    timer and the delivery of transitions to observers are steps of their own, so every
    interleaving is covered. Times are 64-bit words.
  \<^item> \<^verbatim>\<open>Spoken\<close>: \<^verbatim>\<open>spoken/spoken.go\<close> and \<^verbatim>\<open>estimate.go\<close>: where the words of an utterance lie in its
    audio, estimated by weight, and what had been said at a playback position. Whether a rune
    is a letter or digit is a parameter (the tables of Go's \<^verbatim>\<open>unicode\<close>).
  \<^item> \<^verbatim>\<open>Durations\<close>: 64-bit durations read as signed. \<^verbatim>\<open>Floor\<close>: \<^verbatim>\<open>interaction/floor.go\<close>, when a turn has
    ended, who holds it, and what interrupts the agent; the turn projection is a parameter. The wake-ups
    the engine's floor asks for end every pause but one that is shorter than the silence threshold after an utterance
    old enough, for which it asks for none. \<^verbatim>\<open>Commit_Policy\<close>: \<^verbatim>\<open>interaction/commitment.go\<close>, how much of
    a candidate is said before certainty, and repair.
  \<^item> \<^verbatim>\<open>Media\<close>: \<^verbatim>\<open>session/media.go\<close>, attachment bytes under bounds on number, size and age. The eviction
    loop makes progress only because of the store's invariant, so it is a partial function that is shown to return;
    it drops the oldest attachments first and no more than the bounds require.
  \<^item> \<^verbatim>\<open>Companding\<close>: \<^verbatim>\<open>pcm/g711.go\<close>, the telephone codecs; the locale \<open>companding\<close> lifts what is evaluated on
    all 256 bytes to streams. \<^verbatim>\<open>Resampler\<close>: \<^verbatim>\<open>pcm/resampler.go\<close>, whose output is shown to be the
    interpolation of the whole input however it was cut into fragments.
  \<^item> \<^verbatim>\<open>Speech\<close>, \<^verbatim>\<open>Speech_Audio\<close>, \<^verbatim>\<open>Speech_Properties\<close>: \<^verbatim>\<open>action/speech.go\<close>, the planner that speaks. Its
    collaborators answer through a \<open>performance\<close>, which also holds what other goroutines do between
    frames; the locale \<open>emission\<close> carries an invariant through the streaming of an utterance and is interpreted
    three times. Completed utterances are heard byte for byte, the ledger knows of all that was heard,
    cancelling is exact, and only content with a voice is spoken.
  \<^item> \<^verbatim>\<open>Events\<close>: \<^verbatim>\<open>eventloop/event.go\<close> and \<^verbatim>\<open>batch.go\<close>: validation, triage, merging, and the
    compilation of events to items.
  \<^item> \<^verbatim>\<open>Coordinator\<close>, \<^verbatim>\<open>Coordinator_Properties\<close>: \<^verbatim>\<open>eventloop/coordinator.go\<close>. Ingress, the
    optimistic commit loop, deferred batches, runs and interruption. The locked sections are
    functions, and \<open>loop_step\<close> interleaves them; every accepted event is accounted for, and one is given up only
    because the log refused it or it was among events that did not compile.
  \<^item> \<^verbatim>\<open>Deferral\<close>: \<^verbatim>\<open>interaction/deferral.go\<close> and the meeting profile's policy. The locale
    \<open>deferral\<close> states what a policy owes (its listed transitions are all that can clear it); each
    shipped policy is an interpretation, and the gate's wake-ups follow from the locale.
  \<^item> \<^verbatim>\<open>Governor\<close>, \<^verbatim>\<open>Governor_Properties\<close>, \<^verbatim>\<open>Governor_Priority\<close>: \<^verbatim>\<open>admission/governor.go\<close>. Leases on integer capacity
    with priorities, deadlines and cooperative preemption. What one round of the scheduling loop guarantees is carried
    through the loop and every operation, so that grants follow the order of priority in every run.
  \<^item> \<^verbatim>\<open>Elements\<close>: \<^verbatim>\<open>element/type.go\<close> and \<^verbatim>\<open>descriptor.go\<close>, port types and the contracts of elements.
    \<^verbatim>\<open>Graph_IR\<close>, \<^verbatim>\<open>Graph_Wiring\<close>: \<^verbatim>\<open>graph/ir/ir.go\<close>, the structural validation of a graph, loop by loop, and what
    an accepted graph satisfies: its wiring is typed, exclusive and sufficient, and its scopes nest.
  \<^item> \<^verbatim>\<open>Graph_Cycles\<close>, \<^verbatim>\<open>Graph_Check\<close>: \<^verbatim>\<open>graph/validate/validate.go\<close>. The search for causal cycles by strongly
    connected components, shown equivalent to the absence of cycles, and the authority and profile checks.
  \<^item> \<^verbatim>\<open>Unify\<close>: \<^verbatim>\<open>graph/unify.go\<close>, inference of generic port types; it returns, and loses no solution.

  This theory holds the property that spans duplex, deferral and coordinator.

  \<^bold>\<open>How the parts interact.\<close> The coordinator compiles events with \<open>compile\<close> and appends them
  with \<open>AppendBatchAt\<close>; other writers move the log meanwhile, which the list of interferences in
  \<open>commitAdmissible\<close> stands for. \<open>run\<close> takes the gate as an argument; \<open>AdmitRun\<close> of \<^verbatim>\<open>Deferral\<close>
  is that gate, over the snapshot of \<^verbatim>\<open>Duplex\<close>. \<open>Bind\<close> registers an observer with the duplex, and
  the wake-up it makes is \<open>Wake\<close>. Clocks and identifier generators are functions of the number of
  their calls. The planner and the dispatch boundary move the ledger by its operations only, so what \<^verbatim>\<open>Ledger\<close> proves of every step
  holds of speech; floors and barge-in read the snapshot of \<^verbatim>\<open>Duplex\<close>; the repair policy reads the obligations of the ledger.

  \<^bold>\<open>Bounds.\<close> The commit loop retries on a conflict for as long as other writers win; its fuel is the
  list of interferences, one per attempt, and \<open>Commit_returns\<close> shows that a list with as many quiet
  attempts as there are queued events is enough. The scheduler's loop terminates because each
  round removes a waiter. The depth of the cycle search is bounded by the number of nodes, and its fuel is the number of nodes and connections; the recursions of
  the unifier follow the bindings, and enough fuel is shown to exist for every acyclic binding. All other loops are structural or have a measure on the remaining input.
  Sequence counters are natural numbers and the governor's units integers: the first do not wrap in
  the life of a session, and the second are bounded by the configured capacity (a capacity above
  half the range of Go's \<^verbatim>\<open>int\<close> is outside the model).

  \<^bold>\<open>Not modelled.\<close> Prefix identities of the log (\<^verbatim>\<open>trajectory/prefix.go\<close>), which digest the JSON
  encoding of whole items; checks for nil arguments; telemetry that only formats counters; names of policies; the
  instants at which frames are paced; the text of errors; the reconciliation with a
  recogniser and the tracker of \<^verbatim>\<open>spoken\<close>; model-backed policies, providers, bindings, gateway, the graph runtime and
  its elements, benchmarks and clients, which are I/O, wiring or a second system. Of graphs, only validation, checks and
  inference are modelled: not their canonical order, encoding and fingerprint, the text and order of findings, nor compilation and mounting.
\<close>

section \<open>From the end of playback to the run of waiting work\<close>

text \<open>
  C4. The end of playback runs the work that waited for it, across the three components. Take a
  session whose agent is being heard while the user is silent, whose gate (the duplex policy with
  any options, no provider backpressure) is bound to its duplex and declines the merged waiting
  work of an idle coordinator. Then a playout timer is armed, and when it fires at or after its
  deadline: playback ends in a transition; publishing it calls the gate's observer, which wakes
  the coordinator; the wake-up leaves a signal; and the run that follows is admitted by the gate
  and hands the processor all the waiting work, leaving none.
\<close>

theorem playback_end_runs_waiting_work:
  assumes "duplex_run c" and "\<not> dx_closed (cf_duplex c)"
    and "ds_agentSpeaking (dx_state (cf_duplex c))" and "\<not> ds_userSpeaking (dx_state (cf_duplex c))"
    and "gt_policy g = NewDuplexDeferral opt" and "\<not> gt_backpressure g" and "subscribed g (cf_duplex c)"
    and "el_deferred co \<noteq> []" and "\<not> el_active co" and "\<forall>b\<in>set (el_deferred co). ba_events b \<noteq> []"
    and "\<not> admits g (dx_state (cf_duplex c)) (merge (el_deferred co))"
  shows "\<exists>tm. dx_timer (cf_duplex c) = Some tm \<and> (\<forall>now. tm_at tm + tm_delay tm \<le> now \<longrightarrow>
    (\<exists>d t wanted c' ca. playoutElapsed now (cf_duplex c) = (d, Some t) \<and> (wanted, t) \<in> set (publish d t)
       \<and> observed wanted t = Some ''agent playback complete'' \<and> el_signal (Wake co)
       \<and> run (Some (\<lambda>b. snd (AdmitRun b (dx_state d) g))) process committed (Wake co)
           = (end_run (Epoch (el_activeEpoch co + 1)) (process (merge (el_deferred co)) c'), Ran (merge (el_deferred co)) ca)
       \<and> el_deferred c' = [] \<and> el_active c'))"
proof -
  have "EdgeAgentAudioStopped \<in> set (pl_conditions (gt_policy g))"
    using assms(3-6,11)
    by (auto simp: admits_def NewDuplexDeferral_def duplex_admit_def duplex_conditions_def view_of_def WaitingFrom_def split: if_splits)
  note listed = this
  have w: "el_deferred (Wake co) = el_deferred co" "el_active (Wake co) = el_active co" "el_activeEpoch (Wake co) = el_activeEpoch co"
    "el_signal (Wake co)"
    using assms(8) by (simp_all add: Wake_def notify_def waiting_def)
  obtain tm where tm: "dx_timer (cf_duplex c) = Some tm" and ends: "\<And>now. tm_at tm + tm_delay tm \<le> now \<Longrightarrow>
      \<exists>d t. playoutElapsed now (cf_duplex c) = (d, Some t) \<and> tn_kind t = EdgeAgentAudioStopped
           \<and> tn_after t = dx_state d \<and> \<not> ds_agentSpeaking (dx_state d) \<and> dx_timer d = None
           \<and> ds_userSpeaking (dx_state d) = ds_userSpeaking (dx_state (cf_duplex c))
           \<and> (Silent (dx_state d) \<longleftrightarrow> \<not> ds_userSpeaking (dx_state (cf_duplex c)))"
    using armed_timer_ends_playback [OF assms(1-3)] by blast
  have "\<exists>d t wanted c' ca. playoutElapsed now (cf_duplex c) = (d, Some t) \<and> (wanted, t) \<in> set (publish d t)
       \<and> observed wanted t = Some ''agent playback complete'' \<and> el_signal (Wake co)
       \<and> run (Some (\<lambda>b. snd (AdmitRun b (dx_state d) g))) process committed (Wake co)
           = (end_run (Epoch (el_activeEpoch co + 1)) (process (merge (el_deferred co)) c'), Ran (merge (el_deferred co)) ca)
       \<and> el_deferred c' = [] \<and> el_active c'" if late: "tm_at tm + tm_delay tm \<le> now" for now
  proof -
    obtain d t where e: "playoutElapsed now (cf_duplex c) = (d, Some t)" "tn_kind t = EdgeAgentAudioStopped"
      "\<not> ds_agentSpeaking (dx_state d)" "ds_userSpeaking (dx_state d) = ds_userSpeaking (dx_state (cf_duplex c))"
      using ends [OF late] by blast
    have ob: "dx_observers d = dx_observers (cf_duplex c)"
      using exec_edge_observers [of "OpPlayoutElapsed now" "cf_duplex c" d t] e(1) by simp
    have "(pl_conditions (gt_policy g), t) \<in> set (publish d t)"
      using subscribed_delivers [OF assms(7) ob] listed e(2) by simp
    moreover have "observed (pl_conditions (gt_policy g)) t = Some ''agent playback complete''"
      using listed e(2) by (simp add: observed_def Reason_def)
    moreover have "fst (snd (AdmitRun (merge (el_deferred co)) (dx_state d) g))"
      unfolding AdmitRun_admits using duplex_policy_admits_in_silence assms(4-6) e(3,4) by blast
    then obtain c' ca where "run (Some (\<lambda>b. snd (AdmitRun b (dx_state d) g))) process committed (Wake co)
        = (end_run (Epoch (el_activeEpoch co + 1)) (process (merge (el_deferred co)) c'), Ran (merge (el_deferred co)) ca)"
      "el_deferred c' = []" "el_active c'"
      using admitted_runs_all [of "Wake co" "\<lambda>b. snd (AdmitRun b (dx_state d) g)" process committed] assms(8-10) unfolding w by auto
    ultimately show ?thesis using e(1) w(4) by blast
  qed
  with tm show ?thesis by blast
qed

text \<open>A coordinator with one committed batch that waits, and the gate of a session that is speaking.\<close>

definition example_waiting :: coordinator where
  "example_waiting = (projr (New NewStore example_sources 4 1))\<lparr>el_deferred :=
     [zero_batch\<lparr>ba_triage := TriageQueue, ba_events := [example_utterance]\<rparr>]\<rparr>"

theorem playback_end_runs_waiting_work_witness:
  "\<exists>d t wanted c' ca. playoutElapsed 150 (cf_duplex example_heard) = (d, Some t)
     \<and> observed wanted t = Some ''agent playback complete''
     \<and> run (Some (\<lambda>b. snd (AdmitRun b (dx_state d) example_gate))) (\<lambda>_ c. c) zero_batch (Wake example_waiting)
         = (c', Ran (merge (el_deferred example_waiting)) ca) \<and> el_deferred c' = []"
proof -
  have dx: "\<not> dx_closed (cf_duplex example_heard)"
    "map_option (\<lambda>tm. tm_at tm + tm_delay tm) (dx_timer (cf_duplex example_heard)) = Some 150" by code_simp+
  have co: "el_deferred example_waiting \<noteq> []" "\<not> el_active example_waiting"
    "\<forall>b\<in>set (el_deferred example_waiting). ba_events b \<noteq> []"
    by (simp_all add: example_waiting_def New_def)
  have m: "ba_triage (merge (el_deferred example_waiting)) = TriageQueue" "ba_items (merge (el_deferred example_waiting)) = []"
    "\<not> Signalled (merge (el_deferred example_waiting)) SignalEscalated"
    by code_simp+
  have bp: "\<not> gt_backpressure example_gate" by (simp add: example_gate_def Bind_def Observe_def NewDuplexDeferral_def Let_def)
  have na: "\<not> admits example_gate (dx_state (cf_duplex example_heard)) (merge (el_deferred example_waiting))"
    using example_gate_eval m
    by (simp add: admits_def NewDuplexDeferral_def duplex_admit_def view_of_def WaitingFrom_def Contains_def
        AutonomousObservation_def example_options_def)
  from playback_end_runs_waiting_work [OF example_gate_setting(2) dx(1) _ _ example_gate_eval(1) bp example_gate_setting(3) co na,
      of "\<lambda>_ c. c" zero_batch] example_gate_eval(4,5) dx(2)
  show ?thesis by (fastforce simp: end_run_def finish_def notify_def waiting_def Let_def)
qed
end
